(* ===== verification/Prelude.thy ===== *)
theory Prelude
  imports Main "HOL-Library.Word" "HOL-Library.Multiset" "HOL-Library.Monad_Syntax"
begin

text \<open>
  Shared material of the development: the unsigned machine arithmetic the C++ code uses
  (written out on \<^typ>\<open>nat\<close>, every operation reduced modulo its width), byte memory as a
  function from addresses to characters, chains of \<open>next\<close> pointers, and the
  collections of rewrite rules the component proofs rest on.

  Operations of the code that may have undefined behaviour (a null or dangling pointer, an
  access outside an allocation, a read of memory nobody wrote) or that may loop return an
  \<^typ>\<open>'a option\<close>: \<^term>\<open>None\<close> is undefined behaviour or non-termination, and a
  theorem that an operation is safe says that it returns \<^term>\<open>Some\<close>.
\<close>

unbundle bit_operations_syntax

named_theorems wrap_simps
named_theorems mem_simps

subsection \<open>Unsigned machine arithmetic\<close>

definition u16 :: "nat \<Rightarrow> nat" where
  "u16 x = x mod 2 ^ 16"

definition u32 :: "nat \<Rightarrow> nat" where
  "u32 x = x mod 2 ^ 32"

definition u64 :: "nat \<Rightarrow> nat" where
  "u64 x = x mod 2 ^ 64"

text \<open>Unsigned subtraction wraps: the arguments are values of the width.\<close>

definition sub32 :: "nat \<Rightarrow> nat \<Rightarrow> nat" where
  "sub32 x y = (x + (2 ^ 32 - y mod 2 ^ 32)) mod 2 ^ 32"

definition sub64 :: "nat \<Rightarrow> nat \<Rightarrow> nat" where
  "sub64 x y = (x + (2 ^ 64 - y mod 2 ^ 64)) mod 2 ^ 64"

text \<open>A \<open>size_t\<close> value read as \<open>int64_t\<close>.\<close>

definition s64 :: "nat \<Rightarrow> int" where
  "s64 x = (if x mod 2 ^ 64 < 2 ^ 63 then int (x mod 2 ^ 64) else int (x mod 2 ^ 64) - 2 ^ 64)"

text \<open>\<open>x & ~(2 ^ k - 1)\<close>: clearing the low bits.\<close>

definition clear_low :: "nat \<Rightarrow> nat \<Rightarrow> nat" where
  "clear_low k x = x - x mod 2 ^ k"

lemma u16_id [wrap_simps]: "x < 65536 \<Longrightarrow> u16 x = x"
  by (simp add: u16_def)

lemma u32_id [wrap_simps]: "x < 4294967296 \<Longrightarrow> u32 x = x"
  by (simp add: u32_def)

lemma u64_id [wrap_simps]: "x < 18446744073709551616 \<Longrightarrow> u64 x = x"
  by (simp add: u64_def)

lemma u16_less [simp]: "u16 x < 65536"
  by (simp add: u16_def)

lemma u32_less [simp]: "u32 x < 4294967296"
  by (simp add: u32_def)

lemma u64_less [simp]: "u64 x < 18446744073709551616"
  by (simp add: u64_def)

lemma sub32_id [wrap_simps]: "y \<le> x \<Longrightarrow> x < 4294967296 \<Longrightarrow> sub32 x y = x - y"
  by (simp add: sub32_def le_mod_geq)

lemma sub64_id [wrap_simps]: "y \<le> x \<Longrightarrow> x < 18446744073709551616 \<Longrightarrow> sub64 x y = x - y"
  by (simp add: sub64_def le_mod_geq)

lemma sub32_less [simp]: "sub32 x y < 4294967296"
  by (simp add: sub32_def)

lemma s64_id [wrap_simps]: "x < 9223372036854775808 \<Longrightarrow> s64 x = int x"
  by (simp add: s64_def)

lemma clear_low_le: "clear_low k x \<le> x"
  by (simp add: clear_low_def)

lemma clear_low_dvd: "2 ^ k dvd clear_low k x"
  by (simp add: clear_low_def dvd_minus_mod)

text \<open>Rounding up to a multiple of eight, as \<open>(x + 7) & ~7\<close> does.\<close>

lemma align8_bounds:
  "x \<le> clear_low 3 (x + 7)" "clear_low 3 (x + 7) \<le> x + 7"
  by (simp_all add: clear_low_def)

lemma align8_le_multiple:
  assumes "x \<le> m" "8 dvd m"
  shows "clear_low 3 (x + 7) \<le> m"
proof -
  have "8 dvd clear_low 3 (x + 7)" using clear_low_dvd [of 3 "x + 7"] by simp
  moreover have "clear_low 3 (x + 7) < m + 8"
    using align8_bounds(2) [of x] assms(1) by linarith
  ultimately show ?thesis using assms(2) by presburger
qed

text \<open>Masking with \<open>2 ^ k - 1\<close> is reduction modulo \<open>2 ^ k\<close>.\<close>

lemma and_mask_mod: "(x :: nat) AND (2 ^ k - 1) = x mod 2 ^ k"
  by (metis mask_eq_exp_minus_1 take_bit_eq_mask take_bit_eq_mod)

lemma mod_add_inj:
  fixes b :: nat
  assumes "i < m" "j < m" "(b + i) mod m = (b + j) mod m"
  shows "i = j"
  using assms
proof (induction i j rule: linorder_wlog)
  case (le i j)
  then have "m dvd (b + j) - (b + i)" using mod_eq_dvd_iff_nat [of "b + i" "b + j" m] by simp
  with le show ?case by (auto dest: dvd_imp_le)
qed simp

lemma mod_u32_pow2: "k \<le> 32 \<Longrightarrow> u32 x mod 2 ^ k = x mod 2 ^ k"
  unfolding u32_def by (rule mod_mod_cancel) (rule le_imp_power_dvd)

subsection \<open>Undefined behaviour\<close>

text \<open>\<open>check b\<close> continues when the access is defined and is undefined behaviour otherwise.\<close>

definition check :: "bool \<Rightarrow> unit option" where
  "check b = (if b then Some () else None)"

lemma check_True [simp]: "check True = Some ()"
  by (simp add: check_def)

lemma bind_check_Some [simp]:
  "(check b \<bind> f = Some y) = (b \<and> f () = Some y)"
  by (simp add: check_def)

subsection \<open>Byte memory\<close>

type_synonym mem = "nat \<Rightarrow> char"

definition mem_read :: "mem \<Rightarrow> nat \<Rightarrow> nat \<Rightarrow> char list" where
  "mem_read d off n = map d [off..<off + n]"

definition mem_write :: "mem \<Rightarrow> nat \<Rightarrow> char list \<Rightarrow> mem" where
  "mem_write d off xs = (\<lambda>i. if off \<le> i \<and> i < off + length xs then xs ! (i - off) else d i)"

lemma length_mem_read [simp]: "length (mem_read d off n) = n"
  by (simp add: mem_read_def)

lemma mem_read_0 [simp]: "mem_read d off 0 = []"
  by (simp add: mem_read_def)

lemma nth_mem_read [simp]: "i < n \<Longrightarrow> mem_read d off n ! i = d (off + i)"
  by (simp add: mem_read_def)

lemma mem_read_add [mem_simps]:
  "mem_read d off (m + n) = mem_read d off m @ mem_read d (off + m) n"
  by (rule nth_equalityI) (auto simp: nth_append)

lemma mem_read_write_same [mem_simps]:
  "mem_read (mem_write d off xs) off (length xs) = xs"
  by (rule nth_equalityI) (auto simp: mem_write_def)

lemma mem_read_write_below [mem_simps]:
  "off' + n \<le> off \<Longrightarrow> mem_read (mem_write d off xs) off' n = mem_read d off' n"
  by (rule nth_equalityI) (auto simp: mem_write_def)

lemma take_mem_read [mem_simps]: "take m (mem_read d off n) = mem_read d off (min m n)"
  by (rule nth_equalityI) auto

lemma drop_mem_read [mem_simps]: "drop m (mem_read d off n) = mem_read d (off + m) (n - m)"
  by (rule nth_equalityI) (auto simp: add.assoc)

subsection \<open>Chains of next pointers\<close>

text \<open>
  \<open>chain nx p as\<close>: following \<open>nx\<close> from the pointer \<open>p\<close> visits the cells \<open>as\<close> and
  ends at the null pointer 0. A cell outside the domain of \<open>nx\<close> is not allocated.
\<close>

primrec chain :: "(nat \<Rightarrow> nat option) \<Rightarrow> nat \<Rightarrow> nat list \<Rightarrow> bool" where
  "chain nx p [] = (p = 0)"
| "chain nx p (a # as) = (p = a \<and> a \<noteq> 0 \<and> (\<exists>q. nx a = Some q \<and> chain nx q as))"

lemma chain_0 [simp]: "chain nx 0 as = (as = [])"
  by (cases as) auto

lemma chain_nonnull: "p \<noteq> 0 \<Longrightarrow> chain nx p as \<Longrightarrow> \<exists>q bs. as = p # bs \<and> nx p = Some q \<and> chain nx q bs"
  by (cases as) auto

lemma chain_upd [simp]: "a \<notin> set as \<Longrightarrow> chain (nx(a := v)) p as = chain nx p as"
  by (induction as arbitrary: p) auto

lemma chain_cong:
  "(\<And>a. a \<in> set as \<Longrightarrow> nx a = nx' a) \<Longrightarrow> chain nx p as = chain nx' p as"
  by (induction as arbitrary: p) auto

lemma chain_unique: "chain nx p as \<Longrightarrow> chain nx p bs \<Longrightarrow> as = bs"
proof (induction as arbitrary: p bs)
  case (Cons a as)
  then obtain q where q: "nx a = Some q" "chain nx q as" "p = a" "a \<noteq> 0" by auto
  with Cons.prems(2) obtain bs' where "bs = a # bs'" "chain nx q bs'"
    using chain_nonnull [of a nx bs] by auto
  with q Cons.IH show ?case by auto
qed auto

lemma chain_append:
  "chain nx p (as @ b # bs) \<Longrightarrow> chain nx b (b # bs)"
  by (induction as arbitrary: p) auto

lemma chain_distinct: "chain nx p as \<Longrightarrow> distinct as"
proof (induction as arbitrary: p)
  case (Cons a as)
  then obtain q where q: "nx a = Some q" "chain nx q as" "p = a" by auto
  have "a \<notin> set as"
  proof
    assume "a \<in> set as"
    then obtain us vs where "as = us @ a # vs" by (auto simp: in_set_conv_decomp)
    with q have 1: "chain nx q (us @ a # vs)" and 2: "chain nx a (a # us @ a # vs)"
      using Cons.prems by auto
    from chain_unique [OF 2 chain_append [OF 1]] show False by simp
  qed
  with Cons q show ?case by auto
qed simp

lemma chain_nonzero: "chain nx p as \<Longrightarrow> a \<in> set as \<Longrightarrow> a \<noteq> 0"
  by (induction as arbitrary: p) auto

lemma chain_dom: "chain nx p as \<Longrightarrow> a \<in> set as \<Longrightarrow> nx a \<noteq> None"
  by (induction as arbitrary: p) auto

subsection \<open>Neighbours in a list\<close>

lemma successively_cong_on:
  assumes "successively P zs" "\<And>a b us vs. zs = us @ a # b # vs \<Longrightarrow> P a b \<Longrightarrow> Q a b"
  shows "successively Q zs"
  using assms
proof (induction P zs rule: successively.induct)
  case (3 P x y xs)
  have "Q x y" using "3.prems"(1) "3.prems"(2) [of "[]" x y xs] by simp
  moreover have "successively Q (y # xs)"
  proof (rule "3.IH")
    show "successively P (y # xs)" using "3.prems"(1) by simp
    show "Q a b" if "y # xs = us @ a # b # vs" "P a b" for a b us vs
      using "3.prems"(2) [of "x # us" a b vs] that by simp
  qed
  ultimately show ?case by simp
qed auto

lemma neighbours_unique:
  assumes "distinct ys" "ys = us @ a # b # vs" "ys = us' @ a # c # vs'"
  shows "b = c"
proof -
  have "a \<notin> set us" "a \<notin> set (b # vs)" using assms(1) unfolding assms(2) by auto
  moreover have "a \<notin> set us'" "a \<notin> set (c # vs')" using assms(1) unfolding assms(3) by auto
  moreover have "us @ a # b # vs = us' @ a # c # vs'" using assms(2,3) by simp
  ultimately show ?thesis by (simp add: append_Cons_eq_iff)
qed

subsection \<open>Multisets of concatenations\<close>

text \<open>Replacing one piece, by position or by name.\<close>

lemma mset_concat_update:
  "i < length xs \<Longrightarrow>
   mset (concat (map f (xs[i := y]))) + mset (f (xs ! i)) = mset (concat (map f xs)) + mset (f y)"
proof (induction xs arbitrary: i)
  case (Cons x xs)
  then show ?case by (cases i) (simp_all add: ac_simps)
qed simp

lemma mset_concat_change:
  "v \<in> set xs \<Longrightarrow> distinct xs \<Longrightarrow> (\<And>w. w \<in> set xs \<Longrightarrow> w \<noteq> v \<Longrightarrow> g w = f w) \<Longrightarrow>
   mset (concat (map g xs)) + mset (f v) = mset (concat (map f xs)) + mset (g v)"
proof (induction xs)
  case (Cons x xs)
  show ?case
  proof (cases "x = v")
    case True
    then have "map g xs = map f xs" using Cons.prems by auto
    then show ?thesis using True by (simp add: ac_simps del: map_eq_conv)
  next
    case False
    then show ?thesis using Cons by (simp add: ac_simps)
  qed
qed simp

lemma mset_concat_cong: "mset xs = mset ys \<Longrightarrow> mset (concat (map f xs)) = mset (concat (map f ys))"
  by (metis mset_concat mset_map sum_mset_sum_list)

end
