(* ===== verification/Block_Cache.thy ===== *)
theory Block_Cache
  imports Prelude
begin

text \<open>
  The block layer of \<^verbatim>\<open>src/zbuffer.cpp\<close> and \<^verbatim>\<open>zbuffer.h\<close>: reference-counted blocks
  (\<open>ZBuffer::Block\<close>), the process-wide counters, and the per-thread free list of blocks
  (\<open>ThreadLocalBlockCache\<close>). One record holds the state a thread works on: the allocated
  blocks by address, the allocator, the counters and the thread's cache. \<open>malloc\<close> hands
  out fresh 16-aligned addresses; what fresh memory contains is the arbitrary \<open>junk\<close>.
\<close>

subsection \<open>Blocks\<close>

text \<open>\<open>b_size\<close> is the number of payload bytes that \<open>malloc\<close> returned behind the 24-byte
  header; it is not a field of the code but what decides whether an access is in bounds.\<close>

record block =
  b_next :: nat
  b_ref_num :: int
  b_offset :: nat
  b_capacity :: nat
  b_data :: mem
  b_size :: nat

record zstate =
  blocks :: "nat \<Rightarrow> block option"
  brk :: nat
  junk :: mem
  g_block_number :: nat
  g_block_memory :: nat
  c_head :: nat
  c_block_number :: nat

definition sizeof_Block :: nat where
  "sizeof_Block = 24"

definition kNormalBlockSize :: nat where
  "kNormalBlockSize = 8 * 1024"

definition kBlockCachedPerThread :: nat where
  "kBlockCachedPerThread = 32"

definition kNormalBlockPayloadSize :: nat where
  "kNormalBlockPayloadSize = kNormalBlockSize - sizeof_Block"

definition full :: "block \<Rightarrow> bool" where
  "full b = (b_capacity b \<le> u32 (b_offset b + 7))"

definition left_space :: "block \<Rightarrow> nat" where
  "left_space b = sub32 (b_capacity b) (b_offset b)"

text \<open>The constructor takes a 16-bit capacity; the caller's 32-bit size is truncated.\<close>

definition Block :: "nat \<Rightarrow> mem \<Rightarrow> nat \<Rightarrow> block" where
  "Block cap d n = \<lparr>b_next = 0, b_ref_num = 1, b_offset = 0,
     b_capacity = sub32 cap sizeof_Block, b_data = d, b_size = n\<rparr>"

definition create_block :: "nat \<Rightarrow> zstate \<Rightarrow> nat \<times> zstate" where
  "create_block sz s =
     (let bytes = clear_low 3 (u32 (sz + 7));
          ptr = brk s;
          cap = u16 sz
      in (ptr, s\<lparr>blocks := (blocks s)(ptr \<mapsto>
                    Block cap (\<lambda>i. junk s (ptr + sizeof_Block + i)) (bytes - sizeof_Block)),
                 brk := ptr + 16 * ((bytes + 15) div 16 + 1),
                 g_block_number := u64 (g_block_number s + 1),
                 g_block_memory := u64 (g_block_memory s + cap)\<rparr>))"

definition free_block :: "nat \<Rightarrow> zstate \<Rightarrow> zstate option" where
  "free_block b s = do {
     blk \<leftarrow> blocks s b;
     Some (s\<lparr>g_block_number := sub64 (g_block_number s) 1,
             g_block_memory := sub64 (g_block_memory s) (b_capacity blk + sizeof_Block),
             blocks := (blocks s)(b := None)\<rparr>)}"

text \<open>Updating the fields of one allocated block.\<close>

definition upd_block :: "nat \<Rightarrow> (block \<Rightarrow> block) \<Rightarrow> zstate \<Rightarrow> zstate option" where
  "upd_block b f s = do {
     blk \<leftarrow> blocks s b;
     Some (s\<lparr>blocks := (blocks s)(b \<mapsto> f blk)\<rparr>)}"

definition inc_ref :: "nat \<Rightarrow> zstate \<Rightarrow> zstate option" where
  "inc_ref b = upd_block b (\<lambda>blk. blk\<lparr>b_ref_num := b_ref_num blk + 1\<rparr>)"

subsection \<open>The per-thread cache\<close>

definition release_block :: "nat \<Rightarrow> zstate \<Rightarrow> zstate option" where
  "release_block b s =
     (if c_block_number s < kBlockCachedPerThread then do {
        s1 \<leftarrow> inc_ref b (s\<lparr>c_block_number := u32 (c_block_number s + 1)\<rparr>);
        s2 \<leftarrow> upd_block b (\<lambda>blk. blk\<lparr>b_next := c_head s1\<rparr>) s1;
        Some (s2\<lparr>c_head := b\<rparr>)}
      else free_block b s)"

definition dec_ref :: "nat \<Rightarrow> zstate \<Rightarrow> zstate option" where
  "dec_ref b s = do {
     blk \<leftarrow> blocks s b;
     s1 \<leftarrow> upd_block b (\<lambda>blk. blk\<lparr>b_ref_num := b_ref_num blk - 1\<rparr>) s;
     if b_ref_num blk \<le> 1 then do {
       s2 \<leftarrow> upd_block b (\<lambda>blk. blk\<lparr>b_next := 0, b_offset := 0\<rparr>) s1;
       release_block b s2}
     else Some s1}"

partial_function (option) destroy_cache :: "zstate \<Rightarrow> zstate option" where
  "destroy_cache s =
     (if c_head s \<noteq> 0 then do {
        blk \<leftarrow> blocks s (c_head s);
        s1 \<leftarrow> dec_ref (c_head s) (s\<lparr>c_head := b_next blk\<rparr>);
        destroy_cache s1}
      else Some s)"

partial_function (option) acquire_block :: "zstate \<Rightarrow> (nat \<times> zstate) option" where
  "acquire_block s =
     (if c_head s \<noteq> 0 then do {
        h \<leftarrow> blocks s (c_head s);
        if \<not> full h then Some (c_head s, s)
        else do {
          s1 \<leftarrow> dec_ref (c_head s) s;
          acquire_block (s1\<lparr>c_head := b_next h, c_block_number := sub32 (c_block_number s1) 1\<rparr>)}}
      else Some (let (b, s1) = create_block kNormalBlockSize s
                 in (b, s1\<lparr>c_block_number := u32 (c_block_number s1 + 1), c_head := b\<rparr>)))"

partial_function (option) pop_front :: "zstate \<Rightarrow> (nat \<times> zstate) option" where
  "pop_front s =
     (if c_head s \<noteq> 0 then do {
        h \<leftarrow> blocks s (c_head s);
        if \<not> full h then Some (c_head s, s\<lparr>c_head := b_next h\<rparr>)
        else do {
          s1 \<leftarrow> dec_ref (c_head s) (s\<lparr>c_head := b_next h\<rparr>);
          pop_front (s1\<lparr>c_block_number := sub32 (c_block_number s1) 1\<rparr>)}}
      else Some (let (b, s1) = create_block kNormalBlockSize s
                 in (b, s1\<lparr>c_block_number := u32 (c_block_number s1 + 1)\<rparr>)))"

definition push_front :: "nat \<Rightarrow> zstate \<Rightarrow> zstate option" where
  "push_front b s = do {
     blk \<leftarrow> blocks s b;
     if full blk then dec_ref b s
     else do {
       s1 \<leftarrow> upd_block b (\<lambda>blk. blk\<lparr>b_next := c_head s\<rparr>) s;
       Some (s1\<lparr>c_head := b, c_block_number := u32 (c_block_number s1 + 1)\<rparr>)}}"

subsection \<open>References to blocks\<close>

record block_ref =
  r_offset :: nat
  r_length :: nat
  r_block :: nat

definition null_ref :: block_ref where
  "null_ref = \<lparr>r_offset = 0, r_length = 0, r_block = 0\<rparr>"

definition merge :: "block_ref \<Rightarrow> block_ref \<Rightarrow> block_ref option" where
  "merge r rhs =
     (if r_block r = r_block rhs \<and> u32 (r_offset r + r_length r) = r_offset rhs
      then Some (r\<lparr>r_length := u32 (r_length r + r_length rhs)\<rparr>) else None)"

definition release :: "block_ref \<Rightarrow> zstate \<Rightarrow> (block_ref \<times> zstate) option" where
  "release r s = do {
     s1 \<leftarrow> (if r_block r \<noteq> 0 then dec_ref (r_block r) s else Some s);
     Some (null_ref, s1)}"

definition sizeof_BlockRef :: nat where
  "sizeof_BlockRef = 16"

definition sizeof_BlockRefArray :: nat where
  "sizeof_BlockRefArray = 16"

text \<open>The search of the cache for a block with room for a reference array.\<close>

partial_function (option) find_space :: "nat \<Rightarrow> nat \<Rightarrow> zstate \<Rightarrow> nat option" where
  "find_space array_bytes b s =
     (if b \<noteq> 0 then do {
        blk \<leftarrow> blocks s b;
        if array_bytes \<le> left_space blk then Some b
        else find_space array_bytes (b_next blk) s}
      else Some 0)"

definition push_new_block :: "nat \<Rightarrow> zstate \<Rightarrow> (nat \<times> zstate) option" where
  "push_new_block sz s = do {
     let (b, s1) = create_block sz s;
     s2 \<leftarrow> upd_block b (\<lambda>blk. blk\<lparr>b_next := c_head s1\<rparr>) s1;
     Some (b, s2\<lparr>c_head := b, c_block_number := u32 (c_block_number s2 + 1)\<rparr>)}"

text \<open>The address where the array is placed, the reference that keeps its block alive, and
  the new state. Placing an array of \<open>ref_size\<close> references past the end of the block's
  memory is undefined behaviour.\<close>

definition acquire_block_ref_array ::
  "nat \<Rightarrow> zstate \<Rightarrow> (nat \<times> block_ref \<times> zstate) option" where
  "acquire_block_ref_array ref_size s = do {
     let array_bytes = ref_size * sizeof_BlockRef + (sizeof_BlockRefArray + sizeof_BlockRef);
     (b, s1) \<leftarrow>
       (if array_bytes < kNormalBlockPayloadSize then do {
          b \<leftarrow> find_space array_bytes (c_head s) s;
          if b \<noteq> 0 then Some (b, s) else push_new_block kNormalBlockSize s}
        else push_new_block (u32 (array_bytes + sizeof_Block)) s);
     blk \<leftarrow> blocks s1 b;
     let base = b + sizeof_Block;
     let ptr = clear_low 4 (base + b_offset blk + (sizeof_BlockRefArray - 1));
     check (ptr + sizeof_BlockRefArray + ref_size * sizeof_BlockRef \<le> base + b_size blk);
     s2 \<leftarrow> inc_ref b s1;
     let ref = \<lparr>r_offset = b_offset blk, r_length = u32 array_bytes, r_block = b\<rparr>;
     s3 \<leftarrow> upd_block b (\<lambda>blk. blk\<lparr>b_offset := u32 (b_offset blk + array_bytes)\<rparr>) s2;
     Some (ptr, ref, s3)}"

text \<open>A block lent to a caller that fills it in place, and its return.\<close>

definition acquire_block_ref :: "zstate \<Rightarrow> (block_ref \<times> zstate) option" where
  "acquire_block_ref s = do {
     (b, s1) \<leftarrow> pop_front s;
     blk \<leftarrow> blocks s1 b;
     Some (\<lparr>r_offset = b_offset blk, r_length = left_space blk, r_block = b\<rparr>, s1)}"

definition return_block_ref :: "block_ref \<Rightarrow> zstate \<Rightarrow> zstate option" where
  "return_block_ref r s = do {
     s1 \<leftarrow> upd_block (r_block r) (\<lambda>blk. blk\<lparr>b_offset := u32 (b_offset blk + r_length r)\<rparr>) s;
     s2 \<leftarrow> inc_ref (r_block r) s1;
     push_front (r_block r) s2}"

subsection \<open>The invariant\<close>

text \<open>
  \<open>wf s cs R\<close>: the cache is the chain of the blocks \<open>cs\<close>; \<open>R\<close> is the multiset of the
  references that buffers and callers own. Every reference lies below the write position of
  an allocated block, and no block has a reference count below the number of its owners, so
  no block is recycled or freed while it is referenced.
\<close>

definition next_of :: "zstate \<Rightarrow> nat \<Rightarrow> nat option" where
  "next_of s a = map_option b_next (blocks s a)"

definition block_ok :: "block \<Rightarrow> bool" where
  "block_ok blk = (b_offset blk \<le> b_capacity blk \<and> b_capacity blk \<le> b_size blk
     \<and> 8 \<le> b_capacity blk \<and> b_capacity blk < 65536 \<and> 8 dvd b_capacity blk)"

definition ref_count :: "block_ref multiset \<Rightarrow> nat \<Rightarrow> nat" where
  "ref_count R b = count (image_mset r_block R) b"

definition owners :: "nat list \<Rightarrow> block_ref multiset \<Rightarrow> nat \<Rightarrow> int" where
  "owners cs R b = int (ref_count R b) + (if b \<in> set cs then 1 else 0)"

definition ref_ok :: "zstate \<Rightarrow> block_ref \<Rightarrow> bool" where
  "ref_ok s r = (\<exists>blk. blocks s (r_block r) = Some blk \<and> r_offset r + r_length r \<le> b_offset blk)"

definition ref_bytes :: "zstate \<Rightarrow> block_ref \<Rightarrow> char list" where
  "ref_bytes s r = (case blocks s (r_block r) of
     None \<Rightarrow> [] | Some blk \<Rightarrow> mem_read (b_data blk) (r_offset r) (r_length r))"

definition keeps :: "zstate \<Rightarrow> zstate \<Rightarrow> block_ref multiset \<Rightarrow> bool" where
  "keeps s s' R = (\<forall>r \<in># R. ref_bytes s' r = ref_bytes s r)"

definition wf :: "zstate \<Rightarrow> nat list \<Rightarrow> block_ref multiset \<Rightarrow> bool" where
  "wf s cs R = (chain (next_of s) (c_head s) cs
     \<and> (\<forall>b blk. blocks s b = Some blk \<longrightarrow>
          0 < b \<and> b + sizeof_Block + b_size blk \<le> brk s \<and> block_ok blk
          \<and> owners cs R b \<le> b_ref_num blk)
     \<and> (\<forall>r \<in># R. ref_ok s r) \<and> 0 < brk s)"

lemma ref_count_add [simp]:
  "ref_count (add_mset r R) b = ref_count R b + (if r_block r = b then 1 else 0)"
  "ref_count (R + R') b = ref_count R b + ref_count R' b"
  "ref_count {#} b = 0"
  by (auto simp: ref_count_def)

lemma owners_nonneg: "0 \<le> owners cs R b"
  by (simp add: owners_def)

lemma ref_count_pos: "r \<in># R \<Longrightarrow> 0 < ref_count R (r_block r)"
  by (metis gr0I ref_count_def count_eq_zero_iff image_eqI set_image_mset)

lemma wf_chain: "wf s cs R \<Longrightarrow> chain (next_of s) (c_head s) cs"
  by (simp add: wf_def)

lemma wf_block:
  assumes "wf s cs R" "blocks s b = Some blk"
  shows "0 < b" "b + sizeof_Block + b_size blk \<le> brk s" "block_ok blk"
    "owners cs R b \<le> b_ref_num blk"
  using assms by (auto simp: wf_def)

lemma wf_ref: "wf s cs R \<Longrightarrow> r \<in># R \<Longrightarrow> ref_ok s r"
  by (simp add: wf_def)

lemma wf_ref_bound:
  "wf s cs R \<Longrightarrow> r \<in># R \<Longrightarrow> blocks s b = Some blk \<Longrightarrow> r_block r = b \<Longrightarrow>
   r_offset r + r_length r \<le> b_offset blk"
  by (auto simp: wf_def ref_ok_def)

lemma wf_mono:
  assumes "wf s cs (R + R')"
  shows "wf s cs R"
proof -
  have "owners cs R b \<le> owners cs (R + R') b" for b
    by (simp add: owners_def)
  with assms show ?thesis unfolding wf_def by (meson order_trans union_iff)
qed

lemma wf_cache_block:
  assumes "wf s cs R" "b \<in> set cs"
  obtains blk where "blocks s b = Some blk" "block_ok blk" "1 \<le> b_ref_num blk"
proof -
  from assms have "next_of s b \<noteq> None" by (auto simp: wf_def dest: chain_dom)
  then obtain blk where blk: "blocks s b = Some blk" by (auto simp: next_of_def)
  with assms wf_block [OF assms(1) blk] show ?thesis
    by (intro that) (auto simp: owners_def)
qed

text \<open>The invariant reads the blocks, the head of the cache and the allocator only.\<close>

lemma wf_same:
  "wf s cs R \<Longrightarrow> blocks s' = blocks s \<Longrightarrow> c_head s' = c_head s \<Longrightarrow> brk s' = brk s \<Longrightarrow> wf s' cs R"
  by (simp add: wf_def next_of_def [abs_def] ref_ok_def)

lemma wf_counter [simp]: "wf (s\<lparr>c_block_number := n\<rparr>) cs R = wf s cs R"
  by (simp add: wf_def next_of_def [abs_def] ref_ok_def)

lemma ref_bytes_cong:
  "blocks s' (r_block r) = blocks s (r_block r) \<Longrightarrow> ref_bytes s' r = ref_bytes s r"
  by (simp add: ref_bytes_def)

lemma keeps_refl [simp]: "keeps s s R"
  by (simp add: keeps_def)

lemma keeps_trans: "keeps s s' R \<Longrightarrow> keeps s' s'' R \<Longrightarrow> keeps s s'' R"
  by (simp add: keeps_def)

lemma keeps_mono: "keeps s s' (R + R') \<Longrightarrow> keeps s s' R"
  by (simp add: keeps_def)

text \<open>
  A reference may be read while it is owned or while its block is cached. The operations
  that do not hand blocks out keep every such reference readable, with its bytes.
\<close>

definition live :: "zstate \<Rightarrow> nat list \<Rightarrow> block_ref multiset \<Rightarrow> block_ref \<Rightarrow> bool" where
  "live s cs R q = (ref_ok s q \<and> (q \<in># R \<or> r_block q \<in> set cs))"

definition preserves ::
  "zstate \<Rightarrow> nat list \<Rightarrow> block_ref multiset \<Rightarrow> zstate \<Rightarrow> nat list \<Rightarrow> bool" where
  "preserves s cs R s' cs' = (set cs \<subseteq> set cs' \<and>
     (\<forall>q. live s cs R q \<longrightarrow> ref_ok s' q \<and> ref_bytes s' q = ref_bytes s q))"

lemma preserves_refl [simp]: "preserves s cs R s cs"
  by (simp add: preserves_def live_def)

lemma preserves_trans:
  "preserves s cs R s' cs' \<Longrightarrow> preserves s' cs' R s'' cs'' \<Longrightarrow> preserves s cs R s'' cs''"
  by (auto simp: preserves_def live_def)

lemma preserves_mono: "preserves s cs (R + R') s' cs' \<Longrightarrow> preserves s cs R s' cs'"
  by (auto simp: preserves_def live_def)

lemma preserves_keeps: "wf s cs R \<Longrightarrow> preserves s cs R s' cs' \<Longrightarrow> keeps s s' R"
  by (auto simp: preserves_def live_def keeps_def wf_def)

lemma preserves_live: "preserves s cs R s' cs' \<Longrightarrow> live s cs R q \<Longrightarrow> live s' cs' R q"
  by (auto simp: preserves_def live_def)

lemma preserves_bytes: "preserves s cs R s' cs' \<Longrightarrow> live s cs R q \<Longrightarrow> ref_bytes s' q = ref_bytes s q"
  by (auto simp: preserves_def)

lemma preserves_header:
  "blocks s b = Some blk \<Longrightarrow> b_data blk' = b_data blk \<Longrightarrow> b_offset blk \<le> b_offset blk' \<Longrightarrow>
   set cs \<subseteq> set cs' \<Longrightarrow> blocks s' = (blocks s)(b \<mapsto> blk') \<Longrightarrow> preserves s cs R s' cs'"
  by (auto simp: preserves_def ref_bytes_def live_def ref_ok_def)

lemma preserves_other_block:
  assumes "ref_count R b = 0" "b \<notin> set cs" "\<And>c. c \<noteq> b \<Longrightarrow> blocks s' c = blocks s c"
    "set cs \<subseteq> set cs'"
  shows "preserves s cs R s' cs'"
proof -
  have "r_block r \<noteq> b" if "live s cs R r" for r
    using that ref_count_pos [of r R] assms(1,2) by (auto simp: live_def)
  then have "blocks s' (r_block r) = blocks s (r_block r)" if "live s cs R r" for r
    using that assms(3) by blast
  then show ?thesis using assms(4) by (auto simp: preserves_def ref_bytes_def live_def ref_ok_def)
qed

lemma keeps_blocks [simp]:
  "keeps s (s'\<lparr>c_head := h\<rparr>) R = keeps s s' R"
  "keeps s (s'\<lparr>c_block_number := n\<rparr>) R = keeps s s' R"
  "keeps (s\<lparr>c_head := h\<rparr>) s' R = keeps s s' R"
  "keeps (s\<lparr>c_block_number := n\<rparr>) s' R = keeps s s' R"
  by (simp_all add: keeps_def ref_bytes_def)

text \<open>
  The workhorse: rewriting one block's header. The block's count may change as long as it
  covers its owners, the write position may move as long as no reference ends above it,
  and the link may change if the block is not cached.
\<close>

lemma wf_update_block:
  assumes wf: "wf s cs R" and blk: "blocks s b = Some blk"
    and ok: "block_ok blk'" and sz: "b_size blk' = b_size blk"
    and own: "owners cs R' b \<le> b_ref_num blk'"
    and others: "\<And>c. c \<noteq> b \<Longrightarrow> ref_count R' c \<le> ref_count R c"
    and link: "b \<in> set cs \<Longrightarrow> b_next blk' = b_next blk"
    and refs: "\<And>r. r \<in># R' \<Longrightarrow> r_block r \<noteq> b \<Longrightarrow> ref_ok s r"
      "\<And>r. r \<in># R' \<Longrightarrow> r_block r = b \<Longrightarrow> r_offset r + r_length r \<le> b_offset blk'"
  shows "wf (s\<lparr>blocks := (blocks s)(b \<mapsto> blk')\<rparr>) cs R'"
proof -
  let ?s = "s\<lparr>blocks := (blocks s)(b \<mapsto> blk')\<rparr>"
  have "next_of ?s a = next_of s a" if "a \<in> set cs" for a
    using link that blk by (auto simp: next_of_def)
  then have "chain (next_of ?s) (c_head s) cs = chain (next_of s) (c_head s) cs"
    by (rule chain_cong)
  moreover have "owners cs R' c \<le> owners cs R c" if "c \<noteq> b" for c
    using others [OF that] by (simp add: owners_def)
  moreover have "ref_ok ?s r" if "r \<in># R'" for r
    using refs [OF that] by (cases "r_block r = b") (auto simp: ref_ok_def)
  ultimately show ?thesis
    using wf wf_block [OF wf blk] ok sz own
    by (fastforce simp: wf_def)
qed

lemma keeps_update_header:
  "blocks s b = Some blk \<Longrightarrow> b_data blk' = b_data blk \<Longrightarrow>
   keeps s (s\<lparr>blocks := (blocks s)(b \<mapsto> blk')\<rparr>) R"
  by (auto simp: keeps_def ref_bytes_def)

subsection \<open>The operations keep the invariant\<close>

lemma inc_ref_owned:
  assumes wf: "wf s cs R" and r: "ref_ok s r"
  shows "\<exists>s'. inc_ref (r_block r) s = Some s' \<and> wf s' cs (add_mset r R)
    \<and> preserves s cs R' s' cs \<and> (\<forall>q. ref_bytes s' q = ref_bytes s q)"
proof -
  from r obtain blk where blk: "blocks s (r_block r) = Some blk"
    and r': "r_offset r + r_length r \<le> b_offset blk" by (auto simp: ref_ok_def)
  note b = wf_block [OF wf blk]
  let ?blk = "blk\<lparr>b_ref_num := b_ref_num blk + 1\<rparr>"
  let ?s = "s\<lparr>blocks := (blocks s)(r_block r \<mapsto> ?blk)\<rparr>"
  have "wf ?s cs (add_mset r R)"
    using b r' wf_ref [OF wf] wf_ref_bound [OF wf _ blk]
    by (intro wf_update_block [OF wf blk]) (auto simp: block_ok_def owners_def)
  moreover have "preserves s cs R' ?s cs" by (rule preserves_header [OF blk]) simp_all
  moreover have "inc_ref (r_block r) s = Some ?s" using blk by (simp add: inc_ref_def upd_block_def)
  moreover have "\<forall>q. ref_bytes ?s q = ref_bytes s q" using blk by (simp add: ref_bytes_def)
  ultimately show ?thesis by blast
qed

text \<open>
  Giving up one owner of a block: either the count drops, or the block had no other owner
  and goes back to the cache or to the allocator.
\<close>

lemma wf_drop_block:
  assumes wf: "wf s cs R" and b: "b \<notin> set cs" "ref_count R b = 0"
  shows "wf (s\<lparr>blocks := (blocks s)(b := None)\<rparr>) cs R"
proof -
  have "next_of (s\<lparr>blocks := (blocks s)(b := None)\<rparr>) a = next_of s a" if "a \<in> set cs" for a
    using that b(1) by (auto simp: next_of_def)
  then have "chain (next_of (s\<lparr>blocks := (blocks s)(b := None)\<rparr>)) (c_head s) cs
      = chain (next_of s) (c_head s) cs" by (rule chain_cong)
  moreover have "r_block r \<noteq> b" if "r \<in># R" for r
    using ref_count_pos [OF that] b(2) by auto
  ultimately show ?thesis using wf by (auto simp: wf_def ref_ok_def)
qed

lemma wf_push_block:
  assumes wf: "wf s cs R" and blk: "blocks s b = Some blk" and b: "b \<notin> set cs"
    and link: "b_next blk = c_head s" and own: "int (ref_count R b) + 1 \<le> b_ref_num blk"
  shows "wf (s\<lparr>c_head := b\<rparr>) (b # cs) R"
proof -
  have "chain (next_of s) b (b # cs)"
    using wf_chain [OF wf] wf_block(1) [OF wf blk] blk link by (auto simp: next_of_def)
  moreover have "next_of (s\<lparr>c_head := b\<rparr>) = next_of s" by (simp add: next_of_def [abs_def])
  moreover have "owners (b # cs) R c \<le> b_ref_num blk'" if "blocks s c = Some blk'" for c blk'
    using own wf_block(4) [OF wf that] blk that by (cases "c = b") (auto simp: owners_def)
  ultimately show ?thesis using wf by (auto simp: wf_def ref_ok_def)
qed

lemma keeps_other_block:
  assumes "ref_count R b = 0" "\<And>c. c \<noteq> b \<Longrightarrow> blocks s' c = blocks s c"
  shows "keeps s s' R"
proof -
  have "r_block r \<noteq> b" if "r \<in># R" for r using ref_count_pos [OF that] assms(1) by auto
  then show ?thesis using assms(2) by (auto simp: keeps_def intro: ref_bytes_cong)
qed

text \<open>What dropping a reference does, by the two conditions the code tests.\<close>

lemma dec_ref_shared:
  assumes "blocks s b = Some blk" "1 < b_ref_num blk"
  shows "dec_ref b s = Some (s\<lparr>blocks := (blocks s)(b \<mapsto> blk\<lparr>b_ref_num := b_ref_num blk - 1\<rparr>)\<rparr>)"
  using assms by (simp add: dec_ref_def upd_block_def)

lemma dec_ref_cached:
  assumes "blocks s b = Some blk" "b_ref_num blk \<le> 1" "c_block_number s < kBlockCachedPerThread"
  shows "dec_ref b s = Some (s\<lparr>c_block_number := u32 (c_block_number s + 1),
    blocks := (blocks s)(b \<mapsto> blk\<lparr>b_offset := 0, b_ref_num := b_ref_num blk, b_next := c_head s\<rparr>),
    c_head := b\<rparr>)"
  using assms by (simp add: dec_ref_def upd_block_def release_block_def inc_ref_def)

lemma dec_ref_freed:
  assumes "blocks s b = Some blk" "b_ref_num blk \<le> 1" "\<not> c_block_number s < kBlockCachedPerThread"
  shows "dec_ref b s = Some (s\<lparr>g_block_number := sub64 (g_block_number s) 1,
    g_block_memory := sub64 (g_block_memory s) (b_capacity blk + sizeof_Block),
    blocks := (blocks s)(b := None)\<rparr>)"
  using assms by (simp add: dec_ref_def upd_block_def release_block_def free_block_def)

text \<open>
  Giving up one owner of a block keeps the invariant; the block may come back at the front
  of the cache, and then it is empty.
\<close>

definition recycled :: "zstate \<Rightarrow> nat \<Rightarrow> block \<Rightarrow> bool" where
  "recycled s b blk = (blocks s b = Some (blk\<lparr>b_offset := 0, b_next := b_next (the (blocks s b))\<rparr>))"

lemma dec_ref_spare:
  assumes wf: "wf s cs R" and blk: "blocks s b = Some blk"
    and spare: "owners cs R b + 1 \<le> b_ref_num blk"
  shows "\<exists>s' cs'. dec_ref b s = Some s' \<and> wf s' cs' R \<and> preserves s cs R s' cs'
    \<and> (cs' = cs \<or> cs' = b # cs \<and> recycled s' b blk \<and> c_block_number s < kBlockCachedPerThread
         \<and> c_block_number s' = u32 (c_block_number s + 1))"
proof (cases "1 < b_ref_num blk")
  case True
  let ?s = "s\<lparr>blocks := (blocks s)(b \<mapsto> blk\<lparr>b_ref_num := b_ref_num blk - 1\<rparr>)\<rparr>"
  have "wf ?s cs R" using wf_block [OF wf blk] spare wf_ref [OF wf] wf_ref_bound [OF wf _ blk]
    by (intro wf_update_block [OF wf blk]) (auto simp: block_ok_def)
  moreover have "preserves s cs R ?s cs" by (rule preserves_header [OF blk]) simp_all
  ultimately show ?thesis using dec_ref_shared [OF blk True] by blast
next
  case False
  with spare have own: "b \<notin> set cs" "ref_count R b = 0" "b_ref_num blk = 1"
    by (auto simp: owners_def split: if_splits)
  show ?thesis
  proof (cases "c_block_number s < kBlockCachedPerThread")
    case True
    let ?blk = "blk\<lparr>b_offset := 0, b_ref_num := b_ref_num blk, b_next := c_head s\<rparr>"
    let ?s = "s\<lparr>c_block_number := u32 (c_block_number s + 1), blocks := (blocks s)(b \<mapsto> ?blk),
      c_head := b\<rparr>"
    have 1: "wf (s\<lparr>blocks := (blocks s)(b \<mapsto> ?blk)\<rparr>) cs R"
      using wf_block [OF wf blk] own wf_ref [OF wf]
      by (intro wf_update_block [OF wf blk]) (auto simp: block_ok_def owners_def dest: ref_count_pos)
    have 2: "wf (s\<lparr>blocks := (blocks s)(b \<mapsto> ?blk), c_head := b\<rparr>) (b # cs) R"
      using wf_push_block [OF 1, of b ?blk] own by simp
    have "wf ?s (b # cs) R" using 2 by (rule wf_same) simp_all
    moreover have "preserves s cs R ?s (b # cs)" by (rule preserves_other_block [OF own(2,1)]) auto
    moreover have "recycled ?s b blk" by (simp add: recycled_def)
    moreover have "dec_ref b s = Some ?s" using dec_ref_cached [OF blk _ True] own by simp
    ultimately show ?thesis using True by force
  next
    case full: False
    let ?s = "s\<lparr>g_block_number := sub64 (g_block_number s) 1,
      g_block_memory := sub64 (g_block_memory s) (b_capacity blk + sizeof_Block),
      blocks := (blocks s)(b := None)\<rparr>"
    have "wf ?s cs R" using wf_drop_block [OF wf own(1,2)] by (rule wf_same) simp_all
    moreover have "preserves s cs R ?s cs" by (rule preserves_other_block [OF own(2,1)]) auto
    ultimately show ?thesis using dec_ref_freed [OF blk _ full] own by auto
  qed
qed

lemma dec_ref_owned:
  assumes wf: "wf s cs (add_mset r R)"
  shows "\<exists>s' cs'. dec_ref (r_block r) s = Some s' \<and> wf s' cs' R \<and> preserves s cs R s' cs'"
proof -
  obtain blk where blk: "blocks s (r_block r) = Some blk"
    using wf_ref [OF wf, of r] by (auto simp: ref_ok_def)
  have "wf s cs R" using wf_mono [of s cs R "{#r#}"] wf by simp
  moreover have "owners cs R (r_block r) + 1 \<le> b_ref_num blk"
    using wf_block(4) [OF wf blk] by (simp add: owners_def)
  ultimately show ?thesis using dec_ref_spare [OF _ blk] by blast
qed

lemma wf_pop:
  assumes wf: "wf s (b # cs) R" and blk: "blocks s b = Some blk"
  shows "wf (s\<lparr>c_head := b_next blk\<rparr>) cs R" "owners cs R b + 1 \<le> b_ref_num blk" "b \<notin> set cs"
    "c_head s = b" "b \<noteq> 0"
proof -
  from wf_chain [OF wf] blk have ch: "chain (next_of s) (b_next blk) cs" "c_head s = b" "b \<noteq> 0"
    by (auto simp: next_of_def)
  from wf_chain [OF wf] show nin: "b \<notin> set cs" using chain_distinct by fastforce
  have "next_of (s\<lparr>c_head := b_next blk\<rparr>) = next_of s" by (simp add: next_of_def [abs_def])
  moreover have "owners cs R c \<le> owners (b # cs) R c" for c by (simp add: owners_def)
  ultimately show "wf (s\<lparr>c_head := b_next blk\<rparr>) cs R"
    using wf ch unfolding wf_def by (auto simp: ref_ok_def intro: order_trans)
  show "owners cs R b + 1 \<le> b_ref_num blk"
    using wf_block(4) [OF wf blk] nin by (simp add: owners_def)
  show "c_head s = b" "b \<noteq> 0" by fact+
qed

lemma dec_ref_head:
  assumes wf: "wf s (b # cs) R" and blk: "blocks s b = Some blk"
  shows "\<exists>s'. dec_ref b s = Some s' \<and> wf (s'\<lparr>c_head := b_next blk\<rparr>) cs R \<and> keeps s s' R"
proof -
  note pop = wf_pop [OF wf blk]
  have upd: "wf (s\<lparr>c_head := b_next blk, blocks := (blocks s)(b \<mapsto> blk')\<rparr>) cs R"
    if "block_ok blk'" "b_size blk' = b_size blk" "int (ref_count R b) \<le> b_ref_num blk'"
      "ref_count R b = 0 \<or> b_offset blk' = b_offset blk" for blk'
    using that pop(3) wf_ref [OF pop(1)] wf_ref_bound [OF pop(1), of _ b blk] blk
    by (intro wf_update_block [OF pop(1), of b blk, simplified])
      (auto simp: owners_def dest: ref_count_pos)
  consider "1 < b_ref_num blk"
    | (cached) "b_ref_num blk \<le> 1" "c_block_number s < kBlockCachedPerThread"
    | (free) "b_ref_num blk \<le> 1" "\<not> c_block_number s < kBlockCachedPerThread" by linarith
  then show ?thesis
  proof cases
    case 1
    let ?s = "s\<lparr>blocks := (blocks s)(b \<mapsto> blk\<lparr>b_ref_num := b_ref_num blk - 1\<rparr>)\<rparr>"
    have "wf (?s\<lparr>c_head := b_next blk\<rparr>) cs R"
      by (rule wf_same [OF upd]) (use wf_block [OF wf blk] pop(2) in \<open>auto simp: block_ok_def owners_def split: if_splits\<close>)
    moreover have "keeps s ?s R" by (rule keeps_update_header [OF blk]) simp
    ultimately show ?thesis using dec_ref_shared [OF blk 1] by blast
  next
    case cached
    with pop(2) have none: "ref_count R b = 0" and ref: "b_ref_num blk = 1"
      by (auto simp: owners_def split: if_splits)
    let ?s = "s\<lparr>c_block_number := u32 (c_block_number s + 1), blocks := (blocks s)(b \<mapsto>
        blk\<lparr>b_offset := 0, b_ref_num := b_ref_num blk, b_next := c_head s\<rparr>), c_head := b\<rparr>"
    have "wf (?s\<lparr>c_head := b_next blk\<rparr>) cs R"
      by (rule wf_same [OF upd]) (use wf_block [OF wf blk] none ref in \<open>auto simp: block_ok_def\<close>)
    moreover have "keeps s ?s R" by (rule keeps_other_block [OF none]) simp
    ultimately show ?thesis using dec_ref_cached [OF blk cached] by blast
  next
    case free
    with pop(2) have none: "ref_count R b = 0" by (auto simp: owners_def split: if_splits)
    let ?s = "s\<lparr>g_block_number := sub64 (g_block_number s) 1,
      g_block_memory := sub64 (g_block_memory s) (b_capacity blk + sizeof_Block),
      blocks := (blocks s)(b := None)\<rparr>"
    have "wf (?s\<lparr>c_head := b_next blk\<rparr>) cs R"
      by (rule wf_same [OF wf_drop_block [OF pop(1) pop(3) none]]) simp_all
    moreover have "keeps s ?s R" by (rule keeps_other_block [OF none]) simp
    ultimately show ?thesis using dec_ref_freed [OF blk free] by blast
  qed
qed

lemma create_block_wf:
  assumes wf: "wf s cs R" and sz: "32 \<le> sz" "sz < 65536" "8 dvd sz"
    and new: "create_block sz s = (b, s1)"
  shows "wf s1 cs R" "blocks s b = None" "b \<notin> set cs" "ref_count R b = 0" "b \<noteq> 0" "c_head s1 = c_head s"
    "\<exists>d. blocks s1 b = Some \<lparr>b_next = 0, b_ref_num = 1, b_offset = 0, b_capacity = sz - 24,
       b_data = d, b_size = sz - 24\<rparr>"
    "\<And>c. c \<noteq> b \<Longrightarrow> blocks s1 c = blocks s c" "keeps s s1 R"
proof -
  have bytes: "clear_low 3 (u32 (sz + 7)) = sz"
    using sz by (simp add: wrap_simps clear_low_def) presburger
  have cap: "sub32 (u16 sz) sizeof_Block = sz - 24"
    using sz by (simp add: wrap_simps sizeof_Block_def)
  define blk where "blk = \<lparr>b_next = 0, b_ref_num = 1, b_offset = 0, b_capacity = sz - 24,
       b_data = (\<lambda>i. junk s (brk s + sizeof_Block + i)), b_size = sz - 24\<rparr>"
  from new have b: "b = brk s"
    and s1: "s1 = s\<lparr>blocks := (blocks s)(brk s \<mapsto> blk), brk := brk s + 16 * ((sz + 15) div 16 + 1),
      g_block_number := u64 (g_block_number s + 1), g_block_memory := u64 (g_block_memory s + u16 sz)\<rparr>"
    by (auto simp: create_block_def Let_def bytes cap [unfolded sizeof_Block_def] Block_def blk_def sizeof_Block_def)
  from wf have "0 < brk s" by (simp add: wf_def)
  then show "b \<noteq> 0" using b by simp
  show none: "blocks s b = None"
    using wf_block(2) [OF wf, of "brk s"] b by (cases "blocks s b") (auto simp: sizeof_Block_def)
  then show nin: "b \<notin> set cs" by (metis wf wf_cache_block option.distinct(1))
  show zero: "ref_count R b = 0"
    using wf_ref [OF wf] none by (fastforce simp: ref_count_def count_eq_zero_iff ref_ok_def)
  show other: "\<And>c. c \<noteq> b \<Longrightarrow> blocks s1 c = blocks s c" by (simp add: s1 b)
  show "keeps s s1 R" using zero other by (rule keeps_other_block)
  show "c_head s1 = c_head s" by (simp add: s1)
  show "\<exists>d. blocks s1 b = Some \<lparr>b_next = 0, b_ref_num = 1, b_offset = 0, b_capacity = sz - 24,
       b_data = d, b_size = sz - 24\<rparr>" by (simp add: s1 b blk_def)
  have "next_of s1 a = next_of s a" if "a \<in> set cs" for a
    using that nin other [of a] by (cases "a = b") (auto simp: next_of_def)
  then have "chain (next_of s1) (c_head s) cs = chain (next_of s) (c_head s) cs"
    by (rule chain_cong)
  moreover have "block_ok blk" using sz by (auto simp: block_ok_def blk_def)
  moreover have "owners cs R b = 0" using nin zero by (simp add: owners_def)
  moreover have "ref_ok s1 r" if "r \<in># R" for r
    using wf_ref [OF wf that] none other by (auto simp: ref_ok_def) (metis option.distinct(1))
  moreover have "c + sizeof_Block + b_size blk' \<le> brk s1" if "blocks s c = Some blk'" for c blk'
    using wf_block(2) [OF wf that] by (simp add: s1)
  moreover have "b + sizeof_Block + b_size blk \<le> brk s1" using sz by (simp add: s1 b blk_def sizeof_Block_def)
  moreover have "0 \<le> b_ref_num blk" by (simp add: blk_def)
  ultimately show "wf s1 cs R" using wf \<open>b \<noteq> 0\<close> b none unfolding wf_def
    by (simp add: s1)
qed

lemma full_iff: "block_ok blk \<Longrightarrow> full blk = (b_capacity blk \<le> b_offset blk + 7)"
  by (simp add: full_def block_ok_def wrap_simps)

lemma left_space_eq: "block_ok blk \<Longrightarrow> left_space blk = b_capacity blk - b_offset blk"
  by (simp add: left_space_def block_ok_def wrap_simps)

lemma new_normal_block:
  assumes wf: "wf s cs R" and new: "create_block kNormalBlockSize s = (b, s1)"
  obtains blk where "blocks s1 b = Some blk" "\<not> full blk" "block_ok blk" "b_ref_num blk = 1"
    "b_next blk = 0" "b_offset blk = 0" "b_capacity blk = 8168" "b_size blk = 8168"
proof -
  have sz: "32 \<le> kNormalBlockSize" "kNormalBlockSize < 65536" "8 dvd kNormalBlockSize"
    by (simp_all add: kNormalBlockSize_def)
  obtain d where "blocks s1 b = Some \<lparr>b_next = 0, b_ref_num = 1, b_offset = 0,
      b_capacity = 8168, b_data = d, b_size = 8168\<rparr>"
    using create_block_wf(7) [OF wf sz new] by (auto simp: kNormalBlockSize_def)
  then show ?thesis by (intro that) (auto simp: full_def block_ok_def wrap_simps)
qed

lemma acquire_block_wf:
  assumes "wf s cs R"
  shows "\<exists>b s' cs' blk. acquire_block s = Some (b, s') \<and> wf s' (b # cs') R
    \<and> blocks s' b = Some blk \<and> \<not> full blk \<and> keeps s s' R"
  using assms
proof (induction cs arbitrary: s)
  case Nil
  obtain b s1 where new: "create_block kNormalBlockSize s = (b, s1)" by fastforce
  have sz: "32 \<le> kNormalBlockSize" "kNormalBlockSize < 65536" "8 dvd kNormalBlockSize"
    by (simp_all add: kNormalBlockSize_def)
  note c = create_block_wf [OF Nil sz new]
  obtain blk where blk: "blocks s1 b = Some blk" "\<not> full blk" "b_ref_num blk = 1" "b_next blk = 0"
    using new_normal_block [OF Nil new] by metis
  have h: "c_head s = 0" using wf_chain [OF Nil] by simp
  have "wf (s1\<lparr>c_head := b\<rparr>) [b] R"
    using wf_push_block [OF c(1) blk(1)] c(4,6) blk h by simp
  then have "wf (s1\<lparr>c_block_number := u32 (c_block_number s1 + 1), c_head := b\<rparr>) [b] R"
    by (rule wf_same) simp_all
  then show ?case using new blk c(9) h by (subst acquire_block.simps) auto
next
  case (Cons a cs)
  obtain blk where blk: "blocks s a = Some blk" using wf_cache_block [OF Cons.prems, of a] by auto
  note pop = wf_pop [OF Cons.prems blk]
  show ?case
  proof (cases "full blk")
    case False
    then show ?thesis using Cons.prems blk pop(4,5) by (subst acquire_block.simps) auto
  next
    case True
    obtain s1 where s1: "dec_ref a s = Some s1" "wf (s1\<lparr>c_head := b_next blk\<rparr>) cs R" "keeps s s1 R"
      using dec_ref_head [OF Cons.prems blk] by blast
    let ?s = "s1\<lparr>c_head := b_next blk, c_block_number := sub32 (c_block_number s1) 1\<rparr>"
    have "wf ?s cs R" using s1(2) by (rule wf_same) simp_all
    then obtain b s' cs' blk' where "acquire_block ?s = Some (b, s')" "wf s' (b # cs') R"
      "blocks s' b = Some blk'" "\<not> full blk'" "keeps ?s s' R"
      using Cons.IH by blast
    moreover from this have "keeps s s' R" using s1(3) keeps_trans by simp
    ultimately show ?thesis using True s1(1) blk pop(4,5) by (subst acquire_block.simps) auto
  qed
qed

lemma find_space_chain:
  assumes "chain (next_of s) p cs"
  shows "\<exists>b. find_space n p s = Some b \<and> (b = 0 \<or> b \<in> set cs \<and>
    (\<exists>blk. blocks s b = Some blk \<and> n \<le> left_space blk))"
  using assms
proof (induction cs arbitrary: p)
  case Nil
  then show ?case by (subst find_space.simps) simp
next
  case (Cons a cs)
  from Cons.prems obtain q where q: "p = a" "a \<noteq> 0" "next_of s a = Some q" "chain (next_of s) q cs"
    by auto
  then obtain blk where blk: "p = a" "a \<noteq> 0" "blocks s a = Some blk" "chain (next_of s) (b_next blk) cs"
    unfolding next_of_def by blast
  with Cons.IH show ?case by (subst find_space.simps) auto
qed

lemma push_new_block_wf:
  assumes wf: "wf s cs R" and sz: "32 \<le> sz" "sz < 65536" "8 dvd sz"
  shows "\<exists>b s' blk. push_new_block sz s = Some (b, s') \<and> wf s' (b # cs) R \<and> preserves s cs R s' (b # cs)
    \<and> blocks s' b = Some blk \<and> b_offset blk = 0 \<and> b_capacity blk = sz - 24 \<and> b_ref_num blk = 1"
proof -
  obtain b s1 where new: "create_block sz s = (b, s1)" by fastforce
  note c = create_block_wf [OF wf sz new]
  then obtain blk where blk: "blocks s1 b = Some blk" "b_offset blk = 0"
    "b_capacity blk = sz - 24" "b_ref_num blk = 1" by force
  let ?blk = "blk\<lparr>b_next := c_head s1\<rparr>"
  let ?s = "s1\<lparr>blocks := (blocks s1)(b \<mapsto> ?blk)\<rparr>"
  have "wf ?s cs R"
    using wf_block [OF c(1) blk(1)] c(3,4) wf_ref [OF c(1)]
    by (intro wf_update_block [OF c(1) blk(1)]) (auto simp: block_ok_def owners_def dest: ref_count_pos)
  then have "wf (?s\<lparr>c_head := b\<rparr>) (b # cs) R"
    using c(3,4) blk by (intro wf_push_block [where blk = ?blk]) auto
  then have "wf (?s\<lparr>c_head := b, c_block_number := u32 (c_block_number s1 + 1)\<rparr>) (b # cs) R"
    by (rule wf_same) simp_all
  moreover have "preserves s cs R (?s\<lparr>c_head := b, c_block_number := u32 (c_block_number s1 + 1)\<rparr>) (b # cs)"
    using c(8) by (intro preserves_other_block [OF c(4,3)]) auto
  ultimately show ?thesis using new blk by (auto simp: push_new_block_def upd_block_def)
qed

definition array_bytes_of :: "nat \<Rightarrow> nat" where
  "array_bytes_of n = n * 16 + 32"

lemma acquire_block_ref_array_wf:
  assumes wf: "wf s cs R" and n: "array_bytes_of n + 24 < 65536"
  shows "\<exists>ptr r s' cs'. acquire_block_ref_array n s = Some (ptr, r, s')
    \<and> wf s' cs' (add_mset r R) \<and> preserves s cs R s' cs'"
proof -
  let ?ab = "array_bytes_of n"
  let ?find = "if ?ab < kNormalBlockPayloadSize then do {
      b \<leftarrow> find_space ?ab (c_head s) s;
      if b \<noteq> 0 then Some (b, s) else push_new_block kNormalBlockSize s}
    else push_new_block (u32 (?ab + sizeof_Block)) s"
  have ab: "n * sizeof_BlockRef + (sizeof_BlockRefArray + sizeof_BlockRef) = ?ab"
    by (simp add: array_bytes_of_def sizeof_BlockRef_def sizeof_BlockRefArray_def)
  have "\<exists>b s1 cs1 blk. ?find = Some (b, s1) \<and> wf s1 cs1 R \<and> preserves s cs R s1 cs1 \<and> b \<in> set cs1
      \<and> blocks s1 b = Some blk \<and> b_offset blk + ?ab \<le> b_capacity blk"
  proof (cases "?ab < kNormalBlockPayloadSize")
    case True
    then have small: "?ab \<le> kNormalBlockSize - 24"
      by (simp add: kNormalBlockPayloadSize_def kNormalBlockSize_def sizeof_Block_def)
    obtain b where b: "find_space ?ab (c_head s) s = Some b"
      "b = 0 \<or> b \<in> set cs \<and> (\<exists>blk. blocks s b = Some blk \<and> ?ab \<le> left_space blk)"
      using find_space_chain [OF wf_chain [OF wf], of ?ab] by auto
    show ?thesis
    proof (cases "b = 0")
      case True
      with b(1) \<open>?ab < _\<close> small show ?thesis
        using push_new_block_wf [OF wf, of kNormalBlockSize] by (fastforce simp: kNormalBlockSize_def)
    next
      case False
      with b(2) obtain blk where blk: "b \<in> set cs" "blocks s b = Some blk" "?ab \<le> left_space blk"
        by auto
      then have "b_offset blk + ?ab \<le> b_capacity blk"
        using wf_block(3) [OF wf blk(2)] left_space_eq [of blk] unfolding block_ok_def by linarith
      with False b(1) blk wf True show ?thesis by fastforce
    qed
  next
    case False
    moreover have "8 dvd ?ab + 24" "32 \<le> ?ab + 24" by (simp_all add: array_bytes_of_def)
    ultimately show ?thesis using push_new_block_wf [OF wf, of "?ab + 24"] n
      by (fastforce simp: wrap_simps sizeof_Block_def)
  qed
  then obtain b s1 cs1 blk where f: "?find = Some (b, s1)" "wf s1 cs1 R" "preserves s cs R s1 cs1"
    "b \<in> set cs1" "blocks s1 b = Some blk" "b_offset blk + ?ab \<le> b_capacity blk" by blast
  note ok = wf_block [OF f(2,5)]
  define ref where "ref = \<lparr>r_offset = b_offset blk, r_length = ?ab, r_block = b\<rparr>"
  then have ref: "r_offset ref = b_offset blk" "r_length ref = ?ab" "r_block ref = b" by simp_all
  let ?blk = "blk\<lparr>b_ref_num := b_ref_num blk + 1, b_offset := b_offset blk + ?ab\<rparr>"
  let ?s = "s1\<lparr>blocks := (blocks s1)(b \<mapsto> ?blk)\<rparr>"
  have fits: "clear_low 4 (b + sizeof_Block + b_offset blk + (sizeof_BlockRefArray - 1))
      + sizeof_BlockRefArray + n * sizeof_BlockRef \<le> b + sizeof_Block + b_size blk"
    using clear_low_le [of 4 "b + sizeof_Block + b_offset blk + (sizeof_BlockRefArray - 1)"] f(6) ok(3)
    by (simp add: sizeof_BlockRefArray_def sizeof_BlockRef_def array_bytes_of_def block_ok_def)
  have "u32 (b_offset blk + ?ab) = b_offset blk + ?ab" "u32 ?ab = ?ab"
    using f(6) ok(3) n by (simp_all add: block_ok_def wrap_simps)
  then have "acquire_block_ref_array n s =
      Some (clear_low 4 (b + sizeof_Block + b_offset blk + (sizeof_BlockRefArray - 1)), ref, ?s)"
    unfolding acquire_block_ref_array_def Let_def ab f(1)
    using f(5) fits by (simp add: inc_ref_def upd_block_def ref_def)
  moreover have "wf ?s cs1 (add_mset ref R)"
    using ref ok f(4,6) wf_ref [OF f(2)] wf_ref_bound [OF f(2) _ f(5)]
    by (intro wf_update_block [OF f(2,5)]) (auto simp: block_ok_def owners_def trans_le_add1)
  moreover have "preserves s1 cs1 R ?s cs1" by (rule preserves_header [OF f(5)]) simp_all
  ultimately show ?thesis using preserves_trans [OF f(3)] by blast
qed

lemma pop_front_wf:
  assumes "wf s cs R"
  shows "\<exists>b s' cs' blk. pop_front s = Some (b, s') \<and> wf s' cs' R \<and> b \<notin> set cs'
    \<and> blocks s' b = Some blk \<and> \<not> full blk \<and> owners cs' R b + 1 \<le> b_ref_num blk \<and> keeps s s' R"
  using assms
proof (induction cs arbitrary: s)
  case Nil
  obtain b s1 where new: "create_block kNormalBlockSize s = (b, s1)" by fastforce
  have sz: "32 \<le> kNormalBlockSize" "kNormalBlockSize < 65536" "8 dvd kNormalBlockSize"
    by (simp_all add: kNormalBlockSize_def)
  note c = create_block_wf [OF Nil sz new]
  obtain blk where blk: "blocks s1 b = Some blk" "\<not> full blk" "b_ref_num blk = 1"
    using new_normal_block [OF Nil new] by metis
  have h: "c_head s = 0" using wf_chain [OF Nil] by simp
  have "wf (s1\<lparr>c_block_number := u32 (c_block_number s1 + 1)\<rparr>) [] R"
    using c(1) by (rule wf_same) simp_all
  moreover have "pop_front s = Some (b, s1\<lparr>c_block_number := u32 (c_block_number s1 + 1)\<rparr>)"
    using new h by (subst pop_front.simps) simp
  ultimately show ?case using blk c(4,9) by (intro exI [of _ b] exI [of _ "[]"] exI) (auto simp: owners_def)
next
  case (Cons a cs)
  obtain blk where blk: "blocks s a = Some blk" using wf_cache_block [OF Cons.prems, of a] by auto
  note pop = wf_pop [OF Cons.prems blk]
  show ?case
  proof (cases "full blk")
    case False
    then show ?thesis using pop blk by (subst pop_front.simps) (auto 0 3)
  next
    case True
    let ?s = "s\<lparr>c_head := b_next blk\<rparr>"
    obtain s1 cs1 where s1: "dec_ref a ?s = Some s1" "wf s1 cs1 R" "keeps ?s s1 R"
      and or: "cs1 = cs \<or> cs1 = a # cs \<and> recycled s1 a blk"
      using dec_ref_spare [OF pop(1), of a blk] blk pop(2) preserves_keeps [OF pop(1)] by auto
    let ?s1 = "s1\<lparr>c_block_number := sub32 (c_block_number s1) 1\<rparr>"
    have wf1: "wf ?s1 cs1 R" using s1(2) by simp
    have step: "pop_front s = pop_front ?s1"
      using True s1(1) blk pop(4,5) by (subst pop_front.simps) simp
    from or show ?thesis
    proof
      assume "cs1 = cs"
      with wf1 Cons.IH obtain b s' cs' blk' where "pop_front ?s1 = Some (b, s')" "wf s' cs' R"
        "b \<notin> set cs'" "blocks s' b = Some blk'" "\<not> full blk'" "owners cs' R b + 1 \<le> b_ref_num blk'"
        "keeps ?s1 s' R" by blast
      then show ?thesis using step s1(3) keeps_trans by (metis keeps_blocks(3,4))
    next
      assume rec: "cs1 = a # cs \<and> recycled s1 a blk"
      then obtain blk1 where blk1: "blocks ?s1 a = Some blk1" "b_offset blk1 = 0"
        by (auto simp: recycled_def)
      then have "\<not> full blk1" using wf_block(3) [OF wf1 blk1(1)] by (simp add: full_iff) (simp add: block_ok_def)
      moreover note pop1 = wf_pop [OF wf1 [unfolded conjunct1 [OF rec]] blk1(1)]
      ultimately have "pop_front ?s1 = Some (a, ?s1\<lparr>c_head := b_next blk1\<rparr>)"
        using blk1 by (subst pop_front.simps) simp
      then show ?thesis using step pop1 blk1 \<open>\<not> full blk1\<close> s1(3) by (auto 0 3)
    qed
  qed
qed

subsection \<open>Blocks lent to a caller\<close>

text \<open>
  \<open>lent s cs R r\<close>: the caller holds, beside the references \<open>R\<close>, one count of the block of
  \<open>r\<close>, and \<open>r\<close> names the free space behind the block's write position.
\<close>

definition lent :: "zstate \<Rightarrow> nat list \<Rightarrow> block_ref multiset \<Rightarrow> block_ref \<Rightarrow> bool" where
  "lent s cs R r = (r_block r \<notin> set cs \<and> (\<exists>blk. blocks s (r_block r) = Some blk
     \<and> owners cs R (r_block r) + 1 \<le> b_ref_num blk \<and> r_offset r = b_offset blk
     \<and> r_offset r + r_length r \<le> b_capacity blk))"

definition fill_block :: "block_ref \<Rightarrow> char list \<Rightarrow> zstate \<Rightarrow> zstate option" where
  "fill_block r xs = upd_block (r_block r) (\<lambda>blk. blk\<lparr>b_data := mem_write (b_data blk) (r_offset r) xs\<rparr>)"

lemma acquire_block_ref_ok:
  assumes "wf s cs R"
  shows "\<exists>r s' cs'. acquire_block_ref s = Some (r, s') \<and> wf s' cs' R \<and> keeps s s' R
    \<and> lent s' cs' R r \<and> 8 \<le> r_length r"
proof -
  obtain b s' cs' blk where p: "pop_front s = Some (b, s')" "wf s' cs' R" "b \<notin> set cs'"
    "blocks s' b = Some blk" "\<not> full blk" "owners cs' R b + 1 \<le> b_ref_num blk" "keeps s s' R"
    using pop_front_wf [OF assms] by blast
  note ok = wf_block(3) [OF p(2,4)]
  show ?thesis using p ok full_iff [OF ok] left_space_eq [OF ok]
    by (auto simp: acquire_block_ref_def lent_def block_ok_def)
qed

lemma lent_shrink: "lent s cs R r \<Longrightarrow> n \<le> r_length r \<Longrightarrow> lent s cs R (r\<lparr>r_length := n\<rparr>)"
  by (auto simp: lent_def)

lemma fill_block_ok:
  assumes wf: "wf s cs R" and l: "lent s cs R r"
  shows "\<exists>s'. fill_block r xs s = Some s' \<and> wf s' cs R \<and> preserves s cs R s' cs
    \<and> lent s' cs R r \<and> ref_bytes s' (r\<lparr>r_length := length xs\<rparr>) = xs"
proof -
  obtain blk where blk: "blocks s (r_block r) = Some blk" and o: "r_offset r = b_offset blk"
    using l by (auto simp: lent_def)
  let ?blk = "blk\<lparr>b_data := mem_write (b_data blk) (r_offset r) xs\<rparr>"
  let ?s = "s\<lparr>blocks := (blocks s)(r_block r \<mapsto> ?blk)\<rparr>"
  have "wf ?s cs R" using wf_block [OF wf blk] wf_ref [OF wf] wf_ref_bound [OF wf _ blk]
    by (intro wf_update_block [OF wf blk]) (auto simp: block_ok_def)
  moreover have "preserves s cs R ?s cs" using blk o
    by (auto simp: preserves_def live_def ref_ok_def ref_bytes_def mem_simps)
  moreover have "ref_bytes ?s (r\<lparr>r_length := length xs\<rparr>) = xs" by (simp add: ref_bytes_def mem_simps)
  moreover have "lent ?s cs R r" using l blk by (auto simp: lent_def)
  ultimately show ?thesis using blk by (auto simp: fill_block_def upd_block_def)
qed

lemma push_front_ok:
  assumes wf: "wf s cs R" and b: "b \<notin> set cs" and blk: "blocks s b = Some blk"
    and spare: "owners cs R b + 1 \<le> b_ref_num blk"
  shows "\<exists>s' cs'. push_front b s = Some s' \<and> wf s' cs' R \<and> preserves s cs R s' cs'"
proof (cases "full blk")
  case True
  then show ?thesis using dec_ref_spare [OF wf blk spare] blk by (auto simp: push_front_def)
next
  case False
  let ?blk = "blk\<lparr>b_next := c_head s\<rparr>"
  let ?s = "s\<lparr>blocks := (blocks s)(b \<mapsto> ?blk)\<rparr>"
  have "wf ?s cs R" using wf_block [OF wf blk] wf_ref [OF wf] wf_ref_bound [OF wf _ blk] b
    by (intro wf_update_block [OF wf blk]) (auto simp: block_ok_def)
  then have "wf (?s\<lparr>c_head := b\<rparr>) (b # cs) R"
    using b spare by (intro wf_push_block [where blk = ?blk]) (auto simp: owners_def)
  then have "wf (?s\<lparr>c_head := b, c_block_number := u32 (c_block_number s + 1)\<rparr>) (b # cs) R"
    by (rule wf_same) simp_all
  moreover have "preserves s cs R (?s\<lparr>c_head := b, c_block_number := u32 (c_block_number s + 1)\<rparr>) (b # cs)"
    by (rule preserves_header [OF blk]) auto
  ultimately show ?thesis using False blk by (auto simp: push_front_def upd_block_def)
qed

lemma return_block_ref_ok:
  assumes wf: "wf s cs R" and l: "lent s cs R r"
  shows "\<exists>s' cs'. return_block_ref r s = Some s' \<and> wf s' cs' (add_mset r R)
    \<and> preserves s cs R s' cs' \<and> ref_bytes s' r = ref_bytes s r"
proof -
  obtain blk where blk: "blocks s (r_block r) = Some blk" and b: "r_block r \<notin> set cs"
    and sp: "owners cs R (r_block r) + 1 \<le> b_ref_num blk"
    and o: "r_offset r = b_offset blk" "r_offset r + r_length r \<le> b_capacity blk"
    using l by (auto simp: lent_def)
  note ok = wf_block [OF wf blk]
  let ?blk = "blk\<lparr>b_offset := b_offset blk + r_length r, b_ref_num := b_ref_num blk + 1\<rparr>"
  let ?s = "s\<lparr>blocks := (blocks s)(r_block r \<mapsto> ?blk)\<rparr>"
  have wf1: "wf ?s cs (add_mset r R)"
    using ok o sp wf_ref [OF wf] wf_ref_bound [OF wf _ blk]
    by (intro wf_update_block [OF wf blk]) (auto simp: block_ok_def owners_def trans_le_add1)
  have p1: "preserves s cs R ?s cs" by (rule preserves_header [OF blk]) auto
  have u: "u32 (b_offset blk + r_length r) = b_offset blk + r_length r"
    using o ok(3) by (simp add: block_ok_def wrap_simps)
  have "owners cs (add_mset r R) (r_block r) + 1 \<le> b_ref_num ?blk" using sp by (simp add: owners_def)
  then obtain s' cs' where push: "push_front (r_block r) ?s = Some s'" "wf s' cs' (add_mset r R)"
    "preserves ?s cs (add_mset r R) s' cs'" using push_front_ok [OF wf1 b, of ?blk] by auto
  have "live ?s cs (add_mset r R) r" using wf_ref [OF wf1] by (simp add: live_def)
  then have "ref_bytes s' r = ref_bytes s r"
    using preserves_bytes [OF push(3)] blk by (simp add: ref_bytes_def)
  moreover have "preserves s cs R s' cs'"
    using p1 push(3) preserves_mono [of ?s cs R "{#r#}"] preserves_trans by fastforce
  moreover have "return_block_ref r s = Some s'"
    using push(1) blk u by (simp add: return_block_ref_def upd_block_def inc_ref_def)
  ultimately show ?thesis using push(2) by blast
qed

subsection \<open>Destroying the cache\<close>

text \<open>
  The destructor may put a block back on the list it is emptying, but each time it does the
  counter grows towards its limit of 32, so the loop ends with an empty list.
\<close>

lemma destroy_cache_ok:
  assumes "wf s cs R"
  shows "\<exists>s'. destroy_cache s = Some s' \<and> wf s' [] R \<and> keeps s s' R"
  using assms
proof (induction "length cs + (32 - c_block_number s)" arbitrary: s cs rule: less_induct)
  case less
  show ?case
  proof (cases cs)
    case Nil
    then have "c_head s = 0" using wf_chain [OF less.prems] by simp
    then show ?thesis using less.prems Nil by (subst destroy_cache.simps) simp
  next
    case (Cons b cs2)
    then have wf: "wf s (b # cs2) R" using less.prems by simp
    obtain blk where blk: "blocks s b = Some blk" using wf_cache_block [OF wf, of b] by auto
    note pop = wf_pop [OF wf blk]
    let ?s = "s\<lparr>c_head := b_next blk\<rparr>"
    obtain s1 cs1 where s1: "dec_ref b ?s = Some s1" "wf s1 cs1 R" "preserves ?s cs2 R s1 cs1"
      and or: "cs1 = cs2 \<or> cs1 = b # cs2 \<and> c_block_number s < kBlockCachedPerThread
        \<and> c_block_number s1 = u32 (c_block_number s + 1)"
      using dec_ref_spare [OF pop(1), of b blk] blk pop(2) by auto
    have num: "c_block_number s1 \<ge> c_block_number s \<and> cs1 = cs2
        \<or> length cs1 = length cs \<and> c_block_number s < 32 \<and> c_block_number s1 = c_block_number s + 1"
    proof (cases "cs1 = cs2")
      case False
      then show ?thesis using or Cons by (auto simp: kBlockCachedPerThread_def wrap_simps)
    next
      case True
      then have "c_block_number s1 = c_block_number s \<or> c_block_number s < 32 \<and> c_block_number s1 = u32 (c_block_number s + 1)"
        using s1(1) blk dec_ref_shared [of ?s b blk] dec_ref_cached [of ?s b blk] dec_ref_freed [of ?s b blk]
        by (cases "1 < b_ref_num blk"; cases "c_block_number s < kBlockCachedPerThread")
          (auto simp: kBlockCachedPerThread_def)
      then show ?thesis using True by (auto simp: wrap_simps)
    qed
    then have "length cs1 + (32 - c_block_number s1) < length cs + (32 - c_block_number s)"
      using Cons by auto
    from less.hyps [OF this s1(2)] obtain s' where "destroy_cache s1 = Some s'" "wf s' [] R" "keeps s1 s' R"
      by blast
    moreover have "keeps s s1 R" using preserves_keeps [OF pop(1) s1(3)] by simp
    ultimately show ?thesis using blk pop(4,5) s1(1) keeps_trans
      by (subst destroy_cache.simps) auto
  qed
qed

subsection \<open>Properties of the block layer\<close>

text \<open>A block lent out with \<open>acquire_block_ref\<close>, filled in place with at most as many
  bytes as it offers and returned with \<open>return_block_ref\<close>: no step is undefined, the
  invariant holds with the caller's reference added, that reference reads back the bytes, and
  every reference owned before keeps its bytes.\<close>

theorem block_lend_roundtrip:
  assumes "wf s cs R" "length xs \<le> 8"
  shows "\<exists>r s1 s2 s3 cs3. acquire_block_ref s = Some (r, s1) \<and> fill_block r xs s1 = Some s2
    \<and> return_block_ref (r\<lparr>r_length := length xs\<rparr>) s2 = Some s3
    \<and> wf s3 cs3 (add_mset (r\<lparr>r_length := length xs\<rparr>) R) \<and> keeps s s3 R
    \<and> ref_bytes s3 (r\<lparr>r_length := length xs\<rparr>) = xs"
proof -
  obtain r s1 cs1 where 1: "acquire_block_ref s = Some (r, s1)" "wf s1 cs1 R" "keeps s s1 R"
    "lent s1 cs1 R r" "8 \<le> r_length r" using acquire_block_ref_ok [OF assms(1)] by blast
  obtain s2 where 2: "fill_block r xs s1 = Some s2" "wf s2 cs1 R" "preserves s1 cs1 R s2 cs1"
    "lent s2 cs1 R r" "ref_bytes s2 (r\<lparr>r_length := length xs\<rparr>) = xs"
    using fill_block_ok [OF 1(2,4)] by blast
  have "lent s2 cs1 R (r\<lparr>r_length := length xs\<rparr>)" using lent_shrink [OF 2(4)] 1(5) assms(2) by simp
  from return_block_ref_ok [OF 2(2) this] obtain s3 cs3 where
    "return_block_ref (r\<lparr>r_length := length xs\<rparr>) s2 = Some s3"
    "wf s3 cs3 (add_mset (r\<lparr>r_length := length xs\<rparr>) R)" "preserves s2 cs1 R s3 cs3"
    "ref_bytes s3 (r\<lparr>r_length := length xs\<rparr>) = xs" using 2(5) by auto
  moreover from this have "keeps s s3 R"
    using 1(2,3) 2(2,3) preserves_keeps keeps_trans by blast
  ultimately show ?thesis using 1(1) 2(1) by blast
qed

text \<open>The state of a thread that has not allocated anything.\<close>

definition init_state :: zstate where
  "init_state = \<lparr>blocks = (\<lambda>_. None), brk = 16, junk = (\<lambda>_. CHR ''?''), g_block_number = 0,
     g_block_memory = 0, c_head = 0, c_block_number = 0\<rparr>"

lemma init_state_wf: "wf init_state [] {#}"
  by (simp add: wf_def init_state_def)

theorem block_lend_roundtrip_witness:
  "\<exists>r s1 s2 s3 cs3. acquire_block_ref init_state = Some (r, s1) \<and> fill_block r ''abc'' s1 = Some s2
    \<and> return_block_ref (r\<lparr>r_length := length ''abc''\<rparr>) s2 = Some s3
    \<and> wf s3 cs3 (add_mset (r\<lparr>r_length := length ''abc''\<rparr>) {#}) \<and> keeps init_state s3 {#}
    \<and> ref_bytes s3 (r\<lparr>r_length := length ''abc''\<rparr>) = ''abc''"
  by (rule block_lend_roundtrip [OF init_state_wf]) simp

text \<open>(C33) The destructor of the per-thread cache terminates from every state that satisfies
  the invariant, although it may push blocks back while it runs; the cache is empty
  afterwards and no block that a buffer still references is lost.\<close>

theorem destroy_cache_empties:
  assumes "wf s cs R"
  shows "\<exists>s'. destroy_cache s = Some s' \<and> c_head s' = 0 \<and> wf s' [] R \<and> keeps s s' R"
  using destroy_cache_ok [OF assms] wf_chain by fastforce

theorem destroy_cache_empties_witness:
  "\<exists>s'. destroy_cache (snd (the (acquire_block init_state))) = Some s' \<and> c_head s' = 0
    \<and> wf s' [] {#} \<and> keeps (snd (the (acquire_block init_state))) s' {#}"
proof -
  obtain b s' cs' where "acquire_block init_state = Some (b, s')" "wf s' (b # cs') {#}"
    using acquire_block_wf [OF init_state_wf] by blast
  then show ?thesis using destroy_cache_empties [of s' "b # cs'" "{#}"] by simp
qed

text \<open>When the head of the cache is full and the cache is its only owner,
  \<open>acquire_block\<close> leaks it: the block is put back by \<open>dec_ref\<close>, and the next assignment of
  the head drops it. It stays allocated with a count of one and no owner.\<close>

theorem acquire_block_leaks:
  assumes "wf s [h] {#}" "blocks s h = Some blk" "full blk" "b_ref_num blk = 1"
    "c_block_number s < kBlockCachedPerThread"
  shows "\<exists>b s' blk'. acquire_block s = Some (b, s') \<and> wf s' [b] {#} \<and> b \<noteq> h
    \<and> blocks s' h = Some blk' \<and> b_ref_num blk' = 1"
proof -
  have h: "c_head s = h" "h \<noteq> 0" "b_next blk = 0"
    using wf_chain [OF assms(1)] assms(2) by (auto simp: next_of_def)
  define s1 where "s1 = s\<lparr>blocks := (blocks s)(h \<mapsto> blk\<lparr>b_offset := 0, b_ref_num := 1, b_next := h\<rparr>),
    c_head := 0, c_block_number := sub32 (u32 (c_block_number s + 1)) 1\<rparr>"
  have run: "acquire_block s = acquire_block s1"
    using assms h dec_ref_cached [OF assms(2) _ assms(5)]
    by (subst acquire_block.simps) (simp add: s1_def)
  obtain t where t: "dec_ref h s = Some t" "wf (t\<lparr>c_head := 0\<rparr>) [] {#}"
    using dec_ref_head [OF assms(1,2)] h(3) by auto
  have wf1: "wf s1 [] {#}"
    by (rule wf_same [OF t(2)])
      (use t(1) dec_ref_cached [OF assms(2) _ assms(5)] assms(4) h in \<open>auto simp: s1_def\<close>)
  obtain b s2 where new: "create_block kNormalBlockSize s1 = (b, s2)" by fastforce
  have sz: "32 \<le> kNormalBlockSize" "kNormalBlockSize < 65536" "8 dvd kNormalBlockSize"
    by (simp_all add: kNormalBlockSize_def)
  note c = create_block_wf [OF wf1 sz new]
  have ne: "b \<noteq> h" using c(2) by (auto simp: s1_def)
  then have old: "blocks s2 h = Some (blk\<lparr>b_offset := 0, b_ref_num := 1, b_next := h\<rparr>)"
    using c(8) [of h] by (simp add: s1_def)
  have eq: "acquire_block s1 = Some (b, s2\<lparr>c_block_number := u32 (c_block_number s2 + 1), c_head := b\<rparr>)"
    using new by (subst acquire_block.simps) (simp add: s1_def)
  obtain b' s' cs' where "acquire_block s1 = Some (b', s')" "wf s' (b' # cs') {#}"
    using acquire_block_wf [OF wf1] by blast
  moreover obtain nb where nb: "blocks s2 b = Some nb" "b_next nb = 0"
    using c(7) by auto
  ultimately have "wf s' [b] {#}" "s' = s2\<lparr>c_block_number := u32 (c_block_number s2 + 1), c_head := b\<rparr>"
    using eq wf_chain [of s' "b' # cs'" "{#}"] by (auto simp: next_of_def)
  then show ?thesis using run eq ne old assms(4) by auto
qed


definition full_cache_state :: zstate where
  "full_cache_state = init_state\<lparr>brk := 16 + 24 + 8168, c_head := 16, c_block_number := 1,
     blocks := [16 \<mapsto> \<lparr>b_next = 0, b_ref_num = 1, b_offset = 8168, b_capacity = 8168,
       b_data = (\<lambda>_. CHR ''x''), b_size = 8168\<rparr>]\<rparr>"

theorem acquire_block_leaks_witness:
  "\<exists>b s' blk'. acquire_block full_cache_state = Some (b, s') \<and> wf s' [b] {#} \<and> b \<noteq> 16
    \<and> blocks s' 16 = Some blk' \<and> b_ref_num blk' = 1"
  by (rule acquire_block_leaks)
    (simp add: full_cache_state_def init_state_def wf_def next_of_def block_ok_def owners_def
      sizeof_Block_def full_def wrap_simps kBlockCachedPerThread_def)+

text \<open>\<open>create_block\<close> truncates the size to 16 bits. A reference array for 4096
  references, which a buffer asks for when it holds 2048, is placed in a block that believes
  to have 32 bytes; its free space then wraps, the next array is placed behind the end of its
  memory, and writing there is undefined.\<close>

theorem big_ref_array_overruns:
  assumes "brk s \<noteq> 0"
  shows "\<exists>ptr r s'. acquire_block_ref_array 4096 s = Some (ptr, r, s')
    \<and> acquire_block_ref_array 32 s' = None"
proof -
  let ?base = "brk s + 24"
  obtain b s1 blk where new: "push_new_block 65592 s = Some (b, s1)" "blocks s1 b = Some blk"
    "b = brk s" "b_offset blk = 0" "b_capacity blk = 32" "b_size blk = 65568" "c_head s1 = b"
    by (simp add: push_new_block_def create_block_def upd_block_def Let_def Block_def sizeof_Block_def
        u16_def u32_def sub32_def clear_low_def)
  define s2 where "s2 = s1\<lparr>blocks := (blocks s1)(b \<mapsto>
    blk\<lparr>b_ref_num := b_ref_num blk + 1, b_offset := 65568\<rparr>)\<rparr>"
  have "clear_low 4 (?base + 15) \<le> ?base + 15" by (rule clear_low_le)
  then have one: "acquire_block_ref_array 4096 s = Some (clear_low 4 (?base + 15),
      \<lparr>r_offset = 0, r_length = 65568, r_block = b\<rparr>, s2)"
    using new by (simp add: acquire_block_ref_array_def sizeof_BlockRef_def sizeof_BlockRefArray_def
        kNormalBlockPayloadSize_def kNormalBlockSize_def sizeof_Block_def check_def inc_ref_def
        upd_block_def s2_def u32_def Let_def)
  have "find_space 544 b s2 = Some b"
    using assms new by (subst find_space.simps) (simp add: s2_def left_space_def sub32_def)
  moreover have "\<not> clear_low 4 (?base + 65568 + 15) + 528 \<le> ?base + 65568"
    by (simp add: clear_low_def)
  ultimately have "acquire_block_ref_array 32 s2 = None"
    using assms new by (simp add: acquire_block_ref_array_def sizeof_BlockRef_def sizeof_BlockRefArray_def
        kNormalBlockPayloadSize_def kNormalBlockSize_def sizeof_Block_def check_def s2_def Let_def)
  with one show ?thesis by blast
qed

theorem big_ref_array_overruns_witness:
  "\<exists>ptr r s'. acquire_block_ref_array 4096 init_state = Some (ptr, r, s')
    \<and> acquire_block_ref_array 32 s' = None"
  by (rule big_ref_array_overruns) (simp add: init_state_def)

end
