(* ===== verification/ZBuf.thy ===== *)
theory ZBuf
  imports Block_Cache
begin

text \<open>
  The zero-copy buffer of \<^verbatim>\<open>zbuffer.h\<close> and \<^verbatim>\<open>src/zbuffer.cpp\<close>. A buffer holds at
  most two block references in place, or a growing ring of references placed in the memory of
  a block. The C++ union becomes a datatype with one constructor per layout; its words, in which the
  discriminator \<open>magic_num < 0\<close> overlays the offset of the first reference, are the subject of \<open>ZBuf_Layout\<close>,
  where reading them as the code does is shown to tell the constructors apart. The slots of a ring that nobody has written are
  \<^term>\<open>None\<close>; reading one is undefined behaviour.
\<close>

subsection \<open>The ring of references\<close>

record ref_array =
  a_ptr :: nat
  a_nbytes :: nat
  a_begin :: nat
  a_cap_mask :: nat
  a_refs :: "nat \<Rightarrow> block_ref option"

definition new_ref_array :: "nat \<Rightarrow> nat \<Rightarrow> ref_array" where
  "new_ref_array ptr cap = \<lparr>a_ptr = ptr, a_nbytes = 0, a_begin = 0,
     a_cap_mask = sub32 cap 1, a_refs = (\<lambda>_. None)\<rparr>"

definition copy_ref_array :: "nat \<Rightarrow> ref_array \<Rightarrow> nat \<Rightarrow> ref_array" where
  "copy_ref_array ptr old cap = \<lparr>a_ptr = ptr, a_nbytes = a_nbytes old, a_begin = a_begin old,
     a_cap_mask = sub32 cap 1,
     a_refs = (\<lambda>i. if i \<le> a_cap_mask old then a_refs old i else None)\<rparr>"

definition ref_index :: "ref_array \<Rightarrow> nat \<Rightarrow> nat" where
  "ref_index a i = u32 (a_begin a + i) AND a_cap_mask a"

definition ref_at :: "ref_array \<Rightarrow> nat \<Rightarrow> block_ref option" where
  "ref_at a i = a_refs a (ref_index a i)"

definition set_ref :: "ref_array \<Rightarrow> nat \<Rightarrow> block_ref \<Rightarrow> ref_array" where
  "set_ref a i r = a\<lparr>a_refs := (a_refs a)(ref_index a i \<mapsto> r)\<rparr>"

definition reset_array :: "ref_array \<Rightarrow> ref_array" where
  "reset_array a = a\<lparr>a_nbytes := 0, a_begin := 0\<rparr>"

subsection \<open>The buffer\<close>

datatype zbuffer =
    Simple block_ref block_ref
  | Arr nat ref_array block_ref

definition ZBuffer :: zbuffer where
  "ZBuffer = Simple null_ref null_ref"

definition kInitBlockRefArraySize :: nat where
  "kInitBlockRefArraySize = 32"

fun array :: "zbuffer \<Rightarrow> bool" where
  "array (Simple f g) = False"
| "array (Arr n a fr) = True"

fun zsize :: "zbuffer \<Rightarrow> nat" where
  "zsize (Simple f g) = u32 (r_length f + r_length g)"
| "zsize (Arr n a fr) = a_nbytes a"

fun blockref_num :: "zbuffer \<Rightarrow> nat" where
  "blockref_num (Simple f g) =
     (if r_block g = 0 then (if r_block f \<noteq> 0 then 1 else 0)
      else 1 + (if r_block f \<noteq> 0 then 1 else 0))"
| "blockref_num (Arr n a fr) = 1 + n"

subsection \<open>Appending references\<close>

definition push_ref :: "block_ref \<Rightarrow> nat \<times> ref_array \<Rightarrow> nat \<times> ref_array" where
  "push_ref r na = (let (n, a) = na in
     if r_block r \<noteq> 0
     then (n + 1, (set_ref a n r)\<lparr>a_nbytes := u64 (a_nbytes a + r_length r)\<rparr>) else (n, a))"

definition transfor_to_array ::
  "block_ref \<Rightarrow> block_ref \<Rightarrow> zstate \<Rightarrow> (nat \<times> ref_array \<times> block_ref \<times> zstate) option" where
  "transfor_to_array f g s = do {
     (ptr, fr, s1) \<leftarrow> acquire_block_ref_array kInitBlockRefArraySize s;
     let (n, a) = push_ref g (push_ref f (0, new_ref_array ptr kInitBlockRefArraySize));
     Some (n, a, fr, s1)}"

definition array_resize ::
  "ref_array \<Rightarrow> block_ref \<Rightarrow> zstate \<Rightarrow> (ref_array \<times> block_ref \<times> zstate) option" where
  "array_resize a fr s = do {
     let array_size = u32 (u32 (a_cap_mask a + 1) * 2);
     (ptr, tmp, s1) \<leftarrow> acquire_block_ref_array array_size s;
     let a' = copy_ref_array ptr a array_size;
     s2 \<leftarrow> dec_ref (r_block fr) s1;
     Some (a', tmp, s2)}"

definition array_append_ref_move ::
  "block_ref \<Rightarrow> nat \<Rightarrow> ref_array \<Rightarrow> block_ref \<Rightarrow> zstate \<Rightarrow> (zbuffer \<times> zstate) option" where
  "array_append_ref_move r n a fr s = do {
     last \<leftarrow> ref_at a (sub32 n 1);
     let a1 = a\<lparr>a_nbytes := u64 (a_nbytes a + r_length r)\<rparr>;
     case merge last r of
       Some last' \<Rightarrow> do {
         (_, s1) \<leftarrow> release r s;
         Some (Arr n (set_ref a1 (sub32 n 1) last') fr, s1)}
     | None \<Rightarrow> do {
         (a2, fr2, s2) \<leftarrow> (if n > a_cap_mask a1 then array_resize a1 fr s else Some (a1, fr, s));
         Some (Arr (u32 (n + 1)) (set_ref a2 n r) fr2, s2)}}"

definition array_append_ref_copy ::
  "block_ref \<Rightarrow> nat \<Rightarrow> ref_array \<Rightarrow> block_ref \<Rightarrow> zstate \<Rightarrow> (zbuffer \<times> zstate) option" where
  "array_append_ref_copy r n a fr s = do {
     last \<leftarrow> ref_at a (sub32 n 1);
     let a1 = a\<lparr>a_nbytes := u64 (a_nbytes a + r_length r)\<rparr>;
     case merge last r of
       Some last' \<Rightarrow> Some (Arr n (set_ref a1 (sub32 n 1) last') fr, s)
     | None \<Rightarrow> do {
         (a2, fr2, s2) \<leftarrow> (if n > a_cap_mask a1 then array_resize a1 fr s else Some (a1, fr, s));
         s3 \<leftarrow> inc_ref (r_block r) s2;
         Some (Arr (u32 (n + 1)) (set_ref a2 n r) fr2, s3)}}"

fun append_ref_copy :: "block_ref \<Rightarrow> zbuffer \<Rightarrow> zstate \<Rightarrow> (zbuffer \<times> zstate) option" where
  "append_ref_copy r (Simple f g) s =
     (if r_block f = 0 then do {
        s1 \<leftarrow> inc_ref (r_block r) s;
        Some (Simple r g, s1)}
      else if r_block g = 0 then
        (case merge f r of
           Some f' \<Rightarrow> Some (Simple f' g, s)
         | None \<Rightarrow> do {
             s1 \<leftarrow> inc_ref (r_block r) s;
             Some (Simple f r, s1)})
      else
        (case merge g r of
           Some g' \<Rightarrow> Some (Simple f g', s)
         | None \<Rightarrow> do {
             (n, a, fr, s1) \<leftarrow> transfor_to_array f g s;
             array_append_ref_copy r n a fr s1}))"
| "append_ref_copy r (Arr n a fr) s = array_append_ref_copy r n a fr s"

text \<open>In the moving variant the caller's reference is reset or released on every path.\<close>

fun append_ref_move :: "block_ref \<Rightarrow> zbuffer \<Rightarrow> zstate \<Rightarrow> (zbuffer \<times> zstate) option" where
  "append_ref_move r (Simple f g) s =
     (if r_block f = 0 then Some (Simple r g, s)
      else if r_block g = 0 then
        (case merge f r of
           Some f' \<Rightarrow> do {
             (_, s1) \<leftarrow> release r s;
             Some (Simple f' g, s1)}
         | None \<Rightarrow> Some (Simple f r, s))
      else
        (case merge g r of
           Some g' \<Rightarrow> do {
             (_, s1) \<leftarrow> release r s;
             Some (Simple f g', s1)}
         | None \<Rightarrow> do {
             (n, a, fr, s1) \<leftarrow> transfor_to_array f g s;
             array_append_ref_move r n a fr s1}))"
| "append_ref_move r (Arr n a fr) s = array_append_ref_move r n a fr s"

subsection \<open>Appending bytes and buffers\<close>

text \<open>\<open>append_bytes buf copied z s\<close>: the loop of \<open>append(buf, count)\<close> with \<open>count\<close> the
  length of \<open>buf\<close>.\<close>

partial_function (option) append_bytes ::
  "char list \<Rightarrow> nat \<Rightarrow> zbuffer \<Rightarrow> zstate \<Rightarrow> (zbuffer \<times> zstate) option" where
  "append_bytes buf copied z s =
     (if copied < length buf then do {
        (b, s1) \<leftarrow> acquire_block s;
        blk \<leftarrow> blocks s1 b;
        let left = min (u32 (length buf - copied)) (left_space blk);
        check (b_offset blk + left \<le> b_size blk);
        let ref = \<lparr>r_offset = b_offset blk, r_length = left, r_block = b\<rparr>;
        s2 \<leftarrow> upd_block b (\<lambda>blk. blk\<lparr>
                 b_data := mem_write (b_data blk) (b_offset blk) (take left (drop copied buf)),
                 b_offset := clear_low 3 (u32 (u32 (b_offset blk + left) + 7))\<rparr>) s1;
        (z', s3) \<leftarrow> append_ref_copy ref z s2;
        append_bytes buf (copied + left) z' s3}
      else Some (z, s))"

text \<open>Appending references \<open>i, i + 1, \<dots>\<close> of a ring: \<open>k\<close> are left.\<close>

fun append_copy_loop ::
  "nat \<Rightarrow> nat \<Rightarrow> ref_array \<Rightarrow> zbuffer \<Rightarrow> zstate \<Rightarrow> (zbuffer \<times> zstate) option" where
  "append_copy_loop 0 i rh z s = Some (z, s)"
| "append_copy_loop (Suc k) i rh z s = do {
     r \<leftarrow> ref_at rh i;
     (z', s1) \<leftarrow> append_ref_copy r z s;
     append_copy_loop k (Suc i) rh z' s1}"

text \<open>The result pairs the returned count with the new states: 0 when the argument is simple.\<close>

fun append_copy :: "zbuffer \<Rightarrow> zbuffer \<Rightarrow> zstate \<Rightarrow> (nat \<times> zbuffer \<times> zstate) option" where
  "append_copy (Simple f g) z s = do {
     (z1, s1) \<leftarrow> (if r_length f \<noteq> 0 then append_ref_copy f z s else Some (z, s));
     (z2, s2) \<leftarrow> (if r_length g \<noteq> 0 then append_ref_copy g z1 s1 else Some (z1, s1));
     Some (0, z2, s2)}"
| "append_copy (Arr n a fr) z s = do {
     (z1, s1) \<leftarrow> append_copy_loop n 0 a z s;
     Some (n, z1, s1)}"

fun append_move_loop ::
  "nat \<Rightarrow> nat \<Rightarrow> ref_array \<Rightarrow> zbuffer \<Rightarrow> zstate \<Rightarrow> (ref_array \<times> zbuffer \<times> zstate) option" where
  "append_move_loop 0 i rh z s = Some (rh, z, s)"
| "append_move_loop (Suc k) i rh z s = do {
     r \<leftarrow> ref_at rh i;
     (z', s1) \<leftarrow> append_ref_move r z s;
     append_move_loop k (Suc i) (set_ref rh i null_ref) z' s1}"

fun append_move ::
  "zbuffer \<Rightarrow> zbuffer \<Rightarrow> zstate \<Rightarrow> (nat \<times> zbuffer \<times> zbuffer \<times> zstate) option" where
  "append_move (Simple f g) z s = do {
     (z1, s1) \<leftarrow> (if r_length f \<noteq> 0 then append_ref_move f z s
                 else do { (_, s1) \<leftarrow> release f s; Some (z, s1) });
     (z2, s2) \<leftarrow> (if r_length g \<noteq> 0 then append_ref_move g z1 s1
                 else do { (_, s2) \<leftarrow> release g s1; Some (z1, s2) });
     Some (0, z2, Simple null_ref null_ref, s2)}"
| "append_move (Arr n a fr) z s = do {
     (a', z1, s1) \<leftarrow> append_move_loop n 0 a z s;
     Some (n, z1, Arr 0 (reset_array a') fr, s1)}"

subsection \<open>Taking bytes out\<close>

text \<open>\<open>memcpy\<close> from the beginning of a reference; copying nothing touches nothing.\<close>

definition copy_out :: "zstate \<Rightarrow> block_ref \<Rightarrow> nat \<Rightarrow> char list option" where
  "copy_out s r n = (if n = 0 then Some [] else do {
     blk \<leftarrow> blocks s (r_block r);
     check (r_offset r + n \<le> b_size blk);
     Some (mem_read (b_data blk) (r_offset r) n)})"

definition advance :: "nat \<Rightarrow> block_ref \<Rightarrow> block_ref" where
  "advance n r = r\<lparr>r_offset := u32 (r_offset r + n), r_length := sub32 (r_length r) n\<rparr>"

definition simple_popn ::
  "block_ref \<Rightarrow> block_ref \<Rightarrow> nat \<Rightarrow> zstate \<Rightarrow> (char list \<times> zbuffer \<times> zstate) option" where
  "simple_popn f g n s =
     (if r_length f = 0 then Some ([], Simple f g, s)
      else if int (r_length f) > s64 n then do {
        out \<leftarrow> copy_out s f n;
        Some (out, Simple (advance n f) g, s)}
      else do {
        out1 \<leftarrow> copy_out s f (r_length f);
        let n1 = sub64 n (r_length f);
        (f', s1) \<leftarrow> release f s;
        if r_block g = 0 then Some (out1, Simple f' g, s1)
        else if s64 n1 \<ge> int (r_length g) then do {
          out2 \<leftarrow> copy_out s1 g (r_length g);
          (g', s2) \<leftarrow> release g s1;
          Some (out1 @ out2, Simple f' g', s2)}
        else do {
          out2 \<leftarrow> copy_out s1 g n1;
          Some (out1 @ out2, Simple (advance n1 g) null_ref, s1)}})"

text \<open>The loop of \<open>array_popn\<close>: \<open>k\<close> references are left from index \<open>i\<close>; the result is the
  bytes, the index where it stopped, and the ring.\<close>

fun popn_loop ::
  "nat \<Rightarrow> nat \<Rightarrow> ref_array \<Rightarrow> nat \<Rightarrow> zstate \<Rightarrow> (char list \<times> nat \<times> ref_array \<times> zstate) option" where
  "popn_loop 0 i a n s = Some ([], i, a, s)"
| "popn_loop (Suc k) i a n s = do {
     r \<leftarrow> ref_at a i;
     if r_length r > n then do {
       out \<leftarrow> copy_out s r n;
       Some (out, i, set_ref a i (advance n r), s)}
     else do {
       out \<leftarrow> copy_out s r (r_length r);
       (r', s1) \<leftarrow> release r s;
       (out', j, a', s2) \<leftarrow> popn_loop k (Suc i) (set_ref a i r') (n - r_length r) s1;
       Some (out @ out', j, a', s2)}}"

definition array_popn ::
  "nat \<Rightarrow> ref_array \<Rightarrow> block_ref \<Rightarrow> nat \<Rightarrow> zstate \<Rightarrow> (char list \<times> zbuffer \<times> zstate) option" where
  "array_popn k a fr n s = do {
     (out, i, a1, s1) \<leftarrow> popn_loop k 0 a n s;
     let a2 = a1\<lparr>a_nbytes := sub64 (a_nbytes a1) (length out), a_begin := u32 (a_begin a1 + i)\<rparr>;
     Some (out, Arr (sub32 k i) a2 fr, s1)}"

fun popn :: "nat \<Rightarrow> zbuffer \<Rightarrow> zstate \<Rightarrow> (char list \<times> zbuffer \<times> zstate) option" where
  "popn n (Simple f g) s = simple_popn f g n s"
| "popn n (Arr k a fr) s = array_popn k a fr n s"

fun copy_front_refs :: "block_ref option list \<Rightarrow> nat \<Rightarrow> zstate \<Rightarrow> char list option" where
  "copy_front_refs [] n s = Some []"
| "copy_front_refs (ro # rs) n s = do {
     r \<leftarrow> ro;
     if r_length r \<ge> n then copy_out s r n
     else do {
       out \<leftarrow> copy_out s r (r_length r);
       out' \<leftarrow> copy_front_refs rs (n - r_length r) s;
       Some (out @ out')}}"

fun copy_front :: "nat \<Rightarrow> zbuffer \<Rightarrow> zstate \<Rightarrow> char list option" where
  "copy_front n (Simple f g) s = copy_front_refs [Some f, Some g] n s"
| "copy_front n (Arr k a fr) s = copy_front_refs (map (ref_at a) [0..<k]) n s"

subsection \<open>Handing the references out, visiting and destroying\<close>

fun dump_loop ::
  "nat \<Rightarrow> nat \<Rightarrow> ref_array \<Rightarrow> block_ref list \<Rightarrow> zstate \<Rightarrow> (nat \<times> block_ref list \<times> zstate) option" where
  "dump_loop 0 i a q s = Some (0, q, s)"
| "dump_loop (Suc k) i a q s = do {
     r \<leftarrow> ref_at a i;
     if r_length r \<noteq> 0 then do {
       (nr, q', s') \<leftarrow> dump_loop k (Suc i) a (q @ [r]) s;
       Some (Suc nr, q', s')}
     else do {
       (_, s1) \<leftarrow> release r s;
       dump_loop k (Suc i) a q s1}}"

fun dump_refs_to ::
  "zbuffer \<Rightarrow> block_ref list \<Rightarrow> zstate \<Rightarrow> (nat \<times> zbuffer \<times> block_ref list \<times> zstate) option" where
  "dump_refs_to (Simple f g) q s = do {
     (n1, q1, s1) \<leftarrow> (if r_length f \<noteq> 0 then Some (1, q @ [f], s)
                    else do { (_, s1) \<leftarrow> release f s; Some (0, q, s1) });
     (n2, q2, s2) \<leftarrow> (if r_length g \<noteq> 0 then Some (n1 + 1, q1 @ [g], s1)
                    else do { (_, s2) \<leftarrow> release g s1; Some (n1, q1, s2) });
     Some (n2, Simple null_ref null_ref, q2, s2)}"
| "dump_refs_to (Arr n a fr) q s = do {
     (nr, q1, s1) \<leftarrow> dump_loop n 0 a q s;
     (_, s2) \<leftarrow> release fr s1;
     Some (nr, Simple null_ref null_ref, q1, s2)}"

text \<open>\<open>map\<close> calls \<open>f\<close> on the bytes of every reference and returns how many calls it made;
  \<open>'x\<close> is the state behind the callback's \<open>arg\<close>.\<close>

fun map_loop ::
  "(char list \<Rightarrow> 'x \<Rightarrow> 'x) \<Rightarrow> block_ref option list \<Rightarrow> zstate \<Rightarrow> nat \<times> 'x \<Rightarrow> (nat \<times> 'x) option" where
  "map_loop f [] s acc = Some acc"
| "map_loop f (ro # rs) s (nr, x) = do {
     r \<leftarrow> ro;
     bytes \<leftarrow> copy_out s r (r_length r);
     map_loop f rs s (Suc nr, f bytes x)}"

fun map_refs ::
  "(char list \<Rightarrow> 'x \<Rightarrow> 'x) \<Rightarrow> zbuffer \<Rightarrow> zstate \<Rightarrow> 'x \<Rightarrow> (nat \<times> 'x) option" where
  "map_refs f (Simple r g) s x =
     map_loop f (map Some (filter (\<lambda>q. r_block q \<noteq> 0) [r, g])) s (0, x)"
| "map_refs f (Arr n a fr) s x = map_loop f (map (ref_at a) [0..<n]) s (0, x)"

fun release_loop :: "nat \<Rightarrow> nat \<Rightarrow> ref_array \<Rightarrow> zstate \<Rightarrow> zstate option" where
  "release_loop 0 i a s = Some s"
| "release_loop (Suc k) i a s = do {
     r \<leftarrow> ref_at a i;
     (r', s1) \<leftarrow> release r s;
     release_loop k (Suc i) (set_ref a i r') s1}"

fun destroy :: "zbuffer \<Rightarrow> zstate \<Rightarrow> zstate option" where
  "destroy (Simple f g) s = do {
     (_, s1) \<leftarrow> release f s;
     (_, s2) \<leftarrow> release g s1;
     Some s2}"
| "destroy (Arr n a fr) s = do {
     s1 \<leftarrow> release_loop n 0 a s;
     (_, s2) \<leftarrow> release fr s1;
     Some s2}"

subsection \<open>Contents and invariant of a buffer\<close>

definition ring_list :: "nat \<Rightarrow> ref_array \<Rightarrow> block_ref list" where
  "ring_list n a = map (\<lambda>i. the (ref_at a i)) [0..<n]"

fun zrefs :: "zbuffer \<Rightarrow> block_ref list" where
  "zrefs (Simple f g) = filter (\<lambda>r. r_block r \<noteq> 0) [f, g]"
| "zrefs (Arr n a fr) = ring_list n a"

fun owned :: "zbuffer \<Rightarrow> block_ref multiset" where
  "owned (Simple f g) = mset (zrefs (Simple f g))"
| "owned (Arr n a fr) = add_mset fr (mset (zrefs (Arr n a fr)))"

definition content :: "zstate \<Rightarrow> zbuffer \<Rightarrow> char list" where
  "content s z = concat (map (ref_bytes s) (zrefs z))"

definition ring_ok :: "nat \<Rightarrow> ref_array \<Rightarrow> bool" where
  "ring_ok n a = ((\<exists>k \<in> {5..11}. a_cap_mask a = 2 ^ k - 1) \<and> n \<le> a_cap_mask a + 1
     \<and> (\<forall>i < n. ref_at a i \<noteq> None)
     \<and> (n = 0 \<longrightarrow> map_option r_block (ref_at a (sub32 0 1)) = Some 0))"

definition total_length :: "block_ref list \<Rightarrow> nat" where
  "total_length rs = sum_list (map r_length rs)"

fun zok :: "zbuffer \<Rightarrow> bool" where
  "zok (Simple f g) = ((r_block f = 0 \<longrightarrow> f = null_ref \<and> g = null_ref)
     \<and> (r_block g = 0 \<longrightarrow> g = null_ref) \<and> (\<forall>r \<in> set (zrefs (Simple f g)). 0 < r_length r))"
| "zok (Arr n a fr) = (ring_ok n a \<and> a_nbytes a = total_length (ring_list n a) \<and> (\<forall>r \<in> set (ring_list n a). 0 < r_length r))"

text \<open>
  \<open>room m z\<close>: \<open>m\<close> more references can be added safely. A ring that has been popped
  (\<open>begin \<noteq> 0\<close>) must not grow, and no ring may grow beyond 2048 references.
\<close>

fun room :: "nat \<Rightarrow> zbuffer \<Rightarrow> bool" where
  "room m (Simple f g) = (m + 2 \<le> 2048)"
| "room m (Arr n a fr) = (n + m \<le> (if a_begin a = 0 then 2048 else a_cap_mask a + 1))"

lemma ref_index_mod:
  assumes "a_cap_mask a = 2 ^ k - 1" "k \<le> 32"
  shows "ref_index a i = (a_begin a + i) mod 2 ^ k"
  unfolding ref_index_def assms(1) and_mask_mod by (rule mod_u32_pow2 [OF assms(2)])

lemma ring_ok_cases:
  assumes "ring_ok n a"
  obtains k where "5 \<le> k" "k \<le> 11" "a_cap_mask a = 2 ^ k - 1" "n \<le> 2 ^ k"
    "(2::nat) ^ k \<le> 2048" "32 \<le> (2::nat) ^ k"
proof -
  from assms obtain k where k: "5 \<le> k" "k \<le> 11" "a_cap_mask a = 2 ^ k - 1" "n \<le> a_cap_mask a + 1"
    by (auto simp: ring_ok_def)
  moreover have "(2::nat) ^ k \<le> 2 ^ 11" "(2::nat) ^ 5 \<le> 2 ^ k"
    using k(1,2) by (simp_all only: power_increasing one_le_numeral)
  ultimately show ?thesis by (intro that [of k]) auto
qed

lemma ref_index_simps [simp]:
  "ref_index (set_ref a j r) i = ref_index a i"
  "ref_index (a\<lparr>a_nbytes := x\<rparr>) i = ref_index a i"
  "a_cap_mask (set_ref a j r) = a_cap_mask a" "a_begin (set_ref a j r) = a_begin a"
  "a_nbytes (set_ref a j r) = a_nbytes a"
  by (simp_all add: ref_index_def set_ref_def)

lemma ref_at_nbytes [simp]: "ref_at (a\<lparr>a_nbytes := x\<rparr>) i = ref_at a i"
  by (simp add: ref_at_def)

lemma ring_nbytes [simp]:
  "ring_list n (a\<lparr>a_nbytes := x\<rparr>) = ring_list n a"
  "ring_ok n (a\<lparr>a_nbytes := x\<rparr>) = ring_ok n a"
  by (simp_all add: ring_list_def ring_ok_def)

lemma length_ring_list [simp]: "length (ring_list n a) = n"
  by (simp add: ring_list_def)

lemma ref_at_set:
  assumes "a_cap_mask a = 2 ^ k - 1" "k \<le> 11" "i < 2 ^ k" "j < 2 ^ k"
  shows "ref_at (set_ref a i r) j = (if i = j then Some r else ref_at a j)"
proof -
  have "ref_index a i = ref_index a j \<longleftrightarrow> i = j"
    using mod_add_inj [OF assms(3,4)] assms(1,2) by (auto simp: ref_index_mod)
  then show ?thesis unfolding ref_at_def ref_index_simps by (auto simp: set_ref_def)
qed

lemma ring_push:
  assumes ok: "ring_ok n a" and n: "n \<le> a_cap_mask a"
  shows "ring_ok (Suc n) (set_ref a n r)" "ring_list (Suc n) (set_ref a n r) = ring_list n a @ [r]"
proof -
  obtain k where k: "k \<le> 11" "a_cap_mask a = 2 ^ k - 1" "(32::nat) \<le> 2 ^ k"
    using ring_ok_cases [OF ok] by metis
  have at: "ref_at (set_ref a n r) i = (if n = i then Some r else ref_at a i)" if "i \<le> n" for i
    using ref_at_set [OF k(2,1), of n i] that n k by auto
  then show "ring_list (Suc n) (set_ref a n r) = ring_list n a @ [r]"
    by (simp add: ring_list_def)
  show "ring_ok (Suc n) (set_ref a n r)"
    using ok n at by (auto simp: ring_ok_def less_Suc_eq)
qed

lemma ring_set_last:
  assumes ok: "ring_ok (Suc n) a"
  shows "ring_ok (Suc n) (set_ref a n r)"
    "ring_list (Suc n) (set_ref a n r) = ring_list n a @ [r]"
    "ring_list (Suc n) a = ring_list n a @ [the (ref_at a n)]"
proof -
  obtain k where k: "k \<le> 11" "a_cap_mask a = 2 ^ k - 1" "Suc n \<le> 2 ^ k"
    using ring_ok_cases [OF ok] by metis
  have at: "ref_at (set_ref a n r) i = (if n = i then Some r else ref_at a i)" if "i \<le> n" for i
    using ref_at_set [OF k(2,1), of n i] that k by auto
  then show "ring_list (Suc n) (set_ref a n r) = ring_list n a @ [r]"
    by (simp add: ring_list_def)
  show "ring_list (Suc n) a = ring_list n a @ [the (ref_at a n)]" by (simp add: ring_list_def)
  show "ring_ok (Suc n) (set_ref a n r)"
    using ok at by (auto simp: ring_ok_def less_Suc_eq)
qed

lemma copy_ref_array_ring:
  assumes mask: "a_cap_mask a = 2 ^ k - 1" and k: "5 \<le> k" "k \<le> 10" and b: "a_begin a = 0"
    and n: "n = 2 ^ k" and at: "\<forall>i < n. ref_at a i \<noteq> None"
  shows "ring_ok n (copy_ref_array ptr a (2 ^ Suc k))"
    "ring_list n (copy_ref_array ptr a (2 ^ Suc k)) = ring_list n a"
    "n \<le> a_cap_mask (copy_ref_array ptr a (2 ^ Suc k))"
proof -
  let ?a = "copy_ref_array ptr a (2 ^ Suc k)"
  have le: "(2::nat) ^ Suc k \<le> 2 ^ 11" using k by (intro power_increasing) auto
  have mask': "a_cap_mask ?a = 2 ^ Suc k - 1"
    using le by (simp add: copy_ref_array_def wrap_simps)
  have eq: "ref_at ?a i = ref_at a i" if "i < n" for i
  proof -
    have "a_begin ?a = 0" by (simp add: copy_ref_array_def b)
    then have "ref_index ?a i = i" "ref_index a i = i"
      using that n b k ref_index_mod [OF mask', of i] ref_index_mod [OF mask, of i] by simp_all
    moreover have "i \<le> 2 ^ k - 1" using that n by simp
    ultimately show ?thesis by (simp add: ref_at_def copy_ref_array_def mask)
  qed
  then show "ring_list n ?a = ring_list n a" by (simp add: ring_list_def)
  show "n \<le> a_cap_mask ?a" using n mask' by simp
  have "\<exists>k \<in> {5..11}. a_cap_mask ?a = 2 ^ k - 1"
    using k mask' by (intro bexI [of _ "Suc k"]) auto
  then show "ring_ok n ?a" using n mask' eq at unfolding ring_ok_def by simp
qed

subsection \<open>Appending references\<close>

lemma wf_ref_small:
  assumes "wf s cs R" "ref_ok s r"
  shows "r_offset r + r_length r < 65536" "0 < r_block r"
  using assms wf_block [OF assms(1)] by (fastforce simp: ref_ok_def block_ok_def)+

lemma merge_Some:
  assumes m: "merge l r = Some l'" and wf: "wf s cs R" and l: "ref_ok s l" and r: "ref_ok s r"
  shows "r_block l' = r_block l" "r_length l' = r_length l + r_length r" "ref_ok s l'"
    "ref_bytes s l' = ref_bytes s l @ ref_bytes s r"
proof -
  note small = wf_ref_small(1) [OF wf l] wf_ref_small(1) [OF wf r]
  with m have eq: "r_block l = r_block r" "r_offset l + r_length l = r_offset r"
    "l' = l\<lparr>r_length := r_length l + r_length r\<rparr>"
    by (auto simp: merge_def wrap_simps split: if_splits)
  show "r_block l' = r_block l" "r_length l' = r_length l + r_length r" using eq by simp_all
  show "ref_ok s l'" using r eq by (simp add: ref_ok_def add.assoc [symmetric])
  show "ref_bytes s l' = ref_bytes s l @ ref_bytes s r"
    using l eq by (auto simp: ref_bytes_def ref_ok_def mem_read_add)
qed

lemma wf_swap_ref:
  assumes "wf s cs (add_mset l R)" "r_block l' = r_block l" "ref_ok s l'"
  shows "wf s cs (add_mset l' R)"
  using assms by (auto simp: wf_def owners_def)

lemma total_length_simps [simp]:
  "total_length [] = 0" "total_length (r # rs) = r_length r + total_length rs"
  "total_length (rs @ rs') = total_length rs + total_length rs'"
  by (simp_all add: total_length_def)

lemma total_length_bound:
  assumes "wf s cs (mset rs + R)"
  shows "total_length rs \<le> 65535 * length rs"
proof -
  have "\<forall>r \<in> set rs. r_length r \<le> 65535"
    using assms wf_ref [OF assms] wf_ref_small(1) [OF assms] by fastforce
  then show ?thesis by (induction rs) auto
qed

lemma ring_grow:
  assumes ok: "ring_ok n a" and room: "room 1 (Arr n a fr)" and wf: "wf s cs (add_mset fr Q)"
  shows "\<exists>a2 fr2 s2 cs2. (if n > a_cap_mask a then array_resize a fr s else Some (a, fr, s))
      = Some (a2, fr2, s2) \<and> wf s2 cs2 (add_mset fr2 Q) \<and> preserves s cs Q s2 cs2
    \<and> ring_ok n a2 \<and> ring_list n a2 = ring_list n a \<and> n \<le> a_cap_mask a2
    \<and> a_nbytes a2 = a_nbytes a \<and> a_begin a2 = a_begin a \<and> a_cap_mask a \<le> a_cap_mask a2"
proof (cases "n > a_cap_mask a")
  case False
  then show ?thesis using ok wf by fastforce
next
  case True
  obtain k where k: "5 \<le> k" "k \<le> 11" "a_cap_mask a = 2 ^ k - 1" "n \<le> 2 ^ k"
    using ring_ok_cases [OF ok] by metis
  with True room have n: "n = 2 ^ k" "a_begin a = 0" "2 ^ k + 1 \<le> (2048::nat)"
    by (auto split: if_splits)
  have k10: "k \<le> 10"
  proof (rule ccontr)
    assume "\<not> k \<le> 10"
    with k(2) have "k = 11" by simp
    with n(3) show False by simp
  qed
  then have p: "(2::nat) ^ k \<le> 2 ^ 10" by (intro power_increasing) auto
  have sz: "u32 (u32 (a_cap_mask a + 1) * 2) = 2 ^ Suc k"
    using p k(3) by (simp add: wrap_simps)
  have "array_bytes_of (2 ^ Suc k) + 24 < 65536" using p by (simp add: array_bytes_of_def)
  then obtain ptr tmp s1 cs1 where acq: "acquire_block_ref_array (2 ^ Suc k) s = Some (ptr, tmp, s1)"
    and wf1: "wf s1 cs1 (add_mset tmp (add_mset fr Q))" and p1: "preserves s cs (add_mset fr Q) s1 cs1"
    using acquire_block_ref_array_wf [OF wf] by blast
  from wf1 have "wf s1 cs1 (add_mset fr (add_mset tmp Q))" by (simp add: add_mset_commute)
  then obtain s2 cs2 where dec: "dec_ref (r_block fr) s1 = Some s2"
    and wf2: "wf s2 cs2 (add_mset tmp Q)" and p2: "preserves s1 cs1 (add_mset tmp Q) s2 cs2"
    using dec_ref_owned by blast
  have "preserves s cs Q s2 cs2"
    using p1 p2 preserves_mono [of s cs Q "{#fr#}"] preserves_mono [of s1 cs1 Q "{#tmp#}"]
      preserves_trans by simp blast
  moreover have "array_resize a fr s = Some (copy_ref_array ptr a (2 ^ Suc k), tmp, s2)"
    unfolding array_resize_def sz Let_def using acq dec by simp
  moreover have "\<forall>i < n. ref_at a i \<noteq> None" using ok by (simp add: ring_ok_def)
  note copy_ref_array_ring [OF k(3) k(1) k10 n(2) n(1) this, of ptr]
  moreover have "a_nbytes (copy_ref_array ptr a c) = a_nbytes a"
    "a_begin (copy_ref_array ptr a c) = a_begin a" for c
    by (simp_all add: copy_ref_array_def)
  ultimately show ?thesis using True wf2
    by (intro exI [of _ "copy_ref_array ptr a (2 ^ Suc k)"] exI [of _ tmp] exI [of _ s2]
        exI [of _ cs2]) auto
qed

text \<open>What every variant of appending promises: \<open>bytes\<close> follow the old contents.\<close>

definition append_post ::
  "zstate \<Rightarrow> nat list \<Rightarrow> block_ref multiset \<Rightarrow> zbuffer \<Rightarrow> char list \<Rightarrow> zbuffer \<Rightarrow> zstate \<Rightarrow> nat list \<Rightarrow> bool"
where
  "append_post s cs R z bytes z' s' cs' = (wf s' cs' (owned z' + R) \<and> zok z'
     \<and> preserves s cs R s' cs' \<and> content s' z' = content s z @ bytes
     \<and> (\<forall>m. room (Suc m) z \<longrightarrow> room m z'))"

lemma concat_preserved:
  assumes "preserves s cs R s' cs'" "\<forall>r \<in> set rs. live s cs R r"
  shows "concat (map (ref_bytes s') rs) = concat (map (ref_bytes s) rs)"
  using assms preserves_bytes by (metis map_cong)

lemma wf_live: "wf s cs R \<Longrightarrow> r \<in># R \<Longrightarrow> live s cs R r"
  by (simp add: live_def wf_def)

text \<open>The last slot of a ring: the reference before the next one, or a released one.\<close>

lemma ring_last:
  assumes ok: "ring_ok n a" and r: "r_block r \<noteq> 0"
  obtains (empty) l where "n = 0" "ref_at a (sub32 n 1) = Some l" "merge l r = None"
  | (last) m l where "n = Suc m" "ref_at a (sub32 n 1) = Some l" "sub32 n 1 = m"
      "ring_list n a = ring_list m a @ [l]"
proof (cases n)
  case 0
  with ok obtain l where l: "ref_at a (sub32 n 1) = Some l" "r_block l = 0"
    by (auto simp: ring_ok_def)
  then have "merge l r = None" using r by (simp add: merge_def)
  with 0 l empty show ?thesis by blast
next
  case (Suc m)
  obtain k where "n \<le> 2 ^ k" "(2::nat) ^ k \<le> 2048" using ring_ok_cases [OF ok] by metis
  with Suc have "sub32 n 1 = m" by (simp add: sub32_def)
  moreover from ok Suc have "ref_at a m \<noteq> None" by (auto simp: ring_ok_def)
  then obtain l where "ref_at a m = Some l" by blast
  ultimately show ?thesis using last Suc ring_set_last(3) [of m a] ok by auto
qed

lemma ring_push_post:
  assumes ok: "ring_ok n a2" "n \<le> a_cap_mask a2" and pos: "\<forall>q \<in> set (ring_list n a2). 0 < r_length q"
    and len: "0 < r_length r" and nb: "a_nbytes a2 = total_length (ring_list n a2) + r_length r"
    and wf: "wf s' cs' (add_mset r (add_mset fr2 (mset (ring_list n a2) + R)))"
    and pres: "preserves s cs (mset (ring_list n a2) + R) s' cs'"
    and live: "\<forall>q \<in> set (ring_list n a2). live s cs (mset (ring_list n a2) + R) q"
    and bytes: "ref_bytes s' r = ref_bytes s r" and old: "ring_list n a2 = ring_list n a"
    and cap: "a_begin a2 = a_begin a" "a_cap_mask a \<le> a_cap_mask a2"
  shows "append_post s cs R (Arr n a fr) (ref_bytes s r) (Arr (Suc n) (set_ref a2 n r) fr2) s' cs'"
proof -
  note push = ring_push [OF ok, of r]
  have "wf s' cs' (owned (Arr (Suc n) (set_ref a2 n r) fr2) + R)"
    using wf push by (simp add: add_mset_commute)
  moreover have "zok (Arr (Suc n) (set_ref a2 n r) fr2)"
    using push pos len nb by simp
  moreover have "preserves s cs R s' cs'" using pres preserves_mono by (metis add.commute)
  moreover have "content s' (Arr (Suc n) (set_ref a2 n r) fr2) = content s (Arr n a fr) @ ref_bytes s r"
    using push(2) concat_preserved [OF pres live] bytes old by (simp add: content_def)
  moreover have "room m (Arr (Suc n) (set_ref a2 n r) fr2)" if "room (Suc m) (Arr n a fr)" for m
    using that cap by (auto split: if_splits)
  ultimately show ?thesis by (simp add: append_post_def)
qed

lemma ring_count: "ring_ok n a \<Longrightarrow> u32 (n + 1) = Suc n" "ring_ok n a \<Longrightarrow> n \<le> 2048"
  by (elim ring_ok_cases, simp add: wrap_simps)+

lemma nbytes_no_wrap:
  assumes ok: "ring_ok n a" and wf: "wf s cs (mset (ring_list n a) + Q)" and r: "ref_ok s r"
  shows "u64 (total_length (ring_list n a) + r_length r) = total_length (ring_list n a) + r_length r"
  using wf_ref_small(1) [OF wf r] total_length_bound [OF wf] ring_count(2) [OF ok]
  by (simp add: wrap_simps)

lemma ring_merge_post:
  assumes z: "zok (Arr (Suc m) a fr)" and wf: "wf s cs (owned (Arr (Suc m) a fr) + R)"
    and l: "ring_list (Suc m) a = ring_list m a @ [l]" and m: "merge l r = Some l'"
    and r: "ref_ok s r"
  defines "z' \<equiv> Arr (Suc m) (set_ref (a\<lparr>a_nbytes := u64 (a_nbytes a + r_length r)\<rparr>) m l') fr"
  shows "append_post s cs R (Arr (Suc m) a fr) (ref_bytes s r) z' s cs"
proof -
  have ok: "ring_ok (Suc m) a" using z by simp
  have lok: "ref_ok s l" using wf_ref [OF wf, of l] l by simp
  note mg = merge_Some [OF m wf lok r]
  let ?a = "set_ref (a\<lparr>a_nbytes := u64 (a_nbytes a + r_length r)\<rparr>) m l'"
  have ring: "ring_ok (Suc m) ?a" "ring_list (Suc m) ?a = ring_list m a @ [l']"
    using ring_set_last(1,2) [of m "a\<lparr>a_nbytes := u64 (a_nbytes a + r_length r)\<rparr>" l'] ok by simp_all
  have "wf s cs (add_mset l (add_mset fr (mset (ring_list m a)) + R))"
    using wf l by (simp add: add_mset_commute)
  then have wf': "wf s cs (add_mset l' (add_mset fr (mset (ring_list m a)) + R))"
    by (rule wf_swap_ref) (simp_all add: mg)
  have "u64 (a_nbytes a + r_length r) = total_length (ring_list m a) + r_length l'"
    using nbytes_no_wrap [OF ok _ r, of cs "add_mset fr R"] z wf mg(2) l by simp
  then have "zok z'" using ring z l mg(2) by (auto simp: z'_def)
  moreover have "content s z' = content s (Arr (Suc m) a fr) @ ref_bytes s r"
    using ring l mg(4) by (simp add: z'_def content_def)
  moreover have "wf s cs (owned z' + R)" using wf' ring by (simp add: z'_def add_mset_commute)
  ultimately show ?thesis by (auto simp: append_post_def z'_def split: if_splits)
qed

lemma array_append_ref_copy_ok:
  assumes z: "zok (Arr n a fr)" and wf: "wf s cs (owned (Arr n a fr) + R)"
    and r: "live s cs R r" "0 < r_length r" and room: "room 1 (Arr n a fr)"
  shows "\<exists>z' s' cs'. array_append_ref_copy r n a fr s = Some (z', s')
    \<and> append_post s cs R (Arr n a fr) (ref_bytes s r) z' s' cs'"
proof -
  have ok: "ring_ok n a" and rok: "ref_ok s r" using z r(1) by (simp_all add: live_def)
  have rb: "r_block r \<noteq> 0" using wf_ref_small(2) [OF wf rok] by simp
  obtain l where l: "ref_at a (sub32 n 1) = Some l"
    and cas: "merge l r = None \<or> (\<exists>m l'. n = Suc m \<and> sub32 n 1 = m \<and> merge l r = Some l'
      \<and> ring_list n a = ring_list m a @ [l])"
    using ring_last [OF ok rb] by (metis not_None_eq)
  from cas show ?thesis
  proof
    assume "\<exists>m l'. n = Suc m \<and> sub32 n 1 = m \<and> merge l r = Some l'
      \<and> ring_list n a = ring_list m a @ [l]"
    then obtain m l' where m: "n = Suc m" "sub32 n 1 = m" "merge l r = Some l'"
      "ring_list (Suc m) a = ring_list m a @ [l]" by blast
    then show ?thesis using ring_merge_post [of m a fr s cs R l r l'] z wf rok l
      by (auto simp: array_append_ref_copy_def)
  next
    assume none: "merge l r = None"
    let ?a1 = "a\<lparr>a_nbytes := u64 (a_nbytes a + r_length r)\<rparr>"
    let ?Q = "mset (ring_list n a) + R"
    have wfQ: "wf s cs (add_mset fr ?Q)" using wf by simp
    have room1: "room 1 (Arr n ?a1 fr)" using room by (simp split: if_splits)
    obtain a2 fr2 s2 cs2 where g: "(if n > a_cap_mask ?a1 then array_resize ?a1 fr s
        else Some (?a1, fr, s)) = Some (a2, fr2, s2)"
      "wf s2 cs2 (add_mset fr2 ?Q)" "preserves s cs ?Q s2 cs2"
      and a2: "ring_ok n a2" "ring_list n a2 = ring_list n a" "n \<le> a_cap_mask a2"
        "a_nbytes a2 = a_nbytes ?a1" "a_begin a2 = a_begin ?a1" "a_cap_mask ?a1 \<le> a_cap_mask a2"
      using ring_grow [of n ?a1 fr s cs ?Q] ok room1 wfQ by auto
    have lv: "live s cs ?Q r" using r(1) by (auto simp: live_def)
    have "ref_ok s2 r" using preserves_live [OF g(3) lv] by (simp add: live_def)
    then obtain s3 where inc: "inc_ref (r_block r) s2 = Some s3"
      "wf s3 cs2 (add_mset r (add_mset fr2 ?Q))" "preserves s2 cs2 ?Q s3 cs2"
      "ref_bytes s3 r = ref_bytes s2 r" using inc_ref_owned [OF g(2)] by blast
    have pres: "preserves s cs ?Q s3 cs2" using g(3) inc(3) by (rule preserves_trans)
    have nb: "u64 (a_nbytes a + r_length r) = total_length (ring_list n a) + r_length r"
      using nbytes_no_wrap [OF ok _ rok, of cs "add_mset fr R"] z wfQ by simp
    have lvs: "\<forall>q \<in> set (ring_list n a2). live s cs (mset (ring_list n a2) + R) q"
      using wf_live [OF wfQ] a2(2) by (auto simp: live_def)
    have bytes: "ref_bytes s3 r = ref_bytes s r" using pres lv by (rule preserves_bytes)
    have "append_post s cs R (Arr n a fr) (ref_bytes s r) (Arr (Suc n) (set_ref a2 n r) fr2) s3 cs2"
      using ring_push_post [where a = a and fr = fr, OF a2(1,3) _ r(2) _ _ _ lvs bytes a2(2)]
        z a2 nb inc(2) pres by simp
    moreover have "array_append_ref_copy r n a fr s =
        Some (Arr (u32 (n + 1)) (set_ref a2 n r) fr2, s3)"
      using l none g(1) inc(1) by (simp add: array_append_ref_copy_def split: if_splits)
    ultimately show ?thesis using ring_count(1) [OF ok] by auto
  qed
qed

lemma zrefs_owned: "r \<in> set (zrefs z) \<Longrightarrow> r \<in># owned z"
  by (cases z) auto

lemma content_preserved:
  assumes "preserves s cs (owned z + R) s' cs'" "wf s cs (owned z + R)"
  shows "content s' z = content s z"
  unfolding content_def
  by (rule concat_preserved [OF assms(1)]) (simp add: wf_live [OF assms(2)] zrefs_owned)

lemma preserves_union: "preserves s cs (R' + R) s' cs' \<Longrightarrow> preserves s cs R s' cs'"
  by (metis add.commute preserves_mono)

lemma append_post_step:
  assumes post: "append_post s0 cs0 R z bytes z' s cs" and wf: "wf s1 cs1 (owned z' + R)"
    and pres: "preserves s cs (owned z' + R) s1 cs1"
  shows "append_post s0 cs0 R z bytes z' s1 cs1"
  using post wf content_preserved [OF pres] preserves_union [OF pres]
  by (auto simp: append_post_def intro: preserves_trans)

lemma release_owned:
  assumes "wf s cs (add_mset r R)"
  shows "\<exists>s1 cs1. release r s = Some (null_ref, s1) \<and> wf s1 cs1 R \<and> preserves s cs R s1 cs1"
proof -
  have "0 < r_block r" using wf_ref_small(2) [OF assms] wf_ref [OF assms, of r] by simp
  then show ?thesis using dec_ref_owned [OF assms] by (auto simp: release_def)
qed

lemma append_post_release:
  assumes post: "append_post s0 cs0 (add_mset r R) z bytes z' s cs"
  shows "\<exists>s1 cs1. release r s = Some (null_ref, s1) \<and> append_post s0 cs0 R z bytes z' s1 cs1"
proof -
  from post have "wf s cs (add_mset r (owned z' + R))" by (simp add: append_post_def)
  from release_owned [OF this] obtain s1 cs1 where
    s1: "release r s = Some (null_ref, s1)" "wf s1 cs1 (owned z' + R)"
      "preserves s cs (owned z' + R) s1 cs1" by blast
  have "append_post s0 cs0 R z bytes z' s cs"
    using post wf_mono [of s cs "owned z' + R" "{#r#}"] preserves_mono [of s0 cs0 R "{#r#}"]
    by (simp add: append_post_def)
  with s1 append_post_step show ?thesis by blast
qed

lemma array_append_ref_move_ok:
  assumes z: "zok (Arr n a fr)" and wf: "wf s cs (owned (Arr n a fr) + add_mset r R)"
    and r: "0 < r_length r" and room: "room 1 (Arr n a fr)"
  shows "\<exists>z' s' cs'. array_append_ref_move r n a fr s = Some (z', s')
    \<and> append_post s cs R (Arr n a fr) (ref_bytes s r) z' s' cs'"
proof -
  have ok: "ring_ok n a" and rok: "ref_ok s r" using z wf_ref [OF wf, of r] by simp_all
  have rb: "r_block r \<noteq> 0" using wf_ref_small(2) [OF wf rok] by simp
  obtain l where l: "ref_at a (sub32 n 1) = Some l"
    and cas: "merge l r = None \<or> (\<exists>m l'. n = Suc m \<and> sub32 n 1 = m \<and> merge l r = Some l'
      \<and> ring_list n a = ring_list m a @ [l])"
    using ring_last [OF ok rb] by (metis not_None_eq)
  from cas show ?thesis
  proof
    assume "\<exists>m l'. n = Suc m \<and> sub32 n 1 = m \<and> merge l r = Some l'
      \<and> ring_list n a = ring_list m a @ [l]"
    then obtain m l' where m: "n = Suc m" "sub32 n 1 = m" "merge l r = Some l'"
      "ring_list (Suc m) a = ring_list m a @ [l]" by blast
    from append_post_release [OF ring_merge_post [OF z [unfolded m(1)] wf [unfolded m(1)] m(4,3) rok]]
    show ?thesis using m l by (auto simp: array_append_ref_move_def)
  next
    assume none: "merge l r = None"
    let ?a1 = "a\<lparr>a_nbytes := u64 (a_nbytes a + r_length r)\<rparr>"
    let ?Q = "mset (ring_list n a) + add_mset r R"
    have wfQ: "wf s cs (add_mset fr ?Q)" using wf by (simp add: add_mset_commute)
    have room1: "room 1 (Arr n ?a1 fr)" using room by (simp split: if_splits)
    obtain a2 fr2 s2 cs2 where g: "(if n > a_cap_mask ?a1 then array_resize ?a1 fr s
        else Some (?a1, fr, s)) = Some (a2, fr2, s2)"
      "wf s2 cs2 (add_mset fr2 ?Q)" "preserves s cs ?Q s2 cs2"
      and a2: "ring_ok n a2" "ring_list n a2 = ring_list n a" "n \<le> a_cap_mask a2"
        "a_nbytes a2 = a_nbytes ?a1" "a_begin a2 = a_begin ?a1" "a_cap_mask ?a1 \<le> a_cap_mask a2"
      using ring_grow [of n ?a1 fr s cs ?Q] ok room1 wfQ by auto
    have nb: "u64 (a_nbytes a + r_length r) = total_length (ring_list n a) + r_length r"
      using nbytes_no_wrap [OF ok _ rok, of cs "add_mset fr (add_mset r R)"] z wfQ by simp
    have pres: "preserves s cs (mset (ring_list n a2) + R) s2 cs2"
      using g(3) a2(2) preserves_mono [of s cs _ "{#r#}"] by simp
    have lvs: "\<forall>q \<in> set (ring_list n a2). live s cs (mset (ring_list n a2) + R) q"
      using wf_live [OF wfQ] a2(2) by (auto simp: live_def)
    have bytes: "ref_bytes s2 r = ref_bytes s r"
      using g(3) by (rule preserves_bytes) (use wf_live [OF wfQ, of r] in \<open>simp add: live_def\<close>)
    have "append_post s cs R (Arr n a fr) (ref_bytes s r) (Arr (Suc n) (set_ref a2 n r) fr2) s2 cs2"
      using ring_push_post [where a = a and fr = fr, OF a2(1,3) _ r _ _ pres lvs bytes a2(2)]
        z a2 nb g(2) by (simp add: add_mset_commute)
    moreover have "array_append_ref_move r n a fr s =
        Some (Arr (u32 (n + 1)) (set_ref a2 n r) fr2, s2)"
      using l none g(1) by (simp add: array_append_ref_move_def split: if_splits)
    ultimately show ?thesis using ring_count(1) [OF ok] by auto
  qed
qed

lemma transfor_to_array_ok:
  assumes z: "zok (Simple f g)" and fg: "r_block f \<noteq> 0" "r_block g \<noteq> 0"
    and wf: "wf s cs (owned (Simple f g) + R)"
  shows "\<exists>a fr s1 cs1. transfor_to_array f g s = Some (2, a, fr, s1) \<and> zok (Arr 2 a fr)
    \<and> wf s1 cs1 (owned (Arr 2 a fr) + R) \<and> preserves s cs (owned (Simple f g) + R) s1 cs1
    \<and> content s1 (Arr 2 a fr) = content s (Simple f g) \<and> a_begin a = 0
    \<and> ring_list 2 a = [f, g]"
proof -
  have "array_bytes_of kInitBlockRefArraySize + 24 < 65536"
    by (simp add: array_bytes_of_def kInitBlockRefArraySize_def)
  then obtain ptr fr s1 cs1 where acq: "acquire_block_ref_array kInitBlockRefArraySize s = Some (ptr, fr, s1)"
    "wf s1 cs1 (add_mset fr (owned (Simple f g) + R))" "preserves s cs (owned (Simple f g) + R) s1 cs1"
    using acquire_block_ref_array_wf [OF wf] by blast
  let ?a0 = "new_ref_array ptr kInitBlockRefArraySize"
  have mask: "a_cap_mask ?a0 = 2 ^ 5 - 1" "a_begin ?a0 = 0"
    by (simp_all add: new_ref_array_def kInitBlockRefArraySize_def wrap_simps)
  define a1 where "a1 = (set_ref ?a0 0 f)\<lparr>a_nbytes := r_length f\<rparr>"
  define a2 where "a2 = (set_ref a1 1 g)\<lparr>a_nbytes := r_length f + r_length g\<rparr>"
  have small: "r_offset f + r_length f < 65536" "r_offset g + r_length g < 65536"
    using wf_ref_small(1) [OF wf] wf_ref [OF wf] fg by auto
  have push: "push_ref g (push_ref f (0, ?a0)) = (2, a2)"
    using fg small by (simp add: push_ref_def a1_def a2_def new_ref_array_def wrap_simps)
  have mask1: "a_cap_mask a1 = 2 ^ 5 - 1" by (simp add: a1_def mask)
  have at1: "ref_at a1 0 = Some f"
    using ref_at_set [OF mask(1), of 0 0 f] by (simp add: a1_def)
  have at2: "ref_at a2 0 = Some f" "ref_at a2 1 = Some g"
    using ref_at_set [OF mask1, of 1 0 g] ref_at_set [OF mask1, of 1 1 g] at1 by (simp_all add: a2_def)
  have "\<forall>i < (2::nat). ref_at a2 i \<noteq> None" using at2 by (auto simp: less_2_cases_iff)
  moreover have m2: "a_cap_mask a2 = 2 ^ 5 - 1" "a_begin a2 = 0" by (simp_all add: a2_def a1_def mask)
  moreover have "\<exists>k \<in> {5..11}. a_cap_mask a2 = 2 ^ k - 1" by (rule bexI [of _ 5]) (simp_all add: m2)
  ultimately have "ring_ok 2 a2" by (simp add: ring_ok_def)
  moreover have ring: "ring_list 2 a2 = [f, g]" using at2 by (simp add: ring_list_def numeral_2_eq_2)
  moreover have "a_nbytes a2 = r_length f + r_length g" by (simp add: a2_def)
  ultimately have "zok (Arr 2 a2 fr)" using z fg by auto
  moreover have "transfor_to_array f g s = Some (2, a2, fr, s1)"
    using acq(1) push by (simp add: transfor_to_array_def)
  moreover have "content s1 (Arr 2 a2 fr) = content s (Simple f g)"
    using content_preserved [OF acq(3) wf] ring fg by (simp add: content_def)
  ultimately show ?thesis using acq(2,3) ring fg m2 by auto
qed

lemma append_post_via_array:
  assumes post: "append_post s1 cs1 R (Arr 2 a fr) bytes z' s' cs'"
    and pres: "preserves s cs (owned (Simple f g) + R) s1 cs1"
    and cont: "content s1 (Arr 2 a fr) = content s (Simple f g)" and b: "a_begin a = 0"
  shows "append_post s cs R (Simple f g) bytes z' s' cs'"
proof -
  have "preserves s cs R s' cs'"
    using preserves_union [OF pres] post preserves_trans unfolding append_post_def by blast
  moreover have "room m z'" if "room (Suc m) (Simple f g)" for m
    using post that b by (simp add: append_post_def)
  ultimately show ?thesis using post cont by (simp add: append_post_def)
qed

lemma append_ref_copy_ok:
  assumes z: "zok z" and wf: "wf s cs (owned z + R)"
    and r: "live s cs R r" "0 < r_length r" and room: "room 1 z"
  shows "\<exists>z' s' cs'. append_ref_copy r z s = Some (z', s')
    \<and> append_post s cs R z (ref_bytes s r) z' s' cs'"
proof (cases z)
  case (Arr n a fr)
  then show ?thesis using array_append_ref_copy_ok assms by auto
next
  case (Simple f g)
  have rok: "ref_ok s r" using r by (simp add: live_def)
  have rb: "r_block r \<noteq> 0" using wf_ref_small(2) [OF wf rok] by simp
  obtain s1 where inc: "inc_ref (r_block r) s = Some s1"
    "wf s1 cs (add_mset r (owned z + R))" "preserves s cs (owned z + R) s1 cs"
    "\<And>q. ref_bytes s1 q = ref_bytes s q" using inc_ref_owned [OF wf rok] by blast
  show ?thesis
  proof (cases "r_block f = 0 \<or> r_block g = 0 \<and> merge f r = None")
    case True
    define z' where "z' = (if r_block f = 0 then Simple r g else Simple f r)"
    have refs: "zrefs z' = zrefs z @ [r]" using True z Simple rb
      by (auto simp: z'_def null_ref_def)
    have "owned z' = add_mset r (owned z)"
      using refs Simple by (cases z') (auto simp: z'_def split: if_splits)
    moreover have "content s1 z' = content s z @ ref_bytes s r"
      using refs inc(4) by (simp add: content_def cong: map_cong)
    moreover have "zok z'" using True z Simple rb r(2) by (auto simp: z'_def null_ref_def)
    ultimately have "append_post s cs R z (ref_bytes s r) z' s1 cs"
      using inc(2) preserves_union [OF inc(3)] Simple by (auto simp: append_post_def z'_def)
    moreover have "append_ref_copy r z s = Some (z', s1)"
      using True Simple inc(1) by (auto simp: z'_def)
    ultimately show ?thesis by blast
  next
    case False
    then have f: "r_block f \<noteq> 0" by simp
    show ?thesis
    proof (cases "r_block g = 0")
      case True
      with False obtain f' where m: "merge f r = Some f'" by auto
      have "ref_ok s f" using wf_ref [OF wf, of f] Simple f by simp
      note mg = merge_Some [OF m wf this rok]
      have "wf s cs (add_mset f' R)"
        by (rule wf_swap_ref [of _ _ f]) (use wf Simple f True mg in auto)
      then have "append_post s cs R z (ref_bytes s r) (Simple f' g) s cs"
        using Simple f True mg z r(2) by (auto simp: append_post_def content_def)
      then show ?thesis using Simple f True m by auto
    next
      case g: False
      show ?thesis
      proof (cases "merge g r")
        case (Some g')
        have "ref_ok s g" using wf_ref [OF wf, of g] Simple g by simp
        note mg = merge_Some [OF Some wf this rok]
        have "wf s cs (add_mset g (add_mset f R))" using wf Simple f g by (simp add: add_mset_commute)
        then have "wf s cs (add_mset g' (add_mset f R))"
          by (rule wf_swap_ref) (use mg in auto)
        then have "append_post s cs R z (ref_bytes s r) (Simple f g') s cs"
          using Simple f g mg z r(2) by (auto simp: append_post_def content_def add_mset_commute)
        then show ?thesis using Simple f g Some by auto
      next
        case None
        obtain a fr s1 cs1 where t: "transfor_to_array f g s = Some (2, a, fr, s1)" "zok (Arr 2 a fr)"
          "wf s1 cs1 (owned (Arr 2 a fr) + R)" "preserves s cs (owned (Simple f g) + R) s1 cs1"
          "content s1 (Arr 2 a fr) = content s (Simple f g)" "a_begin a = 0"
          using transfor_to_array_ok [of f g s cs R] z wf Simple f g by auto
        note pR = preserves_union [OF t(4)]
        obtain z' s' cs' where app: "array_append_ref_copy r 2 a fr s1 = Some (z', s')"
          "append_post s1 cs1 R (Arr 2 a fr) (ref_bytes s1 r) z' s' cs'"
          using array_append_ref_copy_ok [OF t(2,3) preserves_live [OF pR r(1)] r(2)] t(6) by auto
        moreover have "ref_bytes s1 r = ref_bytes s r" using pR r(1) by (rule preserves_bytes)
        ultimately have "append_post s cs R z (ref_bytes s r) z' s' cs'"
          using append_post_via_array [OF app(2) t(4,5,6)] Simple by simp
        then show ?thesis using Simple f g None t(1) app(1) by auto
      qed
    qed
  qed
qed

lemma append_ref_move_ok:
  assumes z: "zok z" and wf: "wf s cs (owned z + add_mset r R)"
    and r: "0 < r_length r" and room: "room 1 z"
  shows "\<exists>z' s' cs'. append_ref_move r z s = Some (z', s')
    \<and> append_post s cs R z (ref_bytes s r) z' s' cs'"
proof (cases z)
  case (Arr n a fr)
  then show ?thesis using array_append_ref_move_ok assms by auto
next
  case (Simple f g)
  have rok: "ref_ok s r" using wf_ref [OF wf, of r] by simp
  have rb: "r_block r \<noteq> 0" using wf_ref_small(2) [OF wf rok] by simp
  consider (put) "r_block f = 0 \<or> r_block g = 0 \<and> merge f r = None"
    | (merge1) f' where "r_block f \<noteq> 0" "r_block g = 0" "merge f r = Some f'"
    | (merge2) g' where "r_block f \<noteq> 0" "r_block g \<noteq> 0" "merge g r = Some g'"
    | (grow) "r_block f \<noteq> 0" "r_block g \<noteq> 0" "merge g r = None" by fastforce
  then show ?thesis
  proof cases
    case put
    define z' where "z' = (if r_block f = 0 then Simple r g else Simple f r)"
    have refs: "zrefs z' = zrefs z @ [r]" using put z Simple rb
      by (auto simp: z'_def null_ref_def)
    have "owned z' = add_mset r (owned z)"
      using refs Simple by (cases z') (auto simp: z'_def split: if_splits)
    moreover have "content s z' = content s z @ ref_bytes s r" using refs by (simp add: content_def)
    moreover have "zok z'" using put z Simple rb r by (auto simp: z'_def null_ref_def)
    ultimately have "append_post s cs R z (ref_bytes s r) z' s cs"
      using wf Simple by (auto simp: append_post_def z'_def)
    moreover have "append_ref_move r z s = Some (z', s)"
      using put Simple by (auto simp: z'_def)
    ultimately show ?thesis by blast
  next
    case merge1
    have "ref_ok s f" using wf_ref [OF wf, of f] Simple merge1 by simp
    note mg = merge_Some [OF merge1(3) wf this rok]
    have "wf s cs (add_mset f' (add_mset r R))"
      by (rule wf_swap_ref [of _ _ f]) (use wf Simple merge1 mg in \<open>auto simp: add_mset_commute\<close>)
    then have "append_post s cs (add_mset r R) z (ref_bytes s r) (Simple f' g) s cs"
      using Simple merge1 mg z r by (auto simp: append_post_def content_def add_mset_commute)
    from append_post_release [OF this] show ?thesis using Simple merge1 by auto
  next
    case merge2
    have "ref_ok s g" using wf_ref [OF wf, of g] Simple merge2 by simp
    note mg = merge_Some [OF merge2(3) wf this rok]
    have "wf s cs (add_mset g (add_mset f (add_mset r R)))"
      using wf Simple merge2 by (simp add: add_mset_commute)
    then have "wf s cs (add_mset g' (add_mset f (add_mset r R)))"
      by (rule wf_swap_ref) (use mg in auto)
    then have "append_post s cs (add_mset r R) z (ref_bytes s r) (Simple f g') s cs"
      using Simple merge2 mg z r by (auto simp: append_post_def content_def add_mset_commute)
    from append_post_release [OF this] show ?thesis using Simple merge2 by auto
  next
    case grow
    obtain a fr s1 cs1 where t: "transfor_to_array f g s = Some (2, a, fr, s1)" "zok (Arr 2 a fr)"
      "wf s1 cs1 (owned (Arr 2 a fr) + add_mset r R)"
      "preserves s cs (owned (Simple f g) + add_mset r R) s1 cs1"
      "content s1 (Arr 2 a fr) = content s (Simple f g)" "a_begin a = 0"
      using transfor_to_array_ok [of f g s cs "add_mset r R"] z wf Simple grow by auto
    obtain z' s' cs' where app: "array_append_ref_move r 2 a fr s1 = Some (z', s')"
      "append_post s1 cs1 R (Arr 2 a fr) (ref_bytes s1 r) z' s' cs'"
      using array_append_ref_move_ok [OF t(2,3) r] t(6) by auto
    moreover have "ref_bytes s1 r = ref_bytes s r"
      using t(4) by (rule preserves_bytes) (use wf_live [OF wf] Simple in simp)
    moreover have "preserves s cs (owned (Simple f g) + R) s1 cs1"
      using t(4) preserves_mono [of s cs "owned (Simple f g) + R" "{#r#}"] by simp
    ultimately have "append_post s cs R z (ref_bytes s r) z' s' cs'"
      using append_post_via_array [OF app(2) _ t(5,6)] Simple by simp
    then show ?thesis using Simple grow t(1) app(1) by auto
  qed
qed

subsection \<open>Appending bytes\<close>

lemma content_keeps: "keeps s s' (owned z + R) \<Longrightarrow> content s' z = content s z"
  by (auto simp: content_def keeps_def zrefs_owned intro!: arg_cong [of _ _ concat])

lemma keeps_union: "keeps s s' (R' + R) \<Longrightarrow> keeps s s' R"
  by (simp add: keeps_def)

lemma room_mono: "m \<le> m' \<Longrightarrow> room m' z \<Longrightarrow> room m z"
  by (cases z) (auto split: if_splits)

text \<open>Writing \<open>xs\<close> at the write position of a cached block and moving the position past it.\<close>

lemma write_block:
  assumes wf: "wf s cs R" and blk: "blocks s b = Some blk" and b: "b \<in> set cs"
    and fits: "b_offset blk + length xs \<le> b_capacity blk" and xs: "xs \<noteq> []"
  defines "blk' \<equiv> blk\<lparr>b_data := mem_write (b_data blk) (b_offset blk) xs,
      b_offset := clear_low 3 (u32 (u32 (b_offset blk + length xs) + 7))\<rparr>"
    and "r \<equiv> \<lparr>r_offset = b_offset blk, r_length = length xs, r_block = b\<rparr>"
  defines "s' \<equiv> s\<lparr>blocks := (blocks s)(b \<mapsto> blk')\<rparr>"
  shows "wf s' cs R" "keeps s s' R" "live s' cs Q r" "ref_bytes s' r = xs"
proof -
  note ok = wf_block [OF wf blk]
  have off: "b_offset blk' = clear_low 3 (b_offset blk + length xs + 7)"
    using fits ok(3) by (simp add: blk'_def block_ok_def wrap_simps)
  then have pos: "b_offset blk + length xs \<le> b_offset blk'" "b_offset blk' \<le> b_capacity blk"
    using align8_bounds(1) [of "b_offset blk + length xs"]
      align8_le_multiple [of "b_offset blk + length xs" "b_capacity blk"] fits ok(3)
    by (auto simp: block_ok_def)
  have bound: "q \<in># R \<Longrightarrow> r_block q = b \<Longrightarrow> r_offset q + r_length q \<le> b_offset blk" for q
    using wf_ref_bound [OF wf _ blk] by blast
  show "wf s' cs R" unfolding s'_def
  proof (rule wf_update_block [OF wf blk])
    show "block_ok blk'" using pos ok(3) by (simp add: block_ok_def blk'_def)
    show "r_offset q + r_length q \<le> b_offset blk'" if "q \<in># R" "r_block q = b" for q
      using bound [OF that] pos by simp
  qed (use ok wf_ref [OF wf] in \<open>auto simp: blk'_def\<close>)
  show "keeps s s' R"
    using bound blk by (auto simp: keeps_def ref_bytes_def s'_def blk'_def mem_simps)
  show "live s' cs Q r" using pos b by (simp add: live_def ref_ok_def s'_def r_def)
  show "ref_bytes s' r = xs" by (simp add: ref_bytes_def s'_def r_def blk'_def mem_simps)
qed

lemma append_bytes_ok:
  assumes "zok z" "wf s cs (owned z + R)" "length buf < 4294967296"
    "room ((length buf - copied) div 8 + 1) z"
  shows "\<exists>z' s' cs'. append_bytes buf copied z s = Some (z', s') \<and> wf s' cs' (owned z' + R)
    \<and> zok z' \<and> keeps s s' R \<and> content s' z' = content s z @ drop copied buf"
  using assms
proof (induction "length buf - copied" arbitrary: copied z s cs rule: less_induct)
  case less
  show ?case
  proof (cases "copied < length buf")
    case False
    then show ?thesis using less.prems by (subst append_bytes.simps) auto
  next
    case True
    obtain b s1 cs1 blk where acq: "acquire_block s = Some (b, s1)" "wf s1 (b # cs1) (owned z + R)"
      "blocks s1 b = Some blk" "\<not> full blk" "keeps s s1 (owned z + R)"
      using acquire_block_wf [OF less.prems(2)] by blast
    have ok: "block_ok blk" using wf_block(3) [OF acq(2,3)] .
    define left where "left = min (u32 (length buf - copied)) (left_space blk)"
    define xs where "xs = take left (drop copied buf)"
    have left: "0 < left" "left \<le> length buf - copied" "b_offset blk + left \<le> b_capacity blk"
      "left < length buf - copied \<Longrightarrow> 8 \<le> left"
      using acq(4) ok True less.prems(3) unfolding left_def
      by (auto simp: full_iff left_space_eq wrap_simps block_ok_def)
    then have xs: "length xs = left" "xs \<noteq> []" by (auto simp: xs_def)
    note w = write_block [OF acq(2,3) list.set_intros(1) left(3) [folded xs(1)] xs(2), unfolded xs(1)]
    let ?r = "\<lparr>r_offset = b_offset blk, r_length = left, r_block = b\<rparr>"
    let ?s2 = "s1\<lparr>blocks := (blocks s1)(b \<mapsto> blk\<lparr>b_data := mem_write (b_data blk) (b_offset blk) xs,
      b_offset := clear_low 3 (u32 (u32 (b_offset blk + left) + 7))\<rparr>)\<rparr>"
    have "room 1 z" using less.prems(4) by (rule room_mono [rotated]) simp
    then obtain z' s3 cs3 where app: "append_ref_copy ?r z ?s2 = Some (z', s3)"
      "append_post ?s2 (b # cs1) R z xs z' s3 cs3"
      using append_ref_copy_ok [OF less.prems(1) w(1) w(3)] left(1) w(4) by auto
    have kR: "keeps s s3 R"
    proof -
      have "keeps ?s2 s3 R"
        using app(2) preserves_keeps [OF wf_mono [of _ _ R "owned z"]] w(1)
        by (auto simp: append_post_def add.commute)
      then show ?thesis
        using keeps_union [OF acq(5)] keeps_union [OF w(2)] keeps_trans by blast
    qed
    have cont: "content s3 z' = content s z @ xs"
      using app(2) content_keeps [OF w(2)] content_keeps [OF acq(5)] by (simp add: append_post_def)
    have step: "append_bytes buf copied z s = append_bytes buf (copied + left) z' s3"
      using True acq(1,3) app(1) left(3) ok
      by (subst append_bytes.simps)
        (simp add: left_def [symmetric] xs_def [symmetric] upd_block_def check_def block_ok_def)
    show ?thesis
    proof (cases "copied + left = length buf")
      case fin: True
      then have "append_bytes buf (copied + left) z' s3 = Some (z', s3)"
        by (subst append_bytes.simps) simp
      moreover have "xs = drop copied buf" using fin by (simp add: xs_def)
      ultimately show ?thesis using step app(2) kR cont by (auto simp: append_post_def)
    next
      case more: False
      let ?n = "length buf - copied"
      have "room (?n div 8) z'" using app(2) less.prems(4) by (simp add: append_post_def)
      moreover have "(length buf - (copied + left)) div 8 + 1 \<le> ?n div 8"
        using left more by linarith
      ultimately have room: "room ((length buf - (copied + left)) div 8 + 1) z'" by (rule room_mono [rotated])
      have small: "length buf - (copied + left) < ?n" using left True by simp
      have "zok z'" "wf s3 cs3 (owned z' + R)" using app(2) by (simp_all add: append_post_def)
      then obtain z'' s4 cs4 where "append_bytes buf (copied + left) z' s3 = Some (z'', s4)"
        "wf s4 cs4 (owned z'' + R)" "zok z''" "keeps s3 s4 R"
        "content s4 z'' = content s3 z' @ drop (copied + left) buf"
        using less.hyps [OF small _ _ less.prems(3) room] by blast
      moreover have "xs @ drop (copied + left) buf = drop copied buf"
        using append_take_drop_id [of left "drop copied buf"] by (simp add: xs_def add.commute)
      ultimately show ?thesis using step kR cont keeps_trans by (metis append_assoc)
    qed
  qed
qed

subsection \<open>Taking bytes out\<close>

lemma copy_out_ok:
  assumes wf: "wf s cs R" and r: "ref_ok s r" and n: "n \<le> r_length r"
  shows "copy_out s r n = Some (take n (ref_bytes s r))"
proof -
  obtain blk where blk: "blocks s (r_block r) = Some blk" "r_offset r + r_length r \<le> b_offset blk"
    using r by (auto simp: ref_ok_def)
  with wf_block(3) [OF wf blk(1)] n show ?thesis
    by (simp add: copy_out_def ref_bytes_def check_def block_ok_def mem_simps min_absorb1)
qed

lemma length_ref_bytes: "ref_ok s r \<Longrightarrow> length (ref_bytes s r) = r_length r"
  by (auto simp: ref_ok_def ref_bytes_def)

lemma length_concat_refs:
  "\<forall>r \<in> set rs. ref_ok s r \<Longrightarrow> length (concat (map (ref_bytes s) rs)) = total_length rs"
  by (induction rs) (auto simp: length_ref_bytes)

lemma advance_ok:
  assumes wf: "wf s cs (add_mset r R)" and n: "n < r_length r"
  shows "wf s cs (add_mset (advance n r) R)" "ref_bytes s (advance n r) = drop n (ref_bytes s r)"
    "r_length (advance n r) = r_length r - n" "r_block (advance n r) = r_block r"
proof -
  have r: "ref_ok s r" using wf_ref [OF wf, of r] by simp
  have eq: "advance n r = r\<lparr>r_offset := r_offset r + n, r_length := r_length r - n\<rparr>"
    using wf_ref_small(1) [OF wf r] n by (simp add: advance_def wrap_simps)
  then show "r_length (advance n r) = r_length r - n" "r_block (advance n r) = r_block r" by simp_all
  show "wf s cs (add_mset (advance n r) R)"
    by (rule wf_swap_ref [OF wf]) (use eq r n in \<open>auto simp: ref_ok_def\<close>)
  show "ref_bytes s (advance n r) = drop n (ref_bytes s r)"
    using r by (auto simp: eq ref_bytes_def ref_ok_def mem_simps)
qed

text \<open>What a pop of \<open>n\<close> bytes promises.\<close>

definition pop_post ::
  "zstate \<Rightarrow> nat list \<Rightarrow> block_ref multiset \<Rightarrow> zbuffer \<Rightarrow> nat \<Rightarrow> zbuffer \<Rightarrow> zstate \<Rightarrow> nat list \<Rightarrow> bool"
where
  "pop_post s cs R z n z' s' cs' = (wf s' cs' (owned z' + R) \<and> zok z'
     \<and> preserves s cs R s' cs' \<and> content s' z' = drop n (content s z))"

definition pops :: "zstate \<Rightarrow> nat list \<Rightarrow> block_ref multiset \<Rightarrow> zbuffer \<Rightarrow> nat
    \<Rightarrow> (char list \<times> zbuffer \<times> zstate) option \<Rightarrow> bool" where
  "pops s cs R z n res = (\<exists>z' s' cs'. res = Some (take n (content s z), z', s')
     \<and> pop_post s cs R z n z' s' cs')"

lemma popsI:
  "res = Some (take n (content s z), z', s') \<Longrightarrow> pop_post s cs R z n z' s' cs' \<Longrightarrow> pops s cs R z n res"
  by (auto simp: pops_def)

lemma simple_popn_within:
  assumes z: "zok (Simple f g)" and wf: "wf s cs (owned (Simple f g) + R)"
    and n: "n < r_length f"
  shows "pops s cs R (Simple f g) n (simple_popn f g n s)"
proof -
  have f: "r_block f \<noteq> 0" using z n by (auto simp: null_ref_def)
  let ?G = "mset (filter (\<lambda>r. r_block r \<noteq> 0) [g])"
  have wff: "wf s cs (add_mset f (?G + R))" using wf f by simp
  have fok: "ref_ok s f" using wf_ref [OF wff, of f] by simp
  note adv = advance_ok [OF wff n] and lf = length_ref_bytes [OF fok]
  have "r_length f < 65536" using wf_ref_small(1) [OF wff fok] by simp
  then have "simple_popn f g n s = Some (take n (content s (Simple f g)), Simple (advance n f) g, s)"
    using n f copy_out_ok [OF wff fok, of n] lf by (simp add: simple_popn_def wrap_simps content_def)
  moreover have "pop_post s cs R (Simple f g) n (Simple (advance n f) g) s cs"
    using adv z n f lf by (auto simp: pop_post_def content_def)
  ultimately show ?thesis by (rule popsI)
qed

lemma simple_popn_past_single:
  assumes z: "zok (Simple f g)" and wf: "wf s cs (owned (Simple f g) + R)"
    and n: "r_length f \<le> n" "n < 9223372036854775808" and f: "r_length f \<noteq> 0" and g: "r_block g = 0"
  shows "pops s cs R (Simple f g) n (simple_popn f g n s)"
proof -
  have fb: "r_block f \<noteq> 0" using z f by (auto simp: null_ref_def)
  then have wff: "wf s cs (add_mset f R)" using wf g by simp
  have fok: "ref_ok s f" using wf_ref [OF wff, of f] by simp
  note lf = length_ref_bytes [OF fok]
  obtain s1 cs1 where rel: "release f s = Some (null_ref, s1)" "wf s1 cs1 R" "preserves s cs R s1 cs1"
    using release_owned [OF wff] by blast
  have "simple_popn f g n s = Some (take n (content s (Simple f g)), Simple null_ref g, s1)"
    using n f g fb copy_out_ok [OF wff fok, of "r_length f"] rel(1) lf
    by (simp add: simple_popn_def wrap_simps content_def)
  moreover have "pop_post s cs R (Simple f g) n (Simple null_ref g) s1 cs1"
    using g z rel(2,3) lf n fb by (auto simp: pop_post_def content_def null_ref_def)
  ultimately show ?thesis by (rule popsI)
qed

lemma simple_popn_past_first:
  assumes z: "zok (Simple f g)" and wf: "wf s cs (owned (Simple f g) + R)"
    and n: "r_length f \<le> n" "n < 9223372036854775808" and f: "r_length f \<noteq> 0" and g: "r_block g \<noteq> 0"
  shows "pops s cs R (Simple f g) n (simple_popn f g n s)"
proof -
  have fb: "r_block f \<noteq> 0" using z f by (auto simp: null_ref_def)
  then have wff: "wf s cs (add_mset f (add_mset g R))" using wf g by simp
  have fok: "ref_ok s f" using wf_ref [OF wff, of f] by simp
  obtain s1 cs1 where rel: "release f s = Some (null_ref, s1)" "wf s1 cs1 (add_mset g R)"
    "preserves s cs (add_mset g R) s1 cs1" using release_owned [OF wff] by blast
  have gok: "ref_ok s1 g" using wf_ref [OF rel(2), of g] by simp
  have gs: "ref_bytes s1 g = ref_bytes s g"
    using preserves_bytes [OF rel(3)] wf_live [OF wff, of g] by (auto simp: live_def)
  note lens = length_ref_bytes [OF fok] length_ref_bytes [OF gok, unfolded gs]
  have cont: "content s (Simple f g) = ref_bytes s f @ ref_bytes s g" using fb g by (simp add: content_def)
  have pR: "preserves s cs R s1 cs1" using rel(3) preserves_mono [of s cs R "{#g#}"] by simp
  have start: "simple_popn f g n s = (let n1 = n - r_length f in
      if r_length g \<le> n1 then do {
        out2 \<leftarrow> copy_out s1 g (r_length g);
        (g', s2) \<leftarrow> release g s1;
        Some (ref_bytes s f @ out2, Simple null_ref g', s2)}
      else do {
        out2 \<leftarrow> copy_out s1 g n1;
        Some (ref_bytes s f @ out2, Simple (advance n1 g) null_ref, s1)})"
    using n f g copy_out_ok [OF wff fok, of "r_length f"] rel(1) lens(1)
    by (simp add: simple_popn_def wrap_simps Let_def le_diff_conv2 flip: of_nat_diff)
  show ?thesis
  proof (cases "r_length g \<le> n - r_length f")
    case True
    obtain s2 cs2 where rel2: "release g s1 = Some (null_ref, s2)" "wf s2 cs2 R"
      "preserves s1 cs1 R s2 cs2" using release_owned [OF rel(2)] by blast
    have "simple_popn f g n s = Some (take n (content s (Simple f g)), Simple null_ref null_ref, s2)"
      using True copy_out_ok [OF rel(2) gok, of "r_length g"] lens n rel2(1) cont
      by (simp add: start Let_def gs)
    moreover have "pop_post s cs R (Simple f g) n (Simple null_ref null_ref) s2 cs2"
      using True rel2 preserves_trans [OF pR rel2(3)] cont lens n
      by (auto simp: pop_post_def content_def null_ref_def)
    ultimately show ?thesis by (rule popsI)
  next
    case False
    then have lt: "n - r_length f < r_length g" by simp
    note adv = advance_ok [OF rel(2) lt]
    have "simple_popn f g n s = Some (take n (content s (Simple f g)),
        Simple (advance (n - r_length f) g) null_ref, s1)"
      using lt copy_out_ok [OF rel(2) gok, of "n - r_length f"] lens n cont
      by (simp add: start Let_def gs)
    moreover have "pop_post s cs R (Simple f g) n (Simple (advance (n - r_length f) g) null_ref) s1 cs1"
      using adv lt pR cont lens n gs g by (auto simp: pop_post_def content_def null_ref_def)
    ultimately show ?thesis by (rule popsI)
  qed
qed

lemma simple_popn_ok:
  assumes z: "zok (Simple f g)" and wf: "wf s cs (owned (Simple f g) + R)"
    and n: "n < 9223372036854775808"
  shows "pops s cs R (Simple f g) n (simple_popn f g n s)"
proof (cases "r_length f = 0")
  case True
  with z have "f = null_ref" "g = null_ref" by (auto split: if_splits)
  then have "simple_popn f g n s = Some (take n (content s (Simple f g)), Simple f g, s)"
    "pop_post s cs R (Simple f g) n (Simple f g) s cs"
    using z wf by (simp_all add: simple_popn_def pop_post_def content_def null_ref_def)
  then show ?thesis by (rule popsI)
next
  case False
  with assms show ?thesis
    using simple_popn_within simple_popn_past_single simple_popn_past_first
    by (metis not_le)
qed

end
