(* ===== verification/ZBuf_Pop.thy ===== *)
theory ZBuf_Pop
  imports ZBuf
begin

text \<open>
  Correctness of the operations of \<^verbatim>\<open>src/zbuffer.cpp\<close> that read and consume a buffer:
  \<open>popn\<close> on both layouts, \<open>copy_front\<close>, \<open>dump_refs_to\<close>, \<open>map\<close> and the destructor, and of
  appending one buffer to another, by copying or by moving its references.
\<close>

subsection \<open>A run of references in a ring\<close>

primrec holds :: "ref_array \<Rightarrow> nat \<Rightarrow> block_ref list \<Rightarrow> bool" where
  "holds a i [] = True"
| "holds a i (r # rs) = (ref_at a i = Some r \<and> holds a (Suc i) rs)"

definition ring_cap :: "ref_array \<Rightarrow> nat \<Rightarrow> bool" where
  "ring_cap a m = (\<exists>k \<in> {5..11}. a_cap_mask a = 2 ^ k - 1 \<and> m \<le> 2 ^ k)"

lemma ring_cap_simps [simp]:
  "ring_cap (set_ref a i r) m = ring_cap a m" "ring_cap (a\<lparr>a_nbytes := x\<rparr>) m = ring_cap a m"
  by (simp_all add: ring_cap_def)

lemma ring_cap_mono: "ring_cap a m \<Longrightarrow> m' \<le> m \<Longrightarrow> ring_cap a m'"
  by (force simp: ring_cap_def)

lemma ref_at_set_cap:
  "ring_cap a m \<Longrightarrow> i < m \<Longrightarrow> j < m \<Longrightarrow>
   ref_at (set_ref a i r) j = (if i = j then Some r else ref_at a j)"
  by (auto simp: ring_cap_def ref_at_set)

lemma holds_set_before:
  "ring_cap a (j + length rs) \<Longrightarrow> i < j \<Longrightarrow> holds (set_ref a i r) j rs = holds a j rs"
proof (induction rs arbitrary: j)
  case (Cons q rs)
  then show ?case by (simp add: ref_at_set_cap [of a "Suc (j + length rs)"])
qed simp

lemma holds_nth: "holds a i rs = (\<forall>l < length rs. ref_at a (i + l) = Some (rs ! l))"
proof (induction rs arbitrary: i)
  case (Cons r rs)
  show ?case
    by (simp add: Cons.IH All_less_Suc2)
qed simp

lemma holds_ring_list: "ring_ok n a \<Longrightarrow> holds a 0 (ring_list n a)"
  by (auto simp: holds_nth ring_list_def ring_ok_def)

lemma ring_list_holds: "holds a 0 rs \<Longrightarrow> ring_list (length rs) a = rs"
  by (intro nth_equalityI) (auto simp: holds_nth ring_list_def)

lemma ring_ok_cap: "ring_ok n a = (ring_cap a n \<and> holds a 0 (ring_list n a)
    \<and> (n = 0 \<longrightarrow> map_option r_block (ref_at a (sub32 0 1)) = Some 0))"
proof -
  have "(\<forall>i<n. ref_at a i \<noteq> None) = holds a 0 (ring_list n a)"
    by (auto simp: holds_nth ring_list_def)
  moreover have "((\<exists>k \<in> {5..11}. a_cap_mask a = 2 ^ k - 1) \<and> n \<le> a_cap_mask a + 1) = ring_cap a n"
    by (auto simp: ring_cap_def)
  ultimately show ?thesis unfolding ring_ok_def by blast
qed

text \<open>Moving the beginning of the ring renumbers its references.\<close>

lemma ref_at_begin:
  assumes "ring_cap a m"
  shows "ref_at (a\<lparr>a_nbytes := x, a_begin := u32 (a_begin a + j)\<rparr>) l = ref_at a (j + l)"
proof -
  obtain k where k: "a_cap_mask a = 2 ^ k - 1" "k \<le> 32" using assms by (auto simp: ring_cap_def)
  have "ref_index (a\<lparr>a_nbytes := x, a_begin := u32 (a_begin a + j)\<rparr>) l
      = (u32 (a_begin a + j) + l) mod 2 ^ k"
    by (rule ref_index_mod [of "a\<lparr>a_nbytes := x, a_begin := u32 (a_begin a + j)\<rparr>" k l, simplified])
      (use k in simp_all)
  also have "\<dots> = (a_begin a + j + l) mod 2 ^ k"
    using mod_u32_pow2 [OF k(2), of "a_begin a + j"] by (metis mod_add_left_eq)
  also have "\<dots> = ref_index a (j + l)" using ref_index_mod [OF k] by (simp add: add.assoc)
  finally show ?thesis by (simp add: ref_at_def)
qed

subsection \<open>Popping from a ring\<close>

definition popn_loop_post :: "zstate \<Rightarrow> nat list \<Rightarrow> block_ref multiset \<Rightarrow> ref_array \<Rightarrow> nat \<Rightarrow>
    block_ref list \<Rightarrow> nat \<Rightarrow> nat \<Rightarrow> ref_array \<Rightarrow> block_ref list \<Rightarrow> zstate \<Rightarrow> nat list \<Rightarrow> bool" where
  "popn_loop_post s cs R a i rs n j a' rs' s' cs' = (i \<le> j \<and> j + length rs' = i + length rs
     \<and> holds a' j rs' \<and> (\<forall>r \<in> set rs'. 0 < r_length r) \<and> wf s' cs' (mset rs' + R)
     \<and> preserves s cs R s' cs'
     \<and> concat (map (ref_bytes s') rs') = drop n (concat (map (ref_bytes s) rs))
     \<and> a_begin a' = a_begin a \<and> a_cap_mask a' = a_cap_mask a \<and> a_nbytes a' = a_nbytes a
     \<and> (\<forall>l < i. ref_at a' l = ref_at a l) \<and> (rs = [] \<longrightarrow> a' = a)
     \<and> (rs' = [] \<longrightarrow> rs \<noteq> [] \<longrightarrow> ref_at a' (j - 1) = Some null_ref))"

lemma popn_loop_ok:
  assumes "holds a i rs" "ring_cap a (i + length rs)" "\<forall>r \<in> set rs. 0 < r_length r"
    "wf s cs (mset rs + R)"
  shows "\<exists>j a' rs' s' cs'. popn_loop (length rs) i a n s
      = Some (take n (concat (map (ref_bytes s) rs)), j, a', s')
    \<and> popn_loop_post s cs R a i rs n j a' rs' s' cs'"
  using assms
proof (induction rs arbitrary: i a n s cs)
  case Nil
  then show ?case by (auto simp: popn_loop_post_def)
next
  case (Cons r rs)
  have at: "ref_at a i = Some r" "holds a (Suc i) rs" using Cons.prems(1) by simp_all
  have cap: "ring_cap a (Suc i + length rs)" using Cons.prems(2) by simp
  have wfr: "wf s cs (add_mset r (mset rs + R))" using Cons.prems(4) by simp
  have rok: "ref_ok s r" using wf_ref [OF wfr, of r] by simp
  note len = length_ref_bytes [OF rok]
  show ?case
  proof (cases "n < r_length r")
    case True
    note adv = advance_ok [OF wfr True]
    have "popn_loop_post s cs R a i (r # rs) n i (set_ref a i (advance n r)) (advance n r # rs) s cs"
      using adv True Cons.prems(3) len at(2) cap
        holds_set_before [OF cap, of i "advance n r"]
      by (auto simp: popn_loop_post_def ref_at_set_cap [of _ "Suc i + length rs"])
    moreover have "popn_loop (length (r # rs)) i a n s
        = Some (take n (concat (map (ref_bytes s) (r # rs))), i, set_ref a i (advance n r), s)"
      using at True copy_out_ok [OF wfr rok, of n] len by simp
    ultimately show ?thesis by blast
  next
    case False
    obtain s1 cs1 where rel: "release r s = Some (null_ref, s1)" "wf s1 cs1 (mset rs + R)"
      "preserves s cs (mset rs + R) s1 cs1" using release_owned [OF wfr] by blast
    let ?a = "set_ref a i null_ref"
    have "holds ?a (Suc i) rs" "ring_cap ?a (Suc i + length rs)" "\<forall>r \<in> set rs. 0 < r_length r"
      using at(2) cap Cons.prems(3) holds_set_before [OF cap, of i null_ref] by auto
    from Cons.IH [OF this rel(2), of "n - r_length r"] obtain j a' rs' s' cs' where
      run: "popn_loop (length rs) (Suc i) ?a (n - r_length r) s1
        = Some (take (n - r_length r) (concat (map (ref_bytes s1) rs)), j, a', s')"
      and post: "popn_loop_post s1 cs1 R ?a (Suc i) rs (n - r_length r) j a' rs' s' cs'" by blast
    have same: "concat (map (ref_bytes s1) rs) = concat (map (ref_bytes s) rs)"
      by (rule concat_preserved [OF rel(3)]) (simp add: wf_live wf_mono [of s cs _ "{#r#}"] wfr)
    have pR: "preserves s cs R s' cs'"
      using preserves_union [OF rel(3)] post preserves_trans by (auto simp: popn_loop_post_def)
    have "ref_at a' i = Some null_ref"
      using post ref_at_set_cap [OF cap, of i i null_ref] by (simp add: popn_loop_post_def)
    then have "popn_loop_post s cs R a i (r # rs) n j a' rs' s' cs'"
      using post pR same len False cap
      by (auto simp: popn_loop_post_def ref_at_set_cap [of _ "Suc i + length rs"])
    moreover have "popn_loop (length (r # rs)) i a n s
        = Some (take n (concat (map (ref_bytes s) (r # rs))), j, a', s')"
      using at False copy_out_ok [OF wfr rok, of "r_length r"] len rel(1) run same by simp
    ultimately show ?thesis by blast
  qed
qed

lemma ref_at_wrap:
  assumes "ring_cap a m" "0 < j"
  shows "ref_at a (j + 4294967295) = ref_at a (j - 1)"
proof -
  obtain k where k: "a_cap_mask a = 2 ^ k - 1" "k \<le> 32" using assms(1) by (auto simp: ring_cap_def)
  have "(2::nat) ^ k dvd 2 ^ 32" using k(2) by (rule le_imp_power_dvd)
  then have "(a_begin a + (j - 1) + 2 ^ 32) mod 2 ^ k = (a_begin a + (j - 1)) mod 2 ^ k"
    by (metis add.right_neutral dvd_imp_mod_0 mod_add_right_eq)
  moreover have "a_begin a + (j - 1) + 2 ^ 32 = a_begin a + (j + 4294967295)" using assms(2) by simp
  ultimately have "(a_begin a + (j + 4294967295)) mod 2 ^ k = (a_begin a + (j - 1)) mod 2 ^ k"
    by argo
  then show ?thesis unfolding ref_at_def ref_index_mod [OF k] by simp
qed

lemma array_popn_ok:
  assumes z: "zok (Arr k a fr)" and wf: "wf s cs (owned (Arr k a fr) + R)"
  shows "pops s cs R (Arr k a fr) n (array_popn k a fr n s)"
proof -
  define rs where "rs = ring_list k a"
  have ring: "ring_cap a k" "holds a 0 rs" "length rs = k"
    using z by (simp_all add: rs_def ring_ok_cap)
  have pos: "\<forall>r \<in> set rs. 0 < r_length r" using z by (simp add: rs_def)
  have wfs: "wf s cs (mset rs + add_mset fr R)" using wf by (simp add: rs_def)
  obtain j a' rs' s' cs' where
    run: "popn_loop k 0 a n s = Some (take n (concat (map (ref_bytes s) rs)), j, a', s')"
    and post: "popn_loop_post s cs (add_mset fr R) a 0 rs n j a' rs' s' cs'"
    using popn_loop_ok [OF ring(2) _ pos wfs, of n] ring by auto
  have cont: "concat (map (ref_bytes s) rs) = content s (Arr k a fr)"
    by (simp add: content_def rs_def)
  have cap': "ring_cap a' k" using ring(1) post by (simp add: ring_cap_def popn_loop_post_def)
  have len: "length (content s (Arr k a fr)) = a_nbytes a"
    using length_concat_refs [of rs s] wf_ref [OF wfs] z by (simp add: content_def rs_def)
  have len': "total_length rs' = a_nbytes a - n"
    using length_concat_refs [of rs' s'] wf_ref [of s' cs' "mset rs' + add_mset fr R"] post cont len
    by (simp add: popn_loop_post_def)
  have big: "a_nbytes a < 18446744073709551616"
    using total_length_bound [OF wfs] ring(3) z ring_count(2) [of k a] by (simp add: rs_def)
  define a2 where "a2 = a'\<lparr>a_nbytes := sub64 (a_nbytes a') (length (take n (content s (Arr k a fr)))),
      a_begin := u32 (a_begin a' + j)\<rparr>"
  have at: "ref_at a2 l = ref_at a' (j + l)" for l unfolding a2_def by (rule ref_at_begin [OF cap'])
  have h: "holds a2 0 rs'" using post by (simp add: popn_loop_post_def holds_nth at)
  have jk: "sub32 k j = length rs'" "j + length rs' = k"
    using post ring ring_count(2) [of k a] z by (auto simp: popn_loop_post_def wrap_simps)
  have nb: "a_nbytes a2 = total_length rs'"
    using len len' big post by (simp add: a2_def popn_loop_post_def wrap_simps)
  have null: "map_option r_block (ref_at a2 (sub32 0 1)) = Some 0" if "rs' = []"
  proof -
    have "sub32 0 1 = 4294967295" by (simp add: sub32_def)
    then have eq: "ref_at a2 (sub32 0 1) = ref_at a' (j + 4294967295)" using at by simp
    show ?thesis
    proof (cases "rs = []")
      case True
      with post that have "a' = a" "j = 0" by (auto simp: popn_loop_post_def)
      then show ?thesis using eq z True ring(3) by (simp add: ring_ok_def sub32_def)
    next
      case False
      then have "0 < j" "ref_at a' (j - 1) = Some null_ref"
        using post that by (auto simp: popn_loop_post_def)
      then show ?thesis using eq ref_at_wrap [OF cap', of j] by (simp add: null_ref_def)
    qed
  qed
  have ringL: "ring_list (length rs') a2 = rs'" using h by (rule ring_list_holds)
  have "ring_cap a2 (length rs')" using cap' jk(2) by (auto simp: a2_def ring_cap_def intro: order_trans)
  then have ok: "ring_ok (length rs') a2" unfolding ring_ok_cap ringL using h null by simp
  have "zok (Arr (length rs') a2 fr)"
    using ok ringL nb post by (simp add: popn_loop_post_def)
  moreover have "wf s' cs' (owned (Arr (length rs') a2 fr) + R)" "preserves s cs R s' cs'"
    using post ringL preserves_mono [of s cs R "{#fr#}"] by (simp_all add: popn_loop_post_def)
  moreover have "content s' (Arr (length rs') a2 fr) = drop n (content s (Arr k a fr))"
    using post ringL cont by (simp add: content_def popn_loop_post_def)
  ultimately have "pop_post s cs R (Arr k a fr) n (Arr (length rs') a2 fr) s' cs'"
    by (simp add: pop_post_def)
  moreover have "array_popn k a fr n s = Some (take n (content s (Arr k a fr)), Arr (length rs') a2 fr, s')"
    using run jk(1) cont by (simp add: array_popn_def Let_def a2_def)
  ultimately show ?thesis by (rule popsI [rotated])
qed

lemma popn_ok:
  assumes "zok z" "wf s cs (owned z + R)" "n < 9223372036854775808"
  shows "pops s cs R z n (popn n z s)"
  using assms simple_popn_ok array_popn_ok by (cases z) auto

subsection \<open>Size, peeking and visiting\<close>

lemma zrefs_ok: "wf s cs (owned z + R) \<Longrightarrow> r \<in> set (zrefs z) \<Longrightarrow> ref_ok s r"
  by (meson wf_ref zrefs_owned union_iff)

lemma zsize_ok:
  assumes z: "zok z" and wf: "wf s cs (owned z + R)"
  shows "zsize z = length (content s z)"
proof -
  have len: "length (content s z) = total_length (zrefs z)"
    using length_concat_refs [of "zrefs z" s] zrefs_ok [OF wf] by (simp add: content_def)
  show ?thesis
  proof (cases z)
    case (Simple f g)
    have "r_length r < 65536" if "r \<in> set (zrefs z)" for r
      using wf_ref_small(1) [OF wf zrefs_ok [OF wf that]] by simp
    from this [of f] this [of g] show ?thesis
      using len Simple z by (auto simp: null_ref_def wrap_simps split: if_splits)
  next
    case (Arr n a fr)
    then show ?thesis using len z by simp
  qed
qed

lemma copy_front_refs_ok:
  assumes "wf s cs R" "\<forall>r \<in> set rs. ref_ok s r \<or> r = null_ref"
  shows "copy_front_refs (map Some rs) n s
    = Some (take n (concat (map (ref_bytes s) (filter (\<lambda>r. r_block r \<noteq> 0) rs))))"
  using assms(2)
proof (induction rs arbitrary: n)
  case (Cons r rs)
  show ?case
  proof (cases "r = null_ref")
    case True
    then show ?thesis using Cons by (auto simp: null_ref_def copy_out_def)
  next
    case False
    then have rok: "ref_ok s r" using Cons.prems by simp
    have "r_block r \<noteq> 0" using wf_ref_small(2) [OF assms(1) rok] by simp
    then show ?thesis
      using Cons copy_out_ok [OF assms(1) rok] length_ref_bytes [OF rok] by simp
  qed
qed simp

lemma ring_map_Some:
  "ring_ok n a \<Longrightarrow> map (ref_at a) [0..<n] = map Some (ring_list n a)"
  by (auto simp: ring_list_def ring_ok_def)

lemma zrefs_nonnull:
  "wf s cs (owned z + R) \<Longrightarrow> filter (\<lambda>r. r_block r \<noteq> 0) (zrefs z) = zrefs z"
  by (metis (mono_tags, lifting) filter_True less_numeral_extra(3) wf_ref_small(2) zrefs_ok)

lemma copy_front_ok:
  assumes z: "zok z" and wf: "wf s cs (owned z + R)"
  shows "copy_front n z s = Some (take n (content s z))"
proof (cases z)
  case (Simple f g)
  have "ref_ok s r \<or> r = null_ref" if "r \<in> {f, g}" for r
    using zrefs_ok [OF wf, of r] that z Simple by (auto split: if_splits)
  then show ?thesis using Simple copy_front_refs_ok [OF wf, of "[f, g]" n] by (simp add: content_def)
next
  case (Arr k a fr)
  then show ?thesis
    using z zrefs_ok [OF wf] zrefs_nonnull [OF wf] copy_front_refs_ok [OF wf, of "zrefs z" n]
    by (simp add: content_def ring_map_Some)
qed

lemma map_loop_ok:
  assumes "wf s cs R" "\<forall>r \<in> set rs. ref_ok s r"
  shows "map_loop f (map Some rs) s (nr, x)
    = Some (nr + length rs, fold f (map (ref_bytes s) rs) x)"
  using assms(2)
proof (induction rs arbitrary: nr x)
  case (Cons r rs)
  then show ?case using copy_out_ok [OF assms(1), of r "r_length r"] length_ref_bytes [of s r] by simp
qed simp

lemma map_refs_ok:
  assumes z: "zok z" and wf: "wf s cs (owned z + R)"
  shows "map_refs f z s x = Some (length (zrefs z), fold f (map (ref_bytes s) (zrefs z)) x)"
  using assms zrefs_ok [OF wf] map_loop_ok [OF wf, of "zrefs z" f 0 x]
  by (cases z) (simp_all add: ring_map_Some)

subsection \<open>Appending one buffer to another\<close>

definition appended :: "nat \<Rightarrow> zstate \<Rightarrow> nat list \<Rightarrow> block_ref multiset \<Rightarrow> zbuffer \<Rightarrow> char list
    \<Rightarrow> zbuffer \<Rightarrow> zstate \<Rightarrow> nat list \<Rightarrow> bool" where
  "appended k s cs R z bytes z' s' cs' = (wf s' cs' (owned z' + R) \<and> zok z'
     \<and> preserves s cs R s' cs' \<and> content s' z' = content s z @ bytes
     \<and> (\<forall>m. room (m + k) z \<longrightarrow> room m z'))"

lemma appended_refl: "wf s cs (owned z + R) \<Longrightarrow> zok z \<Longrightarrow> appended 0 s cs R z [] z s cs"
  by (simp add: appended_def)

lemma append_post_appended: "append_post s cs R z b z' s' cs' = appended 1 s cs R z b z' s' cs'"
  by (simp add: append_post_def appended_def)

lemma appended_trans:
  "appended k s cs R z b z1 s1 cs1 \<Longrightarrow> appended k' s1 cs1 R z1 b' z2 s2 cs2 \<Longrightarrow>
   appended (k + k') s cs R z (b @ b') z2 s2 cs2"
  unfolding appended_def
  by (metis ab_semigroup_add_class.add_ac(1) add.commute append_assoc preserves_trans)

text \<open>Both layouts of the argument behave as one loop over its list of references.\<close>

primrec append_refs ::
  "(block_ref \<Rightarrow> zbuffer \<Rightarrow> zstate \<Rightarrow> (zbuffer \<times> zstate) option) \<Rightarrow> block_ref list \<Rightarrow> zbuffer \<Rightarrow> zstate
    \<Rightarrow> (zbuffer \<times> zstate) option" where
  "append_refs app [] z s = Some (z, s)"
| "append_refs app (r # rs) z s = do {
     (z', s1) \<leftarrow> app r z s;
     append_refs app rs z' s1}"

lemma append_copy_loop_refs:
  "holds rh i rs \<Longrightarrow> append_copy_loop (length rs) i rh z s = append_refs append_ref_copy rs z s"
  by (induction rs arbitrary: i z s) (simp_all add: case_prod_beta')

lemma append_copy_eq:
  assumes "zok y"
  shows "append_copy y z s = do {
    (z', s') \<leftarrow> append_refs append_ref_copy (zrefs y) z s;
    Some (if array y then length (zrefs y) else 0, z', s')}"
proof (cases y)
  case (Arr n a fr)
  then show ?thesis
    using append_copy_loop_refs [OF holds_ring_list [of n a], of z s] assms by simp
next
  case (Simple f g)
  then show ?thesis using assms
    by (cases "r_block f = 0"; cases "r_block g = 0") (simp_all add: null_ref_def case_prod_beta')
qed

lemma append_refs_copy_ok:
  assumes "\<forall>r \<in> set rs. live s cs R r \<and> 0 < r_length r"
    "zok z" "wf s cs (owned z + R)" "room (length rs) z"
  shows "\<exists>z' s' cs'. append_refs append_ref_copy rs z s = Some (z', s')
    \<and> appended (length rs) s cs R z (concat (map (ref_bytes s) rs)) z' s' cs'"
  using assms
proof (induction rs arbitrary: z s cs)
  case Nil
  then show ?case using appended_refl by fastforce
next
  case (Cons r rs)
  have room: "room 1 z" using Cons.prems(4) by (rule room_mono [rotated]) simp
  obtain z1 s1 cs1 where one: "append_ref_copy r z s = Some (z1, s1)"
    "appended 1 s cs R z (ref_bytes s r) z1 s1 cs1"
    using append_ref_copy_ok [OF Cons.prems(2,3) _ _ room, of r] Cons.prems(1)
    by (auto simp: append_post_appended)
  have pres: "preserves s cs R s1 cs1" and z1: "zok z1" "wf s1 cs1 (owned z1 + R)" "room (length rs) z1"
    using one(2) Cons.prems(4) by (auto simp: appended_def)
  have lv: "\<forall>r \<in> set rs. live s1 cs1 R r \<and> 0 < r_length r"
    using Cons.prems(1) preserves_live [OF pres] by simp
  from Cons.IH [OF lv z1] obtain z' s' cs' where
    "append_refs append_ref_copy rs z1 s1 = Some (z', s')"
    "appended (length rs) s1 cs1 R z1 (concat (map (ref_bytes s1) rs)) z' s' cs'" by blast
  moreover have "concat (map (ref_bytes s1) rs) = concat (map (ref_bytes s) rs)"
    using concat_preserved [OF pres] Cons.prems(1) by simp
  ultimately show ?case using one appended_trans [OF one(2)] by fastforce
qed

lemma zrefs_pos: "zok z \<Longrightarrow> r \<in> set (zrefs z) \<Longrightarrow> 0 < r_length r"
  by (cases z) auto

lemma append_copy_ok:
  assumes "zok y" "zok z" "wf s cs (owned z + (owned y + R))" "room (length (zrefs y)) z"
  shows "\<exists>z' s' cs'. append_copy y z s = Some (if array y then length (zrefs y) else 0, z', s')
    \<and> appended (length (zrefs y)) s cs (owned y + R) z (content s y) z' s' cs'
    \<and> content s' y = content s y"
proof -
  have wfy: "wf s cs (owned y + R)" using wf_mono [of s cs "owned y + R" "owned z"] assms(3)
    by (simp add: add.commute)
  have "\<forall>r \<in> set (zrefs y). live s cs (owned y + R) r \<and> 0 < r_length r"
    using wf_live [OF wfy] zrefs_owned zrefs_pos [OF assms(1)] by simp
  from append_refs_copy_ok [OF this assms(2-4)] obtain z' s' cs' where
    "append_refs append_ref_copy (zrefs y) z s = Some (z', s')"
    and app: "appended (length (zrefs y)) s cs (owned y + R) z (content s y) z' s' cs'"
    by (auto simp: content_def)
  moreover have "content s' y = content s y"
    by (rule content_preserved [OF _ wfy, of s' cs']) (use app in \<open>simp add: appended_def\<close>)
  ultimately show ?thesis by (auto simp: append_copy_eq [OF assms(1)])
qed

definition null_slots :: "nat \<Rightarrow> nat \<Rightarrow> ref_array \<Rightarrow> ref_array" where
  "null_slots i m a = fold (\<lambda>j a. set_ref a j null_ref) [i..<i + m] a"

lemma null_slots_Suc: "null_slots (Suc i) m (set_ref a i null_ref) = null_slots i (Suc m) a"
  by (simp add: null_slots_def upt_conv_Cons del: upt_Suc)

lemma append_move_loop_refs:
  "holds rh i rs \<Longrightarrow> ring_cap rh (i + length rs) \<Longrightarrow>
   append_move_loop (length rs) i rh z s = do {
     (z', s') \<leftarrow> append_refs append_ref_move rs z s;
     Some (null_slots i (length rs) rh, z', s')}"
proof (induction rs arbitrary: i z s rh)
  case Nil
  then show ?case by (simp add: null_slots_def)
next
  case (Cons r rs)
  have cap: "ring_cap rh (Suc i + length rs)" using Cons.prems(2) by simp
  then have "holds (set_ref rh i null_ref) (Suc i) rs"
    using Cons.prems(1) holds_set_before [OF cap] by simp
  then show ?case using Cons.IH [of "set_ref rh i null_ref" "Suc i"] Cons.prems cap
    by (simp add: null_slots_Suc case_prod_beta')
qed

fun moved_from :: "zbuffer \<Rightarrow> zbuffer" where
  "moved_from (Simple f g) = Simple null_ref null_ref"
| "moved_from (Arr n a fr) = Arr 0 (reset_array (null_slots 0 n a)) fr"

lemma release_null [simp]: "release null_ref s = Some (null_ref, s)"
  by (simp add: release_def null_ref_def)

lemma append_move_eq:
  assumes "zok y"
  shows "append_move y z s = do {
    (z', s') \<leftarrow> append_refs append_ref_move (zrefs y) z s;
    Some (if array y then length (zrefs y) else 0, z', moved_from y, s')}"
proof (cases y)
  case (Arr n a fr)
  then show ?thesis
    using append_move_loop_refs [of a 0 "ring_list n a" z s] assms
    by (simp add: ring_ok_cap case_prod_beta')
next
  case (Simple f g)
  have [simp]: "r_length null_ref = 0" "r_block null_ref = 0" by (simp_all add: null_ref_def)
  show ?thesis using assms Simple
    by (cases "r_block f = 0"; cases "r_block g = 0") (auto simp: case_prod_beta')
qed

lemma append_refs_move_ok:
  assumes "\<forall>r \<in> set rs. 0 < r_length r" "zok z" "wf s cs (owned z + (mset rs + R))"
    "room (length rs) z"
  shows "\<exists>z' s' cs'. append_refs append_ref_move rs z s = Some (z', s')
    \<and> appended (length rs) s cs R z (concat (map (ref_bytes s) rs)) z' s' cs'"
  using assms
proof (induction rs arbitrary: z s cs)
  case Nil
  then show ?case using appended_refl by fastforce
next
  case (Cons r rs)
  have room: "room 1 z" using Cons.prems(4) by (rule room_mono [rotated]) simp
  have wf: "wf s cs (owned z + add_mset r (mset rs + R))" using Cons.prems(3) by simp
  obtain z1 s1 cs1 where one: "append_ref_move r z s = Some (z1, s1)"
    "appended 1 s cs (mset rs + R) z (ref_bytes s r) z1 s1 cs1"
    using append_ref_move_ok [OF Cons.prems(2) wf _ room] Cons.prems(1)
    by (auto simp: append_post_appended)
  have z1: "zok z1" "wf s1 cs1 (owned z1 + (mset rs + R))" "room (length rs) z1"
    and pres: "preserves s cs (mset rs + R) s1 cs1"
    using one(2) Cons.prems(4) by (auto simp: appended_def)
  from Cons.IH [OF _ z1] Cons.prems(1) obtain z' s' cs' where
    rest: "append_refs append_ref_move rs z1 s1 = Some (z', s')"
    "appended (length rs) s1 cs1 R z1 (concat (map (ref_bytes s1) rs)) z' s' cs'" by auto
  moreover have "concat (map (ref_bytes s1) rs) = concat (map (ref_bytes s) rs)"
    by (rule concat_preserved [OF pres]) (use wf_live [OF wf] in \<open>auto simp: live_def\<close>)
  moreover have "appended 1 s cs R z (ref_bytes s r) z1 s1 cs1"
    using one(2) preserves_union [OF pres] wf_mono [of s1 cs1 "owned z1 + R" "mset rs"]
    by (simp add: appended_def ac_simps)
  ultimately show ?case using one(1) appended_trans by fastforce
qed

lemma owned_split: "owned y = mset (zrefs y) + owned (moved_from y)"
  by (cases y) (simp_all add: ring_list_def null_ref_def)

lemma moved_from_empty [simp]: "zrefs (moved_from y) = []" "content s (moved_from y) = []"
  "zsize (moved_from y) = 0"
  by (cases y; simp add: content_def ring_list_def null_ref_def reset_array_def wrap_simps)+

lemma append_move_ok:
  assumes "zok y" "zok z" "wf s cs (owned z + (owned y + R))" "room (length (zrefs y)) z"
  shows "\<exists>z' s' cs'. append_move y z s
      = Some (if array y then length (zrefs y) else 0, z', moved_from y, s')
    \<and> appended (length (zrefs y)) s cs (owned (moved_from y) + R) z (content s y) z' s' cs'"
  using append_refs_move_ok [of "zrefs y" z s cs "owned (moved_from y) + R"]
    append_move_eq [OF assms(1), of z s] assms zrefs_pos [OF assms(1)]
  by (auto simp: owned_split [of y] content_def ac_simps)

subsection \<open>Handing out and destroying\<close>

lemma dump_loop_ok:
  "holds a i rs \<Longrightarrow> \<forall>r \<in> set rs. 0 < r_length r \<Longrightarrow>
   dump_loop (length rs) i a q s = Some (length rs, q @ rs, s)"
  by (induction rs arbitrary: i q) simp_all

lemma dump_refs_to_ok:
  assumes z: "zok z" and wf: "wf s cs (owned z + R)"
  shows "\<exists>s' cs'. dump_refs_to z q s = Some (length (zrefs z), ZBuffer, q @ zrefs z, s')
    \<and> wf s' cs' (mset (zrefs z) + R) \<and> preserves s cs (mset (zrefs z) + R) s' cs'"
proof (cases z)
  case (Simple f g)
  then have "dump_refs_to z q s = Some (length (zrefs z), ZBuffer, q @ zrefs z, s)"
    using z by (auto simp: ZBuffer_def null_ref_def release_def)
  then show ?thesis using wf Simple by auto
next
  case (Arr n a fr)
  have "dump_loop n 0 a q s = Some (length (zrefs z), q @ zrefs z, s)"
    using dump_loop_ok [of a 0 "ring_list n a" q s] holds_ring_list [of n a] z Arr by simp
  moreover have "wf s cs (add_mset fr (mset (zrefs z) + R))" using wf Arr by simp
  from release_owned [OF this] obtain s1 cs1 where "release fr s = Some (null_ref, s1)"
    "wf s1 cs1 (mset (zrefs z) + R)" "preserves s cs (mset (zrefs z) + R) s1 cs1" by blast
  ultimately show ?thesis using Arr by (auto simp: ZBuffer_def)
qed

lemma release_loop_ok:
  assumes "holds a i rs" "ring_cap a (i + length rs)" "wf s cs (mset rs + R)"
  shows "\<exists>s' cs'. release_loop (length rs) i a s = Some s' \<and> wf s' cs' R \<and> preserves s cs R s' cs'"
  using assms
proof (induction rs arbitrary: i a s cs)
  case (Cons r rs)
  have cap: "ring_cap a (Suc i + length rs)" using Cons.prems(2) by simp
  then have h: "holds (set_ref a i null_ref) (Suc i) rs" "ring_cap (set_ref a i null_ref) (Suc i + length rs)"
    using Cons.prems(1) holds_set_before [OF cap] by simp_all
  have "wf s cs (add_mset r (mset rs + R))" using Cons.prems(3) by simp
  from release_owned [OF this] obtain s1 cs1 where "release r s = Some (null_ref, s1)"
    "wf s1 cs1 (mset rs + R)" "preserves s cs (mset rs + R) s1 cs1" by blast
  with Cons.IH [OF h] Cons.prems(1) show ?case
    by simp (meson preserves_trans preserves_union)
qed auto

text \<open>Destruction gives up exactly what the buffer owned, also after the buffer was moved from.\<close>

definition destroyable :: "zbuffer \<Rightarrow> bool" where
  "destroyable z = (zok z \<or> (\<exists>y. zok y \<and> z = moved_from y))"

lemma null_slots_mask [simp]: "a_cap_mask (null_slots i m a) = a_cap_mask a"
proof -
  have "a_cap_mask (fold (\<lambda>j a. set_ref a j null_ref) js a) = a_cap_mask a" for js
    by (induction js arbitrary: a) simp_all
  then show ?thesis by (simp add: null_slots_def)
qed

lemma destroyable_simple: "destroyable (Simple f g) = zok (Simple f g)"
proof -
  have "zok (Simple f g)" if "Simple f g = moved_from y" for y
    using that by (cases y) (auto simp: null_ref_def)
  then show ?thesis unfolding destroyable_def by blast
qed

lemma destroyable_arr:
  assumes "destroyable (Arr n a fr)"
  shows "ring_cap a n" "holds a 0 (ring_list n a)"
proof -
  have "ring_cap a n \<and> holds a 0 (ring_list n a)" if "zok y" "Arr n a fr = moved_from y" for y
    using that by (cases y) (auto simp: ring_list_def ring_ok_cap ring_cap_def reset_array_def)
  then show "ring_cap a n" "holds a 0 (ring_list n a)"
    using assms by (auto simp: destroyable_def ring_ok_cap)
qed

lemma destroy_ok:
  assumes z: "destroyable z" and wf: "wf s cs (owned z + R)"
  shows "\<exists>s' cs'. destroy z s = Some s' \<and> wf s' cs' R \<and> preserves s cs R s' cs'"
proof (cases z)
  case (Simple f g)
  have "zok z" using z Simple by (simp only: destroyable_simple)
  then have cas: "f = null_ref \<and> g = null_ref \<or> r_block f \<noteq> 0 \<and> g = null_ref \<or> r_block f \<noteq> 0 \<and> r_block g \<noteq> 0"
    using Simple by auto
  from cas show ?thesis
  proof (elim disjE)
    assume "f = null_ref \<and> g = null_ref"
    then show ?thesis using wf Simple by (auto simp: null_ref_def release_def)
  next
    assume h: "r_block f \<noteq> 0 \<and> g = null_ref"
    then have "wf s cs (add_mset f R)" using wf Simple by (simp add: null_ref_def)
    from release_owned [OF this] h Simple show ?thesis by auto
  next
    assume h: "r_block f \<noteq> 0 \<and> r_block g \<noteq> 0"
    then have "wf s cs (add_mset f (add_mset g R))" using wf Simple by simp
    from release_owned [OF this] obtain s1 cs1 where 1: "release f s = Some (null_ref, s1)"
      "wf s1 cs1 (add_mset g R)" "preserves s cs (add_mset g R) s1 cs1" by blast
    from release_owned [OF 1(2)] show ?thesis
      using 1 Simple preserves_union [of s cs "{#g#}" R] preserves_trans by fastforce
  qed
next
  case (Arr n a fr)
  note ring = destroyable_arr [OF z [unfolded Arr]]
  have "wf s cs (mset (ring_list n a) + add_mset fr R)" using wf Arr by simp
  from release_loop_ok [OF ring(2) _ this] ring(1) obtain s1 cs1 where
    1: "release_loop n 0 a s = Some s1" "wf s1 cs1 (add_mset fr R)" "preserves s cs (add_mset fr R) s1 cs1"
    by auto
  from release_owned [OF 1(2)] show ?thesis
    using 1 Arr preserves_mono [of s cs R "{#fr#}"] preserves_trans by fastforce
qed

end
