(* ===== verification/ZBuf_Counts.thy ===== *)
theory ZBuf_Counts
  imports ZBuf_Pop
begin

text \<open>
  The reference counts of \<^verbatim>\<open>src/zbuffer.cpp\<close>, exactly: the invariant of the blocks only says that no count is below the
  number of owners; here every operation that moves references is shown to change each count by the references it adds and
  gives up, so that none is lost, and to leave the references of the buffer that the code's merging makes of them.
\<close>

subsection \<open>Counts\<close>

text \<open>The count of a block without the one that the cache holds, 0 for a block that is not allocated.\<close>

definition held_counts :: "nat list \<Rightarrow> zstate \<Rightarrow> nat \<Rightarrow> int" where
  "held_counts cs s b = (case blocks s b of None \<Rightarrow> 0 | Some blk \<Rightarrow> b_ref_num blk) - (if b \<in> set cs then 1 else 0)"

text \<open>From one state to another the references \<open>A\<close> were given up and \<open>B\<close> were added.\<close>

definition counted :: "zstate \<Rightarrow> nat list \<Rightarrow> block_ref multiset \<Rightarrow> zstate \<Rightarrow> nat list \<Rightarrow> block_ref multiset \<Rightarrow> bool" where
  "counted s cs A s' cs' B = (\<forall>b. held_counts cs' s' b - int (ref_count B b) = held_counts cs s b - int (ref_count A b))"

lemma counted_refl [simp]: "counted s cs A s cs A"
  by (simp add: counted_def)

lemma counted_trans: "counted s cs A s1 cs1 B \<Longrightarrow> counted s1 cs1 B s2 cs2 C \<Longrightarrow> counted s cs A s2 cs2 C"
  by (simp add: counted_def)

lemma counted_frame: "counted s cs A s' cs' B \<Longrightarrow> counted s cs (A + R) s' cs' (B + R)"
  by (simp add: counted_def algebra_simps)

lemma counted_cancel: "counted s cs (A + R) s' cs' (B + R) \<Longrightarrow> counted s cs A s' cs' B"
  by (simp add: counted_def algebra_simps)

lemma counted_same_blocks:
  "counted s cs A s' cs' B \<Longrightarrow> ref_count A' = ref_count A \<Longrightarrow> ref_count B' = ref_count B \<Longrightarrow> counted s cs A' s' cs' B'"
  by (simp add: counted_def)

text \<open>The blocks of the cache are determined by the state.\<close>

lemma wf_unique: "wf s cs R \<Longrightarrow> wf s cs' R' \<Longrightarrow> cs' = cs"
  using wf_chain chain_unique by blast

lemma wf_chain_unique: "wf s cs R \<Longrightarrow> chain (next_of s) (c_head s) cs' \<Longrightarrow> cs' = cs"
  using wf_chain chain_unique by blast

subsection \<open>Blocks and the ring's memory\<close>

lemma inc_ref_counted:
  assumes "wf s cs R" "inc_ref (r_block r) s = Some s'" "wf s' cs' R'"
  shows "counted s cs {#} s' cs' {#r#}"
proof -
  obtain blk where blk: "blocks s (r_block r) = Some blk"
    and s': "s' = s\<lparr>blocks := (blocks s)(r_block r \<mapsto> blk\<lparr>b_ref_num := b_ref_num blk + 1\<rparr>)\<rparr>"
    using assms(2) by (auto simp: inc_ref_def upd_block_def split: bind_splits)
  have "next_of s' = next_of s" using blk by (auto simp: s' next_of_def fun_eq_iff)
  moreover have "c_head s' = c_head s" by (simp add: s')
  ultimately have "cs' = cs" using wf_chain_unique [OF assms(1)] wf_chain [OF assms(3)] by simp
  then show ?thesis using blk by (auto simp: counted_def held_counts_def s')
qed

lemma dec_ref_counted:
  assumes wf: "wf s cs (add_mset r R)" and run: "dec_ref (r_block r) s = Some s'" and wf': "wf s' cs' R'"
  shows "counted s cs {#r#} s' cs' {#}"
proof -
  let ?b = "r_block r"
  obtain blk where blk: "blocks s ?b = Some blk" using wf_ref [OF wf, of r] by (auto simp: ref_ok_def)
  have own: "int (ref_count R ?b) + 1 + (if ?b \<in> set cs then 1 else 0) \<le> b_ref_num blk"
    using wf_block(4) [OF wf blk] by (simp add: owners_def)
  show ?thesis
  proof (cases "1 < b_ref_num blk")
    case True
    let ?s = "s\<lparr>blocks := (blocks s)(?b \<mapsto> blk\<lparr>b_ref_num := b_ref_num blk - 1\<rparr>)\<rparr>"
    have s': "s' = ?s" using dec_ref_shared [OF blk True] run by simp
    have "next_of s' = next_of s" using blk by (auto simp: s' next_of_def fun_eq_iff)
    moreover have "c_head s' = c_head s" by (simp add: s')
    ultimately have "cs' = cs" using wf_chain_unique [OF wf] wf_chain [OF wf'] by simp
    then show ?thesis using blk by (auto simp: counted_def held_counts_def s')
  next
    case False
    then have one: "b_ref_num blk = 1" "?b \<notin> set cs" using own by (auto split: if_splits)
    show ?thesis
    proof (cases "c_block_number s < kBlockCachedPerThread")
      case True
      have s': "s' = s\<lparr>c_block_number := u32 (c_block_number s + 1),
          blocks := (blocks s)(?b \<mapsto> blk\<lparr>b_offset := 0, b_ref_num := b_ref_num blk, b_next := c_head s\<rparr>), c_head := ?b\<rparr>"
        using dec_ref_cached [OF blk _ True] one run by simp
      have "?b \<noteq> 0" using wf_block(1) [OF wf blk] by simp
      moreover have "chain (next_of s') (c_head s) cs = chain (next_of s) (c_head s) cs"
        by (rule chain_cong) (use one in \<open>auto simp: next_of_def s'\<close>)
      ultimately have "chain (next_of s') (c_head s') (?b # cs)" using wf_chain [OF wf] by (auto simp: next_of_def s')
      then have "?b # cs = cs'" by (rule wf_chain_unique [OF wf'])
      then have "cs' = ?b # cs" by simp
      then show ?thesis using blk one by (auto simp: counted_def held_counts_def s')
    next
      case full: False
      have s': "s' = s\<lparr>g_block_number := sub64 (g_block_number s) 1,
          g_block_memory := sub64 (g_block_memory s) (b_capacity blk + sizeof_Block), blocks := (blocks s)(?b := None)\<rparr>"
        using dec_ref_freed [OF blk _ full] one run by simp
      have "chain (next_of s') (c_head s) cs = chain (next_of s) (c_head s) cs"
        by (rule chain_cong) (use one in \<open>auto simp: next_of_def s'\<close>)
      then have "chain (next_of s') (c_head s') cs" using wf_chain [OF wf] by (simp add: s')
      then have "cs' = cs" using wf_chain_unique [OF wf'] by simp
      then show ?thesis using blk one by (auto simp: counted_def held_counts_def s')
    qed
  qed
qed

lemma release_counted:
  assumes "wf s cs (add_mset r R)" "release r s = Some (r', s')" "wf s' cs' R'"
  shows "counted s cs {#r#} s' cs' {#}"
proof -
  have "0 < r_block r" using wf_ref_small(2) [OF assms(1)] wf_ref [OF assms(1), of r] by simp
  then have "dec_ref (r_block r) s = Some s'" using assms(2) by (auto simp: release_def split: bind_splits)
  then show ?thesis using dec_ref_counted [OF assms(1) _ assms(3)] by simp
qed

lemma push_new_block_counted:
  assumes wf: "wf s cs R" and sz: "32 \<le> sz" "sz < 65536" "8 dvd sz" and run: "push_new_block sz s = Some (b, s1)"
  shows "counted s cs {#} s1 (b # cs) {#}"
proof -
  obtain b0 s0 where new: "create_block sz s = (b0, s0)" by fastforce
  note c = create_block_wf [OF wf sz new]
  obtain d where d: "blocks s0 b0 = Some \<lparr>b_next = 0, b_ref_num = 1, b_offset = 0, b_capacity = sz - 24, b_data = d, b_size = sz - 24\<rparr>"
    using c(7) by blast
  have b: "b = b0" "blocks s1 = (blocks s0)(b0 \<mapsto> \<lparr>b_next = c_head s0, b_ref_num = 1, b_offset = 0, b_capacity = sz - 24,
      b_data = d, b_size = sz - 24\<rparr>)" using run new d by (auto simp: push_new_block_def upd_block_def)
  show ?thesis using c(2,3,8) by (auto simp: counted_def held_counts_def b)
qed

lemma acquire_block_ref_array_counted:
  assumes wf: "wf s cs R" and n: "array_bytes_of n + 24 < 65536"
    and run: "acquire_block_ref_array n s = Some (ptr, r, s')" and wf': "wf s' cs' R'"
  shows "counted s cs {#} s' cs' {#r#}"
proof -
  let ?ab = "n * sizeof_BlockRef + (sizeof_BlockRefArray + sizeof_BlockRef)"
  have ab: "?ab = array_bytes_of n"
    by (simp add: array_bytes_of_def sizeof_BlockRef_def sizeof_BlockRefArray_def)
  let ?find = "if ?ab < kNormalBlockPayloadSize then do {
      b \<leftarrow> find_space ?ab (c_head s) s;
      if b \<noteq> 0 then Some (b, s) else push_new_block kNormalBlockSize s}
    else push_new_block (u32 (?ab + sizeof_Block)) s"
  obtain b s1 blk s2 where f: "?find = Some (b, s1)" and blk: "blocks s1 b = Some blk" and inc: "inc_ref b s1 = Some s2"
    and s': "upd_block b (\<lambda>blk. blk\<lparr>b_offset := u32 (b_offset blk + ?ab)\<rparr>) s2 = Some s'" "r_block r = b"
    using run unfolding acquire_block_ref_array_def Let_def by (auto split: bind_splits)
  have "s1 = s \<or> push_new_block kNormalBlockSize s = Some (b, s1) \<or> push_new_block (u32 (?ab + sizeof_Block)) s = Some (b, s1)"
    using f by (auto split: if_splits bind_splits)
  moreover have "32 \<le> kNormalBlockSize" "kNormalBlockSize < 65536" "8 dvd kNormalBlockSize" by (simp_all add: kNormalBlockSize_def)
  moreover have "32 \<le> u32 (?ab + sizeof_Block)" "u32 (?ab + sizeof_Block) < 65536" "8 dvd u32 (?ab + sizeof_Block)"
    using n unfolding ab by (simp_all add: array_bytes_of_def sizeof_Block_def u32_id)
  ultimately obtain cs1 where 1: "counted s cs {#} s1 cs1 {#}" "wf s1 cs1 R"
    using push_new_block_counted [OF wf] push_new_block_wf [OF wf] wf counted_refl by (metis option.inject prod.inject)
  have e: "blocks s' = (blocks s1)(b \<mapsto> blk\<lparr>b_ref_num := b_ref_num blk + 1, b_offset := u32 (b_offset blk + ?ab)\<rparr>)" "c_head s' = c_head s1"
    using inc blk s'(1) by (auto simp: inc_ref_def upd_block_def)
  then have "next_of s' = next_of s1" using blk by (auto simp: next_of_def fun_eq_iff)
  then have "cs' = cs1" using wf_chain_unique [OF 1(2)] wf_chain [OF wf'] e(2) by simp
  then have "counted s1 cs1 {#} s' cs' {#r#}" using blk s'(2) by (auto simp: counted_def held_counts_def e(1))
  then show ?thesis using 1(1) counted_trans by blast
qed

subsection \<open>Appending references\<close>

text \<open>A reference that continues the last one in its block is merged with it.\<close>

definition join_ref :: "block_ref list \<Rightarrow> block_ref \<Rightarrow> block_ref list" where
  "join_ref rs r = (if rs = [] then [r]
     else case merge (last rs) r of None \<Rightarrow> rs @ [r] | Some l \<Rightarrow> butlast rs @ [l])"

lemma join_snoc: "join_ref (rs @ [l]) r = (case merge l r of None \<Rightarrow> rs @ [l, r] | Some l' \<Rightarrow> rs @ [l'])"
  by (simp add: join_ref_def split: option.split)

lemma merge_block: "merge l r = Some l' \<Longrightarrow> r_block l' = r_block l"
  by (auto simp: merge_def split: if_splits)

lemma ref_count_add_mset_block: "r_block l' = r_block l \<Longrightarrow> ref_count (add_mset l' R) = ref_count (add_mset l R)"
  by (simp add: fun_eq_iff)

lemma array_resize_counted:
  assumes ok: "ring_ok n a" and room: "room 1 (Arr n a fr)" and wf: "wf s cs (add_mset fr Q)" and big: "n > a_cap_mask a"
    and run: "array_resize a fr s = Some (a2, fr2, s2)" and wf2: "wf s2 cs2 R2"
  shows "counted s cs {#fr#} s2 cs2 {#fr2#}"
proof -
  let ?n = "u32 (u32 (a_cap_mask a + 1) * 2)"
  obtain k where k: "5 \<le> k" "k \<le> 11" "a_cap_mask a = 2 ^ k - 1" "n \<le> 2 ^ k" using ring_ok_cases [OF ok] by metis
  with big room have "2 ^ k + 1 \<le> (2048::nat)" by (auto split: if_splits)
  then have "k \<noteq> 11" by auto
  then have p: "(2::nat) ^ k \<le> 2 ^ 10" using k(2) by (intro power_increasing) auto
  then have n: "array_bytes_of ?n + 24 < 65536" using k(3) by (simp add: array_bytes_of_def wrap_simps)
  obtain ptr s1 where acq: "acquire_block_ref_array ?n s = Some (ptr, fr2, s1)" and dec: "dec_ref (r_block fr) s1 = Some s2"
    using run by (auto simp: array_resize_def Let_def split: bind_splits)
  obtain cs1 where wf1: "wf s1 cs1 (add_mset fr2 (add_mset fr Q))" using acquire_block_ref_array_wf [OF wf n] acq by auto
  then have "counted s1 cs1 {#fr#} s2 cs2 {#}" using dec_ref_counted [OF _ dec wf2] by (simp add: add_mset_commute)
  from counted_frame [OF this, of "{#fr2#}"] counted_frame [OF acquire_block_ref_array_counted [OF wf n acq wf1], of "{#fr#}"]
  show ?thesis using counted_trans by (fastforce simp: add_mset_commute)
qed

text \<open>What appending a reference leaves, for the reference being copied and for it being moved: what is counted besides what the
  buffer owned is \<open>A\<close>.\<close>

definition append_counts :: "block_ref multiset \<Rightarrow> zstate \<Rightarrow> nat list \<Rightarrow> zbuffer \<Rightarrow> block_ref \<Rightarrow> zbuffer \<Rightarrow> zstate \<Rightarrow> nat list \<Rightarrow> bool" where
  "append_counts A s cs z r z' s' cs' = (zrefs z' = join_ref (zrefs z) r \<and> counted s cs (owned z + A) s' cs' (owned z'))"

lemma ring_push_counts:
  assumes ok: "ring_ok n a2" "n \<le> a_cap_mask a2" "ring_list n a2 = ring_list n a" and none: "ring_list n a \<noteq> [] \<Longrightarrow> merge (last (ring_list n a)) r = None"
    and c: "counted s cs (add_mset fr A) s' cs' {#fr2, r#}"
  shows "append_counts A s cs (Arr n a fr) r (Arr (Suc n) (set_ref a2 n r) fr2) s' cs'"
proof -
  have r: "ring_list (Suc n) (set_ref a2 n r) = ring_list n a @ [r]" using ring_push(2) [OF ok(1,2)] ok(3) by simp
  moreover have "join_ref (ring_list n a) r = ring_list n a @ [r]" using none by (auto simp: join_ref_def)
  moreover have "counted s cs (owned (Arr n a fr) + A) s' cs' (owned (Arr (Suc n) (set_ref a2 n r) fr2))"
    using counted_frame [OF c, of "mset (ring_list n a)"] r by (simp add: ac_simps add_mset_commute)
  ultimately show ?thesis by (simp add: append_counts_def)
qed

lemma ring_merge_counts:
  assumes ok: "ring_ok (Suc m) a" "ring_list (Suc m) a = ring_list m a @ [l]" "merge l r = Some l'" and c: "counted s cs A s' cs' {#}"
  shows "append_counts A s cs (Arr (Suc m) a fr) r (Arr (Suc m) (set_ref (a\<lparr>a_nbytes := nb\<rparr>) m l') fr) s' cs'"
proof -
  have r: "ring_list (Suc m) (set_ref (a\<lparr>a_nbytes := nb\<rparr>) m l') = ring_list m a @ [l']"
    using ring_set_last(2) [of m "a\<lparr>a_nbytes := nb\<rparr>" l'] ok(1) by simp
  have "counted s cs (owned (Arr (Suc m) a fr) + A) s' cs' (owned (Arr (Suc m) a fr))"
    using counted_frame [OF c, of "owned (Arr (Suc m) a fr)"] by (simp add: ac_simps)
  moreover have "ref_count (owned (Arr (Suc m) (set_ref (a\<lparr>a_nbytes := nb\<rparr>) m l') fr)) = ref_count (owned (Arr (Suc m) a fr))"
    using merge_block [OF ok(3)] r ok(2) by (simp add: fun_eq_iff)
  ultimately show ?thesis using r ok(2,3) by (auto simp: append_counts_def join_snoc intro: counted_same_blocks)
qed

lemma array_append_ref_counts:
  assumes z: "zok (Arr n a fr)" and wf: "wf s cs (owned (Arr n a fr) + R)" and room: "room 1 (Arr n a fr)" and r: "ref_ok s r"
    and wf': "wf s' cs' R'"
  shows "array_append_ref_copy r n a fr s = Some (z', s') \<Longrightarrow> append_counts {#} s cs (Arr n a fr) r z' s' cs'"
    "array_append_ref_move r n a fr s = Some (z', s') \<Longrightarrow> r \<in># R \<Longrightarrow> append_counts {#r#} s cs (Arr n a fr) r z' s' cs'"
proof -
  have ok: "ring_ok n a" using z by simp
  have rb: "r_block r \<noteq> 0" using wf_ref_small(2) [OF wf r] by simp
  let ?nb = "u64 (a_nbytes a + r_length r)"
  let ?a1 = "a\<lparr>a_nbytes := ?nb\<rparr>" and ?Q = "mset (ring_list n a) + R"
  have wfQ: "wf s cs (add_mset fr ?Q)" using wf by simp
  have ok1: "ring_ok n ?a1" and room1: "room 1 (Arr n ?a1 fr)" using ok room by (simp_all split: if_splits)
  obtain l where l: "ref_at a (sub32 n 1) = Some l" and cas: "merge l r = None \<and> (ring_list n a \<noteq> [] \<longrightarrow> last (ring_list n a) = l)
      \<or> (\<exists>m l'. n = Suc m \<and> sub32 n 1 = m \<and> merge l r = Some l' \<and> ring_list n a = ring_list m a @ [l])"
  proof (cases rule: ring_last [OF ok rb])
    case (1 l)
    then show thesis by (intro that [of l]) (auto simp: ring_list_def)
  next
    case (2 m l)
    then show thesis by (intro that [of l]) (cases "merge l r", auto)
  qed
  obtain a2 fr2 s2 cs2 where g: "(if n > a_cap_mask ?a1 then array_resize ?a1 fr s else Some (?a1, fr, s)) = Some (a2, fr2, s2)"
    "wf s2 cs2 (add_mset fr2 ?Q)" and a2: "ring_ok n a2" "n \<le> a_cap_mask a2" "ring_list n a2 = ring_list n a"
    using ring_grow [OF ok1 room1 wfQ] by auto
  have cg: "counted s cs {#fr#} s2 cs2 {#fr2#}"
  proof (cases "n > a_cap_mask ?a1")
    case True
    then show ?thesis using array_resize_counted [OF ok1 room1 wfQ True _ g(2)] g(1) by simp
  next
    case False
    then have "fr2 = fr" "s2 = s" using g(1) by simp_all
    moreover from this have "cs2 = cs" using wf_unique [OF wf] g(2) by blast
    ultimately show ?thesis by simp
  qed
  have u: "u32 (n + 1) = Suc n" by (rule ring_count(1) [OF ok])
  show "append_counts {#} s cs (Arr n a fr) r z' s' cs'" if run: "array_append_ref_copy r n a fr s = Some (z', s')"
    using cas
  proof (elim disjE)
    assume none: "merge l r = None \<and> (ring_list n a \<noteq> [] \<longrightarrow> last (ring_list n a) = l)"
    have i: "inc_ref (r_block r) s2 = Some s'" and z': "z' = Arr (Suc n) (set_ref a2 n r) fr2"
      using run l none g(1) u by (auto simp: array_append_ref_copy_def Let_def split: bind_splits)
    from counted_frame [OF inc_ref_counted [OF g(2) i wf'], of "{#fr2#}"] cg
    have "counted s cs {#fr#} s' cs' {#fr2, r#}" using counted_trans by (fastforce simp: add_mset_commute)
    then show ?thesis unfolding z' using none by (intro ring_push_counts [OF a2]) auto
  next
    assume "\<exists>m l'. n = Suc m \<and> sub32 n 1 = m \<and> merge l r = Some l' \<and> ring_list n a = ring_list m a @ [l]"
    then obtain m l' where m: "n = Suc m" "sub32 n 1 = m" "merge l r = Some l'" "ring_list n a = ring_list m a @ [l]" by blast
    have "z' = Arr n (set_ref ?a1 m l') fr" "s' = s" using run l m by (auto simp: array_append_ref_copy_def)
    moreover from this have "cs' = cs" using wf_unique [OF wf] wf' by blast
    ultimately show ?thesis using ring_merge_counts [OF _ _ m(3), of m a s cs "{#}" s cs fr ?nb] ok m by simp
  qed
  show "append_counts {#r#} s cs (Arr n a fr) r z' s' cs'" if run: "array_append_ref_move r n a fr s = Some (z', s')" and rin: "r \<in># R"
    using cas
  proof (elim disjE)
    assume none: "merge l r = None \<and> (ring_list n a \<noteq> [] \<longrightarrow> last (ring_list n a) = l)"
    have z': "z' = Arr (Suc n) (set_ref a2 n r) fr2" "s' = s2"
      using run l none g(1) u by (auto simp: array_append_ref_move_def Let_def split: bind_splits)
    then have "cs' = cs2" using wf_unique [OF g(2)] wf' by blast
    then have "counted s cs {#fr, r#} s' cs' {#fr2, r#}" using counted_frame [OF cg, of "{#r#}"] z'(2) by (simp add: add_mset_commute)
    then show ?thesis unfolding z'(1) using none by (intro ring_push_counts [OF a2]) auto
  next
    assume "\<exists>m l'. n = Suc m \<and> sub32 n 1 = m \<and> merge l r = Some l' \<and> ring_list n a = ring_list m a @ [l]"
    then obtain m l' where m: "n = Suc m" "sub32 n 1 = m" "merge l r = Some l'" "ring_list n a = ring_list m a @ [l]" by blast
    obtain r' where "release r s = Some (r', s')" "z' = Arr n (set_ref ?a1 m l') fr"
      using run l m by (auto simp: array_append_ref_move_def split: bind_splits)
    moreover obtain R0 where "R = add_mset r R0" using rin by (metis multi_member_split)
    then have "wf s cs (add_mset r (owned (Arr n a fr) + R0))" using wf by simp
    ultimately show ?thesis using ring_merge_counts [OF _ _ m(3), of m a s cs "{#r#}" s' cs' fr ?nb] ok m release_counted wf' by simp
  qed
qed


lemma transfor_to_array_counted:
  assumes wf: "wf s cs R" and run: "transfor_to_array f g s = Some (n, a, fr, s1)" and wf1: "wf s1 cs1 R1"
  shows "counted s cs {#} s1 cs1 {#fr#}"
proof -
  obtain ptr where "acquire_block_ref_array kInitBlockRefArraySize s = Some (ptr, fr, s1)"
    using run by (auto simp: transfor_to_array_def split: bind_splits prod.splits)
  then show ?thesis
    using acquire_block_ref_array_counted [OF wf _ _ wf1, of kInitBlockRefArraySize ptr fr]
    by (simp add: array_bytes_of_def kInitBlockRefArraySize_def)
qed

text \<open>From the layout with two references in place by way of a new ring.\<close>

lemma append_counts_via_array:
  assumes c: "counted s cs {#} s1 cs1 {#fr#}" and ring: "ring_list 2 a = [f, g]" and fg: "r_block f \<noteq> 0" "r_block g \<noteq> 0"
    and app: "append_counts A s1 cs1 (Arr 2 a fr) r z' s' cs'"
  shows "append_counts A s cs (Simple f g) r z' s' cs'"
proof -
  have "counted s cs (owned (Simple f g) + A) s1 cs1 (owned (Arr 2 a fr) + A)"
    using counted_frame [OF c, of "owned (Simple f g) + A"] ring fg by (simp add: ac_simps add_mset_commute)
  then show ?thesis using app ring fg counted_trans by (auto simp: append_counts_def)
qed

lemma append_counts_put:
  assumes "zok (Simple f g)" "r_block r \<noteq> 0" "r_block f = 0 \<or> r_block g = 0 \<and> merge f r = None" "counted s cs A s' cs' {#r#}"
  shows "append_counts A s cs (Simple f g) r (if r_block f = 0 then Simple r g else Simple f r) s' cs'"
proof -
  have "counted s cs (owned (Simple f g) + A) s' cs' (add_mset r (owned (Simple f g)))"
    using counted_frame [OF assms(4), of "owned (Simple f g)"] by (simp add: ac_simps)
  then show ?thesis using assms by (auto simp: append_counts_def join_ref_def null_ref_def add_mset_commute split: if_splits)
qed

lemma append_counts_merge:
  assumes "r_block f \<noteq> 0" "counted s cs A s' cs' {#}"
  shows "r_block g = 0 \<Longrightarrow> merge f r = Some f' \<Longrightarrow> append_counts A s cs (Simple f g) r (Simple f' g) s' cs'"
    "r_block g \<noteq> 0 \<Longrightarrow> merge g r = Some g' \<Longrightarrow> append_counts A s cs (Simple f g) r (Simple f g') s' cs'"
proof -
  have c: "counted s cs (owned (Simple f g) + A) s' cs' (owned (Simple f g))"
    using counted_frame [OF assms(2), of "owned (Simple f g)"] by (simp add: ac_simps)
  { assume m: "r_block g = 0" "merge f r = Some f'"
    then have "ref_count (owned (Simple f' g)) = ref_count (owned (Simple f g))"
      using merge_block [OF m(2)] assms(1) by (simp add: fun_eq_iff)
    then show "append_counts A s cs (Simple f g) r (Simple f' g) s' cs'"
      using counted_same_blocks [OF c] m merge_block [OF m(2)] assms(1) by (simp add: append_counts_def join_ref_def) }
  { assume m: "r_block g \<noteq> 0" "merge g r = Some g'"
    then have "ref_count (owned (Simple f g')) = ref_count (owned (Simple f g))"
      using merge_block [OF m(2)] assms(1) by (simp add: fun_eq_iff)
    then show "append_counts A s cs (Simple f g) r (Simple f g') s' cs'"
      using counted_same_blocks [OF c] m merge_block [OF m(2)] assms(1) by (simp add: append_counts_def join_ref_def) }
qed

lemma append_ref_copy_counts:
  assumes z: "zok z" and wf: "wf s cs (owned z + R)" and room: "room 1 z" and r: "live s cs R r"
    and run: "append_ref_copy r z s = Some (z', s')" and wf': "wf s' cs' R'"
  shows "append_counts {#} s cs z r z' s' cs'"
proof (cases z)
  case (Arr n a fr)
  then show ?thesis using array_append_ref_counts(1) [of n a fr s cs R r s' cs' R' z'] assms by (simp add: live_def)
next
  case (Simple f g)
  have rb: "r_block r \<noteq> 0" using wf_ref_small(2) [OF wf] r by (simp add: live_def)
  have same: "counted s cs {#} s' cs' {#}" if "s' = s"
  proof -
    have "cs' = cs" using wf_unique [OF wf] wf' that by blast
    then show ?thesis using that by simp
  qed
  consider (put) "r_block f = 0 \<or> r_block g = 0 \<and> merge f r = None"
    | (merge1) f' where "r_block f \<noteq> 0" "r_block g = 0" "merge f r = Some f'"
    | (merge2) g' where "r_block f \<noteq> 0" "r_block g \<noteq> 0" "merge g r = Some g'"
    | (grow) "r_block f \<noteq> 0" "r_block g \<noteq> 0" "merge g r = None" by fastforce
  then show ?thesis
  proof cases
    case put
    then have "inc_ref (r_block r) s = Some s'" "z' = (if r_block f = 0 then Simple r g else Simple f r)"
      using run Simple by (auto split: bind_splits if_splits)
    then show ?thesis using append_counts_put [OF _ rb put inc_ref_counted [OF wf _ wf']] z Simple by simp
  next
    case merge1
    then have "z' = Simple f' g" "s' = s" using run Simple by auto
    then show ?thesis using append_counts_merge(1) [OF merge1(1) same merge1(2,3)] Simple by simp
  next
    case merge2
    then have "z' = Simple f g'" "s' = s" using run Simple by auto
    then show ?thesis using append_counts_merge(2) [OF merge2(1) same merge2(2,3)] Simple by simp
  next
    case grow
    obtain a fr s1 cs1 where t: "transfor_to_array f g s = Some (2, a, fr, s1)" "zok (Arr 2 a fr)"
      "wf s1 cs1 (owned (Arr 2 a fr) + R)" "preserves s cs (owned (Simple f g) + R) s1 cs1"
      "a_begin a = 0" "ring_list 2 a = [f, g]"
      using transfor_to_array_ok [of f g s cs R] z wf Simple grow by auto
    have "array_append_ref_copy r 2 a fr s1 = Some (z', s')" using run Simple grow t(1) by simp
    moreover have "ref_ok s1 r" using preserves_live [OF preserves_union [OF t(4)] r] by (simp add: live_def)
    ultimately have "append_counts {#} s1 cs1 (Arr 2 a fr) r z' s' cs'"
      using array_append_ref_counts(1) [OF t(2,3) _ _ wf'] t(5) by simp
    then show ?thesis
      using append_counts_via_array [OF transfor_to_array_counted [OF wf t(1,3)] t(6) grow(1,2)] Simple by simp
  qed
qed

lemma append_ref_move_counts:
  assumes z: "zok z" and wf: "wf s cs (owned z + add_mset r R)" and room: "room 1 z"
    and run: "append_ref_move r z s = Some (z', s')" and wf': "wf s' cs' R'"
  shows "append_counts {#r#} s cs z r z' s' cs'"
proof (cases z)
  case (Arr n a fr)
  then show ?thesis using array_append_ref_counts(2) [of n a fr s cs "add_mset r R" r s' cs' R' z'] assms wf_ref [OF wf, of r] by simp
next
  case (Simple f g)
  have rb: "r_block r \<noteq> 0" using wf_ref_small(2) [OF wf wf_ref [OF wf, of r]] by simp
  have rel: "counted s cs {#r#} s' cs' {#}" if "release r s = Some (r', s')" for r'
    using release_counted [OF _ that wf'] wf by simp
  consider (put) "r_block f = 0 \<or> r_block g = 0 \<and> merge f r = None"
    | (merge1) f' where "r_block f \<noteq> 0" "r_block g = 0" "merge f r = Some f'"
    | (merge2) g' where "r_block f \<noteq> 0" "r_block g \<noteq> 0" "merge g r = Some g'"
    | (grow) "r_block f \<noteq> 0" "r_block g \<noteq> 0" "merge g r = None" by fastforce
  then show ?thesis
  proof cases
    case put
    then have "s' = s" "z' = (if r_block f = 0 then Simple r g else Simple f r)" using run Simple by (auto split: if_splits)
    moreover have "cs' = cs" using wf_unique [OF wf] wf' \<open>s' = s\<close> by blast
    ultimately show ?thesis using append_counts_put [OF _ rb put, of s cs "{#r#}" s' cs'] z Simple by simp
  next
    case merge1
    then obtain r' where "release r s = Some (r', s')" "z' = Simple f' g" using run Simple by (auto split: bind_splits)
    then show ?thesis using append_counts_merge(1) [OF merge1(1) rel merge1(2,3)] Simple by simp
  next
    case merge2
    then obtain r' where "release r s = Some (r', s')" "z' = Simple f g'" using run Simple by (auto split: bind_splits)
    then show ?thesis using append_counts_merge(2) [OF merge2(1) rel merge2(2,3)] Simple by simp
  next
    case grow
    obtain a fr s1 cs1 where t: "transfor_to_array f g s = Some (2, a, fr, s1)" "zok (Arr 2 a fr)"
      "wf s1 cs1 (owned (Arr 2 a fr) + add_mset r R)" "a_begin a = 0" "ring_list 2 a = [f, g]"
      using transfor_to_array_ok [of f g s cs "add_mset r R"] z wf Simple grow by auto
    have "array_append_ref_move r 2 a fr s1 = Some (z', s')" using run Simple grow t(1) by simp
    then have "append_counts {#r#} s1 cs1 (Arr 2 a fr) r z' s' cs'"
      using array_append_ref_counts(2) [OF t(2,3) _ _ wf'] t(4) wf_ref [OF t(3), of r] by simp
    then show ?thesis
      using append_counts_via_array [OF transfor_to_array_counted [OF wf t(1,3)] t(5) grow(1,2)] Simple by simp
  qed
qed

subsection \<open>Appending one buffer to another\<close>

lemma append_refs_copy_counts:
  assumes "\<forall>r \<in> set rs. live s cs R r \<and> 0 < r_length r" "zok z" "wf s cs (owned z + R)" "room (length rs) z"
    "append_refs append_ref_copy rs z s = Some (z', s')" "wf s' cs' R'"
  shows "zrefs z' = foldl join_ref (zrefs z) rs \<and> counted s cs (owned z) s' cs' (owned z')"
  using assms
proof (induction rs arbitrary: z s cs)
  case Nil
  then have "z' = z" "s' = s" by simp_all
  moreover have "cs' = cs" using wf_unique [OF Nil.prems(3)] Nil.prems(6) \<open>s' = s\<close> by blast
  ultimately show ?case by simp
next
  case (Cons r rs)
  have room: "room 1 z" using Cons.prems(4) by (rule room_mono [rotated]) simp
  have r: "live s cs R r" "0 < r_length r" using Cons.prems(1) by simp_all
  obtain z1 s1 cs1 where one: "append_ref_copy r z s = Some (z1, s1)" "appended 1 s cs R z (ref_bytes s r) z1 s1 cs1"
    using append_ref_copy_ok [OF Cons.prems(2,3) r room] by (auto simp: append_post_appended)
  have pres: "preserves s cs R s1 cs1" and z1: "zok z1" "wf s1 cs1 (owned z1 + R)" "room (length rs) z1"
    using one(2) Cons.prems(4) by (auto simp: appended_def)
  have lv: "\<forall>r \<in> set rs. live s1 cs1 R r \<and> 0 < r_length r" using Cons.prems(1) preserves_live [OF pres] by simp
  have app: "append_counts {#} s cs z r z1 s1 cs1" by (rule append_ref_copy_counts [OF Cons.prems(2,3) room r(1) one(1) z1(2)])
  have "append_refs append_ref_copy rs z1 s1 = Some (z', s')" using Cons.prems(5) one(1) by simp
  note rest = Cons.IH [OF lv z1 this Cons.prems(6)]
  show ?case using rest app counted_trans [OF _ conjunct2 [OF rest], of s cs "owned z"] by (simp add: append_counts_def)
qed

lemma append_refs_move_counts:
  assumes "\<forall>r \<in> set rs. 0 < r_length r" "zok z" "wf s cs (owned z + (mset rs + R))" "room (length rs) z"
    "append_refs append_ref_move rs z s = Some (z', s')" "wf s' cs' R'"
  shows "zrefs z' = foldl join_ref (zrefs z) rs \<and> counted s cs (owned z + mset rs) s' cs' (owned z')"
  using assms
proof (induction rs arbitrary: z s cs)
  case Nil
  then have "z' = z" "s' = s" by simp_all
  moreover have "cs' = cs" using wf_unique [OF Nil.prems(3)] Nil.prems(6) \<open>s' = s\<close> by blast
  ultimately show ?case by simp
next
  case (Cons r rs)
  have room: "room 1 z" using Cons.prems(4) by (rule room_mono [rotated]) simp
  have wf: "wf s cs (owned z + add_mset r (mset rs + R))" using Cons.prems(3) by simp
  obtain z1 s1 cs1 where one: "append_ref_move r z s = Some (z1, s1)" "appended 1 s cs (mset rs + R) z (ref_bytes s r) z1 s1 cs1"
    using append_ref_move_ok [OF Cons.prems(2) wf _ room] Cons.prems(1) by (auto simp: append_post_appended)
  have z1: "zok z1" "wf s1 cs1 (owned z1 + (mset rs + R))" "room (length rs) z1"
    using one(2) Cons.prems(4) by (auto simp: appended_def)
  have app: "append_counts {#r#} s cs z r z1 s1 cs1" by (rule append_ref_move_counts [OF Cons.prems(2) wf room one(1) z1(2)])
  then have c: "counted s cs (owned z + mset (r # rs)) s1 cs1 (owned z1 + mset rs)"
    using counted_frame [of s cs "owned z + {#r#}" s1 cs1 "owned z1" "mset rs"] by (simp add: append_counts_def ac_simps)
  have "append_refs append_ref_move rs z1 s1 = Some (z', s')" "\<forall>r \<in> set rs. 0 < r_length r"
    using Cons.prems(1,5) one(1) by simp_all
  note rest = Cons.IH [OF this(2) z1 this(1) Cons.prems(6)]
  show ?case using rest app counted_trans [OF c conjunct2 [OF rest]] by (simp add: append_counts_def)
qed

lemma append_copy_counts:
  assumes y: "zok y" and z: "zok z" "wf s cs (owned z + (owned y + R))" "room (length (zrefs y)) z"
    and run: "append_copy y z s = Some (nr, z', s')" and wf': "wf s' cs' R'"
  shows "zrefs z' = foldl join_ref (zrefs z) (zrefs y)" "counted s cs (owned z) s' cs' (owned z')"
proof -
  have wfy: "wf s cs (owned y + R)" using wf_mono [of s cs "owned y + R" "owned z"] z(2) by (simp add: add.commute)
  have "\<forall>r \<in> set (zrefs y). live s cs (owned y + R) r \<and> 0 < r_length r"
    using wf_live [OF wfy] zrefs_owned zrefs_pos [OF y] by simp
  moreover have "append_refs append_ref_copy (zrefs y) z s = Some (z', s')"
    using run by (auto simp: append_copy_eq [OF y] split: bind_splits)
  ultimately show "zrefs z' = foldl join_ref (zrefs z) (zrefs y)" "counted s cs (owned z) s' cs' (owned z')"
    using append_refs_copy_counts [OF _ z _ wf'] by blast+
qed

lemma append_move_counts:
  assumes y: "zok y" and z: "zok z" "wf s cs (owned z + (owned y + R))" "room (length (zrefs y)) z"
    and run: "append_move y z s = Some (nr, z', y', s')" and wf': "wf s' cs' R'"
  shows "zrefs z' = foldl join_ref (zrefs z) (zrefs y)" "counted s cs (owned z + owned y) s' cs' (owned z' + owned y')"
proof -
  have app: "append_refs append_ref_move (zrefs y) z s = Some (z', s')" and y': "y' = moved_from y"
    using run by (auto simp: append_move_eq [OF y] split: bind_splits)
  have pos: "\<forall>r \<in> set (zrefs y). 0 < r_length r" using zrefs_pos [OF y] by simp
  have "wf s cs (owned z + (mset (zrefs y) + (owned (moved_from y) + R)))" using z(2) by (simp add: owned_split [of y] ac_simps)
  from append_refs_move_counts [OF pos z(1) this z(3) app wf']
  have c: "zrefs z' = foldl join_ref (zrefs z) (zrefs y)" "counted s cs (owned z + mset (zrefs y)) s' cs' (owned z')" by blast+
  from c(1) show "zrefs z' = foldl join_ref (zrefs z) (zrefs y)" .
  show "counted s cs (owned z + owned y) s' cs' (owned z' + owned y')"
    using counted_frame [OF c(2), of "owned (moved_from y)"] by (simp add: owned_split [of y] y' add.assoc)
qed

subsection \<open>Destroying\<close>

lemma release_loop_counts:
  assumes "holds a i rs" "ring_cap a (i + length rs)" "wf s cs (mset rs + R)" "release_loop (length rs) i a s = Some s'" "wf s' cs' R'"
  shows "counted s cs (mset rs) s' cs' {#}"
  using assms
proof (induction rs arbitrary: i a s cs)
  case Nil
  then have "s' = s" by simp
  moreover have "cs' = cs" using wf_unique [OF Nil.prems(3)] Nil.prems(5) \<open>s' = s\<close> by blast
  ultimately show ?case by simp
next
  case (Cons r rs)
  have cap: "ring_cap a (Suc i + length rs)" using Cons.prems(2) by simp
  then have h: "holds (set_ref a i null_ref) (Suc i) rs" "ring_cap (set_ref a i null_ref) (Suc i + length rs)"
    using Cons.prems(1) holds_set_before [OF cap] by simp_all
  have wf: "wf s cs (add_mset r (mset rs + R))" using Cons.prems(3) by simp
  from release_owned [OF this] obtain s1 cs1 where rel: "release r s = Some (null_ref, s1)" "wf s1 cs1 (mset rs + R)" by blast
  have "counted s cs ({#r#} + mset rs) s1 cs1 ({#} + mset rs)" by (rule counted_frame [OF release_counted [OF wf rel]])
  moreover have "counted s1 cs1 (mset rs) s' cs' {#}"
    using Cons.IH [OF h rel(2) _ Cons.prems(5)] Cons.prems(1,4) rel(1) by simp
  ultimately show ?case using counted_trans by fastforce
qed

lemma destroy_counts:
  assumes z: "destroyable z" and wf: "wf s cs (owned z + R)" and run: "destroy z s = Some s'" and wf': "wf s' cs' R'"
  shows "counted s cs (owned z) s' cs' {#}"
proof (cases z)
  case (Arr n a fr)
  note ring = destroyable_arr [OF z [unfolded Arr]]
  have wf0: "wf s cs (mset (ring_list n a) + add_mset fr R)" using wf Arr by simp
  from release_loop_ok [OF ring(2) _ this] ring(1) obtain s1 cs1 where
    1: "release_loop n 0 a s = Some s1" "wf s1 cs1 (add_mset fr R)" by auto
  have "counted s cs (mset (ring_list n a)) s1 cs1 {#}" using release_loop_counts [OF ring(2) _ wf0 _ 1(2)] ring(1) 1(1) by simp
  from counted_frame [OF this, of "{#fr#}"] have "counted s cs (owned z) s1 cs1 {#fr#}" using Arr by simp
  moreover obtain r' where "release fr s1 = Some (r', s')" using run 1(1) Arr by (auto split: bind_splits)
  then have "counted s1 cs1 {#fr#} s' cs' {#}" by (rule release_counted [OF 1(2) _ wf'])
  ultimately show ?thesis using counted_trans by blast
next
  case (Simple f g)
  have "zok z" using z Simple by (simp only: destroyable_simple)
  then have "f = null_ref \<and> g = null_ref \<or> r_block f \<noteq> 0 \<and> g = null_ref \<or> r_block f \<noteq> 0 \<and> r_block g \<noteq> 0"
    using Simple by auto
  then show ?thesis
  proof (elim disjE)
    assume h: "f = null_ref \<and> g = null_ref"
    then have "s' = s" using run Simple by simp
    moreover have "cs' = cs" using wf_unique [OF wf] wf' \<open>s' = s\<close> by blast
    ultimately show ?thesis using h Simple by (simp add: null_ref_def)
  next
    assume h: "r_block f \<noteq> 0 \<and> g = null_ref"
    then have "wf s cs (add_mset f R)" using wf Simple by (simp add: null_ref_def)
    moreover obtain r' where "release f s = Some (r', s')" using run h Simple by (auto split: bind_splits)
    ultimately show ?thesis using release_counted [OF _ _ wf'] h Simple by (simp add: null_ref_def)
  next
    assume h: "r_block f \<noteq> 0 \<and> r_block g \<noteq> 0"
    then have wff: "wf s cs (add_mset f (add_mset g R))" using wf Simple by simp
    from release_owned [OF this] obtain s1 cs1 where 1: "release f s = Some (null_ref, s1)" "wf s1 cs1 (add_mset g R)" by blast
    obtain r' where "release g s1 = Some (r', s')" using run 1(1) Simple by (auto split: bind_splits)
    then have "counted s1 cs1 {#g#} s' cs' {#}" by (rule release_counted [OF 1(2) _ wf'])
    moreover have "counted s cs ({#f#} + {#g#}) s1 cs1 ({#} + {#g#})" by (rule counted_frame [OF release_counted [OF wff 1]])
    ultimately have "counted s cs ({#f#} + {#g#}) s' cs' {#}" using counted_trans by simp
    moreover have "owned z = {#f#} + {#g#}" using h Simple by simp
    ultimately show ?thesis by simp
  qed
qed

end
