(* ===== verification/ZBuf_Layout.thy ===== *)
theory ZBuf_Layout
  imports ZBuf_Pop
begin

text \<open>
  The memory of a \<^verbatim>\<open>ZBuffer\<close>: the union at the end of \<^verbatim>\<open>include/p/base/zbuffer.h\<close>, in which two references overlay
  \<open>magic_num\<close>, \<open>refs_num\<close>, \<open>refs_array\<close> and \<open>first_ref\<close>. Both structures are laid out by the rules of the compiler's
  interface (members in the order of their declaration, each at a multiple of its alignment), as 32-bit words, and the
  discriminator is read as the code reads it, as a signed word.
\<close>

subsection \<open>Where the members are\<close>

text \<open>Sizes and alignments are in words: a member is \<open>(name, size, alignment)\<close>.\<close>

type_synonym member = "string \<times> nat \<times> nat"

type_synonym overlay = "nat \<Rightarrow> 32 word"

primrec member_at :: "nat \<Rightarrow> member list \<Rightarrow> string \<Rightarrow> nat" where
  "member_at pos [] x = pos"
| "member_at pos (d # ds) x = (let (y, size, align) = d; here = (pos + align - 1) div align * align
     in if x = y then here else member_at (here + size) ds x)"

definition BlockRef_members :: "member list" where
  "BlockRef_members = [(''offset'', 1, 1), (''length'', 1, 1), (''block'', 2, 2)]"

definition simple_members :: "member list" where
  "simple_members = [(''first_'', 4, 2), (''second_'', 4, 2)]"

definition array_members :: "member list" where
  "array_members = [(''magic_num'', 1, 1), (''refs_num'', 1, 1), (''refs_array'', 2, 2), (''first_ref'', 4, 2)]"

abbreviation at_first :: nat where "at_first \<equiv> member_at 0 simple_members ''first_''"
abbreviation at_second :: nat where "at_second \<equiv> member_at 0 simple_members ''second_''"
abbreviation at_magic_num :: nat where "at_magic_num \<equiv> member_at 0 array_members ''magic_num''"
abbreviation at_refs_num :: nat where "at_refs_num \<equiv> member_at 0 array_members ''refs_num''"
abbreviation at_refs_array :: nat where "at_refs_array \<equiv> member_at 0 array_members ''refs_array''"
abbreviation at_first_ref :: nat where "at_first_ref \<equiv> member_at 0 array_members ''first_ref''"

subsection \<open>Reading and writing\<close>

definition load32 :: "nat \<Rightarrow> overlay \<Rightarrow> nat" where
  "load32 p m = unat (m p)"

definition store32 :: "nat \<Rightarrow> nat \<Rightarrow> overlay \<Rightarrow> overlay" where
  "store32 p x m = m(p := word_of_nat x)"

definition load64 :: "nat \<Rightarrow> overlay \<Rightarrow> nat" where
  "load64 p m = unat (m p) + 2 ^ 32 * unat (m (p + 1))"

definition store64 :: "nat \<Rightarrow> nat \<Rightarrow> overlay \<Rightarrow> overlay" where
  "store64 p x m = m(p := word_of_nat x, p + 1 := word_of_nat (x div 2 ^ 32))"

definition load_ref :: "nat \<Rightarrow> overlay \<Rightarrow> block_ref" where
  "load_ref p m = \<lparr>r_offset = load32 (p + member_at 0 BlockRef_members ''offset'') m,
     r_length = load32 (p + member_at 0 BlockRef_members ''length'') m,
     r_block = load64 (p + member_at 0 BlockRef_members ''block'') m\<rparr>"

definition store_ref :: "nat \<Rightarrow> block_ref \<Rightarrow> overlay \<Rightarrow> overlay" where
  "store_ref p r m = store64 (p + member_at 0 BlockRef_members ''block'') (r_block r)
     (store32 (p + member_at 0 BlockRef_members ''length'') (r_length r)
       (store32 (p + member_at 0 BlockRef_members ''offset'') (r_offset r) m))"

text \<open>\<open>array()\<close> of the code.\<close>

definition magic_negative :: "overlay \<Rightarrow> bool" where
  "magic_negative m = (sint (m at_magic_num) < 0)"

text \<open>What the code reads: the two references, or the members of the other structure.\<close>

definition union_view :: "overlay \<Rightarrow> (block_ref \<times> block_ref) + (nat \<times> nat \<times> block_ref)" where
  "union_view m = (if \<not> magic_negative m then Inl (load_ref at_first m, load_ref at_second m)
     else Inr (load32 at_refs_num m, load64 at_refs_array m, load_ref at_first_ref m))"

text \<open>The words of a buffer, in memory that held \<open>m\<close>.\<close>

fun union_words :: "zbuffer \<Rightarrow> overlay \<Rightarrow> overlay" where
  "union_words (Simple f g) m = store_ref at_second g (store_ref at_first f m)"
| "union_words (Arr n a fr) m = store_ref at_first_ref fr (store64 at_refs_array (a_ptr a)
     (store32 at_refs_num n (m(at_magic_num := - 1))))"

text \<open>\<open>transfor_to_array\<close> copies both references before it writes the members that overlay them; \<open>ptr\<close> and \<open>fr\<close> are
  what \<open>acquire_block_ref_array\<close> returns and writes.\<close>

definition transfor_words :: "nat \<Rightarrow> block_ref \<Rightarrow> overlay \<Rightarrow> overlay" where
  "transfor_words ptr fr m = (let a = load_ref at_first m; b = load_ref at_second m;
     m1 = store_ref at_first_ref fr m;
     m2 = store64 at_refs_array ptr m1;
     m3 = store32 at_refs_num 0 (m2(at_magic_num := - 1));
     m4 = (if r_block a \<noteq> 0 then store32 at_refs_num (load32 at_refs_num m3 + 1) m3 else m3)
     in if r_block b \<noteq> 0 then store32 at_refs_num (load32 at_refs_num m4 + 1) m4 else m4)"

text \<open>The end of \<open>dump_refs_to\<close> for a buffer that was an array, which makes it simple again.\<close>

definition dump_words :: "overlay \<Rightarrow> overlay" where
  "dump_words m = store_ref at_second null_ref (store_ref at_first null_ref (store_ref at_first_ref null_ref m))"

subsection \<open>The two views of the words\<close>

lemma members [simp]:
  "at_first = 0" "at_second = 4" "at_magic_num = 0" "at_refs_num = 1" "at_refs_array = 2" "at_first_ref = 4"
  "member_at 0 BlockRef_members ''offset'' = 0" "member_at 0 BlockRef_members ''length'' = 1"
  "member_at 0 BlockRef_members ''block'' = 2"
  by (simp_all add: simple_members_def array_members_def BlockRef_members_def)

text \<open>The references and addresses that fit their members.\<close>

definition ref_fits :: "block_ref \<Rightarrow> bool" where
  "ref_fits r = (r_offset r < 2 ^ 31 \<and> r_length r < 2 ^ 32 \<and> r_block r < 2 ^ 64)"

fun words_fit :: "zbuffer \<Rightarrow> bool" where
  "words_fit (Simple f g) = (ref_fits f \<and> ref_fits g)"
| "words_fit (Arr n a fr) = (n < 2 ^ 32 \<and> a_ptr a < 2 ^ 64 \<and> ref_fits fr)"

lemma word32_nat: "x < 4294967296 \<Longrightarrow> unat (word_of_nat x :: 32 word) = x"
  by (simp add: unat_of_nat)

lemma word64_nat: "x < 18446744073709551616 \<Longrightarrow>
    unat (word_of_nat x :: 32 word) + 4294967296 * unat (word_of_nat (x div 4294967296) :: 32 word) = x"
  by (simp add: unat_of_nat)

lemma sint_small: "x < 2 ^ 31 \<Longrightarrow> 0 \<le> sint (word_of_nat x :: 32 word)"
  by (simp add: signed_of_nat signed_take_bit_eq_if_positive bit_iff_odd)

lemma words_simple:
  assumes "ref_fits f" "ref_fits g"
  shows "\<not> magic_negative (union_words (Simple f g) m)" "load_ref at_first (union_words (Simple f g) m) = f"
    "load_ref at_second (union_words (Simple f g) m) = g"
  using assms sint_small [of "r_offset f"]
  by (simp_all add: word32_nat word64_nat magic_negative_def store_ref_def load_ref_def store32_def store64_def load32_def load64_def ref_fits_def not_less)

lemma words_array:
  assumes "words_fit (Arr n a fr)"
  shows "magic_negative (union_words (Arr n a fr) m)" "load32 at_refs_num (union_words (Arr n a fr) m) = n"
    "load64 at_refs_array (union_words (Arr n a fr) m) = a_ptr a" "load_ref at_first_ref (union_words (Arr n a fr) m) = fr"
  using assms
  by (simp_all add: word32_nat word64_nat magic_negative_def store_ref_def load_ref_def store32_def store64_def load32_def load64_def ref_fits_def)

lemma transfor_words_eq:
  assumes "ref_fits f" "ref_fits g" "r_block f \<noteq> 0" "r_block g \<noteq> 0"
  shows "transfor_words (a_ptr a) fr (union_words (Simple f g) m) = union_words (Arr 2 a fr) m"
  unfolding transfor_words_def Let_def words_simple [OF assms(1,2)]
  using assms(3,4) by (simp add: fun_eq_iff store_ref_def store32_def store64_def load32_def)

lemma dump_words_eq: "dump_words (union_words (Arr n a fr) m) = union_words ZBuffer m"
  by (simp add: fun_eq_iff dump_words_def ZBuffer_def store_ref_def store32_def store64_def)

text \<open>Addresses are below \<open>2 ^ 64\<close>; offsets and lengths are then small by the invariant of the blocks.\<close>

definition in_memory :: "zstate \<Rightarrow> zbuffer \<Rightarrow> bool" where
  "in_memory s z = ((\<forall>b. blocks s b \<noteq> None \<longrightarrow> b < 2 ^ 64) \<and> (\<forall>n a fr. z = Arr n a fr \<longrightarrow> a_ptr a < 2 ^ 64))"

lemma words_fit_ok:
  assumes z: "zok z" and wf: "wf s cs (owned z + R)" and mem: "in_memory s z"
  shows "words_fit z"
proof -
  have ref: "ref_fits r" if "r \<in># owned z" for r
  proof -
    have r: "ref_ok s r" using wf_ref [OF wf] that by simp
    moreover obtain blk where "blocks s (r_block r) = Some blk" using r by (auto simp: ref_ok_def)
    ultimately show ?thesis using wf_ref_small(1) [OF wf r] mem by (simp add: ref_fits_def in_memory_def)
  qed
  show ?thesis
  proof (cases z)
    case (Simple f g)
    have "ref_fits q" if "q \<in> {f, g}" for q
    proof (cases "r_block q = 0")
      case True
      then have "q = null_ref" using that z Simple by auto
      then show ?thesis by (simp add: ref_fits_def null_ref_def)
    next
      case False
      then show ?thesis using that ref [of q] Simple by auto
    qed
    then show ?thesis using Simple by simp
  next
    case (Arr n a fr)
    then have "n \<le> 2048" using z ring_count(2) [of n a] by simp
    then show ?thesis using Arr ref [of fr] mem by (simp add: in_memory_def)
  qed
qed

lemma union_view_ok:
  assumes "words_fit z"
  shows "magic_negative (union_words z m) = array z"
    "union_view (union_words z m) = (case z of Simple f g \<Rightarrow> Inl (f, g) | Arr n a fr \<Rightarrow> Inr (n, a_ptr a, fr))"
  using assms words_simple words_array
  by (cases z; simp add: union_view_def del: members union_words.simps)+

lemma transfor_words_ok:
  assumes z: "zok (Simple f g)" and wf: "wf s cs (owned (Simple f g) + R)" and fit: "words_fit (Simple f g)"
    and fg: "r_block f \<noteq> 0" "r_block g \<noteq> 0" and run: "transfor_to_array f g s = Some (n, a, fr, s1)"
  shows "transfor_words (a_ptr a) fr (union_words (Simple f g) m) = union_words (Arr n a fr) m"
proof -
  have "n = 2" using transfor_to_array_ok [OF z fg wf] run by auto
  then show ?thesis using transfor_words_eq [OF _ _ fg, of a fr m] fit by simp
qed

end
