(* ===== verification/Byte_Queue.thy ===== *)
theory Byte_Queue
  imports Prelude
begin

text \<open>
  The contract of a first-in first-out buffer, as an interface: what a client may rely on when
  it mixes writes and reads in any order. A buffer provides \<open>push\<close> and \<open>pop\<close>, an invariant,
  the abstract sequence it holds and the condition under which an operation is allowed; the
  client lemma is proved once, by refinement to a list.
\<close>

datatype 'a qop = Push "'a list" | Pop nat

fun run_op :: "('a list \<Rightarrow> 'q \<Rightarrow> 'q option) \<Rightarrow> (nat \<Rightarrow> 'q \<Rightarrow> ('a list \<times> 'q) option)
    \<Rightarrow> 'a qop \<Rightarrow> 'q \<Rightarrow> ('a list \<times> 'q) option" where
  "run_op push pop (Push xs) q = map_option (Pair []) (push xs q)"
| "run_op push pop (Pop n) q = pop n q"

fun run_ops :: "('a list \<Rightarrow> 'q \<Rightarrow> 'q option) \<Rightarrow> (nat \<Rightarrow> 'q \<Rightarrow> ('a list \<times> 'q) option)
    \<Rightarrow> 'a qop list \<Rightarrow> 'q \<Rightarrow> ('a list list \<times> 'q) option" where
  "run_ops push pop [] q = Some ([], q)"
| "run_ops push pop (x # xs) q = do {
     (out, q1) \<leftarrow> run_op push pop x q;
     (outs, q2) \<leftarrow> run_ops push pop xs q1;
     Some (out # outs, q2)}"

text \<open>The reference: the same operations on a list.\<close>

fun spec_op :: "'a qop \<Rightarrow> 'a list \<Rightarrow> 'a list \<times> 'a list" where
  "spec_op (Push xs) bs = ([], bs @ xs)"
| "spec_op (Pop n) bs = (take n bs, drop n bs)"

fun spec_ops :: "'a qop list \<Rightarrow> 'a list \<Rightarrow> 'a list list \<times> 'a list" where
  "spec_ops [] bs = ([], bs)"
| "spec_ops (x # xs) bs =
     (let (out, bs1) = spec_op x bs; (outs, bs2) = spec_ops xs bs1 in (out # outs, bs2))"

fun pushed :: "'a qop list \<Rightarrow> 'a list" where
  "pushed [] = []"
| "pushed (Push xs # ops) = xs @ pushed ops"
| "pushed (Pop n # ops) = pushed ops"

text \<open>Every operation of the sequence is allowed in the state it meets.\<close>

fun admissible :: "('a qop \<Rightarrow> 'q \<Rightarrow> bool) \<Rightarrow> ('a list \<Rightarrow> 'q \<Rightarrow> 'q option)
    \<Rightarrow> (nat \<Rightarrow> 'q \<Rightarrow> ('a list \<times> 'q) option) \<Rightarrow> 'a qop list \<Rightarrow> 'q \<Rightarrow> bool" where
  "admissible can push pop [] q = True"
| "admissible can push pop (x # xs) q = (can x q \<and> (case run_op push pop x q of
     None \<Rightarrow> True | Some (out, q1) \<Rightarrow> admissible can push pop xs q1))"

lemma spec_ops_conserve: "spec_ops ops bs = (outs, bs') \<Longrightarrow> concat outs @ bs' = bs @ pushed ops"
proof (induction ops arbitrary: bs outs)
  case (Cons x ops)
  obtain out bs1 outs1 where s: "spec_op x bs = (out, bs1)" "spec_ops ops bs1 = (outs1, bs')"
    "outs = out # outs1" using Cons.prems by (auto simp: Let_def split: prod.splits)
  have "out @ bs1 @ pushed ops = bs @ pushed (x # ops)" using s(1) by (cases x) auto
  then show ?case using Cons.IH [OF s(2)] s(3) by simp
qed simp

locale byte_queue =
  fixes inv :: "'q \<Rightarrow> bool" and bytes :: "'q \<Rightarrow> 'a list"
    and can :: "'a qop \<Rightarrow> 'q \<Rightarrow> bool"
    and push :: "'a list \<Rightarrow> 'q \<Rightarrow> 'q option"
    and pop :: "nat \<Rightarrow> 'q \<Rightarrow> ('a list \<times> 'q) option"
  assumes push_law: "inv q \<Longrightarrow> can (Push xs) q \<Longrightarrow>
      \<exists>q'. push xs q = Some q' \<and> inv q' \<and> bytes q' = bytes q @ xs"
    and pop_law: "inv q \<Longrightarrow> can (Pop n) q \<Longrightarrow>
      \<exists>q'. pop n q = Some (take n (bytes q), q') \<and> inv q' \<and> bytes q' = drop n (bytes q)"
begin

lemma op_refines:
  "inv q \<Longrightarrow> can x q \<Longrightarrow> \<exists>out q'. run_op push pop x q = Some (out, q') \<and> inv q'
    \<and> spec_op x (bytes q) = (out, bytes q')"
  using push_law pop_law by (cases x) fastforce+

lemma ops_refine:
  "inv q \<Longrightarrow> admissible can push pop ops q \<Longrightarrow> \<exists>outs q'. run_ops push pop ops q = Some (outs, q')
    \<and> inv q' \<and> spec_ops ops (bytes q) = (outs, bytes q')"
proof (induction ops arbitrary: q)
  case (Cons x ops)
  then obtain out q1 where 1: "run_op push pop x q = Some (out, q1)" "inv q1"
    "spec_op x (bytes q) = (out, bytes q1)" using op_refines by fastforce
  with Cons obtain outs q2 where "run_ops push pop ops q1 = Some (outs, q2)" "inv q2"
    "spec_ops ops (bytes q1) = (outs, bytes q2)" by fastforce
  with 1 show ?case by simp
qed simp

lemma ops_conserve:
  assumes "inv q" "admissible can push pop ops q"
  shows "\<exists>outs q'. run_ops push pop ops q = Some (outs, q') \<and> inv q'
    \<and> concat outs @ bytes q' = bytes q @ pushed ops"
  using ops_refine [OF assms] spec_ops_conserve by metis

end

end
