(* ===== verification/ZBuf_Props.thy ===== *)
theory ZBuf_Props
  imports ZBuf_Counts ZBuf_Layout Byte_Queue
begin

text \<open>
  What the zero-copy buffer promises its callers: it is an instance of the first-in
  first-out contract of \<open>Byte_Queue\<close>, with the laws discharged by the operations of
  \<^verbatim>\<open>src/zbuffer.cpp\<close>, and the properties of the single operations, including where the
  code breaks them.
\<close>

fun zinv :: "block_ref multiset \<Rightarrow> zbuffer \<times> zstate \<Rightarrow> bool" where
  "zinv R (z, s) = (zok z \<and> (\<exists>cs. wf s cs (owned z + R)))"

fun zbytes :: "zbuffer \<times> zstate \<Rightarrow> char list" where
  "zbytes (z, s) = content s z"

fun zcan :: "char qop \<Rightarrow> zbuffer \<times> zstate \<Rightarrow> bool" where
  "zcan (Push xs) (z, s) = (length xs < 4294967296 \<and> room (length xs div 8 + 1) z)"
| "zcan (Pop n) (z, s) = (n < 9223372036854775808)"

fun zpush :: "char list \<Rightarrow> zbuffer \<times> zstate \<Rightarrow> (zbuffer \<times> zstate) option" where
  "zpush xs (z, s) = append_bytes xs 0 z s"

fun zpop :: "nat \<Rightarrow> zbuffer \<times> zstate \<Rightarrow> (char list \<times> zbuffer \<times> zstate) option" where
  "zpop n (z, s) = popn n z s"

interpretation zq: byte_queue "zinv R" zbytes zcan zpush zpop for R
proof
  fix q xs
  assume "zinv R q" "zcan (Push xs) q"
  then show "\<exists>q'. zpush xs q = Some q' \<and> zinv R q' \<and> zbytes q' = zbytes q @ xs"
    using append_bytes_ok [of "fst q" "snd q" _ R xs 0] by (cases q) fastforce
next
  fix q n
  assume "zinv R q" "zcan (Pop n) q"
  then show "\<exists>q'. zpop n q = Some (take n (zbytes q), q') \<and> zinv R q' \<and> zbytes q' = drop n (zbytes q)"
    using popn_ok [of "fst q" "snd q" _ R n] by (cases q) (fastforce simp: pops_def pop_post_def)
qed

lemma init_zinv: "zinv {#} (ZBuffer, init_state)"
  using init_state_wf by (auto simp: ZBuffer_def null_ref_def)

lemma init_content: "content s ZBuffer = []"
  by (simp add: content_def ZBuffer_def null_ref_def)

subsection \<open>First in, first out\<close>

text \<open>(C8) \<open>ZBuffer\<close> is a byte queue: any sequence of \<open>append(buf, count)\<close> and
  \<open>popn\<close> calls returns (no undefined access, no endless loop), returns on every call the
  bytes that the same operations on a plain list return, and ends with the contents of that
  list. The calls must keep within the room of the reference ring.\<close>

theorem zbuffer_refines_list:
  assumes "zinv R (z, s)" "admissible zcan zpush zpop ops (z, s)"
  shows "\<exists>outs z' s'. run_ops zpush zpop ops (z, s) = Some (outs, (z', s')) \<and> zinv R (z', s')
    \<and> spec_ops ops (content s z) = (outs, content s' z')"
  using zq.ops_refine [OF assms] by auto

lemma demo_admissible: "admissible zcan zpush zpop [Push ''hello'', Pop 2, Pop 9] (ZBuffer, s)"
  by (auto simp: ZBuffer_def split: option.splits)

theorem zbuffer_refines_list_witness:
  "\<exists>outs z' s'. run_ops zpush zpop [Push ''hello'', Pop 2, Pop 9] (ZBuffer, init_state)
      = Some (outs, (z', s')) \<and> zinv {#} (z', s')
    \<and> outs = [[], ''he'', ''llo''] \<and> content s' z' = []"
  using zbuffer_refines_list [OF init_zinv demo_admissible] by (auto simp: init_content)


lemma init_owned: "zok ZBuffer" "wf init_state [] (owned ZBuffer + {#})" "room 2046 ZBuffer"
  using init_state_wf by (auto simp: ZBuffer_def null_ref_def)


text \<open>The state after \<open>''hello''\<close> was appended to a fresh buffer.\<close>

definition hello_state :: zstate where
  "hello_state = init_state\<lparr>brk := 16 + 24 + 8168, c_head := 16, c_block_number := 1,
     blocks := [16 \<mapsto> \<lparr>b_next = 0, b_ref_num = 2, b_offset = 8, b_capacity = 8168,
       b_data = mem_write (\<lambda>_. CHR ''?'') 0 ''hello'', b_size = 8168\<rparr>]\<rparr>"

definition hello_zbuffer :: zbuffer where
  "hello_zbuffer = Simple \<lparr>r_offset = 0, r_length = 5, r_block = 16\<rparr> null_ref"

lemma hello_buffer: "zok hello_zbuffer" "wf hello_state [16] (owned hello_zbuffer + {#})"
  "content hello_state hello_zbuffer = ''hello''" "length (zrefs hello_zbuffer) = 1" "\<not> array hello_zbuffer"
  by (auto simp: hello_zbuffer_def hello_state_def init_state_def null_ref_def wf_def next_of_def
      block_ok_def owners_def sizeof_Block_def ref_ok_def content_def ref_bytes_def
      mem_read_def mem_write_def upt_rec)

text \<open>(C10) \<open>popn\<close> on either layout hands out the first \<open>n\<close> bytes (all of them when there are
  fewer), leaves the rest, releases what it consumed, and keeps the invariant and every other
  reference.\<close>

theorem popn_correct:
  assumes "zok z" "wf s cs (owned z + R)" "n < 9223372036854775808"
  shows "\<exists>z' s' cs'. popn n z s = Some (take n (content s z), z', s') \<and> zok z'
    \<and> wf s' cs' (owned z' + R) \<and> content s' z' = drop n (content s z)
    \<and> zsize z' = zsize z - n \<and> keeps s s' R"
proof -
  obtain z' s' cs' where r: "popn n z s = Some (take n (content s z), z', s')" "zok z'"
    "wf s' cs' (owned z' + R)" "preserves s cs R s' cs'" "content s' z' = drop n (content s z)"
    using popn_ok [OF assms] by (auto simp: pops_def pop_post_def)
  have "keeps s s' R" using preserves_keeps [OF _ r(4)] wf_mono [of s cs R "owned z"] assms(2)
    by (simp add: add.commute)
  then show ?thesis using r zsize_ok [OF r(2,3)] zsize_ok [OF assms(1,2)] by auto
qed

theorem popn_correct_witness:
  "\<exists>z' s'. popn 2 hello_zbuffer hello_state = Some (''he'', z', s')
    \<and> content s' z' = ''llo'' \<and> zsize z' = zsize hello_zbuffer - 2"
  using popn_correct [OF hello_buffer(1,2), of 2] by (auto simp: hello_buffer)

text \<open>\<open>copy_front\<close> reads the first \<open>n\<close> bytes without changing the buffer, and \<open>size\<close> is the
  number of bytes the buffer holds.\<close>

theorem copy_front_correct:
  assumes "zok z" "wf s cs (owned z + R)"
  shows "copy_front n z s = Some (take n (content s z)) \<and> zsize z = length (content s z)"
  using copy_front_ok [OF assms] zsize_ok [OF assms] by simp

theorem copy_front_correct_witness:
  "copy_front 3 hello_zbuffer hello_state = Some ''hel'' \<and> zsize hello_zbuffer = 5"
  using copy_front_correct [OF hello_buffer(1,2), of 3] by (simp add: hello_buffer)

text \<open>(C15) Appending a copy of another buffer, with room for its references, shares its blocks: the
  references of the argument, with their offsets and blocks, are appended to those of the buffer, each
  merged with the one before it where it continues it (\<open>join_ref\<close>), the counts of the blocks rise by exactly
  the references that were added, the bytes of the argument follow the old contents, the argument keeps its
  own, and the count returned is the number of references only when the argument is an array and 0 otherwise.\<close>

theorem append_copy_correct:
  assumes "zok y" "zok z" "wf s cs (owned z + (owned y + R))" "room (length (zrefs y)) z"
  shows "\<exists>z' s' cs'. append_copy y z s = Some (if array y then length (zrefs y) else 0, z', s')
    \<and> zok z' \<and> wf s' cs' (owned z' + (owned y + R)) \<and> content s' z' = content s z @ content s y
    \<and> content s' y = content s y \<and> zrefs z' = foldl join_ref (zrefs z) (zrefs y)
    \<and> counted s cs (owned z) s' cs' (owned z')"
proof -
  obtain z' s' cs' where r: "append_copy y z s = Some (if array y then length (zrefs y) else 0, z', s')"
    "appended (length (zrefs y)) s cs (owned y + R) z (content s y) z' s' cs'" "content s' y = content s y"
    using append_copy_ok [OF assms] by blast
  then have wf: "wf s' cs' (owned z' + (owned y + R))" by (simp add: appended_def)
  show ?thesis using r append_copy_counts [OF assms r(1) wf] by (auto simp: appended_def)
qed

lemma hello_refs: "zrefs hello_zbuffer = [\<lparr>r_offset = 0, r_length = 5, r_block = 16\<rparr>]"
  by (simp add: hello_zbuffer_def null_ref_def)

lemma init_refs: "zrefs ZBuffer = []"
  by (simp add: ZBuffer_def null_ref_def)

lemma hello_owned: "owned hello_zbuffer = mset (zrefs hello_zbuffer)" "owned ZBuffer = {#}"
  by (simp_all add: hello_zbuffer_def ZBuffer_def null_ref_def)

lemma hello_second: "wf hello_state [16] (owned ZBuffer + (owned hello_zbuffer + {#}))"
  "room (length (zrefs hello_zbuffer)) ZBuffer"
  using hello_buffer(2,4) by (simp_all add: ZBuffer_def null_ref_def)

theorem append_copy_correct_witness:
  "\<exists>z' s' cs'. append_copy hello_zbuffer ZBuffer hello_state = Some (0, z', s')
    \<and> content s' z' = ''hello'' \<and> content s' hello_zbuffer = ''hello'' \<and> zrefs z' = zrefs hello_zbuffer
    \<and> counted hello_state [16] {#} s' cs' (owned z')"
  using append_copy_correct [OF hello_buffer(1) init_owned(1) hello_second]
  by (auto simp: init_content hello_buffer hello_refs init_refs hello_owned join_ref_def)

text \<open>(C14) Appending a buffer by moving it, with room for its references, transfers them: they are appended to
  those of the buffer, each merged with the one before it where it continues it, the bytes follow the old
  contents, and the argument is left empty. The counts are exact: each has changed by just the references that
  the two buffers hold now instead of those they held, so that a reference that was handed over is not counted
  again and one that was merged is given up. The argument owns nothing but the memory of its ring, and its
  destruction gives up just that.\<close>

theorem append_move_correct:
  assumes "zok y" "zok z" "wf s cs (owned z + (owned y + R))" "room (length (zrefs y)) z"
  shows "\<exists>z' y' s' cs' s'' cs''. append_move y z s
      = Some (if array y then length (zrefs y) else 0, z', y', s')
    \<and> zok z' \<and> content s' z' = content s z @ content s y \<and> zsize y' = 0
    \<and> wf s' cs' (owned y' + (owned z' + R)) \<and> destroy y' s' = Some s''
    \<and> wf s'' cs'' (owned z' + R) \<and> content s'' z' = content s' z'
    \<and> zrefs z' = foldl join_ref (zrefs z) (zrefs y) \<and> zrefs y' = []
    \<and> counted s cs (owned z + owned y) s' cs' (owned z' + owned y')
    \<and> counted s' cs' (owned y') s'' cs'' {#}"
proof -
  obtain z' s' cs' where r: "append_move y z s
      = Some (if array y then length (zrefs y) else 0, z', moved_from y, s')"
    "appended (length (zrefs y)) s cs (owned (moved_from y) + R) z (content s y) z' s' cs'"
    using append_move_ok [OF assms] by blast
  then have wf: "wf s' cs' (owned (moved_from y) + (owned z' + R))"
    by (simp add: appended_def ac_simps)
  note counts = append_move_counts [OF assms r(1) wf]
  have ok: "destroyable (moved_from y)" using assms(1) by (auto simp: destroyable_def)
  from destroy_ok [OF ok wf] obtain s'' cs'' where d: "destroy (moved_from y) s' = Some s''"
    "wf s'' cs'' (owned z' + R)" "preserves s' cs' (owned z' + R) s'' cs''" by blast
  note given_up = destroy_counts [OF ok wf d(1,2)]
  have "content s'' z' = content s' z'"
    by (rule content_preserved [OF d(3)])
      (use wf_mono [of s' cs' "owned z' + R" "owned (moved_from y)"] wf in \<open>simp add: ac_simps\<close>)
  then show ?thesis using r wf counts given_up d(1,2)
    by (intro exI [of _ z'] exI [of _ "moved_from y"] exI [of _ s'] exI [of _ cs'] exI [of _ s''] exI [of _ cs''])
      (simp add: appended_def)
qed

theorem append_move_correct_witness:
  "\<exists>z' y' s' s''. append_move hello_zbuffer ZBuffer hello_state = Some (0, z', y', s')
    \<and> content s' z' = ''hello'' \<and> zsize y' = 0 \<and> destroy y' s' = Some s''
    \<and> content s'' z' = ''hello'' \<and> zrefs z' = zrefs hello_zbuffer"
  using append_move_correct [OF hello_buffer(1) init_owned(1) hello_second]
  by (auto simp: init_content hello_buffer hello_refs init_refs join_ref_def)

text \<open>(C32) \<open>dump_refs_to\<close> hands every reference of the buffer, in order, to the queue and its
  count with it: nothing is copied, released twice or leaked, and the bytes behind the
  references are the buffer's contents. The buffer is empty afterwards.\<close>

theorem dump_refs_to_correct:
  assumes "zok z" "wf s cs (owned z + R)"
  shows "\<exists>s' cs'. dump_refs_to z q s = Some (length (zrefs z), ZBuffer, q @ zrefs z, s')
    \<and> wf s' cs' (mset (zrefs z) + R) \<and> concat (map (ref_bytes s') (zrefs z)) = content s z"
proof -
  obtain s' cs' where r: "dump_refs_to z q s = Some (length (zrefs z), ZBuffer, q @ zrefs z, s')"
    "wf s' cs' (mset (zrefs z) + R)" "preserves s cs (mset (zrefs z) + R) s' cs'"
    using dump_refs_to_ok [OF assms] by blast
  have "\<forall>r \<in> set (zrefs z). live s cs (mset (zrefs z) + R) r"
    using zrefs_ok [OF assms(2)] by (simp add: live_def)
  then show ?thesis using r concat_preserved [OF r(3)] by (fastforce simp: content_def)
qed

theorem dump_refs_to_correct_witness:
  "\<exists>s' cs'. dump_refs_to hello_zbuffer [] hello_state
      = Some (1, ZBuffer, [\<lparr>r_offset = 0, r_length = 5, r_block = 16\<rparr>], s')
    \<and> wf s' cs' (mset (zrefs hello_zbuffer) + {#})
    \<and> concat (map (ref_bytes s') (zrefs hello_zbuffer)) = ''hello''"
  using dump_refs_to_correct [OF hello_buffer(1,2), of "[]"] hello_buffer(3)
  by (auto simp: hello_zbuffer_def null_ref_def)

text \<open>\<open>map\<close> calls the callback once per reference, in order, with the bytes of that
  reference, and returns the number of calls: a callback that collects what it sees collects
  the contents.\<close>

theorem map_refs_correct:
  assumes "zok z" "wf s cs (owned z + R)"
  shows "map_refs f z s x = Some (length (zrefs z), fold f (map (ref_bytes s) (zrefs z)) x)
    \<and> map_refs (\<lambda>b acc. acc @ b) z s [] = Some (length (zrefs z), content s z)"
proof -
  have "fold (\<lambda>b acc. acc @ b) bs acc = acc @ concat bs" for bs and acc :: "char list"
    by (induction bs arbitrary: acc) simp_all
  then show ?thesis
    using map_refs_ok [OF assms, of f x] map_refs_ok [OF assms, of "\<lambda>b acc. acc @ b" "[]"]
    by (simp add: content_def)
qed

theorem map_refs_correct_witness:
  "map_refs (\<lambda>b n. n + length b) hello_zbuffer hello_state (0 :: nat)
      = Some (length (zrefs hello_zbuffer),
          fold (\<lambda>b n. n + length b) (map (ref_bytes hello_state) (zrefs hello_zbuffer)) 0)
    \<and> map_refs (\<lambda>b acc. acc @ b) hello_zbuffer hello_state [] = Some (1, ''hello'')"
  using map_refs_correct [OF hello_buffer(1,2), of "\<lambda>b n. n + length b" 0]
  by (simp only: hello_buffer)

text \<open>(C28) The destructor returns, reads no slot that was not written, and gives up every reference of the
  buffer exactly once: the count of each block, besides the one that the cache holds, falls by just the number of
  the buffer's references to it, the one to the memory of its ring included. What the others hold is untouched.\<close>

theorem destroy_correct:
  assumes "zok z" "wf s cs (owned z + R)"
  shows "\<exists>s' cs'. destroy z s = Some s' \<and> wf s' cs' R \<and> keeps s s' R
    \<and> (\<forall>b. held_counts cs' s' b = held_counts cs s b - int (ref_count (owned z) b))"
proof -
  have z: "destroyable z" using assms(1) by (simp add: destroyable_def)
  obtain s' cs' where d: "destroy z s = Some s'" "wf s' cs' R" "preserves s cs R s' cs'"
    using destroy_ok [OF z assms(2)] by auto
  moreover have "wf s cs R" using wf_mono [of s cs R "owned z"] assms(2) by (simp add: add.commute)
  moreover have "\<forall>b. held_counts cs' s' b = held_counts cs s b - int (ref_count (owned z) b)"
    using destroy_counts [OF z assms(2) d(1,2)] by (simp add: counted_def)
  ultimately show ?thesis using preserves_keeps by blast
qed

theorem destroy_correct_witness:
  "held_counts [16] hello_state 16 = 1 \<and> (\<exists>s' cs'. destroy hello_zbuffer hello_state = Some s' \<and> wf s' cs' {#}
    \<and> keeps hello_state s' {#} \<and> held_counts cs' s' 16 = 0)"
proof -
  have "held_counts [16] hello_state 16 = 1" by (simp add: held_counts_def hello_state_def)
  moreover have "ref_count (owned hello_zbuffer) 16 = 1" by (simp add: hello_zbuffer_def null_ref_def)
  ultimately show ?thesis using destroy_correct [OF hello_buffer(1,2)] by fastforce
qed

text \<open>(C40) The union of the two layouts is safe to discriminate. In the words that overlay both structures of the
  union, laid out as they are declared, \<open>array()\<close>, which reads \<open>magic_num\<close> as a signed word, tells the layouts apart,
  and the members that the code reads on either side are those that were written; copying both references before the
  members that overlay them are written, as \<open>transfor_to_array\<close> does, gives the words of the array, and resetting both
  after the array's own reference, as \<open>dump_refs_to\<close> does, those of an empty buffer. Addresses are below \<open>2 ^ 64\<close>; that
  the offset of the first reference cannot look like the mark of an array comes from the invariant of the blocks.\<close>

theorem discriminator_sound:
  assumes "zok z" "wf s cs (owned z + R)" "in_memory s z"
  shows "magic_negative (union_words z m) = array z
    \<and> union_view (union_words z m) = (case z of Simple f g \<Rightarrow> Inl (f, g) | Arr n a fr \<Rightarrow> Inr (n, a_ptr a, fr))
    \<and> (\<forall>f g n a fr s1. z = Simple f g \<and> r_block f \<noteq> 0 \<and> r_block g \<noteq> 0 \<and> transfor_to_array f g s = Some (n, a, fr, s1)
        \<longrightarrow> transfor_words (a_ptr a) fr (union_words z m) = union_words (Arr n a fr) m)
    \<and> (array z \<longrightarrow> dump_words (union_words z m) = union_words ZBuffer m)"
proof -
  note fit = words_fit_ok [OF assms]
  have "dump_words (union_words z m) = union_words ZBuffer m" if "array z"
    using that by (cases z) (simp_all only: dump_words_eq array.simps)
  moreover have "transfor_words (a_ptr a) fr (union_words z m) = union_words (Arr n a fr) m"
    if "z = Simple f g \<and> r_block f \<noteq> 0 \<and> r_block g \<noteq> 0 \<and> transfor_to_array f g s = Some (n, a, fr, s1)" for f g n a fr s1
    using transfor_words_ok [of f g s cs R n a fr s1 m] that assms(1,2) fit by blast
  ultimately show ?thesis using union_view_ok [OF fit] by blast
qed

theorem discriminator_sound_witness:
  "\<not> magic_negative (union_words hello_zbuffer (\<lambda>_. - 1))
    \<and> union_view (union_words hello_zbuffer (\<lambda>_. - 1)) = Inl (\<lparr>r_offset = 0, r_length = 5, r_block = 16\<rparr>, null_ref)"
proof -
  have "in_memory hello_state hello_zbuffer" by (auto simp: in_memory_def hello_state_def hello_zbuffer_def split: if_splits)
  from discriminator_sound [OF hello_buffer(1,2) this, of "\<lambda>_. - 1"] show ?thesis
    by (simp add: hello_buffer) (simp add: hello_zbuffer_def)
qed

subsection \<open>Where the code departs from the contract\<close>

text \<open>Growing a ring that has been popped loses references: the constructor copies the slots
  without unwrapping them, so unless the beginning happens to lie at a multiple of the new size,
  some reference of the old ring is read from a slot of the new one that nobody wrote.\<close>

theorem resize_popped_ring_loses:
  assumes "ring_ok n a" "n = 2 ^ k" "k \<le> 10" "a_cap_mask a = n - 1"
    "a_begin a mod (2 * n) \<noteq> 0"
  shows "\<exists>i < n. ref_at a i \<noteq> None \<and> ref_at (copy_ref_array ptr a (2 * n)) i = None"
proof -
  let ?a = "copy_ref_array ptr a (2 * n)"
  have n: "0 < n" "2 * n \<le> 2048" using assms(2,3) power_increasing [of k 10 "2::nat"] by simp_all
  have mask: "a_cap_mask ?a = 2 ^ Suc k - 1"
    using n assms(2) by (simp add: copy_ref_array_def wrap_simps)
  have b: "a_begin ?a = a_begin a" by (simp add: copy_ref_array_def)
  have idx: "ref_index ?a i = (a_begin a + i) mod (2 * n)" for i
    using ref_index_mod [OF mask, of i] assms(2,3) b by simp
  have slot: "a_refs ?a j = None" if "n \<le> j" for j
    using that n assms(4) by (auto simp: copy_ref_array_def)
  have lost: "ref_at ?a i = None" if "n \<le> ref_index ?a i" for i
    unfolding ref_at_def by (rule slot [OF that])
  define c where "c = a_begin a mod (2 * n)"
  have c: "0 < c" "c < 2 * n" using assms(5) n by (simp_all add: c_def)
  have "\<exists>i < n. n \<le> ref_index ?a i"
  proof (cases "c \<le> n")
    case True
    have "ref_index ?a (n - c) = (c + (n - c)) mod (2 * n)"
      unfolding idx c_def by (simp add: mod_simps)
    also have "\<dots> = n" using True n by simp
    finally show ?thesis using c by (intro exI [of _ "n - c"]) simp
  next
    case False
    then show ?thesis using n idx [of 0] by (intro exI [of _ 0]) (simp add: c_def)
  qed
  then show ?thesis using lost assms(1) by (auto simp: ring_ok_def)
qed

text \<open>A full ring of 32 references whose beginning has moved by one.\<close>

definition popped_ring :: ref_array where
  "popped_ring = \<lparr>a_ptr = 0, a_nbytes = 160, a_begin = 1, a_cap_mask = 31,
     a_refs = (\<lambda>_. Some \<lparr>r_offset = 0, r_length = 5, r_block = 16\<rparr>)\<rparr>"

lemma popped_ring_ok: "ring_ok 32 popped_ring"
  unfolding ring_ok_def by (auto simp: popped_ring_def ref_at_def intro: bexI [of _ 5])

theorem resize_popped_ring_loses_witness:
  "\<exists>i < 32. ref_at popped_ring i \<noteq> None \<and> ref_at (copy_ref_array 0 popped_ring (2 * 32)) i = None"
  by (rule resize_popped_ring_loses [OF popped_ring_ok, of 5]) (simp_all add: popped_ring_def)

text \<open>A buffer in array layout that was moved from is not a usable buffer: the next append
  looks for a reference to merge with in the last slot of the ring, which nobody wrote unless the
  ring was once full, so the behaviour is undefined.\<close>

theorem append_after_move_undefined:
  assumes "zok (Arr n a fr)" "a_refs a (a_cap_mask a) = None" "a_begin a = 0" "n \<le> a_cap_mask a"
    "append_move (Arr n a fr) z s = Some (nr, z', y', s')"
  shows "append_ref_copy r y' s'' = None \<and> append_ref_move r y' s'' = None"
proof -
  have y': "y' = moved_from (Arr n a fr)"
    using append_move_eq [OF assms(1), of z s] assms(5) by (auto split: bind_splits)
  have "ring_ok n a" using assms(1) by simp
  then obtain k where k: "k \<le> 11" "a_cap_mask a = 2 ^ k - 1" "5 \<le> k"
    by (rule ring_ok_cases) (rule that)
  have cap: "ring_cap a (2 ^ k)" unfolding ring_cap_def using k by (intro bexI [of _ k]) auto
  have keep: "ref_at (fold (\<lambda>j a. set_ref a j null_ref) js b) (2 ^ k - 1) = ref_at b (2 ^ k - 1)"
    if "\<forall>j \<in> set js. j < 2 ^ k - 1" "ring_cap b (2 ^ k)" for js b
    using that by (induction js arbitrary: b) (auto simp: ref_at_set_cap [of _ "2 ^ k"])
  let ?b = "null_slots 0 n a"
  have "a_begin (fold (\<lambda>j a. set_ref a j null_ref) js a) = a_begin a" for js
    by (induction js arbitrary: a) simp_all
  then have b0: "a_begin ?b = 0" using assms(3) by (simp add: null_slots_def)
  have top: "ref_index x (2 ^ k - 1) = 2 ^ k - 1" if "a_cap_mask x = 2 ^ k - 1" "a_begin x = 0" for x
    using ref_index_mod [OF that(1), of "2 ^ k - 1"] that(2) k(1) by simp
  have "ref_at ?b (2 ^ k - 1) = ref_at a (2 ^ k - 1)"
    unfolding null_slots_def using keep [OF _ cap, of "[0..<0 + n]"] assms(4) k by auto
  then have none: "a_refs ?b (2 ^ k - 1) = None"
    using assms(2,3) k(2) b0 top [of a] top [of ?b] by (simp add: ref_at_def)
  have "ref_index (reset_array ?b) (sub32 0 1) = 2 ^ k - 1"
  proof -
    have "k \<in> {5, 6, 7, 8, 9, 10, 11}" using k(1,3) by auto
    then have "4294967295 mod (2::nat) ^ k = 2 ^ k - 1" by auto
    then show ?thesis
      using ref_index_mod [of "reset_array ?b" k "sub32 0 1"] k by (simp add: reset_array_def sub32_def)
  qed
  then have "ref_at (reset_array ?b) (sub32 0 1) = None"
    using none by (simp add: ref_at_def reset_array_def)
  then show ?thesis using y' by (simp add: array_append_ref_copy_def array_append_ref_move_def)
qed

definition short_ring :: ref_array where
  "short_ring = \<lparr>a_ptr = 48, a_nbytes = 5, a_begin = 0, a_cap_mask = 31,
     a_refs = [0 \<mapsto> \<lparr>r_offset = 0, r_length = 5, r_block = 16\<rparr>]\<rparr>"

lemma short_ring_ok: "zok (Arr 1 short_ring null_ref)"
proof -
  have "ref_index short_ring 0 = 0" by (simp add: ref_index_def short_ring_def u32_def)
  then have "ref_at short_ring 0 = Some \<lparr>r_offset = 0, r_length = 5, r_block = 16\<rparr>"
    by (simp add: ref_at_def) (simp add: short_ring_def)
  moreover have "\<exists>k \<in> {5..11}. a_cap_mask short_ring = 2 ^ k - 1"
    by (rule bexI [of _ 5]) (simp_all add: short_ring_def)
  moreover have "a_nbytes short_ring = 5" by (simp add: short_ring_def)
  ultimately show ?thesis by (simp add: ring_ok_def ring_list_def)
qed

theorem append_after_move_undefined_witness:
  "\<exists>nr z' y' s'. append_move (Arr 1 short_ring null_ref) ZBuffer hello_state = Some (nr, z', y', s')
    \<and> append_ref_copy \<lparr>r_offset = 0, r_length = 5, r_block = 16\<rparr> y' s' = None
    \<and> append_ref_move \<lparr>r_offset = 0, r_length = 5, r_block = 16\<rparr> y' s' = None"
proof -
  obtain nr z' y' s' where
    run: "append_move (Arr 1 short_ring null_ref) ZBuffer hello_state = Some (nr, z', y', s')"
    using append_move_eq [OF short_ring_ok, of ZBuffer hello_state]
    by (simp add: ring_list_def ZBuffer_def null_ref_def)
  then show ?thesis
    using append_after_move_undefined [OF short_ring_ok _ _ _ run] by (auto simp: short_ring_def)
qed

end
