(* ===== verification/ZBuf_Read.thy ===== *)
theory ZBuf_Read
  imports ZBuf_Pop
begin

text \<open>
  \<open>ZBuffer::read_from_fd\<close> of \<^verbatim>\<open>src/zbuffer.cpp\<close>: the free space of the cached blocks is offered to \<^verbatim>\<open>readv\<close>, with new
  blocks linked behind the last one while it does not suffice, and what was read becomes references of the
  buffer without being copied. \<^verbatim>\<open>readv\<close> and \<^verbatim>\<open>preadv\<close> are arguments: the bytes they deliver for the sizes they are
  offered, or \<^term>\<open>None\<close> for an error.
\<close>

subsection \<open>The operation\<close>

definition kMaxIov :: nat where
  "kMaxIov = 64"

record iovec =
  iov_block :: nat
  iov_off :: nat
  iov_len :: nat

definition create_next :: "nat \<Rightarrow> zstate \<Rightarrow> (nat \<times> zstate) option" where
  "create_next prev s = do {
     let (b, s1) = create_block kNormalBlockSize s;
     s2 \<leftarrow> upd_block prev (\<lambda>blk. blk\<lparr>b_next := b\<rparr>) s1;
     Some (b, s2\<lparr>c_block_number := u32 (c_block_number s2 + 1)\<rparr>)}"

text \<open>The first loop: \<open>k\<close> entries of \<open>iov\<close> are left behind the next one.\<close>

fun gather :: "nat \<Rightarrow> nat \<Rightarrow> nat \<Rightarrow> nat \<Rightarrow> nat \<Rightarrow> zstate \<Rightarrow> (iovec list \<times> zstate) option" where
  "gather k p prev want space s = do {
     (p, s1) \<leftarrow> (if p = 0 then create_next prev s else Some (p, s));
     blk \<leftarrow> blocks s1 p;
     let v = \<lparr>iov_block = p, iov_off = b_offset blk, iov_len = min (left_space blk) (sub64 want space)\<rparr>;
     let space = u64 (space + iov_len v);
     if space \<ge> want \<or> k = 0 then Some ([v], s1)
     else do {
       (vs, s2) \<leftarrow> (case k of 0 \<Rightarrow> None | Suc k' \<Rightarrow> gather k' (b_next blk) p want space s1);
       Some (v # vs, s2)}}"

text \<open>What the system call does to the memory it is offered.\<close>

fun scatter :: "iovec list \<Rightarrow> char list \<Rightarrow> zstate \<Rightarrow> zstate option" where
  "scatter [] data s = Some s"
| "scatter (v # vs) data s = do {
     blk \<leftarrow> blocks s (iov_block v);
     check (iov_off v + iov_len v \<le> b_size blk);
     s1 \<leftarrow> upd_block (iov_block v) (\<lambda>blk. blk\<lparr>b_data := mem_write (b_data blk) (iov_off v) (take (iov_len v) data)\<rparr>) s;
     scatter vs (drop (iov_len v) data) s1}"

text \<open>The second loop: the references, the new head of the cache and the state. Entries of \<open>iov\<close> that were not filled in
  must not be read.\<close>

fun take_refs :: "iovec list \<Rightarrow> nat \<Rightarrow> nat \<Rightarrow> zstate \<Rightarrow> (block_ref list \<times> nat \<times> zstate) option" where
  "take_refs [] left p s = None"
| "take_refs (v # vs) left p s = do {
     blk \<leftarrow> blocks s p;
     let len = min left (left_space blk);
     check (left \<noteq> len \<longrightarrow> iov_len v = len);
     check (iov_block v = p \<and> iov_off v = b_offset blk);
     let left = left - len;
     let r = \<lparr>r_offset = b_offset blk, r_length = len, r_block = p\<rparr>;
     s1 \<leftarrow> upd_block p (\<lambda>blk. blk\<lparr>b_offset := u32 (b_offset blk + len)\<rparr>) s;
     blk1 \<leftarrow> blocks s1 p;
     if full blk1 then do {
       let s2 = s1\<lparr>c_block_number := sub32 (c_block_number s1) 1\<rparr>;
       if left = 0 then Some ([r], b_next blk1, s2)
       else do {
         (rs, q, s3) \<leftarrow> take_refs vs left (b_next blk1) s2;
         Some (r # rs, q, s3)}}
     else do {
       s2 \<leftarrow> upd_block p (\<lambda>blk. blk\<lparr>b_offset := clear_low 3 (u32 (b_offset blk + 7))\<rparr>) s1;
       s3 \<leftarrow> inc_ref p s2;
       check (left = 0);
       Some ([r], p, s3)}}"

definition read_from_fd ::
  "(nat list \<Rightarrow> char list option) \<Rightarrow> (nat \<Rightarrow> nat list \<Rightarrow> char list option) \<Rightarrow> int \<Rightarrow> nat \<Rightarrow> zbuffer \<Rightarrow> zstate
    \<Rightarrow> (int \<times> zbuffer \<times> zstate) option" where
  "read_from_fd readv preadv offset want z s = do {
     (p, s1) \<leftarrow> acquire_block s;
     (iov, s2) \<leftarrow> gather (kMaxIov - 1) p 0 want 0 s1;
     let lens = map iov_len iov;
     case (if offset < 0 then readv lens else preadv (nat offset) lens) of
       None \<Rightarrow> Some (- 1, z, s2)
     | Some data \<Rightarrow>
         if data = [] then Some (0, z, s2)
         else do {
           s3 \<leftarrow> scatter iov data s2;
           (refs, q, s4) \<leftarrow> take_refs iov (length data) p s3;
           (z', s5) \<leftarrow> append_refs append_ref_move refs z (s4\<lparr>c_head := q\<rparr>);
           Some (int (length data), z', s5)}}"

subsection \<open>Linking a new block behind the last one\<close>

lemma chain_snoc:
  "chain nx p (us @ [a]) \<Longrightarrow> b \<notin> set (us @ [a]) \<Longrightarrow> b \<noteq> 0 \<Longrightarrow> chain (nx(a \<mapsto> b, b \<mapsto> 0)) p (us @ [a, b])"
proof (induction us arbitrary: p)
  case (Cons u us)
  then have "u \<noteq> a" using chain_distinct [OF Cons.prems(1)] by auto
  with Cons show ?case by auto
qed auto

text \<open>What the first loop leaves alone: the write positions, capacities and bytes of the blocks it finds.\<close>

definition same_space :: "zstate \<Rightarrow> zstate \<Rightarrow> nat set \<Rightarrow> bool" where
  "same_space s s' B = (\<forall>b \<in> B. \<forall>blk. blocks s b = Some blk \<longrightarrow> (\<exists>blk'. blocks s' b = Some blk'
     \<and> b_offset blk' = b_offset blk \<and> b_capacity blk' = b_capacity blk \<and> b_size blk' = b_size blk))"

lemma same_space_refl [simp]: "same_space s s B"
  by (simp add: same_space_def)

lemma same_space_trans: "same_space s s' B \<Longrightarrow> same_space s' s'' B \<Longrightarrow> same_space s s'' B"
  unfolding same_space_def by metis

lemma same_space_mono: "same_space s s' B \<Longrightarrow> A \<subseteq> B \<Longrightarrow> same_space s s' A"
  unfolding same_space_def by blast

lemma create_next_wf:
  assumes wf: "wf s (us @ [a]) R"
  shows "\<exists>b s' blk. create_next a s = Some (b, s') \<and> wf s' (us @ [a, b]) R \<and> keeps s s' R \<and> c_head s' = c_head s
    \<and> same_space s s' (set (us @ [a])) \<and> blocks s' b = Some blk \<and> b_offset blk < b_capacity blk"
proof -
  obtain b s1 where new: "create_block kNormalBlockSize s = (b, s1)" by fastforce
  have sz: "32 \<le> kNormalBlockSize" "kNormalBlockSize < 65536" "8 dvd kNormalBlockSize"
    by (simp_all add: kNormalBlockSize_def)
  note c = create_block_wf [OF wf sz new]
  obtain nb where nb: "blocks s1 b = Some nb" "block_ok nb" "b_ref_num nb = 1" "b_next nb = 0" "b_offset nb = 0" "b_capacity nb = 8168"
    by (rule new_normal_block [OF wf new])
  obtain blk where blk: "blocks s a = Some blk" using wf_cache_block [OF wf, of a] by auto
  have ab: "a \<noteq> b" using c(3) by auto
  then have blk1: "blocks s1 a = Some blk" using c(8) blk by simp
  let ?blk = "blk\<lparr>b_next := b\<rparr>"
  let ?s = "s1\<lparr>blocks := (blocks s1)(a \<mapsto> ?blk), c_block_number := u32 (c_block_number s1 + 1)\<rparr>"
  have run: "create_next a s = Some (b, ?s)" using new blk1 by (simp add: create_next_def upd_block_def)
  have none: "owners (us @ [a]) R b = 0" using c(3,4) by (simp add: owners_def)
  have ch: "chain (next_of s1) (c_head s1) (us @ [a])" by (rule wf_chain [OF c(1)])
  have "next_of ?s = (next_of s1)(a \<mapsto> b, b \<mapsto> 0)" using nb ab by (auto simp: next_of_def fun_eq_iff)
  then have "chain (next_of ?s) (c_head s1) (us @ [a, b])" using chain_snoc [OF ch c(3,5)] by (simp only:)
  moreover have "owners (us @ [a, b]) R x = owners (us @ [a]) R x + (if x = b then 1 else 0)" for x
    using c(3) by (auto simp: owners_def)
  moreover have "ref_ok ?s r" if "r \<in># R" for r using wf_ref [OF c(1) that] blk1 by (auto simp: ref_ok_def)
  moreover have "0 < x \<and> x + sizeof_Block + b_size k \<le> brk s1 \<and> block_ok k \<and> owners (us @ [a]) R x + (if x = b then 1 else 0) \<le> b_ref_num k"
    if xk: "blocks ?s x = Some k" for x k
  proof -
    obtain k0 where "blocks s1 x = Some k0" "b_size k = b_size k0" "b_ref_num k = b_ref_num k0" "block_ok k = block_ok k0"
      using xk blk1 by (cases "x = a") (auto simp: block_ok_def)
    then show ?thesis using wf_block [OF c(1), of x k0] nb none by auto
  qed
  ultimately have "wf ?s (us @ [a, b]) R" using c(1) unfolding wf_def by simp
  moreover have "keeps s ?s R"
    using c(9) blk1 by (auto simp: keeps_def ref_bytes_def)
  moreover have "blocks s1 x = blocks s x" if "x \<in> set (us @ [a])" for x using that c(3,8) by metis
  then have "same_space s ?s (set (us @ [a]))" using blk by (auto simp: same_space_def)
  ultimately show ?thesis using run nb ab c(6) by auto
qed

subsection \<open>The first loop\<close>

text \<open>The entries of \<open>iov\<close> are the free ends of the first blocks of a list, cut off at \<open>n\<close> bytes in all.\<close>

fun iov_match :: "zstate \<Rightarrow> nat list \<Rightarrow> iovec list \<Rightarrow> nat \<Rightarrow> bool" where
  "iov_match s bs [] n = True"
| "iov_match s [] (v # vs) n = False"
| "iov_match s (b # bs) (v # vs) n = (\<exists>blk. blocks s b = Some blk
     \<and> v = \<lparr>iov_block = b, iov_off = b_offset blk, iov_len = min (b_capacity blk - b_offset blk) n\<rparr>
     \<and> iov_match s bs vs (n - iov_len v))"

definition spacious :: "zstate \<Rightarrow> nat set \<Rightarrow> bool" where
  "spacious s B = (\<forall>b \<in> B. \<forall>blk. blocks s b = Some blk \<longrightarrow> b_offset blk < b_capacity blk)"

lemma iov_match_same_space:
  "iov_match s bs vs n \<Longrightarrow> same_space s s' (set bs) \<Longrightarrow> iov_match s' bs vs n"
proof (induction s bs vs n rule: iov_match.induct)
  case (3 s b bs v vs n)
  then obtain blk where blk: "blocks s b = Some blk" and v: "v = \<lparr>iov_block = b, iov_off = b_offset blk, iov_len = min (b_capacity blk - b_offset blk) n\<rparr>"
    and rest: "iov_match s bs vs (n - iov_len v)" by auto
  obtain blk' where "blocks s' b = Some blk'" "b_offset blk' = b_offset blk" "b_capacity blk' = b_capacity blk"
    using 3(3) blk by (auto simp: same_space_def)
  moreover have "iov_match s' bs vs (n - iov_len v)"
    by (rule 3(1) [OF rest]) (rule same_space_mono [OF 3(3)], auto)
  ultimately show ?case using v by auto
qed auto

lemma iov_match_sum: "iov_match s bs vs n \<Longrightarrow> sum_list (map iov_len vs) \<le> n"
proof (induction s bs vs n rule: iov_match.induct)
  case (3 s b bs v vs n)
  then have "sum_list (map iov_len vs) \<le> n - iov_len v" "iov_len v \<le> n" by auto
  then show ?case by simp
qed auto

lemma spacious_same:
  assumes "spacious s B" "same_space s s' B" "\<forall>b \<in> B. blocks s b \<noteq> None"
  shows "spacious s' B"
proof -
  have "b_offset k' < b_capacity k'" if b: "b \<in> B" "blocks s' b = Some k'" for b k'
  proof -
    obtain k where k: "blocks s b = Some k" using assms(3) b(1) by auto
    then have "b_offset k' = b_offset k" "b_capacity k' = b_capacity k" using assms(2) b by (auto simp: same_space_def)
    then show ?thesis using assms(1) b(1) k by (auto simp: spacious_def)
  qed
  then show ?thesis by (auto simp: spacious_def)
qed

lemma chain_next: "chain nx p (us @ y # ys) \<Longrightarrow> nx y = Some (case ys of [] \<Rightarrow> 0 | z # _ \<Rightarrow> z) \<and> y \<noteq> 0"
  by (induction us arbitrary: p) (auto split: list.splits)

lemma wf_cached_next:
  assumes "wf s (us @ y # ys) R"
  obtains blk where "blocks s y = Some blk" "block_ok blk" "b_next blk = (case ys of [] \<Rightarrow> 0 | z # _ \<Rightarrow> z)" "y \<noteq> 0"
proof -
  obtain blk where "blocks s y = Some blk" "block_ok blk" using wf_cache_block [OF assms, of y] by auto
  then show thesis using that chain_next [OF wf_chain [OF assms]] by (auto simp: next_of_def)
qed

declare gather.simps [simp del]

text \<open>The block that an iteration works on: the next one of the cache, or a new one behind the last.\<close>

lemma gather_block:
  assumes "wf s (us @ ys) R" "p = (case ys of [] \<Rightarrow> 0 | y # _ \<Rightarrow> y)" "us \<noteq> [] \<Longrightarrow> prev = last us" "us @ ys \<noteq> []"
  obtains y s1 zs new blk where "(if p = 0 then create_next prev s else Some (p, s)) = Some (y, s1)" "ys @ new = y # zs"
    "wf s1 (us @ y # zs) R" "keeps s s1 R" "c_head s1 = c_head s" "same_space s s1 (set (us @ ys))" "spacious s1 (set new)"
    "blocks s1 y = Some blk" "block_ok blk" "b_next blk = (case zs of [] \<Rightarrow> 0 | z # _ \<Rightarrow> z)"
proof (cases ys)
  case Nil
  then obtain us' a where us: "us = us' @ [a]" using assms(4) by (cases us rule: rev_cases) auto
  obtain b s' blk where n: "create_next a s = Some (b, s')" "wf s' (us' @ [a, b]) R" "keeps s s' R" "c_head s' = c_head s"
      "same_space s s' (set (us' @ [a]))" "blocks s' b = Some blk" "b_offset blk < b_capacity blk"
    using create_next_wf [of s us' a R] assms(1) us Nil by auto
  have w: "wf s' (us @ b # []) R" using n(2) us by simp
  obtain blk' where "blocks s' b = Some blk'" "block_ok blk'" "b_next blk' = 0" using wf_cached_next [OF w] by auto
  then show thesis using n us Nil assms(2,3) by (intro that [of b s' "[b]" "[]" blk]) (auto simp: spacious_def)
next
  case (Cons y zs)
  then obtain blk where "blocks s y = Some blk" "block_ok blk" "b_next blk = (case zs of [] \<Rightarrow> 0 | z # _ \<Rightarrow> z)" "y \<noteq> 0"
    using wf_cached_next assms(1) by metis
  then show thesis using assms(1,2) Cons by (intro that [of y s "[]" zs blk]) (auto simp: spacious_def)
qed

lemma gather_ok:
  assumes "wf s (us @ ys) R" "p = (case ys of [] \<Rightarrow> 0 | y # _ \<Rightarrow> y)" "us \<noteq> [] \<Longrightarrow> prev = last us" "us @ ys \<noteq> []"
    and "space \<le> want" "want < 18446744073709551616"
  shows "\<exists>vs s' new. gather k p prev want space s = Some (vs, s') \<and> wf s' (us @ ys @ new) R \<and> keeps s s' R
    \<and> c_head s' = c_head s \<and> same_space s s' (set (us @ ys)) \<and> iov_match s' (ys @ new) vs (want - space)
    \<and> vs \<noteq> [] \<and> length vs \<le> Suc k \<and> spacious s' (set new)"
  using assms
proof (induction k arbitrary: p prev space s us ys rule: less_induct)
  case (less k)
  obtain y s1 zs new0 blk where g: "(if p = 0 then create_next prev s else Some (p, s)) = Some (y, s1)" "ys @ new0 = y # zs"
    "wf s1 (us @ y # zs) R" "keeps s s1 R" "c_head s1 = c_head s" "same_space s s1 (set (us @ ys))" "spacious s1 (set new0)"
    "blocks s1 y = Some blk" "block_ok blk" "b_next blk = (case zs of [] \<Rightarrow> 0 | z # _ \<Rightarrow> z)"
    by (rule gather_block [OF less.prems(1-4)])
  define len where "len = min (b_capacity blk - b_offset blk) (want - space)"
  let ?v = "\<lparr>iov_block = y, iov_off = b_offset blk, iov_len = len\<rparr>"
  have sub: "sub64 want space = want - space" "u64 (space + len) = space + len" "space + len \<le> want"
    using less.prems(5,6) by (auto simp: len_def sub64_id intro!: u64_id)
  have run: "gather k p prev want space s = (if space + len \<ge> want \<or> k = 0 then Some ([?v], s1)
      else case k of 0 \<Rightarrow> None | Suc k' \<Rightarrow> gather k' (b_next blk) y want (space + len) s1 \<bind> (\<lambda>(vs, s2). Some (?v # vs, s2)))"
    using g(1,8) by (subst gather.simps) (auto simp: sub left_space_eq [OF g(9)] len_def [symmetric] Let_def split: nat.splits)
  show ?case
  proof (cases "space + len \<ge> want \<or> k = 0")
    case True
    have "iov_match s1 (ys @ new0) [?v] (want - space)" using g(8) by (simp add: g(2) len_def)
    moreover have "wf s1 (us @ ys @ new0) R" using g(2,3) by simp
    ultimately show ?thesis using True run g(4-7) by (intro exI [of _ "[?v]"] exI [of _ s1] exI [of _ new0]) simp
  next
    case False
    then obtain k' where k: "k = Suc k'" by (cases k) auto
    have w: "wf s1 ((us @ [y]) @ zs) R" using g(3) by simp
    obtain vs s' new where r: "gather k' (b_next blk) y want (space + len) s1 = Some (vs, s')" "wf s' ((us @ [y]) @ zs @ new) R"
      "keeps s1 s' R" "c_head s' = c_head s1" "same_space s1 s' (set ((us @ [y]) @ zs))" "iov_match s' (zs @ new) vs (want - (space + len))"
      "length vs \<le> Suc k'" "spacious s' (set new)"
      using less.IH [of k' s1 "us @ [y]" zs "b_next blk" y "space + len"] k w g(10) sub(3) less.prems(6) by auto
    have all: "us @ ys @ new0 = us @ y # zs" using g(2) by simp
    have "same_space s s' (set (us @ ys))"
    proof (rule same_space_trans [OF g(6)], rule same_space_mono [OF r(5)])
      show "set (us @ ys) \<subseteq> set ((us @ [y]) @ zs)" using arg_cong [OF all, of set] by auto
    qed
    moreover have "spacious s' (set new0)"
    proof (rule spacious_same [OF g(7)])
      show "same_space s1 s' (set new0)" by (rule same_space_mono [OF r(5)]) (use arg_cong [OF g(2), of set] in auto)
      show "\<forall>b \<in> set new0. blocks s1 b \<noteq> None"
      proof
        fix b assume "b \<in> set new0"
        then have "b \<in> set (us @ y # zs)" using arg_cong [OF g(2), of set] by auto
        then show "blocks s1 b \<noteq> None" using wf_cache_block [OF g(3)] by blast
      qed
    qed
    moreover have "iov_match s' (ys @ new0 @ new) (?v # vs) (want - space)"
    proof -
      obtain blk' where "blocks s' y = Some blk'" "b_offset blk' = b_offset blk" "b_capacity blk' = b_capacity blk"
        using r(5) g(8) by (auto simp: same_space_def)
      moreover have all': "ys @ new0 @ new = y # zs @ new" using g(2) by (metis append.assoc append_Cons)
      ultimately show ?thesis using r(6) unfolding all' by (simp add: len_def diff_diff_left)
    qed
    moreover have "wf s' (us @ ys @ new0 @ new) R" using r(2) g(2) by (metis append.assoc append_Cons append_Nil)
    ultimately show ?thesis using False run k r(1,3,4,7,8) g(4,5) keeps_trans [OF g(4) r(3)]
      by (intro exI [of _ "?v # vs"] exI [of _ s'] exI [of _ "new0 @ new"]) (auto simp: spacious_def)
  qed
qed

subsection \<open>What the system call writes\<close>

fun data_match :: "zstate \<Rightarrow> iovec list \<Rightarrow> char list \<Rightarrow> bool" where
  "data_match s [] data = True"
| "data_match s (v # vs) data = ((\<exists>blk. blocks s (iov_block v) = Some blk
     \<and> mem_read (b_data blk) (iov_off v) (length (take (iov_len v) data)) = take (iov_len v) data)
     \<and> data_match s vs (drop (iov_len v) data))"

lemma wf_write_free:
  fixes xs :: "char list"
  assumes wf: "wf s cs R" and blk: "blocks s b = Some blk"
  defines "s' \<equiv> s\<lparr>blocks := (blocks s)(b \<mapsto> blk\<lparr>b_data := mem_write (b_data blk) (b_offset blk) xs\<rparr>)\<rparr>"
  shows "wf s' cs R" "keeps s s' R" "same_space s s' B"
proof -
  show "wf s' cs R" unfolding s'_def using wf_block [OF wf blk] wf_ref [OF wf] wf_ref_bound [OF wf _ blk]
    by (intro wf_update_block [OF wf blk]) (auto simp: block_ok_def)
  show "keeps s s' R" unfolding keeps_def
  proof
    fix r assume r: "r \<in># R"
    show "ref_bytes s' r = ref_bytes s r"
      using wf_ref_bound [OF wf r blk] blk by (cases "r_block r = b") (simp_all add: s'_def ref_bytes_def mem_simps)
  qed
  show "same_space s s' B" using blk by (auto simp: same_space_def s'_def)
qed

lemma scatter_ok:
  assumes "wf s (us @ bs) R" "iov_match s bs vs n"
  shows "\<exists>s'. scatter vs data s = Some s' \<and> wf s' (us @ bs) R \<and> keeps s s' R \<and> same_space s s' (set (us @ bs))
    \<and> c_head s' = c_head s \<and> (\<forall>c. c \<notin> set bs \<longrightarrow> blocks s' c = blocks s c) \<and> data_match s' vs data"
  using assms
proof (induction vs arbitrary: s us bs n data)
  case Nil
  then show ?case by simp
next
  case (Cons v vs)
  then obtain b bs' where bs: "bs = b # bs'" by (cases bs) auto
  then obtain blk where blk: "blocks s b = Some blk" and m: "iov_match s bs' vs (n - iov_len v)"
    and v: "iov_block v = b" "iov_off v = b_offset blk" "iov_len v \<le> b_capacity blk - b_offset blk"
    using Cons.prems(2) by auto
  let ?xs = "take (iov_len v) data"
  let ?s = "s\<lparr>blocks := (blocks s)(b \<mapsto> blk\<lparr>b_data := mem_write (b_data blk) (b_offset blk) ?xs\<rparr>)\<rparr>"
  note w = wf_write_free [OF Cons.prems(1) blk, of ?xs]
  have fits: "iov_off v + iov_len v \<le> b_size blk"
    using wf_block(3) [OF Cons.prems(1) blk] v unfolding block_ok_def by linarith
  have "wf ?s ((us @ [b]) @ bs') R" using w(1) bs by simp
  moreover have "iov_match ?s bs' vs (n - iov_len v)" using m w(3) by (rule iov_match_same_space)
  ultimately obtain s' where s': "scatter vs (drop (iov_len v) data) ?s = Some s'" "wf s' ((us @ [b]) @ bs') R" "keeps ?s s' R"
    "same_space ?s s' (set ((us @ [b]) @ bs'))" "c_head s' = c_head ?s" "\<forall>c. c \<notin> set bs' \<longrightarrow> blocks s' c = blocks ?s c"
    "data_match s' vs (drop (iov_len v) data)" using Cons.IH by blast
  have "b \<notin> set bs'" using chain_distinct [OF wf_chain [OF Cons.prems(1)]] bs by simp
  then have "blocks s' b = blocks ?s b" using s'(6) by blast
  then have "data_match s' (v # vs) data" using s'(7) by (simp add: v mem_read_write_same [of _ _ ?xs, simplified])
  moreover have "scatter (v # vs) data s = Some s'" using blk v fits s'(1) by (simp add: upd_block_def)
  moreover have "same_space s s' (set (us @ bs))" using same_space_trans [OF w(3)] s'(4) bs by simp
  ultimately show ?case using s'(2,3,5,6) bs keeps_trans [OF w(2)] by auto
qed

subsection \<open>The second loop\<close>

lemma data_match_same:
  "data_match s vs data \<Longrightarrow> (\<And>c blk. blocks s c = Some blk \<Longrightarrow> \<exists>blk'. blocks s' c = Some blk' \<and> b_data blk' = b_data blk)
    \<Longrightarrow> data_match s' vs data"
  by (induction s vs data rule: data_match.induct) (simp, fastforce)

text \<open>Turning the written part of a block into a reference: a block that leaves the cache gives its count to the reference, a
  block that stays gets another.\<close>

lemma wf_take_block:
  assumes wf: "wf s cs R" and blk: "blocks s b = Some blk" and fits: "b_offset blk + len \<le> off" "off \<le> b_capacity blk"
    and own: "owners cs R b + 1 \<le> num"
  shows "wf (s\<lparr>blocks := (blocks s)(b \<mapsto> blk\<lparr>b_offset := off, b_ref_num := num\<rparr>)\<rparr>) cs
    (add_mset \<lparr>r_offset = b_offset blk, r_length = len, r_block = b\<rparr> R)"
proof (rule wf_update_block [OF wf blk])
  let ?r = "\<lparr>r_offset = b_offset blk, r_length = len, r_block = b\<rparr>"
  show "r_offset r + r_length r \<le> b_offset (blk\<lparr>b_offset := off, b_ref_num := num\<rparr>)" if "r \<in># add_mset ?r R" "r_block r = b" for r
    using wf_ref_bound [OF wf _ blk, of r] that fits(1) by (cases "r = ?r") auto
qed (use wf_block [OF wf blk] wf_ref [OF wf] fits own in \<open>auto simp: block_ok_def owners_def\<close>)

lemma take_refs_ok:
  assumes "wf (s\<lparr>c_head := p\<rparr>) bs R" "iov_match s bs vs n" "data_match s vs data" "data \<noteq> []"
    "length data \<le> sum_list (map iov_len vs)" "spacious s (set bs)"
  shows "\<exists>rs q s' bs'. take_refs vs (length data) p s = Some (rs, q, s') \<and> wf (s'\<lparr>c_head := q\<rparr>) bs' (mset rs + R)
    \<and> (\<forall>r. ref_bytes s' r = ref_bytes s r) \<and> (\<forall>r \<in> set rs. 0 < r_length r) \<and> concat (map (ref_bytes s) rs) = data
    \<and> length rs \<le> length vs"
  using assms
proof (induction vs arbitrary: s p bs R n data)
  case Nil
  then show ?case by simp
next
  case (Cons v vs)
  then obtain b bs' where bs: "bs = b # bs'" by (cases bs) auto
  then obtain blk where blk: "blocks s b = Some blk" and m: "iov_match s bs' vs (n - iov_len v)"
    and v: "v = \<lparr>iov_block = b, iov_off = b_offset blk, iov_len = min (b_capacity blk - b_offset blk) n\<rparr>"
    using Cons.prems(2) by auto
  have wf: "wf (s\<lparr>c_head := p\<rparr>) (b # bs') R" using Cons.prems(1) bs by simp
  have blk': "blocks (s\<lparr>c_head := p\<rparr>) b = Some blk" using blk by simp
  note pop = wf_pop [OF wf blk'] and ok = wf_block [OF wf blk']
  have p: "p = b" using pop(4) by simp
  define left where "left = b_capacity blk - b_offset blk"
  define len where "len = min (length data) left"
  have space: "0 < left" using Cons.prems(6) blk bs by (auto simp: spacious_def left_def)
  have n: "length data \<le> n" using Cons.prems(5) iov_match_sum [OF Cons.prems(2)] by simp
  have len: "0 < len" "len \<le> iov_len v" "len \<noteq> length data \<Longrightarrow> iov_len v = len" "b_offset blk + len \<le> b_capacity blk"
    using space n Cons.prems(4) by (auto simp: v len_def left_def)
  let ?r = "\<lparr>r_offset = b_offset blk, r_length = len, r_block = b\<rparr>"
  have bytes: "ref_bytes s ?r = take len data"
  proof -
    have "mem_read (b_data blk) (b_offset blk) (length (take (iov_len v) data)) = take (iov_len v) data"
      using Cons.prems(3) blk v by simp
    then have "take len (mem_read (b_data blk) (b_offset blk) (length (take (iov_len v) data))) = take len data"
      using len(2) by (simp add: min_absorb1)
    then show ?thesis using blk len(2) by (simp add: ref_bytes_def take_mem_read len_def min_absorb1)
  qed
  have u: "u32 (b_offset blk + len) = b_offset blk + len" "u32 (b_offset blk + len + 7) = b_offset blk + len + 7"
    using len(4) ok(3) by (auto simp: block_ok_def intro!: u32_id)
  have ls: "min (length data) (left_space blk) = len" by (simp add: len_def left_def left_space_eq [OF ok(3)])
  have lsp: "length data \<noteq> len \<longrightarrow> left_space blk = len"
    by (auto simp: len_def left_def left_space_eq [OF ok(3)])
  let ?blk1 = "blk\<lparr>b_offset := b_offset blk + len\<rparr>"
  let ?s1 = "s\<lparr>blocks := (blocks s)(b \<mapsto> ?blk1)\<rparr>"
  have run: "take_refs (v # vs) (length data) p s =
      (if full ?blk1 then
         (if length data - len = 0 then Some ([?r], b_next blk, ?s1\<lparr>c_block_number := sub32 (c_block_number s) 1\<rparr>)
          else take_refs vs (length data - len) (b_next blk) (?s1\<lparr>c_block_number := sub32 (c_block_number s) 1\<rparr>)
            \<bind> (\<lambda>(rs, q, s3). Some (?r # rs, q, s3)))
       else check (length data - len = 0) \<bind> (\<lambda>_. Some ([?r], p,
         s\<lparr>blocks := (blocks s)(b \<mapsto> blk\<lparr>b_offset := clear_low 3 (b_offset blk + len + 7), b_ref_num := b_ref_num blk + 1\<rparr>)\<rparr>)))"
    using blk len(3) lsp by (auto simp: p v upd_block_def inc_ref_def ls u Let_def check_def)
  show ?case
  proof (cases "full ?blk1")
    case False
    have all: "len = length data"
    proof (rule ccontr)
      assume "len \<noteq> length data"
      then have "b_offset blk + len = b_capacity blk" using len(4) by (auto simp: len_def left_def)
      then show False using False u(2) by (simp add: full_def)
    qed
    let ?off = "clear_low 3 (b_offset blk + len + 7)"
    let ?s = "s\<lparr>blocks := (blocks s)(b \<mapsto> blk\<lparr>b_offset := ?off, b_ref_num := b_ref_num blk + 1\<rparr>)\<rparr>"
    have off: "b_offset blk + len \<le> ?off" "?off \<le> b_capacity blk"
      using align8_bounds(1) align8_le_multiple [OF len(4)] ok(3) by (simp_all add: block_ok_def)
    have "wf (s\<lparr>c_head := p, blocks := (blocks s)(b \<mapsto> blk\<lparr>b_offset := ?off, b_ref_num := b_ref_num blk + 1\<rparr>)\<rparr>) (b # bs') (add_mset ?r R)"
      using wf_take_block [OF wf blk' off] ok(4) by simp
    then have "wf (?s\<lparr>c_head := p\<rparr>) (b # bs') (mset [?r] + R)" by (simp add: wf_same)
    moreover have "ref_bytes ?s r = ref_bytes s r" for r using blk by (simp add: ref_bytes_def)
    moreover have "take_refs (v # vs) (length data) p s = Some ([?r], p, ?s)" using run False all by simp
    ultimately show ?thesis using bytes all len(1) by (intro exI [of _ "[?r]"] exI [of _ p] exI [of _ ?s] exI [of _ "b # bs'"]) simp
  next
    case True
    let ?s = "?s1\<lparr>c_block_number := sub32 (c_block_number s) 1\<rparr>"
    have "wf (s\<lparr>c_head := b_next blk, blocks := (blocks s)(b \<mapsto> ?blk1)\<rparr>) bs' (add_mset ?r R)"
      using wf_take_block [OF pop(1), of b blk len "b_offset blk + len" "b_ref_num blk"] blk len(4) pop(2) by simp
    then have wf1: "wf (?s\<lparr>c_head := b_next blk\<rparr>) bs' (add_mset ?r R)" by (simp add: wf_same)
    have same: "ref_bytes ?s r = ref_bytes s r" for r using blk by (simp add: ref_bytes_def)
    show ?thesis
    proof (cases "len = length data")
      case all: True
      then have "take_refs (v # vs) (length data) p s = Some ([?r], b_next blk, ?s)" using run True by simp
      then show ?thesis using wf1 same bytes all len(1)
        by (intro exI [of _ "[?r]"] exI [of _ "b_next blk"] exI [of _ ?s] exI [of _ bs']) simp
    next
      case more: False
      have vl: "iov_len v = len" using len(3) more by simp
      have "same_space s ?s (set bs')" using blk by (auto simp: same_space_def pop(3))
      then have m': "iov_match ?s bs' vs (n - iov_len v)" by (rule iov_match_same_space [OF m])
      have d': "data_match ?s vs (drop len data)"
        by (rule data_match_same [of s]) (use Cons.prems(3) vl blk in auto)
      have sp': "spacious ?s (set bs')" using Cons.prems(6) bs pop(3) by (auto simp: spacious_def)
      have l': "drop len data \<noteq> []" "length (drop len data) \<le> sum_list (map iov_len vs)"
        using more Cons.prems(5) vl by (auto simp: len_def)
      obtain rs q s' bs'' where r: "take_refs vs (length (drop len data)) (b_next blk) ?s = Some (rs, q, s')"
        "wf (s'\<lparr>c_head := q\<rparr>) bs'' (mset rs + add_mset ?r R)" "\<forall>r. ref_bytes s' r = ref_bytes ?s r"
        "\<forall>r \<in> set rs. 0 < r_length r" "concat (map (ref_bytes ?s) rs) = drop len data" "length rs \<le> length vs"
        using Cons.IH [OF wf1 m' d' l' sp'] by blast
      have "take_refs (v # vs) (length data) p s = Some (?r # rs, q, s')" using run True more r(1) by (auto simp: len_def)
      moreover have "concat (map (ref_bytes s) (?r # rs)) = data" using r(5) bytes same by (simp cong: map_cong)
      ultimately show ?thesis using r(2,3,4,6) same len(1)
        by (intro exI [of _ "?r # rs"] exI [of _ q] exI [of _ s'] exI [of _ bs'']) simp
    qed
  qed
qed

subsection \<open>The whole operation\<close>

lemma dec_ref_other: "dec_ref b s = Some s' \<Longrightarrow> c \<noteq> b \<Longrightarrow> blocks s' c = blocks s c"
  by (auto simp: dec_ref_def release_block_def free_block_def inc_ref_def upd_block_def split: Option.bind_splits if_splits)

text \<open>Behind the full blocks at the front of the cache, which \<open>acquire_block\<close> drops, every block has a free byte.\<close>

definition cache_spacious :: "zstate \<Rightarrow> nat list \<Rightarrow> bool" where
  "cache_spacious s cs = spacious s (set (dropWhile (\<lambda>b. full (the (blocks s b))) cs))"

lemma spacious_cong: "(\<And>b. b \<in> B \<Longrightarrow> blocks s' b = blocks s b) \<Longrightarrow> spacious s' B = spacious s B"
  by (auto simp: spacious_def)

lemma acquire_block_spacious:
  assumes "wf s cs R" "cache_spacious s cs"
  shows "\<exists>b s' cs'. acquire_block s = Some (b, s') \<and> wf s' (b # cs') R \<and> keeps s s' R \<and> spacious s' (set (b # cs'))"
  using assms
proof (induction cs arbitrary: s)
  case Nil
  obtain b s' cs' blk where a: "acquire_block s = Some (b, s')" "wf s' (b # cs') R" "keeps s s' R"
    using acquire_block_wf [OF Nil(1)] by blast
  have h: "c_head s = 0" using wf_chain [OF Nil(1)] by simp
  obtain b0 s1 where new: "create_block kNormalBlockSize s = (b0, s1)" by fastforce
  have s': "b = b0" "s' = s1\<lparr>c_block_number := u32 (c_block_number s1 + 1), c_head := b0\<rparr>"
    using a(1) h new by (subst (asm) acquire_block.simps, simp)+
  obtain blk where blk: "blocks s1 b = Some blk" "b_offset blk = 0" "b_capacity blk = 8168" "b_next blk = 0"
    using new_normal_block [OF Nil(1) new] s'(1) by metis
  obtain blk' where "blocks s' b = Some blk'" "b_next blk' = (case cs' of [] \<Rightarrow> 0 | z # _ \<Rightarrow> z)"
    using wf_cached_next [of s' "[]" b cs' R] a(2) by auto
  moreover have "z \<noteq> 0" if "cs' = z # zs" for z zs using wf_cached_next [of s' "[b]" z zs R] a(2) that by auto
  ultimately have "cs' = []" using blk s' by (cases cs') auto
  then show ?case using a blk s' by (auto simp: spacious_def)
next
  case (Cons a cs)
  obtain blk where blk: "blocks s a = Some blk" "block_ok blk" using wf_cache_block [OF Cons.prems(1), of a] by auto
  note pop = wf_pop [OF Cons.prems(1) blk(1)]
  show ?case
  proof (cases "full blk")
    case False
    then have "acquire_block s = Some (a, s)" using blk pop(4,5) by (subst acquire_block.simps) auto
    moreover have "spacious s (set (a # cs))" using Cons.prems(2) False blk by (simp add: cache_spacious_def)
    ultimately show ?thesis using Cons.prems(1) by auto
  next
    case True
    obtain s1 where s1: "dec_ref a s = Some s1" "wf (s1\<lparr>c_head := b_next blk\<rparr>) cs R" "keeps s s1 R"
      using dec_ref_head [OF Cons.prems(1) blk(1)] by blast
    let ?s = "s1\<lparr>c_head := b_next blk, c_block_number := sub32 (c_block_number s1) 1\<rparr>"
    have wf: "wf ?s cs R" using s1(2) by (rule wf_same) simp_all
    have same: "blocks ?s b = blocks s b" if "b \<in> set cs" for b
      using dec_ref_other [OF s1(1), of b] that pop(3) by auto
    then have dw: "dropWhile (\<lambda>b. full (the (blocks ?s b))) cs = dropWhile (\<lambda>b. full (the (blocks s b))) cs"
      by (intro dropWhile_cong) auto
    let ?rest = "dropWhile (\<lambda>b. full (the (blocks s b))) cs"
    have "spacious s (set ?rest)" using Cons.prems(2) True blk(1) unfolding cache_spacious_def by simp
    moreover have "blocks ?s b = blocks s b" if "b \<in> set ?rest" for b by (rule same, rule set_dropWhileD, rule that)
    ultimately have "spacious ?s (set ?rest)" by (simp only: spacious_cong [of "set ?rest" ?s s])
    then have "cache_spacious ?s cs" unfolding cache_spacious_def dw .
    from Cons.IH [OF wf this] obtain b s' cs' where "acquire_block ?s = Some (b, s')" "wf s' (b # cs') R"
      "keeps ?s s' R" "spacious s' (set (b # cs'))" by blast
    moreover from this have "keeps s s' R" using s1(3) keeps_trans by simp
    ultimately show ?thesis using True s1(1) blk pop(4,5) by (subst acquire_block.simps) auto
  qed
qed

text \<open>The first loop stops when it has offered what was asked for, or all entries.\<close>

lemma gather_offers:
  "gather k p prev want space s = Some (iov, s') \<Longrightarrow> space \<le> want \<Longrightarrow> want < 2 ^ 64
    \<Longrightarrow> sum_list (map iov_len iov) + space = want \<or> length iov = Suc k"
proof (induction k arbitrary: p prev space s iov s')
  case 0
  then show ?case by (subst (asm) gather.simps) (auto simp: Let_def split: Option.bind_splits if_splits)
next
  case (Suc k)
  from Suc.prems(1) obtain p1 s1 blk where s1: "(if p = 0 then create_next prev s else Some (p, s)) = Some (p1, s1)"
    "blocks s1 p1 = Some blk"
    by (subst (asm) gather.simps) (auto split: Option.bind_splits if_splits)
  define n where "n = min (left_space blk) (sub64 want space)"
  have sub: "sub64 want space = want - space" using Suc.prems(2,3) by (simp add: sub64_id)
  then have n: "space + n \<le> want" "u64 (space + n) = space + n" using Suc.prems(2,3) by (auto simp: n_def intro!: u64_id)
  let ?v = "\<lparr>iov_block = p1, iov_off = b_offset blk, iov_len = n\<rparr>"
  have run: "gather (Suc k) p prev want space s = (if space + n \<ge> want then Some ([?v], s1)
      else do {(vs, s2) \<leftarrow> gather k (b_next blk) p1 want (space + n) s1; Some (?v # vs, s2)})"
    using s1 n(2) unfolding n_def by (subst gather.simps) simp
  show ?case
  proof (cases "space + n \<ge> want")
    case True
    then show ?thesis using Suc.prems(1) run n(1) by auto
  next
    case False
    then obtain vs s2 where r: "gather k (b_next blk) p1 want (space + n) s1 = Some (vs, s2)" "iov = ?v # vs"
      using Suc.prems(1) run by (auto split: Option.bind_splits)
    show ?thesis using Suc.IH [OF r(1) n(1) Suc.prems(3)] r(2) by auto
  qed
qed

text \<open>The system call delivers no more than it was offered.\<close>

definition delivers :: "(nat list \<Rightarrow> char list option) \<Rightarrow> (nat \<Rightarrow> nat list \<Rightarrow> char list option) \<Rightarrow> bool" where
  "delivers readv preadv = ((\<forall>lens d. readv lens = Some d \<longrightarrow> length d \<le> sum_list lens)
     \<and> (\<forall>off lens d. preadv off lens = Some d \<longrightarrow> length d \<le> sum_list lens))"

lemma read_from_fd_ok:
  assumes "zok z" "wf s cs (owned z + R)" "room 64 z" "cache_spacious s cs" "want < 2 ^ 64"
    and os: "delivers readv preadv"
  shows "\<exists>nr z' s' cs' lens. read_from_fd readv preadv offset want z s = Some (nr, z', s') \<and> zok z' \<and> wf s' cs' (owned z' + R)
    \<and> keeps s s' R \<and> sum_list lens \<le> want \<and> (sum_list lens = want \<or> length lens = kMaxIov)
    \<and> (case if offset < 0 then readv lens else preadv (nat offset) lens of
         None \<Rightarrow> nr = - 1 \<and> content s' z' = content s z
       | Some d \<Rightarrow> nr = int (length d) \<and> content s' z' = content s z @ d)"
proof -
  obtain p s1 cs1 where a: "acquire_block s = Some (p, s1)" "wf s1 (p # cs1) (owned z + R)" "keeps s s1 (owned z + R)"
    "spacious s1 (set (p # cs1))" using acquire_block_spacious [OF assms(2,4)] by blast
  obtain iov s2 new where g: "gather (kMaxIov - 1) p 0 want 0 s1 = Some (iov, s2)" "wf s2 (p # cs1 @ new) (owned z + R)"
    "keeps s1 s2 (owned z + R)" "c_head s2 = c_head s1" "same_space s1 s2 (set (p # cs1))" "iov_match s2 (p # cs1 @ new) iov want"
    "iov \<noteq> []" "length iov \<le> 64" "spacious s2 (set new)"
    using gather_ok [of s1 "[]" "p # cs1" "owned z + R" p 0 0 want "kMaxIov - 1"] a(2) assms(5) by (auto simp: kMaxIov_def)
  let ?lens = "map iov_len iov"
  have k2: "keeps s s2 (owned z + R)" using a(3) g(3) by (rule keeps_trans)
  have lens: "sum_list ?lens \<le> want" using iov_match_sum [OF g(6)] .
  have full: "sum_list ?lens = want \<or> length ?lens = kMaxIov"
    using gather_offers [OF g(1) _ assms(5)] by (simp add: kMaxIov_def)
  define res where "res = (if offset < 0 then readv ?lens else preadv (nat offset) ?lens)"
  have bound: "length d \<le> sum_list ?lens" if "res = Some d" for d
    using that os by (auto simp: res_def delivers_def split: if_splits)
  have run: "read_from_fd readv preadv offset want z s = (case res of None \<Rightarrow> Some (- 1, z, s2)
     | Some data \<Rightarrow> if data = [] then Some (0, z, s2)
         else do {
           s3 \<leftarrow> scatter iov data s2;
           (refs, q, s4) \<leftarrow> take_refs iov (length data) p s3;
           (z', s5) \<leftarrow> append_refs append_ref_move refs z (s4\<lparr>c_head := q\<rparr>);
           Some (int (length data), z', s5)})"
    using a(1) g(1) by (simp add: read_from_fd_def res_def)
  show ?thesis
  proof (cases "res = None \<or> res = Some []")
    case True
    have "content s2 z = content s z" using k2 by (rule content_keeps)
    then show ?thesis using True run assms(1) g(2) keeps_union [OF k2] lens full unfolding res_def
      by (rule_tac exI [of _ "if res = None then - 1 else 0"], rule_tac exI [of _ z], rule_tac exI [of _ s2],
        rule_tac exI [of _ "p # cs1 @ new"], rule_tac exI [of _ ?lens]) (auto simp: res_def)
  next
    case False
    then obtain data where d: "res = Some data" "data \<noteq> []" by (cases res) auto
    obtain s3 where sc: "scatter iov data s2 = Some s3" "wf s3 (p # cs1 @ new) (owned z + R)" "keeps s2 s3 (owned z + R)"
      "same_space s2 s3 (set (p # cs1 @ new))" "c_head s3 = c_head s2" "data_match s3 iov data"
      using scatter_ok [of s2 "[]" "p # cs1 @ new" "owned z + R" iov want data] g(2,6) by auto
    have alloc: "\<forall>b \<in> set (p # cs1). blocks s1 b \<noteq> None" "\<forall>b \<in> set (p # cs1 @ new). blocks s2 b \<noteq> None"
      using wf_cache_block [OF a(2)] wf_cache_block [OF g(2)] by blast+
    have "spacious s2 (set (p # cs1))" by (rule spacious_same [OF a(4) g(5) alloc(1)])
    then have "spacious s2 (set (p # cs1 @ new))" using g(9) by (auto simp: spacious_def)
    then have sp: "spacious s3 (set (p # cs1 @ new))" by (rule spacious_same [OF _ sc(4) alloc(2)])
    have head: "c_head s3 = p" using wf_chain [OF sc(2)] by simp
    then have wf3: "wf (s3\<lparr>c_head := p\<rparr>) (p # cs1 @ new) (owned z + R)" using sc(2) by (simp add: wf_same)
    obtain refs q s4 cs4 where t: "take_refs iov (length data) p s3 = Some (refs, q, s4)"
      "wf (s4\<lparr>c_head := q\<rparr>) cs4 (mset refs + (owned z + R))" "\<forall>r. ref_bytes s4 r = ref_bytes s3 r"
      "\<forall>r \<in> set refs. 0 < r_length r" "concat (map (ref_bytes s3) refs) = data" "length refs \<le> length iov"
      using take_refs_ok [OF wf3 iov_match_same_space [OF g(6) sc(4)] sc(6) d(2) bound [OF d(1)] sp] by blast
    let ?s4 = "s4\<lparr>c_head := q\<rparr>"
    have bytes: "ref_bytes ?s4 r = ref_bytes s3 r" for r using t(3) by (simp add: ref_bytes_def)
    have "wf ?s4 cs4 (owned z + (mset refs + R))" using t(2) by (simp add: ac_simps)
    moreover have "room (length refs) z" using t(6) g(8) by (intro room_mono [OF _ assms(3)]) simp
    ultimately obtain z' s5 cs5 where ap: "append_refs append_ref_move refs z ?s4 = Some (z', s5)"
      "appended (length refs) ?s4 cs4 R z (concat (map (ref_bytes ?s4) refs)) z' s5 cs5"
      using append_refs_move_ok [OF t(4) assms(1)] by blast
    have k4: "keeps s ?s4 (owned z + R)" using keeps_trans [OF k2 sc(3)] bytes by (simp add: keeps_def)
    have post: "wf s5 cs5 (owned z' + R)" "zok z'" "preserves ?s4 cs4 R s5 cs5" "content s5 z' = content s z @ data"
      using ap(2) t(5) bytes content_keeps [OF k4] by (simp_all add: appended_def cong: map_cong)
    have "wf ?s4 cs4 R" using wf_mono [of ?s4 cs4 R "mset refs + owned z"] t(2) by (simp add: ac_simps)
    then have "keeps s s5 R" using preserves_keeps [OF _ post(3)] keeps_union [OF k4] keeps_trans by blast
    moreover have "read_from_fd readv preadv offset want z s = Some (int (length data), z', s5)"
      using run d sc(1) t(1) ap(1) by simp
    ultimately show ?thesis using post lens full d(1) unfolding res_def
      by (rule_tac exI [of _ "int (length data)"], rule_tac exI [of _ z'], rule_tac exI [of _ s5],
        rule_tac exI [of _ cs5], rule_tac exI [of _ ?lens]) simp
  qed
qed

text \<open>(C16) With room for 64 references, and while every block of the cache behind the full ones at its front has a free byte,
  \<open>read_from_fd\<close> returns for every size: it offers \<^verbatim>\<open>readv\<close> (or \<^verbatim>\<open>preadv\<close>, by the sign of the offset) space for exactly the
  bytes asked for, or as much as 64 blocks have, no assertion fails, and what was read is in the buffer behind its old contents; an
  error or an empty read leaves the contents alone. The invariant and every other reference are kept. The system call
  delivers no more than it was offered.\<close>

theorem read_from_fd_correct:
  assumes "zok z" "wf s cs (owned z + R)" "room 64 z" "cache_spacious s cs" "want < 2 ^ 64"
    and os: "delivers readv preadv"
  shows "\<exists>nr z' s' cs' lens. read_from_fd readv preadv offset want z s = Some (nr, z', s') \<and> zok z' \<and> wf s' cs' (owned z' + R)
    \<and> keeps s s' R \<and> sum_list lens \<le> want \<and> (sum_list lens = want \<or> length lens = kMaxIov)
    \<and> (case if offset < 0 then readv lens else preadv (nat offset) lens of
         None \<Rightarrow> nr = - 1 \<and> content s' z' = content s z
       | Some d \<Rightarrow> nr = int (length d) \<and> content s' z' = content s z @ d)"
  by (rule read_from_fd_ok [OF assms])

lemma read_from_fd_correct_witness:
  "\<exists>nr z' s'. read_from_fd (\<lambda>lens. Some (take (sum_list lens) ''hello'')) (\<lambda>_ _. None) (- 1) 4096 ZBuffer init_state = Some (nr, z', s')
    \<and> (\<exists>lens. sum_list lens \<le> 4096 \<and> nr = int (length (take (sum_list lens) ''hello''))
      \<and> content s' z' = content init_state ZBuffer @ take (sum_list lens) ''hello'')"
proof -
  have "zok ZBuffer" "wf init_state [] (owned ZBuffer + {#})" "room 64 ZBuffer" "cache_spacious init_state []"
    using init_state_wf by (simp_all add: ZBuffer_def null_ref_def cache_spacious_def spacious_def)
  moreover have "delivers (\<lambda>lens. Some (take (sum_list lens) ''hello'')) (\<lambda>_ _. None)" by (simp add: delivers_def)
  ultimately show ?thesis
    using read_from_fd_correct [of ZBuffer init_state "[]" "{#}" 4096 "\<lambda>lens. Some (take (sum_list lens) ''hello'')" "\<lambda>_ _. None" "- 1"]
    by (auto split: option.splits)
qed

end
