(* ===== verification/ZBuf_System.thy ===== *)
theory ZBuf_System
  imports ZBuf_Props ZBuf_Read
begin

text \<open>
  Several buffers of one thread. They share the blocks of the thread's cache, with the references that appending
  one buffer to another copies or moves. Here any number of named buffers run through any sequence of the
  public operations, and what each operation shows is what the same operation on lists of bytes shows: sharing is
  never visible.
\<close>

subsection \<open>Buffers by name\<close>

datatype zop = New nat | Append nat "char list" | Append_move nat nat | Append_copy nat nat | Popn nat nat
  | Copy_front nat nat | Size nat | Read_from_fd nat int nat | Destroy nat

datatype zout = Done | Bytes "char list" | Num int

record zsystem =
  bufs :: "nat \<rightharpoonup> zbuffer"
  memory :: zstate

definition put :: "nat \<Rightarrow> zbuffer \<Rightarrow> zstate \<Rightarrow> zsystem \<Rightarrow> zsystem" where
  "put i z s sys = sys\<lparr>bufs := (bufs sys)(i \<mapsto> z), memory := s\<rparr>"

fun zstep :: "(nat list \<Rightarrow> char list option) \<Rightarrow> (nat \<Rightarrow> nat list \<Rightarrow> char list option) \<Rightarrow> zop \<Rightarrow> zsystem
    \<Rightarrow> (zout \<times> zsystem) option" where
  "zstep readv preadv (New i) sys = do {
     check (bufs sys i = None);
     Some (Done, put i ZBuffer (memory sys) sys)}"
| "zstep readv preadv (Append i bytes) sys = do {
     z \<leftarrow> bufs sys i;
     (z', s) \<leftarrow> append_bytes bytes 0 z (memory sys);
     Some (Done, put i z' s sys)}"
| "zstep readv preadv (Append_move i j) sys = do {
     z \<leftarrow> bufs sys i;
     y \<leftarrow> bufs sys j;
     (nr, z', y', s) \<leftarrow> append_move y z (memory sys);
     Some (Done, put j y' s (put i z' s sys))}"
| "zstep readv preadv (Append_copy i j) sys = do {
     z \<leftarrow> bufs sys i;
     y \<leftarrow> bufs sys j;
     (nr, z', s) \<leftarrow> append_copy y z (memory sys);
     Some (Done, put i z' s sys)}"
| "zstep readv preadv (Popn i n) sys = do {
     z \<leftarrow> bufs sys i;
     (out, z', s) \<leftarrow> popn n z (memory sys);
     Some (Bytes out, put i z' s sys)}"
| "zstep readv preadv (Copy_front i n) sys = do {
     z \<leftarrow> bufs sys i;
     out \<leftarrow> copy_front n z (memory sys);
     Some (Bytes out, sys)}"
| "zstep readv preadv (Size i) sys = do {
     z \<leftarrow> bufs sys i;
     Some (Num (int (zsize z)), sys)}"
| "zstep readv preadv (Read_from_fd i offset want) sys = do {
     z \<leftarrow> bufs sys i;
     (nr, z', s) \<leftarrow> read_from_fd readv preadv offset want z (memory sys);
     Some (Num nr, put i z' s sys)}"
| "zstep readv preadv (Destroy i) sys = do {
     z \<leftarrow> bufs sys i;
     s \<leftarrow> destroy z (memory sys);
     Some (Done, sys\<lparr>bufs := (bufs sys)(i := None), memory := s\<rparr>)}"

fun zrun :: "(nat list \<Rightarrow> char list option) \<Rightarrow> (nat \<Rightarrow> nat list \<Rightarrow> char list option) \<Rightarrow> zop list \<Rightarrow> zsystem
    \<Rightarrow> (zout list \<times> zsystem) option" where
  "zrun readv preadv [] sys = Some ([], sys)"
| "zrun readv preadv (x # xs) sys = do {
     (out, sys1) \<leftarrow> zstep readv preadv x sys;
     (outs, sys2) \<leftarrow> zrun readv preadv xs sys1;
     Some (out # outs, sys2)}"

subsection \<open>The same operations on lists of bytes\<close>

text \<open>A name holds the bytes of a buffer, or \<^term>\<open>None\<close> for a buffer that was moved from and may only be destroyed. What a
  moved-from buffer is good for depends on its layout, so both are allowed. A read delivers what the
  system call delivers for some sizes that add up to no more than was asked for.\<close>

type_synonym zspec_state = "nat \<rightharpoonup> char list option"

inductive zspec :: "(nat list \<Rightarrow> char list option) \<Rightarrow> (nat \<Rightarrow> nat list \<Rightarrow> char list option) \<Rightarrow> zop \<Rightarrow> zout
    \<Rightarrow> zspec_state \<Rightarrow> zspec_state \<Rightarrow> bool" for readv preadv where
  new: "m i = None \<Longrightarrow> zspec readv preadv (New i) Done m (m(i \<mapsto> Some []))"
| append: "m i = Some (Some c) \<Longrightarrow> zspec readv preadv (Append i bytes) Done m (m(i \<mapsto> Some (c @ bytes)))"
| append_move: "m i = Some (Some c) \<Longrightarrow> m j = Some (Some d) \<Longrightarrow> i \<noteq> j \<Longrightarrow> left \<in> {None, Some []}
    \<Longrightarrow> zspec readv preadv (Append_move i j) Done m (m(i \<mapsto> Some (c @ d), j \<mapsto> left))"
| append_copy: "m i = Some (Some c) \<Longrightarrow> m j = Some (Some d) \<Longrightarrow> i \<noteq> j
    \<Longrightarrow> zspec readv preadv (Append_copy i j) Done m (m(i \<mapsto> Some (c @ d)))"
| popn: "m i = Some (Some c) \<Longrightarrow> zspec readv preadv (Popn i n) (Bytes (take n c)) m (m(i \<mapsto> Some (drop n c)))"
| copy_front: "m i = Some (Some c) \<Longrightarrow> zspec readv preadv (Copy_front i n) (Bytes (take n c)) m m"
| size: "m i = Some (Some c) \<Longrightarrow> zspec readv preadv (Size i) (Num (int (length c))) m m"
| read: "m i = Some (Some c) \<Longrightarrow> sum_list lens \<le> want
    \<Longrightarrow> (if offset < 0 then readv lens else preadv (nat offset) lens) = Some d
    \<Longrightarrow> zspec readv preadv (Read_from_fd i offset want) (Num (int (length d))) m (m(i \<mapsto> Some (c @ d)))"
| read_error: "m i = Some (Some c) \<Longrightarrow> sum_list lens \<le> want
    \<Longrightarrow> (if offset < 0 then readv lens else preadv (nat offset) lens) = None
    \<Longrightarrow> zspec readv preadv (Read_from_fd i offset want) (Num (- 1)) m m"
| destroy: "m i \<noteq> None \<Longrightarrow> zspec readv preadv (Destroy i) Done m (m(i := None))"

inductive zspecs :: "(nat list \<Rightarrow> char list option) \<Rightarrow> (nat \<Rightarrow> nat list \<Rightarrow> char list option) \<Rightarrow> zop list \<Rightarrow> zout list
    \<Rightarrow> zspec_state \<Rightarrow> zspec_state \<Rightarrow> bool" for readv preadv where
  nil: "zspecs readv preadv [] [] m m"
| cons: "zspec readv preadv x out m m1 \<Longrightarrow> zspecs readv preadv xs outs m1 m2 \<Longrightarrow> zspecs readv preadv (x # xs) (out # outs) m m2"

definition view :: "zsystem \<Rightarrow> zspec_state" where
  "view sys i = map_option (\<lambda>z. if zok z then Some (content (memory sys) z) else None) (bufs sys i)"

subsection \<open>The invariant\<close>

definition owned_by :: "(nat \<rightharpoonup> zbuffer) \<Rightarrow> block_ref multiset" where
  "owned_by bs = (\<Sum>i \<in> dom bs. owned (the (bs i)))"

definition zsystem_inv :: "zsystem \<Rightarrow> bool" where
  "zsystem_inv sys = (finite (dom (bufs sys)) \<and> (\<forall>i z. bufs sys i = Some z \<longrightarrow> destroyable z)
     \<and> (\<exists>cs. wf (memory sys) cs (owned_by (bufs sys))))"

text \<open>What the operations need: a usable buffer, the room of the reference ring, and the sizes the code can count.\<close>

definition usable :: "zsystem \<Rightarrow> nat \<Rightarrow> (zbuffer \<Rightarrow> bool) \<Rightarrow> bool" where
  "usable sys i P = (case bufs sys i of None \<Rightarrow> False | Some z \<Rightarrow> zok z \<and> P z)"

fun zallowed :: "zop \<Rightarrow> zsystem \<Rightarrow> bool" where
  "zallowed (New i) sys = (bufs sys i = None)"
| "zallowed (Append i bytes) sys = usable sys i (\<lambda>z. length bytes < 4294967296 \<and> room (length bytes div 8 + 1) z)"
| "zallowed (Append_move i j) sys = (i \<noteq> j \<and> usable sys j (\<lambda>y. usable sys i (room (length (zrefs y)))))"
| "zallowed (Append_copy i j) sys = (i \<noteq> j \<and> usable sys j (\<lambda>y. usable sys i (room (length (zrefs y)))))"
| "zallowed (Popn i n) sys = (n < 9223372036854775808 \<and> usable sys i (\<lambda>_. True))"
| "zallowed (Copy_front i n) sys = usable sys i (\<lambda>_. True)"
| "zallowed (Size i) sys = usable sys i (\<lambda>_. True)"
| "zallowed (Read_from_fd i offset want) sys = (want < 18446744073709551616 \<and> usable sys i (room 64)
     \<and> (\<exists>cs. wf (memory sys) cs (owned_by (bufs sys)) \<and> cache_spacious (memory sys) cs))"
| "zallowed (Destroy i) sys = (bufs sys i \<noteq> None)"

lemma owned_by_upd [simp]:
  "finite (dom bs) \<Longrightarrow> owned_by (bs(i \<mapsto> z)) = owned z + owned_by (bs(i := None))"
proof -
  assume fin: "finite (dom bs)"
  have "owned_by (bs(i \<mapsto> z)) = owned z + (\<Sum>j \<in> dom bs - {i}. owned (the ((bs(i \<mapsto> z)) j)))"
    using fin by (simp add: owned_by_def sum.insert_remove)
  also have "(\<Sum>j \<in> dom bs - {i}. owned (the ((bs(i \<mapsto> z)) j))) = owned_by (bs(i := None))"
    unfolding owned_by_def by (rule sum.cong) auto
  finally show ?thesis .
qed

lemma owned_by_split: "finite (dom bs) \<Longrightarrow> bs i = Some z \<Longrightarrow> owned_by bs = owned z + owned_by (bs(i := None))"
  using owned_by_upd [of bs i z] by (simp add: map_upd_triv)

lemma owned_by_empty [simp]: "owned_by (\<lambda>_. None) = {#}"
  by (simp add: owned_by_def)

text \<open>What references of the other buffers read does not change, so their contents do not.\<close>

lemma keeps_content:
  assumes "finite (dom bs)" "keeps s s' (owned_by bs)" "bs i = Some z"
  shows "content s' z = content s z"
  using assms(2) content_keeps [of s s' z "owned_by (bs(i := None))"] owned_by_split [OF assms(1,3)] by simp

lemma keeps_content_other:
  "finite (dom bs) \<Longrightarrow> keeps s s' (owned_by (bs(i := None))) \<Longrightarrow> bs k = Some z \<Longrightarrow> k \<noteq> i \<Longrightarrow> content s' z = content s z"
  by (rule keeps_content [of "bs(i := None)"]) auto

lemma view_put:
  assumes "finite (dom (bufs sys))" "keeps (memory sys) s (owned_by ((bufs sys)(i := None)))"
  shows "view (put i z s sys) = (view sys)(i \<mapsto> if zok z then Some (content s z) else None)"
proof
  fix k
  show "view (put i z s sys) k = ((view sys)(i \<mapsto> if zok z then Some (content s z) else None)) k"
    using keeps_content_other [OF assms] by (cases "bufs sys k") (auto simp: view_def put_def)
qed

lemma view_remove:
  assumes "finite (dom (bufs sys))" "keeps (memory sys) s (owned_by ((bufs sys)(i := None)))"
  shows "view (sys\<lparr>bufs := (bufs sys)(i := None), memory := s\<rparr>) = (view sys)(i := None)"
proof
  fix k
  show "view (sys\<lparr>bufs := (bufs sys)(i := None), memory := s\<rparr>) k = ((view sys)(i := None)) k"
    using keeps_content_other [OF assms] by (cases "bufs sys k") (auto simp: view_def)
qed

lemma put_bufs [simp]: "bufs (put i z s sys) = (bufs sys)(i \<mapsto> z)" "memory (put i z s sys) = s"
  by (simp_all add: put_def)

lemma inv_put:
  assumes "zsystem_inv sys" "wf s cs (owned z + owned_by ((bufs sys)(i := None)))" "destroyable z"
  shows "zsystem_inv (put i z s sys)"
  using assms by (auto simp: zsystem_inv_def)

text \<open>A usable buffer, seen as one buffer and the references of the others.\<close>

lemma usable_cases:
  assumes "zsystem_inv sys" "usable sys i P"
  obtains z cs where "bufs sys i = Some z" "zok z" "P z" "finite (dom (bufs sys))"
    "wf (memory sys) cs (owned z + owned_by ((bufs sys)(i := None)))"
    "view sys i = Some (Some (content (memory sys) z))"
  using assms owned_by_split [of "bufs sys" i]
  by (auto simp: usable_def zsystem_inv_def view_def split: option.splits)

definition step_ok :: "(nat list \<Rightarrow> char list option) \<Rightarrow> (nat \<Rightarrow> nat list \<Rightarrow> char list option) \<Rightarrow> zop \<Rightarrow> zsystem \<Rightarrow> bool" where
  "step_ok readv preadv x sys = (\<exists>out sys'. zstep readv preadv x sys = Some (out, sys') \<and> zsystem_inv sys'
     \<and> zspec readv preadv x out (view sys) (view sys'))"

text \<open>The operations that replace one buffer.\<close>

lemma put_step:
  assumes inv: "zsystem_inv sys" and step: "zstep readv preadv x sys = Some (out, put i z s sys)"
    and wf: "wf s cs (owned z + owned_by ((bufs sys)(i := None)))" and z: "zok z"
    and keeps: "keeps (memory sys) s (owned_by ((bufs sys)(i := None)))"
    and spec: "zspec readv preadv x out (view sys) ((view sys)(i \<mapsto> Some (content s z)))"
  shows "step_ok readv preadv x sys"
proof -
  have "zsystem_inv (put i z s sys)" using inv_put [OF inv wf] z by (simp add: destroyable_def)
  moreover have "finite (dom (bufs sys))" using inv by (simp add: zsystem_inv_def)
  from view_put [OF this keeps, of z] have "view (put i z s sys) = (view sys)(i \<mapsto> Some (content s z))" using z by simp
  ultimately show ?thesis using step spec by (auto simp: step_ok_def)
qed

lemma new_step: "zsystem_inv sys \<Longrightarrow> zallowed (New i) sys \<Longrightarrow> step_ok readv preadv (New i) sys"
proof -
  assume inv: "zsystem_inv sys" and new: "zallowed (New i) sys"
  then obtain cs where wf: "wf (memory sys) cs (owned_by (bufs sys))" by (auto simp: zsystem_inv_def)
  have same: "(bufs sys)(i := None) = bufs sys" using new by (simp add: fun_upd_idem)
  have z: "owned ZBuffer = {#}" "zok ZBuffer" by (simp_all add: ZBuffer_def null_ref_def)
  show ?thesis
    by (rule put_step [OF inv, of readv preadv _ Done i ZBuffer "memory sys" cs])
      (use new wf in \<open>auto simp: same z init_content view_def keeps_def intro!: zspec.new\<close>)
qed

lemma append_step:
  assumes inv: "zsystem_inv sys" and all: "zallowed (Append i bytes) sys"
  shows "step_ok readv preadv (Append i bytes) sys"
proof -
  obtain z cs where z: "bufs sys i = Some z" "zok z" "length bytes < 4294967296" "room (length bytes div 8 + 1) z"
    "wf (memory sys) cs (owned z + owned_by ((bufs sys)(i := None)))" "view sys i = Some (Some (content (memory sys) z))"
    using all by (auto elim: usable_cases [OF inv])
  obtain z' s' cs' where "append_bytes bytes 0 z (memory sys) = Some (z', s')" "zok z'"
    "wf s' cs' (owned z' + owned_by ((bufs sys)(i := None)))" "content s' z' = content (memory sys) z @ bytes"
    "keeps (memory sys) s' (owned_by ((bufs sys)(i := None)))"
    using append_bytes_ok [OF z(2,5,3), of 0] z(4) by auto
  then show ?thesis using z(1,6) by (intro put_step [OF inv]) (auto intro: zspec.append)
qed

lemma popn_step:
  assumes inv: "zsystem_inv sys" and all: "zallowed (Popn i n) sys"
  shows "step_ok readv preadv (Popn i n) sys"
proof -
  let ?R = "owned_by ((bufs sys)(i := None))"
  obtain z cs where z: "bufs sys i = Some z" "zok z" "wf (memory sys) cs (owned z + ?R)"
    "view sys i = Some (Some (content (memory sys) z))" and n: "n < 9223372036854775808"
    using all by (auto elim: usable_cases [OF inv])
  from popn_ok [OF z(2,3) n] obtain z' s' cs' where run: "popn n z (memory sys) = Some (take n (content (memory sys) z), z', s')"
    and post: "wf s' cs' (owned z' + ?R)" "zok z'" "preserves (memory sys) cs ?R s' cs'" "content s' z' = drop n (content (memory sys) z)"
    by (auto simp: pops_def pop_post_def)
  have "wf (memory sys) cs ?R" using wf_mono z(3) by (metis add.commute)
  then have "keeps (memory sys) s' ?R" using preserves_keeps post(3) by blast
  then show ?thesis using z(1,4) run post by (intro put_step [OF inv]) (auto intro: zspec.popn)
qed

lemma observe_step:
  assumes inv: "zsystem_inv sys" and all: "zallowed x sys" and x: "x = Copy_front i n \<or> x = Size i"
  shows "step_ok readv preadv x sys"
proof -
  obtain z cs where z: "bufs sys i = Some z" "zok z" "wf (memory sys) cs (owned z + owned_by ((bufs sys)(i := None)))"
    "view sys i = Some (Some (content (memory sys) z))"
  proof -
    have "usable sys i (\<lambda>_. True)" using all x by auto
    from usable_cases [OF inv this] show thesis using that by blast
  qed
  show ?thesis using x inv z copy_front_ok [OF z(2,3), of n] zsize_ok [OF z(2,3)]
    by (auto simp: step_ok_def intro: zspec.copy_front zspec.size)
qed

lemma destroy_step:
  assumes inv: "zsystem_inv sys" and all: "zallowed (Destroy i) sys"
  shows "step_ok readv preadv (Destroy i) sys"
proof -
  let ?R = "owned_by ((bufs sys)(i := None))"
  obtain z cs where z: "bufs sys i = Some z" "destroyable z" "finite (dom (bufs sys))" "wf (memory sys) cs (owned z + ?R)"
    using all inv owned_by_split [of "bufs sys" i] by (auto simp: zsystem_inv_def)
  obtain s' cs' where d: "destroy z (memory sys) = Some s'" "wf s' cs' ?R" "preserves (memory sys) cs ?R s' cs'"
    using destroy_ok [OF z(2,4)] by blast
  have "wf (memory sys) cs ?R" using wf_mono z(4) by (metis add.commute)
  then have "keeps (memory sys) s' ?R" using preserves_keeps d(3) by blast
  from view_remove [OF z(3) this] have "zspec readv preadv (Destroy i) Done (view sys)
      (view (sys\<lparr>bufs := (bufs sys)(i := None), memory := s'\<rparr>))"
    using z(1) by (auto simp: view_def intro!: zspec.destroy)
  moreover have "zsystem_inv (sys\<lparr>bufs := (bufs sys)(i := None), memory := s'\<rparr>)"
    using inv d(2) by (auto simp: zsystem_inv_def)
  ultimately show ?thesis using z(1) d(1) by (auto simp: step_ok_def)
qed

text \<open>Two buffers, seen as the two and the references of the others.\<close>

lemma usable_two:
  assumes inv: "zsystem_inv sys" and ij: "i \<noteq> j" and "usable sys j (\<lambda>y. usable sys i (room (length (zrefs y))))"
  obtains z y cs R where "bufs sys i = Some z" "bufs sys j = Some y" "zok z" "zok y" "room (length (zrefs y)) z"
    "finite (dom (bufs sys))" "R = owned_by ((bufs sys)(i := None, j := None))"
    "owned_by ((bufs sys)(i := None)) = owned y + R" "wf (memory sys) cs (owned z + (owned y + R))"
    "view sys i = Some (Some (content (memory sys) z))" "view sys j = Some (Some (content (memory sys) y))"
proof -
  obtain y where y: "bufs sys j = Some y" "zok y" "usable sys i (room (length (zrefs y)))"
    "view sys j = Some (Some (content (memory sys) y))"
    using usable_cases [OF inv assms(3)] by metis
  obtain z cs where z: "bufs sys i = Some z" "zok z" "room (length (zrefs y)) z" "finite (dom (bufs sys))"
    "wf (memory sys) cs (owned z + owned_by ((bufs sys)(i := None)))" "view sys i = Some (Some (content (memory sys) z))"
    using usable_cases [OF inv y(3)] by metis
  moreover have "owned_by ((bufs sys)(i := None)) = owned y + owned_by ((bufs sys)(i := None, j := None))"
    using z(4) y(1) ij by (intro owned_by_split) auto
  ultimately show ?thesis using that y by metis
qed

lemma append_copy_step:
  assumes inv: "zsystem_inv sys" and all: "zallowed (Append_copy i j) sys"
  shows "step_ok readv preadv (Append_copy i j) sys"
proof -
  have ij: "i \<noteq> j" using all by simp
  obtain z y cs R where z: "bufs sys i = Some z" "bufs sys j = Some y" "zok z" "zok y" "room (length (zrefs y)) z"
    "owned_by ((bufs sys)(i := None)) = owned y + R" "wf (memory sys) cs (owned z + (owned y + R))"
    "view sys i = Some (Some (content (memory sys) z))" "view sys j = Some (Some (content (memory sys) y))"
    using usable_two [OF inv ij, of thesis] all by auto
  from append_copy_ok [OF z(4,3,7,5)] obtain nr z' s' cs' where run: "append_copy y z (memory sys) = Some (nr, z', s')"
    and post: "wf s' cs' (owned z' + (owned y + R))" "zok z'" "preserves (memory sys) cs (owned y + R) s' cs'"
      "content s' z' = content (memory sys) z @ content (memory sys) y"
    unfolding appended_def by blast
  have "wf (memory sys) cs (owned y + R)" using wf_mono z(7) by (metis add.commute)
  then have "keeps (memory sys) s' (owned y + R)" using preserves_keeps post(3) by blast
  then show ?thesis using z run post ij
    by (intro put_step [OF inv, of _ _ _ Done i z' s' cs']) (auto intro: zspec.append_copy)
qed

lemma append_move_step:
  assumes inv: "zsystem_inv sys" and all: "zallowed (Append_move i j) sys"
  shows "step_ok readv preadv (Append_move i j) sys"
proof -
  have ij: "i \<noteq> j" using all by simp
  obtain z y cs R where z: "bufs sys i = Some z" "bufs sys j = Some y" "zok z" "zok y" "room (length (zrefs y)) z"
    "finite (dom (bufs sys))" "R = owned_by ((bufs sys)(i := None, j := None))"
    "owned_by ((bufs sys)(i := None)) = owned y + R" "wf (memory sys) cs (owned z + (owned y + R))"
    "view sys i = Some (Some (content (memory sys) z))" "view sys j = Some (Some (content (memory sys) y))"
    using usable_two [OF inv ij, of thesis] all by auto
  let ?y = "moved_from y"
  from append_move_ok [OF z(4,3,9,5)] obtain nr z' s' cs' where run: "append_move y z (memory sys) = Some (nr, z', ?y, s')"
    and post: "wf s' cs' (owned z' + (owned ?y + R))" "zok z'" "preserves (memory sys) cs (owned ?y + R) s' cs'"
      "content s' z' = content (memory sys) z @ content (memory sys) y"
    unfolding appended_def by blast
  let ?sys = "put j ?y s' (put i z' s' sys)"
  have "wf (memory sys) cs R" using wf_mono z(9) by (metis add.commute)
  moreover have "preserves (memory sys) cs R s' cs'" using post(3) by (rule preserves_union)
  ultimately have keeps: "keeps (memory sys) s' R" using preserves_keeps by blast
  have twist: "(bufs sys)(i := v, j := None) = (bufs sys)(j := None, i := v)" for v using ij by (rule fun_upd_twist)
  have "owned_by (bufs ?sys) = owned ?y + (owned z' + R)"
    using z(6,7) twist [of "Some z'"] twist [of None] by simp
  then have inv': "zsystem_inv ?sys" using inv post(1,2) z(4) by (auto simp: zsystem_inv_def destroyable_def ac_simps)
  define left where "left = (if zok ?y then Some (content s' ?y) else None)"
  have "view ?sys = (view sys)(i \<mapsto> Some (content s' z'), j \<mapsto> left)"
  proof
    fix k
    show "view ?sys k = ((view sys)(i \<mapsto> Some (content s' z'), j \<mapsto> left)) k"
    proof (cases "k = i \<or> k = j \<or> bufs sys k = None")
      case True
      then show ?thesis using post(2) ij by (auto simp: view_def left_def)
    next
      case False
      then obtain x where x: "bufs sys k = Some x" "k \<noteq> i" "k \<noteq> j" by auto
      have "content s' x = content (memory sys) x"
        using keeps_content [of "(bufs sys)(i := None, j := None)" "memory sys" s' k x] z(6,7) keeps x by simp
      then show ?thesis using x by (simp add: view_def)
    qed
  qed
  moreover have "left \<in> {None, Some []}" by (simp add: left_def)
  ultimately have "zspec readv preadv (Append_move i j) Done (view sys) (view ?sys)"
    using zspec.append_move [OF z(10,11) ij] post(4) by simp
  then show ?thesis using z(1,2) run inv' by (auto simp: step_ok_def)
qed

lemma read_step:
  assumes inv: "zsystem_inv sys" and all: "zallowed (Read_from_fd i offset want) sys"
    and os: "delivers readv preadv"
  shows "step_ok readv preadv (Read_from_fd i offset want) sys"
proof -
  let ?R = "owned_by ((bufs sys)(i := None))"
  have want: "want < 2 ^ 64" and "usable sys i (room 64)" using all by simp_all
  from usable_cases [OF inv this(2)] obtain z where z: "bufs sys i = Some z" "zok z" "room 64 z" "finite (dom (bufs sys))"
    "view sys i = Some (Some (content (memory sys) z))" by metis
  have "owned_by (bufs sys) = owned z + ?R" by (rule owned_by_split [OF z(4,1)])
  then obtain cs where wf: "wf (memory sys) cs (owned z + ?R)" "cache_spacious (memory sys) cs" using all by auto
  obtain nr z' s' cs' lens where run: "read_from_fd readv preadv offset want z (memory sys) = Some (nr, z', s')"
    and post: "zok z'" "wf s' cs' (owned z' + ?R)" "keeps (memory sys) s' ?R" "sum_list lens \<le> want"
      "case if offset < 0 then readv lens else preadv (nat offset) lens of
         None \<Rightarrow> nr = - 1 \<and> content s' z' = content (memory sys) z
       | Some d \<Rightarrow> nr = int (length d) \<and> content s' z' = content (memory sys) z @ d"
    using read_from_fd_ok [where offset = offset, OF z(2) wf(1) z(3) wf(2) want os] by (elim exE conjE) (rule that)
  have "zspec readv preadv (Read_from_fd i offset want) (Num nr) (view sys) ((view sys)(i \<mapsto> Some (content s' z')))"
  proof (cases "if offset < 0 then readv lens else preadv (nat offset) lens")
    case None
    then have "nr = - 1" "(view sys)(i \<mapsto> Some (content s' z')) = view sys" using post(5) z(5) by (auto simp: fun_upd_idem)
    then show ?thesis using zspec.read_error [where m = "view sys" and i = i and lens = lens and want = want and offset = offset and readv = readv and preadv = preadv, OF z(5) post(4) None] by simp
  next
    case (Some d)
    then show ?thesis using zspec.read [where m = "view sys" and i = i and lens = lens and want = want and offset = offset and readv = readv and preadv = preadv, OF z(5) post(4) Some] post(5) by simp
  qed
  then show ?thesis using z(1) run post(1-3) by (intro put_step [OF inv, of _ _ _ "Num nr" i z' s' cs']) auto
qed

lemma zstep_ok:
  assumes "zsystem_inv sys" "zallowed x sys" "delivers readv preadv"
  shows "step_ok readv preadv x sys"
  using assms
  by (cases x) (auto intro: new_step append_step popn_step destroy_step append_copy_step append_move_step read_step observe_step simp del: zallowed.simps)

subsection \<open>Any sequence of operations\<close>

fun zadmissible :: "(nat list \<Rightarrow> char list option) \<Rightarrow> (nat \<Rightarrow> nat list \<Rightarrow> char list option) \<Rightarrow> zop list \<Rightarrow> zsystem \<Rightarrow> bool" where
  "zadmissible readv preadv [] sys = True"
| "zadmissible readv preadv (x # xs) sys = (zallowed x sys \<and> (case zstep readv preadv x sys of
     None \<Rightarrow> True | Some (out, sys1) \<Rightarrow> zadmissible readv preadv xs sys1))"

lemma zrun_ok:
  "zsystem_inv sys \<Longrightarrow> zadmissible readv preadv ops sys \<Longrightarrow> delivers readv preadv
    \<Longrightarrow> \<exists>outs sys'. zrun readv preadv ops sys = Some (outs, sys') \<and> zsystem_inv sys' \<and> zspecs readv preadv ops outs (view sys) (view sys')"
proof (induction ops arbitrary: sys)
  case Nil
  then show ?case by (auto intro: zspecs.nil)
next
  case (Cons x xs)
  then have "step_ok readv preadv x sys" using zstep_ok by simp
  then obtain out sys1 where s: "zstep readv preadv x sys = Some (out, sys1)" "zsystem_inv sys1"
    "zspec readv preadv x out (view sys) (view sys1)" by (auto simp: step_ok_def)
  then have "zadmissible readv preadv xs sys1" using Cons.prems(2) by simp
  from Cons.IH [OF s(2) this Cons.prems(3)] s show ?case by (auto intro: zspecs.cons)
qed

text \<open>(C1) Any number of \<open>ZBuffer\<close>s of one thread, through any allowed sequence of constructions, appends of bytes, of copies and of
  moved buffers, reads from descriptors, pops, peeks and destructions, behave like independent lists of bytes:
  every call returns, no count or block is used up that another buffer needs, and what is returned is
  what the list would return, although the buffers share blocks and references. Allowed are (\<open>zallowed\<close>) calls within the room
  of the reference rings, which excludes a ring that must grow after a pop or beyond 2048 references; of appends of
  fewer than \<open>2 ^ 32\<close> bytes, pops of fewer than \<open>2 ^ 63\<close> and reads of fewer than \<open>2 ^ 64\<close>; of one buffer to another one, not to itself;
  on buffers that were not moved from, apart from their destruction; and of reads while every block of the cache behind
  the full ones at its front has a free byte. The theorems on where the code departs from the contract show what happens outside.\<close>

theorem zbuffers_refine_lists:
  assumes "zsystem_inv sys" "zadmissible readv preadv ops sys" "delivers readv preadv"
  shows "\<exists>outs sys'. zrun readv preadv ops sys = Some (outs, sys') \<and> zsystem_inv sys'
    \<and> zspecs readv preadv ops outs (view sys) (view sys')"
  by (rule zrun_ok [OF assms])

inductive_simps zspec_simps:
  "zspec readv preadv (New i) out m m'" "zspec readv preadv (Append i bytes) out m m'"
  "zspec readv preadv (Append_copy i j) out m m'" "zspec readv preadv (Popn i n) out m m'"
  "zspec readv preadv (Copy_front i n) out m m'" "zspec readv preadv (Size i) out m m'"
  "zspec readv preadv (Destroy i) out m m'"

inductive_simps zspecs_simps:
  "zspecs readv preadv [] outs m m'" "zspecs readv preadv (x # xs) outs m m'"

lemma usable_view: "usable sys i (\<lambda>_. True) = (\<exists>c. view sys i = Some (Some c))"
  by (auto simp: usable_def view_def split: option.splits)

lemma bufs_view: "(bufs sys i = None) = (view sys i = None)"
  by (simp add: view_def)

text \<open>What is allowed later may follow from what the specification says of the steps before.\<close>

lemma zadmissible_cons:
  assumes "zsystem_inv sys" "delivers readv preadv" "zallowed x sys"
    and "\<And>out sys1. zsystem_inv sys1 \<Longrightarrow> zspec readv preadv x out (view sys) (view sys1) \<Longrightarrow> zadmissible readv preadv xs sys1"
  shows "zadmissible readv preadv (x # xs) sys"
  using zstep_ok [OF assms(1,3,2)] assms(3,4) by (auto simp: step_ok_def)

definition two_buffers :: zsystem where
  "two_buffers = \<lparr>bufs = [0 \<mapsto> hello_zbuffer, 1 \<mapsto> ZBuffer], memory = hello_state\<rparr>"

abbreviation no_input :: "nat list \<Rightarrow> char list option" where
  "no_input \<equiv> \<lambda>_. None"

lemma two_buffers_inv: "zsystem_inv two_buffers"
  and two_buffers_view: "view two_buffers = [0 \<mapsto> Some ''hello'', 1 \<mapsto> Some []]"
proof -
  have "owned_by [0 \<mapsto> hello_zbuffer, 1 \<mapsto> ZBuffer] = owned ZBuffer + owned hello_zbuffer"
    using owned_by_upd [of "[0 \<mapsto> hello_zbuffer]" 1 ZBuffer] owned_by_upd [of "\<lambda>_. None" 0 hello_zbuffer] by (simp add: fun_upd_idem)
  then show "zsystem_inv two_buffers"
    using hello_buffer(1) hello_second init_owned(1) by (auto simp: zsystem_inv_def two_buffers_def destroyable_def)
  show "view two_buffers = [0 \<mapsto> Some ''hello'', 1 \<mapsto> Some []]"
    using hello_buffer(1,3) init_owned(1) by (auto simp: view_def two_buffers_def init_content)
qed

lemma delivers_none: "delivers no_input (\<lambda>_. no_input)"
  by (simp add: delivers_def)

lemma demo_zadmissible:
  "zadmissible no_input (\<lambda>_. no_input) [Append_copy 1 0, Popn 0 2, Destroy 0, Copy_front 1 9] two_buffers"
proof (rule zadmissible_cons [OF two_buffers_inv delivers_none])
  show "zallowed (Append_copy 1 0) two_buffers"
    using hello_buffer(1) init_owned(1) by (simp add: usable_def two_buffers_def ZBuffer_def hello_zbuffer_def null_ref_def)
next
  fix out sys1
  assume 1: "zsystem_inv sys1" "zspec no_input (\<lambda>_. no_input) (Append_copy 1 0) out (view two_buffers) (view sys1)"
  then have v1: "view sys1 = [0 \<mapsto> Some ''hello'', 1 \<mapsto> Some ''hello'']"
    by (auto simp: zspec_simps two_buffers_view)
  show "zadmissible no_input (\<lambda>_. no_input) [Popn 0 2, Destroy 0, Copy_front 1 9] sys1"
  proof (rule zadmissible_cons [OF 1(1) delivers_none])
    show "zallowed (Popn 0 2) sys1" by (simp add: usable_view v1)
  next
    fix out sys2
    assume 2: "zsystem_inv sys2" "zspec no_input (\<lambda>_. no_input) (Popn 0 2) out (view sys1) (view sys2)"
    then have v2: "view sys2 = [0 \<mapsto> Some ''llo'', 1 \<mapsto> Some ''hello'']"
      by (auto simp: zspec_simps v1 fun_upd_twist)
    show "zadmissible no_input (\<lambda>_. no_input) [Destroy 0, Copy_front 1 9] sys2"
      by (rule zadmissible_cons [OF 2(1) delivers_none]) (simp_all add: bufs_view v2 usable_view zspec_simps split: option.split)
  qed
qed

lemma zbuffers_refine_lists_witness:
  "\<exists>sys'. zrun no_input (\<lambda>_. no_input) [Append_copy 1 0, Popn 0 2, Destroy 0, Copy_front 1 9] two_buffers
      = Some ([Done, Bytes ''he'', Done, Bytes ''hello''], sys') \<and> zsystem_inv sys' \<and> view sys' = [1 \<mapsto> Some ''hello'']"
  using zbuffers_refine_lists [OF two_buffers_inv demo_zadmissible delivers_none]
  by (auto simp: zspecs_simps zspec_simps two_buffers_view)

end
