(* ===== verification/Shared_Blocks.thy ===== *)
theory Shared_Blocks
  imports Prelude "HOL-Library.Multiset"
begin

text \<open>
  The counted blocks of \<^verbatim>\<open>src/zbuffer.cpp\<close> between threads: references to a block may be copied, handed to another thread and
  released there, while the thread that made the block keeps it in its cache. Every atomic access of a count is a step
  of one thread, and the steps of all threads interleave. What a thread does to the fields of a block after its own decrement
  found the last count is the critical part: nobody else may use the block then.
\<close>

subsection \<open>States\<close>

text \<open>\<open>Dec\<close>: about to decrement the count it owns; \<open>Zero\<close>: its decrement found the last count, so it resets \<open>next\<close> and \<open>offset\<close> and
  calls \<open>release_block\<close>. \<open>Skip\<close> and \<open>Skip_zero\<close> are the same inside \<open>acquire_block\<close>, which then overwrites \<open>head_\<close>.\<close>

datatype block_pc = Idle | Dec nat | Zero nat | Skip nat | Skip_zero nat

text \<open>The count and the allocation of every block are shared; the references of a thread, by block, its cache and its position are its own.\<close>

record blocks_state =
  ref_num :: "nat \<Rightarrow> int"
  allocated :: "nat \<Rightarrow> bool"
  held :: "nat \<Rightarrow> nat multiset"
  cache :: "nat \<Rightarrow> nat list"
  at :: "nat \<Rightarrow> block_pc"

definition no_blocks :: blocks_state where
  "no_blocks = \<lparr>ref_num = (\<lambda>_. 0), allocated = (\<lambda>_. False), held = (\<lambda>_. {#}), cache = (\<lambda>_. []), at = (\<lambda>_. Idle)\<rparr>"

definition inc :: "nat \<Rightarrow> blocks_state \<Rightarrow> blocks_state" where
  "inc b s = s\<lparr>ref_num := (ref_num s)(b := ref_num s b + 1)\<rparr>"

text \<open>\<open>fetch_sub\<close> in \<open>dec_ref\<close>, and where the thread goes from there.\<close>

definition dec :: "nat \<Rightarrow> nat \<Rightarrow> (nat \<Rightarrow> block_pc) \<Rightarrow> blocks_state \<Rightarrow> blocks_state" where
  "dec t b zero s = s\<lparr>ref_num := (ref_num s)(b := ref_num s b - 1),
     at := (at s)(t := if ref_num s b \<le> 1 then zero b else Idle)\<rparr>"

definition hold :: "nat \<Rightarrow> nat \<Rightarrow> blocks_state \<Rightarrow> blocks_state" where
  "hold t b s = s\<lparr>held := (held s)(t := add_mset b (held s t))\<rparr>"

definition give_up :: "nat \<Rightarrow> nat \<Rightarrow> blocks_state \<Rightarrow> blocks_state" where
  "give_up t b s = s\<lparr>held := (held s)(t := held s t - {#b#})\<rparr>"

definition link :: "nat \<Rightarrow> nat \<Rightarrow> blocks_state \<Rightarrow> blocks_state" where
  "link t b s = s\<lparr>cache := (cache s)(t := b # cache s t)\<rparr>"

definition unlink :: "nat \<Rightarrow> blocks_state \<Rightarrow> blocks_state" where
  "unlink t s = s\<lparr>cache := (cache s)(t := tl (cache s t))\<rparr>"

definition goto :: "nat \<Rightarrow> block_pc \<Rightarrow> blocks_state \<Rightarrow> blocks_state" where
  "goto t p s = s\<lparr>at := (at s)(t := p)\<rparr>"

definition new_block :: "nat \<Rightarrow> blocks_state \<Rightarrow> blocks_state" where
  "new_block b s = s\<lparr>allocated := (allocated s)(b := True), ref_num := (ref_num s)(b := 1)\<rparr>"

definition free_it :: "nat \<Rightarrow> blocks_state \<Rightarrow> blocks_state" where
  "free_it b s = s\<lparr>allocated := (allocated s)(b := False)\<rparr>"

subsection \<open>Steps\<close>

text \<open>One step of thread \<open>t\<close>. Whether the counter of cached blocks lets \<open>release_block\<close> keep a block is left open: both steps are
  possible.\<close>

inductive block_step :: "nat \<Rightarrow> nat \<Rightarrow> blocks_state \<Rightarrow> blocks_state \<Rightarrow> bool" for n t where
  create: "at s t = Idle \<Longrightarrow> \<not> allocated s b \<Longrightarrow> block_step n t s (link t b (new_block b s))"
| append: "at s t = Idle \<Longrightarrow> b \<in> set (cache s t) \<Longrightarrow> block_step n t s (hold t b (inc b s))"
| lend: "at s t = Idle \<Longrightarrow> cache s t = b # bs \<Longrightarrow> block_step n t s (hold t b (unlink t s))"
| give_back: "at s t = Idle \<Longrightarrow> b \<in># held s t \<Longrightarrow> block_step n t s (link t b (inc b s))"
| copy: "at s t = Idle \<Longrightarrow> b \<in># held s t \<Longrightarrow> block_step n t s (hold t b (inc b s))"
| send: "at s t = Idle \<Longrightarrow> b \<in># held s t \<Longrightarrow> u < n \<Longrightarrow> u \<noteq> t \<Longrightarrow> block_step n t s (hold u b (give_up t b s))"
| drop: "at s t = Idle \<Longrightarrow> b \<in># held s t \<Longrightarrow> block_step n t s (goto t (Dec b) (give_up t b s))"
| pop: "at s t = Idle \<Longrightarrow> cache s t = b # bs \<Longrightarrow> block_step n t s (goto t (Dec b) (unlink t s))"
| skip: "at s t = Idle \<Longrightarrow> cache s t = b # bs \<Longrightarrow> block_step n t s (goto t (Skip b) (unlink t s))"
| dec: "at s t = Dec b \<Longrightarrow> block_step n t s (dec t b Zero s)"
| dec_skip: "at s t = Skip b \<Longrightarrow> block_step n t s (dec t b Skip_zero s)"
| recycle: "at s t = Zero b \<Longrightarrow> block_step n t s (goto t Idle (link t b (inc b s)))"
| lose: "at s t = Skip_zero b \<Longrightarrow> block_step n t s (goto t Idle (inc b s))"
| free: "at s t \<in> {Zero b, Skip_zero b} \<Longrightarrow> block_step n t s (goto t Idle (free_it b s))"

inductive blocks_reach :: "nat \<Rightarrow> blocks_state \<Rightarrow> bool" for n where
  start: "blocks_reach n no_blocks"
| step: "blocks_reach n s \<Longrightarrow> t < n \<Longrightarrow> block_step n t s s' \<Longrightarrow> blocks_reach n s'"

subsection \<open>The invariant\<close>

text \<open>The counts that thread \<open>t\<close> owns: its references, its cache, and the one it is about to give up.\<close>

definition share :: "blocks_state \<Rightarrow> nat \<Rightarrow> nat \<Rightarrow> nat" where
  "share s t b = count (held s t) b + count (mset (cache s t)) b + (if at s t = Dec b \<or> at s t = Skip b then 1 else 0)"

definition resets :: "blocks_state \<Rightarrow> nat \<Rightarrow> nat \<Rightarrow> bool" where
  "resets s t b = (at s t = Zero b \<or> at s t = Skip_zero b)"

definition shares :: "nat \<Rightarrow> blocks_state \<Rightarrow> nat \<Rightarrow> nat" where
  "shares n s b = (\<Sum>t < n. share s t b)"

definition block_inv :: "nat \<Rightarrow> blocks_state \<Rightarrow> nat \<Rightarrow> bool" where
  "block_inv n s b = (if allocated s b
     then int (shares n s b) \<le> ref_num s b \<and> (\<forall>t < n. resets s t b \<longrightarrow> ref_num s b \<le> 0 \<and> (\<forall>u < n. resets s u b \<longrightarrow> u = t))
     else shares n s b = 0 \<and> (\<forall>t < n. \<not> resets s t b))"

text \<open>A step of one thread changes the sum by what it changes of that thread.\<close>

lemma shares_change:
  assumes "t < n" "\<And>u. u < n \<Longrightarrow> u \<noteq> t \<Longrightarrow> share s' u b = share s u b"
  shows "shares n s' b + share s t b = shares n s b + share s' t b"
proof -
  have "shares n s b = share s t b + (\<Sum>u \<in> {..<n} - {t}. share s u b)" for s
    unfolding shares_def using assms(1) by (intro sum.remove) auto
  moreover have "(\<Sum>u \<in> {..<n} - {t}. share s' u b) = (\<Sum>u \<in> {..<n} - {t}. share s u b)"
    using assms(2) by (intro sum.cong) auto
  ultimately show ?thesis by simp
qed

lemma share_le: "t < n \<Longrightarrow> share s t b \<le> shares n s b"
  unfolding shares_def by (rule member_le_sum) auto

lemmas step_defs = inc_def dec_def hold_def give_up_def link_def unlink_def goto_def new_block_def free_it_def

text \<open>The effect of a step on one block, seen from outside.\<close>

definition moved_share :: "nat \<Rightarrow> blocks_state \<Rightarrow> blocks_state \<Rightarrow> nat \<Rightarrow> bool" where
  "moved_share n s s' b = (allocated s' b = allocated s b \<and> ref_num s' b = ref_num s b
     \<and> shares n s' b = shares n s b \<and> (\<forall>t < n. resets s' t b = resets s t b))"

lemma moved_share_inv: "moved_share n s s' b \<Longrightarrow> block_inv n s b \<Longrightarrow> block_inv n s' b"
  unfolding moved_share_def block_inv_def by auto

lemma user_facts:
  assumes "block_inv n s b" "t < n" "0 < share s t b"
  shows "allocated s b" "int (shares n s b) \<le> ref_num s b" "1 \<le> ref_num s b" "u < n \<Longrightarrow> \<not> resets s u b"
proof -
  have pos: "0 < shares n s b" using share_le [OF assms(2), of s b] assms(3) by simp
  then show a: "allocated s b" and c: "int (shares n s b) \<le> ref_num s b" using assms(1) by (auto simp: block_inv_def split: if_splits)
  then show one: "1 \<le> ref_num s b" using pos by simp
  show "\<not> resets s u b" if "u < n" using assms(1) a one that by (auto simp: block_inv_def)
qed

lemma resetter_facts:
  assumes "block_inv n s b" "t < n" "resets s t b"
  shows "allocated s b" "shares n s b = 0" "ref_num s b = 0" "u < n \<Longrightarrow> resets s u b \<Longrightarrow> u = t"
  using assms by (auto simp: block_inv_def split: if_splits)

lemma usedI: "allocated s b \<Longrightarrow> int (shares n s b) \<le> ref_num s b \<Longrightarrow> (\<And>u. u < n \<Longrightarrow> \<not> resets s u b) \<Longrightarrow> block_inv n s b"
  by (simp add: block_inv_def)

lemma share_unallocated: "block_inv n s b \<Longrightarrow> t < n \<Longrightarrow> \<not> allocated s b \<Longrightarrow> share s t b = 0 \<and> \<not> resets s t b"
  using share_le [of t n s b] by (simp add: block_inv_def)

text \<open>A count that its owner only moves: nothing changes for the others.\<close>

lemma moved_same:
  assumes "t < n" "allocated s' b = allocated s b" "ref_num s' b = ref_num s b" "share s' t b = share s t b"
    "\<And>u. u \<noteq> t \<Longrightarrow> share s' u b = share s u b" "\<And>u. resets s' u b = resets s u b"
  shows "moved_share n s s' b"
  using shares_change [of t n s' b s] assms by (simp add: moved_share_def)

text \<open>One more count for one more owner.\<close>

lemma inc_inv:
  assumes "block_inv n s b" "t < n" "0 < share s t b" "allocated s' b = allocated s b" "ref_num s' b = ref_num s b + 1"
    "share s' t b = share s t b + 1" "\<And>u. u \<noteq> t \<Longrightarrow> share s' u b = share s u b" "\<And>u. resets s' u b = resets s u b"
  shows "block_inv n s' b"
  using user_facts [OF assms(1-3)] shares_change [of t n s' b s] assms by (intro usedI) simp_all

lemma dec_inv:
  assumes inv: "block_inv n s b" and t: "t < n" and at: "at s t = Dec b \<and> zero = Zero \<or> at s t = Skip b \<and> zero = Skip_zero"
  shows "block_inv n (dec t b zero s) b"
proof -
  let ?s = "dec t b zero s"
  have pos: "0 < share s t b" using at by (auto simp: share_def)
  note user = user_facts [OF inv t pos]
  have "shares n ?s b + share s t b = shares n s b + share ?s t b"
    by (rule shares_change [OF t]) (auto simp: share_def dec_def)
  moreover have "share ?s t b + 1 = share s t b" using at by (auto simp: share_def dec_def)
  ultimately have sh: "shares n ?s b + 1 = shares n s b" by linarith
  have others: "\<not> resets ?s u b" if "u < n" "u \<noteq> t" for u using user(4) [OF that(1)] that(2) by (simp add: resets_def dec_def)
  have "ref_num ?s b = ref_num s b - 1" "allocated ?s b" using user(1) by (simp_all add: dec_def)
  moreover have "resets ?s t b \<longrightarrow> ref_num ?s b \<le> 0" by (auto simp: resets_def dec_def)
  ultimately show ?thesis using sh user(2) others unfolding block_inv_def by auto
qed

lemma reset_done_inv:
  assumes inv: "block_inv n s b" and t: "t < n" and at: "resets s t b" and s': "at s' t = Idle"
    "\<And>u. u \<noteq> t \<Longrightarrow> share s' u b = share s u b \<and> resets s' u b = resets s u b"
    "if allocated s' b then int (share s' t b) \<le> ref_num s' b else share s' t b = 0"
  shows "block_inv n s' b"
proof -
  note reset = resetter_facts [OF inv t at]
  have none: "\<not> resets s' u b" if "u < n" for u
    using reset(4) [OF that] s'(1,2) by (cases "u = t") (auto simp: resets_def)
  have "share s t b = 0" using share_le [OF t, of s b] reset(2) by simp
  then have "shares n s' b = share s' t b" using shares_change [OF t, of s' b s] s'(2) reset(2) by simp
  then show ?thesis using s'(3) none by (simp add: block_inv_def)
qed

lemma send_inv:
  assumes inv: "block_inv n s c" and t: "t < n" "u < n" "u \<noteq> t" and b: "b \<in># held s t"
  shows "block_inv n (hold u b (give_up t b s)) c"
proof -
  let ?s1 = "give_up t b s" and ?s2 = "hold u b (give_up t b s)"
  have "shares n ?s1 c + share s t c = shares n s c + share ?s1 t c"
    by (rule shares_change [OF t(1)]) (simp add: share_def give_up_def)
  moreover have "shares n ?s2 c + share ?s1 u c = shares n ?s1 c + share ?s2 u c"
    by (rule shares_change [OF t(2)]) (simp add: share_def hold_def)
  moreover have "share s t c = share ?s1 t c + (if c = b then 1 else 0)" "share ?s2 u c = share ?s1 u c + (if c = b then 1 else 0)"
    using b t(3) by (auto simp: share_def give_up_def hold_def)
  ultimately have "shares n ?s2 c = shares n s c" by linarith
  then have "moved_share n s ?s2 c" by (simp add: moved_share_def hold_def give_up_def resets_def)
  then show ?thesis using inv by (rule moved_share_inv)
qed

lemma step_inv:
  assumes inv: "\<forall>c. block_inv n s c" and t: "t < n" and step: "block_step n t s s'"
  shows "block_inv n s' c"
proof -
  have inv: "block_inv n s b" for b using inv by simp
  have same: "block_inv n s' b" if "moved_share n s s' b" for s' b using moved_share_inv that inv by blast
  show ?thesis
    using step
  proof cases
    case (create b)
    have z: "share s t b = 0" "shares n s b = 0" "\<And>u. u < n \<Longrightarrow> \<not> resets s u b"
      using share_unallocated [OF inv t create(3)] inv [of b] create(3) by (auto simp: block_inv_def)
    show ?thesis
    proof (cases "c = b")
      case True
      have "shares n s' b + share s t b = shares n s b + share s' t b"
        by (rule shares_change [OF t]) (simp add: create(1) share_def step_defs)
      moreover have "share s' t b = share s t b + 1" by (simp add: create(1) share_def step_defs)
      moreover have "\<not> resets s' u b" if "u < n" for u using z(3) [OF that] by (simp add: create(1) resets_def step_defs)
      ultimately show ?thesis using z True by (intro usedI) (simp_all add: create(1) step_defs)
    next
      case False
      then show ?thesis by (intro same moved_same [OF t]) (simp_all add: create(1) share_def resets_def step_defs)
    qed
  next
    case (append b)
    have "0 < share s t b" using append(3) by (auto simp: share_def count_greater_zero_iff)
    then have "block_inv n s' b" by (rule inc_inv [OF inv t]) (simp_all add: append(1) share_def resets_def step_defs)
    then show ?thesis by (cases "c = b") (auto simp: append(1) share_def resets_def step_defs split: if_splits intro!: same moved_same [OF t])
  next
    case (lend b bs)
    then show ?thesis by (intro same moved_same [OF t]) (auto simp: share_def resets_def step_defs split: if_splits)
  next
    case (give_back b)
    have "0 < share s t b" using give_back(3) by (auto simp: share_def)
    then have "block_inv n s' b" by (rule inc_inv [OF inv t]) (simp_all add: give_back(1) share_def resets_def step_defs)
    then show ?thesis by (cases "c = b") (auto simp: give_back(1) share_def resets_def step_defs split: if_splits intro!: same moved_same [OF t])
  next
    case (copy b)
    have "0 < share s t b" using copy(3) by (auto simp: share_def)
    then have "block_inv n s' b" by (rule inc_inv [OF inv t]) (simp_all add: copy(1) share_def resets_def step_defs)
    then show ?thesis by (cases "c = b") (auto simp: copy(1) share_def resets_def step_defs split: if_splits intro!: same moved_same [OF t])
  next
    case (send b u)
    then show ?thesis using send_inv [OF inv t] by simp
  next
    case (drop b)
    then show ?thesis by (intro same moved_same [OF t]) (auto simp: share_def resets_def step_defs split: if_splits)
  next
    case (pop b bs)
    then show ?thesis by (intro same moved_same [OF t]) (auto simp: share_def resets_def step_defs split: if_splits)
  next
    case (skip b bs)
    then show ?thesis by (intro same moved_same [OF t]) (auto simp: share_def resets_def step_defs split: if_splits)
  next
    case (dec b)
    then have "block_inv n s' b" using dec_inv [OF inv t] by simp
    then show ?thesis using dec by (cases "c = b") (auto simp: share_def resets_def step_defs split: if_splits intro!: same moved_same [OF t])
  next
    case (dec_skip b)
    then have "block_inv n s' b" using dec_inv [OF inv t] by simp
    then show ?thesis using dec_skip by (cases "c = b") (auto simp: share_def resets_def step_defs split: if_splits intro!: same moved_same [OF t])
  next
    case (recycle b)
    then have at: "resets s t b" by (simp add: resets_def)
    have "share s t b = 0" using resetter_facts(2) [OF inv t at] share_le [OF t, of s b] by simp
    then have "block_inv n s' b" using resetter_facts(1,3) [OF inv t at]
      by (intro reset_done_inv [OF inv t at]) (auto simp: recycle share_def resets_def step_defs simp del: count_mset_0_iff)
    then show ?thesis by (cases "c = b") (auto simp: recycle share_def resets_def step_defs split: if_splits intro!: same moved_same [OF t])
  next
    case (lose b)
    then have at: "resets s t b" by (simp add: resets_def)
    have "share s t b = 0" using resetter_facts(2) [OF inv t at] share_le [OF t, of s b] by simp
    then have "block_inv n s' b" using resetter_facts(1,3) [OF inv t at]
      by (intro reset_done_inv [OF inv t at]) (auto simp: lose share_def resets_def step_defs simp del: count_mset_0_iff)
    then show ?thesis by (cases "c = b") (auto simp: lose share_def resets_def step_defs split: if_splits intro!: same moved_same [OF t])
  next
    case (free b)
    then have at: "resets s t b" by (auto simp: resets_def)
    have "share s t b = 0" using resetter_facts(2) [OF inv t at] share_le [OF t, of s b] by simp
    then have "block_inv n s' b"
      using at by (intro reset_done_inv [OF inv t at]) (auto simp: free share_def resets_def step_defs)
    then show ?thesis using at by (cases "c = b") (auto simp: free share_def resets_def step_defs split: if_splits intro!: same moved_same [OF t])
  qed
qed

lemma reach_block_inv: "blocks_reach n s \<Longrightarrow> block_inv n s c"
proof (induction arbitrary: c rule: blocks_reach.induct)
  case start
  then show ?case by (simp add: block_inv_def no_blocks_def shares_def share_def resets_def)
next
  case (step s t s')
  then show ?case using step_inv by blast
qed

subsection \<open>What sharing is safe from\<close>

text \<open>(C5) Blocks between threads, in every interleaving of the atomic accesses: a block that some thread has a reference to, or in its
  cache, or a count of still to give up, is allocated and its count is positive, so nothing that is in use is freed and no count
  is taken from a freed block; and while a thread resets a block whose last count it took away, no thread uses the
  block and no other thread resets it, so a block is freed or put into one cache, once.\<close>

theorem shared_blocks_safe:
  assumes "blocks_reach n s" "t < n"
  shows "(0 < share s t b \<longrightarrow> allocated s b \<and> 1 \<le> ref_num s b)
    \<and> (resets s t b \<longrightarrow> allocated s b \<and> ref_num s b = 0 \<and> (\<forall>u < n. share s u b = 0 \<and> (resets s u b \<longrightarrow> u = t)))"
proof -
  have inv: "block_inv n s b" by (rule reach_block_inv [OF assms(1)])
  have "share s u b = 0" if "resets s t b" "u < n" for u
    using resetter_facts(2) [OF inv assms(2) that(1)] share_le [OF that(2), of s b] by simp
  then show ?thesis using user_facts [OF inv assms(2)] resetter_facts [OF inv assms(2)] by blast
qed

lemma shared_blocks_safe_witness:
  "\<exists>s. blocks_reach 2 s \<and> resets s 1 16 \<and> ref_num s 16 = 0 \<and> share s 0 16 = 0"
proof -
  let ?s1 = "link 0 16 (new_block 16 no_blocks)"
  let ?s2 = "hold 0 16 (unlink 0 ?s1)"
  let ?s3 = "hold 1 16 (give_up 0 16 ?s2)"
  let ?s4 = "goto 1 (Dec 16) (give_up 1 16 ?s3)"
  let ?s5 = "dec 1 16 Zero ?s4"
  have 1: "blocks_reach 2 ?s1" by (rule blocks_reach.step [OF blocks_reach.start, of 0], simp, rule block_step.create) (simp_all add: no_blocks_def)
  have 2: "blocks_reach 2 ?s2"
    by (rule blocks_reach.step [OF 1, of 0], simp, rule block_step.lend [of _ _ _ "[]"]) (simp_all add: no_blocks_def step_defs)
  have 3: "blocks_reach 2 ?s3"
    by (rule blocks_reach.step [OF 2, of 0], simp, rule block_step.send) (simp_all add: no_blocks_def step_defs)
  have 4: "blocks_reach 2 ?s4"
    by (rule blocks_reach.step [OF 3, of 1], simp, rule block_step.drop) (simp_all add: no_blocks_def step_defs)
  have 5: "blocks_reach 2 ?s5"
    by (rule blocks_reach.step [OF 4, of 1], simp, rule block_step.dec) (simp_all add: no_blocks_def step_defs)
  have "resets ?s5 1 16" by (simp add: resets_def no_blocks_def step_defs)
  then show ?thesis using 5 shared_blocks_safe [OF 5, of 1 16] by fastforce
qed

end
