(* ===== verification/Convert.thy ===== *)
theory Convert
  imports Prelude "HOL-Library.Signed_Division"
begin

text \<open>
  The integer to text conversions of \<^verbatim>\<open>utils.h\<close> and \<^verbatim>\<open>src/utils.cpp\<close>. Each writes the
  digits with the least significant first, reverses them in place and returns their number;
  the model returns that number and the bytes written at \<open>buf\<close>, the terminator included.
  Division and remainder of \<open>ConvertInteger\<close> truncate, as in C++, so the remainder of a
  negative value is negative and indexes the digit table below its middle.
\<close>

subsection \<open>The conversions\<close>

definition kMaxNumericSize :: nat where
  "kMaxNumericSize = 24"

definition s_digits :: string where
  "s_digits = ''9876543210123456789''"

definition s_digitsHEX :: string where
  "s_digitsHEX = ''0123456789ABCDEFGHIGK''"

definition s_digitsHex :: string where
  "s_digitsHex = ''0123456789abcdef''"

definition s_zero :: "int \<Rightarrow> char" where
  "s_zero lsd = s_digits ! nat (9 + lsd)"

function integer_loop :: "int \<Rightarrow> string" where
  "integer_loop i = (let lsd = i smod 10; i' = i sdiv 10
     in s_zero lsd # (if i' \<noteq> 0 then integer_loop i' else []))"
  by pat_completeness auto
termination
  by (relation "measure (\<lambda>i. nat \<bar>i\<bar>)") (auto simp: signed_divide_int_def sgn_if)

declare integer_loop.simps [simp del]

definition ConvertInteger :: "int \<Rightarrow> nat \<times> char list" where
  "ConvertInteger value = (let p = integer_loop value @ (if value < 0 then ''-'' else [])
     in (length p, rev p @ [CHR 0x00]))"

function radix_loop :: "nat \<Rightarrow> string \<Rightarrow> nat \<Rightarrow> string" where
  "radix_loop b tbl v = (let lsd = v mod b; v' = v div b
     in tbl ! lsd # (if v' \<noteq> 0 \<and> 1 < b then radix_loop b tbl v' else []))"
  by pat_completeness auto
termination
proof (relation "measure (\<lambda>(b, tbl, v). v)", goal_cases)
  case (2 b tbl v lsd v')
  then have "0 < v" by (intro Nat.gr0I) simp
  with 2 show ?case by simp
qed simp

declare radix_loop.simps [simp del]

definition ConvertHexInteger :: "int \<Rightarrow> nat \<times> char list" where
  "ConvertHexInteger value = (let p = radix_loop 16 s_digitsHEX (nat (value mod 2 ^ 64)) @ ''x0''
     in (length p, rev p @ [CHR 0x00]))"

definition ConvertPointer :: "nat \<Rightarrow> nat \<times> char list" where
  "ConvertPointer value = (let p = radix_loop 16 s_digitsHex (u64 value)
     in (length p, rev p @ [CHR 0x00]))"

subsection \<open>Reading a numeral back\<close>

definition digit_of :: "string \<Rightarrow> char \<Rightarrow> nat" where
  "digit_of tbl c = length (takeWhile (\<lambda>d. d \<noteq> c) tbl)"

definition read_radix :: "nat \<Rightarrow> string \<Rightarrow> string \<Rightarrow> nat" where
  "read_radix b tbl cs = foldl (\<lambda>v c. v * b + digit_of tbl c) 0 cs"

definition read_integer :: "string \<Rightarrow> int" where
  "read_integer cs = (if take 1 cs = ''-'' then - int (read_radix 10 (drop 9 s_digits) (drop 1 cs))
     else int (read_radix 10 (drop 9 s_digits) cs))"

text \<open>The formats \<^verbatim>\<open>%u\<close> and \<^verbatim>\<open>%0\<close>\<open>w\<close>\<^verbatim>\<open>u\<close> of \<^verbatim>\<open>printf\<close>.\<close>

definition decimal :: string where
  "decimal = drop 9 s_digits"

definition print_u :: "nat \<Rightarrow> string" where
  "print_u n = rev (radix_loop 10 decimal n)"

definition zero_pad :: "nat \<Rightarrow> nat \<Rightarrow> string" where
  "zero_pad w n = replicate (w - length (print_u n)) (CHR ''0'') @ print_u n"

text \<open>A digit table for a base: the first \<open>b\<close> characters are told apart.\<close>

locale radix =
  fixes b :: nat and tbl :: string
  assumes base: "2 \<le> b" and table: "i < b \<Longrightarrow> digit_of tbl (tbl ! i) = i"
begin

lemma radix_loop_step:
  "radix_loop b tbl v = tbl ! (v mod b) # (if v div b = 0 then [] else radix_loop b tbl (v div b))"
  using base by (subst radix_loop.simps) (auto simp: Let_def)

lemma radix_induct: "(\<And>v. (v div b \<noteq> 0 \<Longrightarrow> P (v div b)) \<Longrightarrow> P v) \<Longrightarrow> P v"
proof (induction v rule: less_induct)
  case (less v)
  show ?case
  proof (rule less.prems)
    assume "v div b \<noteq> 0"
    then have "v div b < v" using base by (intro div_less_dividend) (auto intro: Nat.gr0I)
    then show "P (v div b)" using less by blast
  qed
qed

lemma read_back: "read_radix b tbl (rev (radix_loop b tbl v)) = v"
proof (induction v rule: radix_induct)
  case (1 v)
  have d: "digit_of tbl (tbl ! (v mod b)) = v mod b" using table base by simp
  have "read_radix b tbl (rev (radix_loop b tbl v)) = (v div b) * b + v mod b"
    using 1 d by (subst radix_loop_step) (auto simp: read_radix_def div_eq_0_iff)
  then show ?case by simp
qed

lemma length_bound: "v < b ^ k \<Longrightarrow> 0 < k \<Longrightarrow> length (radix_loop b tbl v) \<le> k"
proof (induction k arbitrary: v)
  case (Suc k)
  show ?case
  proof (cases "v div b = 0")
    case False
    then have "0 < k" using Suc.prems(1) base by (intro Nat.gr0I) auto
    moreover have "v div b < b ^ k" using Suc.prems(1) by (simp add: less_mult_imp_div_less mult.commute)
    ultimately show ?thesis using Suc.IH False by (subst radix_loop_step) simp
  qed (subst radix_loop_step, simp)
qed simp

lemma digits_nonempty [simp]: "radix_loop b tbl v \<noteq> []"
  by (subst radix_loop_step) simp

lemma no_leading_zero: "v \<noteq> 0 \<Longrightarrow> last (radix_loop b tbl v) \<noteq> tbl ! 0"
proof (induction v rule: radix_induct)
  case (1 v)
  show ?case
  proof (cases "v div b = 0")
    case True
    then have "v mod b = v" "v < b" using base by (auto simp: div_eq_0_iff)
    then have "tbl ! v \<noteq> tbl ! 0" using table [of v] table [of 0] 1(2) base by auto
    then show ?thesis using True \<open>v mod b = v\<close> by (subst radix_loop_step) simp
  next
    case False
    then show ?thesis using 1(1) by (subst radix_loop_step) simp
  qed
qed

lemma digits_in_table: "set (radix_loop b tbl v) \<subseteq> (!) tbl ` {..<b}"
proof (induction v rule: radix_induct)
  case (1 v)
  then show ?case using base by (subst radix_loop_step) auto
qed

end

interpretation dec: radix 10 "drop 9 s_digits"
proof
  have "list_all (\<lambda>i. digit_of (drop 9 s_digits) (drop 9 s_digits ! i) = i) [0..<10]" by code_simp
  then show "digit_of (drop 9 s_digits) (drop 9 s_digits ! i) = i" if "i < 10" for i using that by (auto simp: list_all_iff)
qed simp

lemma print_u_step: "print_u n = (if n div 10 = 0 then [] else print_u (n div 10)) @ [decimal ! (n mod 10)]"
  unfolding print_u_def decimal_def by (subst dec.radix_loop_step) simp

lemma zero_pad_step:
  assumes "0 < w"
  shows "zero_pad (Suc w) n = zero_pad w (n div 10) @ [decimal ! (n mod 10)]"
proof (cases "n div 10 = 0")
  case True
  obtain k where w: "w = Suc k" using assms by (cases w) auto
  have "print_u 0 = ''0''" by (subst print_u_step) (simp add: decimal_def s_digits_def)
  then show ?thesis using True print_u_step [of n] by (simp add: zero_pad_def w replicate_append_same)
next
  case False
  then show ?thesis using print_u_step [of n] by (simp add: zero_pad_def)
qed

lemma zero_pad_1: "n < 10 \<Longrightarrow> zero_pad (Suc 0) n = [decimal ! n]"
  using print_u_step [of n] by (simp add: zero_pad_def)

lemma length_zero_pad: "n < 10 ^ w \<Longrightarrow> 0 < w \<Longrightarrow> length (zero_pad w n) = w"
  using dec.length_bound [of n w] by (simp add: zero_pad_def print_u_def decimal_def)

lemma decimal_char: "d < 10 \<Longrightarrow> decimal ! d = char_of (d + 48)"
proof -
  assume "d < 10"
  then have "d \<in> {0, 1, 2, 3, 4, 5, 6, 7, 8, 9}" unfolding insert_iff empty_iff by presburger
  then show ?thesis unfolding insert_iff empty_iff by (elim disjE FalseE; hypsubst; code_simp)
qed

interpretation hex: radix 16 s_digitsHEX
proof
  have "list_all (\<lambda>i. digit_of s_digitsHEX (s_digitsHEX ! i) = i) [0..<16]" by code_simp
  then show "digit_of s_digitsHEX (s_digitsHEX ! i) = i" if "i < 16" for i using that by (auto simp: list_all_iff)
qed simp

interpretation ptr: radix 16 s_digitsHex
proof
  have "list_all (\<lambda>i. digit_of s_digitsHex (s_digitsHex ! i) = i) [0..<16]" by code_simp
  then show "digit_of s_digitsHex (s_digitsHex ! i) = i" if "i < 16" for i using that by (auto simp: list_all_iff)
qed simp

subsection \<open>Negative values\<close>

lemma s_zero_abs:
  assumes "\<bar>d\<bar> < 10"
  shows "s_zero d = drop 9 s_digits ! nat \<bar>d\<bar>"
proof -
  have "d \<in> {-9, -8, -7, -6, -5, -4, -3, -2, -1, 0, 1, 2, 3, 4, 5, 6, 7, 8, 9}"
    using assms unfolding insert_iff empty_iff by presburger
  then show ?thesis by (auto simp: s_zero_def s_digits_def)
qed

lemma abs_sdiv: "nat \<bar>i sdiv 10\<bar> = nat \<bar>i\<bar> div 10" for i :: int
  by (simp add: signed_divide_int_def abs_mult sgn_if nat_div_distrib)

lemma abs_smod: "nat \<bar>i smod 10\<bar> = nat \<bar>i\<bar> mod 10" for i :: int
proof -
  have "i smod 10 = sgn i * (\<bar>i\<bar> mod 10)"
    by (simp add: signed_modulo_int_def signed_divide_int_def sgn_if minus_mult_div_eq_mod)
  then have "\<bar>i smod 10\<bar> = \<bar>i\<bar> mod 10" by (simp add: abs_mult sgn_if)
  then show ?thesis by (simp add: nat_mod_distrib)
qed

lemma integer_loop_radix: "integer_loop i = radix_loop 10 (drop 9 s_digits) (nat \<bar>i\<bar>)"
proof (induction i rule: integer_loop.induct)
  case (1 i)
  have "\<bar>i smod 10\<bar> < 10" using abs_smod [of i] by linarith
  then have d: "s_zero (i smod 10) = drop 9 s_digits ! (nat \<bar>i\<bar> mod 10)"
    by (simp add: s_zero_abs abs_smod)
  have z: "(i sdiv 10 = 0) = (nat \<bar>i\<bar> div 10 = 0)" using abs_sdiv [of i] by auto
  show ?case
    using 1 d z abs_sdiv [of i] by (subst integer_loop.simps, subst dec.radix_loop_step) (auto simp: Let_def)
qed

text \<open>How many bytes a conversion writes, for the clients that check their room first.\<close>

lemma ConvertInteger_fits:
  assumes "- (2 ^ 63) \<le> value" "value < 2 ^ 64"
  shows "\<exists>str. ConvertInteger value = (length str, str @ [CHR 0x00]) \<and> length str \<le> 21"
proof -
  have "nat \<bar>value\<bar> < 10 ^ 20" using assms by auto
  then have "length (radix_loop 10 (drop 9 s_digits) (nat \<bar>value\<bar>)) \<le> 20" by (rule dec.length_bound) simp
  then show ?thesis by (auto simp: ConvertInteger_def integer_loop_radix abs_if Let_def split: if_splits)
qed

lemma ConvertHexInteger_fits: "\<exists>str. ConvertHexInteger value = (length str, str @ [CHR 0x00]) \<and> length str \<le> 18"
proof -
  have "nat (value mod 2 ^ 64) < 16 ^ 16" by (simp add: nat_less_iff)
  then have "length (radix_loop 16 s_digitsHEX (nat (value mod 2 ^ 64))) \<le> 16" by (rule hex.length_bound) simp
  then show ?thesis by (simp add: ConvertHexInteger_def)
qed

lemma ConvertPointer_fits:
  assumes "p < 16 ^ k" "0 < k" "k \<le> 16"
  shows "\<exists>str. ConvertPointer p = (length str, str @ [CHR 0x00]) \<and> length str \<le> k"
proof -
  have "(16 :: nat) ^ k \<le> 16 ^ 16" using assms(3) by (intro power_increasing) simp_all
  then have "u64 p = p" using assms(1) by (simp add: u64_def)
  then have "length (radix_loop 16 s_digitsHex (u64 p)) \<le> k" using ptr.length_bound assms by simp
  then show ?thesis by (simp add: ConvertPointer_def Let_def)
qed

subsection \<open>Properties\<close>

text \<open>(C36) \<open>ConvertInteger\<close> on any value of a type of up to 64 bits, signed or unsigned, the
  smallest ones included: the text reads back as the value, its length is returned, it has no
  leading zero, it is terminated, and with its terminator it fits in \<open>kMaxNumericSize\<close> bytes.\<close>

theorem ConvertInteger_roundtrip:
  assumes "- (2 ^ 63) \<le> value" "value < 2 ^ 64"
  shows "\<exists>str. ConvertInteger value = (length str, str @ [CHR 0x00]) \<and> read_integer str = value
    \<and> length str < kMaxNumericSize \<and> (hd str = CHR ''0'' \<longrightarrow> str = ''0'')"
proof -
  let ?ds = "radix_loop 10 (drop 9 s_digits) (nat \<bar>value\<bar>)"
  let ?str = "(if value < 0 then ''-'' else []) @ rev ?ds"
  have run: "ConvertInteger value = (length ?str, ?str @ [CHR 0x00])"
    by (simp add: ConvertInteger_def integer_loop_radix)
  have "nat \<bar>value\<bar> < 10 ^ 20" using assms by auto
  then have len: "length ?ds \<le> 20" by (rule dec.length_bound) simp
  have rb: "read_radix 10 (drop 9 s_digits) (rev ?ds) = nat \<bar>value\<bar>" by (rule dec.read_back)
  have "(!) (drop 9 s_digits) ` {..<10} \<subseteq> set (drop 9 s_digits)"
    by (intro image_subsetI nth_mem) (simp add: s_digits_def)
  then have "set ?ds \<subseteq> set (drop 9 s_digits)" using dec.digits_in_table by blast
  moreover have "CHR ''-'' \<notin> set (drop 9 s_digits)" by (simp add: s_digits_def)
  moreover have "hd (rev ?ds) \<in> set ?ds" by (metis dec.digits_nonempty hd_in_set rev_is_Nil_conv set_rev)
  ultimately have ne: "hd (rev ?ds) \<noteq> CHR ''-''" by (metis subsetD)
  have "rev ?ds \<noteq> []" by simp
  with ne rb have "read_integer ?str = value"
    by (cases "rev ?ds") (auto simp: read_integer_def)
  moreover have "?str = ''0''" if h: "hd ?str = CHR ''0''"
  proof -
    have pos: "0 \<le> value" using h by (auto split: if_splits)
    then have "last ?ds = CHR ''0''" using h by (simp add: hd_rev)
    then have "nat \<bar>value\<bar> = 0"
      using dec.no_leading_zero [of "nat \<bar>value\<bar>"] by (auto simp: s_digits_def)
    then show ?thesis using pos by (simp add: radix_loop.simps s_digits_def)
  qed
  ultimately show ?thesis using run len by (auto simp: kMaxNumericSize_def)
qed

theorem ConvertInteger_roundtrip_witness:
  "\<exists>str. ConvertInteger (- 9223372036854775808) = (length str, str @ [CHR 0x00])
    \<and> read_integer str = - 9223372036854775808 \<and> length str < kMaxNumericSize
    \<and> (hd str = CHR ''0'' \<longrightarrow> str = ''0'')"
  by (rule ConvertInteger_roundtrip) simp_all

text \<open>\<open>ConvertHexInteger\<close> and \<open>ConvertPointer\<close>: behind the prefix \<open>0x\<close>, respectively
  without one, the digits read back as the value converted to 64 bits, and the text with its
  terminator fits in \<open>kMaxNumericSize\<close> bytes.\<close>

theorem ConvertHex_roundtrip:
  "(\<exists>ds. ConvertHexInteger value = (2 + length ds, ''0x'' @ ds @ [CHR 0x00])
      \<and> int (read_radix 16 s_digitsHEX ds) = value mod 2 ^ 64 \<and> 2 + length ds < kMaxNumericSize)
   \<and> (\<exists>ds. ConvertPointer p = (length ds, ds @ [CHR 0x00])
      \<and> read_radix 16 s_digitsHex ds = p mod 2 ^ 64 \<and> length ds < kMaxNumericSize)"
proof -
  let ?v = "nat (value mod 2 ^ 64)"
  have "?v < 16 ^ 16" by (simp add: nat_less_iff)
  then have "length (radix_loop 16 s_digitsHEX ?v) \<le> 16" by (rule hex.length_bound) simp
  moreover have "u64 p < 16 ^ 16" by (simp add: u64_def)
  then have "length (radix_loop 16 s_digitsHex (u64 p)) \<le> 16" by (rule ptr.length_bound) simp
  ultimately show ?thesis
    using hex.read_back [of ?v] ptr.read_back [of "u64 p"]
    by (auto simp: ConvertHexInteger_def ConvertPointer_def kMaxNumericSize_def u64_def Let_def)
qed

end
