(* ===== verification/Linked_List.thy ===== *)
theory Linked_List
  imports Prelude
begin

text \<open>
  The intrusive circular doubly linked list of \<^verbatim>\<open>linked_list.h\<close>. The heap maps the address
  of a node to its two links; a list is the cycle through its root. Following a link out of a
  node that does not exist is undefined behaviour.
\<close>

subsection \<open>Nodes and operations\<close>

record link_node =
  l_previous :: nat
  l_next :: nat

type_synonym lheap = "nat \<Rightarrow> link_node option"

definition LinkNode :: link_node where
  "LinkNode = \<lparr>l_previous = 0, l_next = 0\<rparr>"

definition set_next :: "nat \<Rightarrow> nat \<Rightarrow> lheap \<Rightarrow> lheap option" where
  "set_next a v h = map_option (\<lambda>n. h(a \<mapsto> n\<lparr>l_next := v\<rparr>)) (h a)"

definition set_previous :: "nat \<Rightarrow> nat \<Rightarrow> lheap \<Rightarrow> lheap option" where
  "set_previous a v h = map_option (\<lambda>n. h(a \<mapsto> n\<lparr>l_previous := v\<rparr>)) (h a)"

definition previous :: "nat \<Rightarrow> lheap \<Rightarrow> nat option" where
  "previous a h = map_option l_previous (h a)"

definition next_node :: "nat \<Rightarrow> lheap \<Rightarrow> nat option" where
  "next_node a h = map_option l_next (h a)"

definition InsertBefore :: "nat \<Rightarrow> nat \<Rightarrow> lheap \<Rightarrow> lheap option" where
  "InsertBefore this e h = do {
     h1 \<leftarrow> set_next this e h;
     p \<leftarrow> previous e h1;
     h2 \<leftarrow> set_previous this p h1;
     q \<leftarrow> previous e h2;
     h3 \<leftarrow> set_next q this h2;
     set_previous e this h3}"

definition InsertAfter :: "nat \<Rightarrow> nat \<Rightarrow> lheap \<Rightarrow> lheap option" where
  "InsertAfter this e h = do {
     n \<leftarrow> next_node e h;
     h1 \<leftarrow> set_next this n h;
     h2 \<leftarrow> set_previous this e h1;
     m \<leftarrow> next_node e h2;
     h3 \<leftarrow> set_previous m this h2;
     set_next e this h3}"

definition RemoveFromList :: "nat \<Rightarrow> lheap \<Rightarrow> lheap option" where
  "RemoveFromList this h = do {
     p \<leftarrow> previous this h;
     n \<leftarrow> next_node this h;
     h1 \<leftarrow> set_next p n h;
     n' \<leftarrow> next_node this h1;
     p' \<leftarrow> previous this h1;
     set_previous n' p' h1}"

definition LinkedList :: "nat \<Rightarrow> lheap \<Rightarrow> lheap" where
  "LinkedList root h = h(root \<mapsto> \<lparr>l_previous = root, l_next = root\<rparr>)"

definition Append :: "nat \<Rightarrow> nat \<Rightarrow> lheap \<Rightarrow> lheap option" where
  "Append root e h = InsertBefore e root h"

definition list_head :: "nat \<Rightarrow> lheap \<Rightarrow> nat option" where
  "list_head root h = next_node root h"

definition list_tail :: "nat \<Rightarrow> lheap \<Rightarrow> nat option" where
  "list_tail root h = previous root h"

text \<open>The two loops of the header's documentation: from \<open>head()\<close> along \<open>next()\<close>, and from
  \<open>tail()\<close> along \<open>previous()\<close>, until \<open>end()\<close>. A list may be visited for as many steps as the
  caller allows.\<close>

fun walk :: "(nat \<Rightarrow> lheap \<Rightarrow> nat option) \<Rightarrow> nat \<Rightarrow> nat \<Rightarrow> nat \<Rightarrow> lheap \<Rightarrow> nat list option" where
  "walk step root 0 a h = (if a = root then Some [] else None)"
| "walk step root (Suc k) a h = (if a = root then Some [] else do {
     b \<leftarrow> step a h;
     map_option ((#) a) (walk step root k b h)})"

subsection \<open>Cycles\<close>

definition edge :: "lheap \<Rightarrow> nat \<Rightarrow> nat \<Rightarrow> bool" where
  "edge h a b = (next_node a h = Some b \<and> previous b h = Some a)"

text \<open>\<open>cycle h ys\<close>: the nodes \<open>ys\<close>, in this order, form a circular list.\<close>

definition cycle :: "lheap \<Rightarrow> nat list \<Rightarrow> bool" where
  "cycle h ys = (ys \<noteq> [] \<and> distinct ys \<and> successively (edge h) (ys @ [hd ys]))"

lemma cycle_Cons: "cycle h (y # ys) = (distinct (y # ys) \<and> successively (edge h) (y # ys @ [y]))"
  by (simp add: cycle_def)

lemma cycle_rotate: "cycle h (us @ vs) = cycle h (vs @ us)"
proof -
  have "cycle h (vs @ us)" if "cycle h (us @ vs)" for us vs
  proof (cases "us = [] \<or> vs = []")
    case False
    then show ?thesis using that by (auto simp: cycle_def successively_append_iff)
  qed (use that in auto)
  then show ?thesis by blast
qed

lemma edge_ends:
  assumes "successively (edge h) (a # zs @ [b])"
  shows "next_node a h = Some (hd (zs @ [b]))" "previous b h = Some (last (a # zs))"
proof -
  show "next_node a h = Some (hd (zs @ [b]))" using assms by (cases zs) (auto simp: edge_def)
  have "successively (edge h) ((a # zs) @ [b])" using assms by simp
  then show "previous b h = Some (last (a # zs))"
    unfolding successively_append_iff by (simp add: edge_def split: if_splits)
qed

lemma set_links:
  assumes "h a = Some n"
  shows "\<exists>h'. set_next a v h = Some h' \<and> dom h' = dom h
      \<and> (\<forall>x. next_node x h' = (if x = a then Some v else next_node x h) \<and> previous x h' = previous x h)"
    "\<exists>h'. set_previous a v h = Some h' \<and> dom h' = dom h
      \<and> (\<forall>x. previous x h' = (if x = a then Some v else previous x h) \<and> next_node x h' = next_node x h)"
  using assms by (auto simp: set_next_def set_previous_def next_node_def previous_def)

lemma links_dom: "next_node a h = Some b \<Longrightarrow> a \<in> dom h" "previous a h = Some b \<Longrightarrow> a \<in> dom h"
  by (auto simp: next_node_def previous_def)

lemma set_next_dom: "a \<in> dom h \<Longrightarrow> \<exists>h'. set_next a v h = Some h' \<and> dom h' = dom h
      \<and> (\<forall>x. next_node x h' = (if x = a then Some v else next_node x h) \<and> previous x h' = previous x h)"
  using set_links(1) by fast

lemma set_previous_dom: "a \<in> dom h \<Longrightarrow> \<exists>h'. set_previous a v h = Some h' \<and> dom h' = dom h
      \<and> (\<forall>x. previous x h' = (if x = a then Some v else previous x h) \<and> next_node x h' = next_node x h)"
  using set_links(2) by fast

text \<open>What the operations write, as functions of the links before.\<close>

lemma InsertBefore_links:
  assumes "n \<in> dom h" "n \<noteq> e" "previous e h = Some p" "p \<in> dom h" "n \<noteq> p"
  shows "\<exists>h'. InsertBefore n e h = Some h' \<and> dom h' = dom h
    \<and> (\<forall>x. next_node x h' = (if x = n then Some e else if x = p then Some n else next_node x h))
    \<and> (\<forall>x. previous x h' = (if x = e then Some n else if x = n then Some p else previous x h))"
proof -
  obtain h1 where 1: "set_next n e h = Some h1" "dom h1 = dom h"
    "\<forall>x. next_node x h1 = (if x = n then Some e else next_node x h) \<and> previous x h1 = previous x h"
    using set_next_dom [OF assms(1)] by blast
  obtain h2 where 2: "set_previous n p h1 = Some h2" "dom h2 = dom h1"
    "\<forall>x. previous x h2 = (if x = n then Some p else previous x h1) \<and> next_node x h2 = next_node x h1"
    using set_previous_dom [of n h1 p] assms(1) 1(2) by auto
  obtain h3 where 3: "set_next p n h2 = Some h3" "dom h3 = dom h2"
    "\<forall>x. next_node x h3 = (if x = p then Some n else next_node x h2) \<and> previous x h3 = previous x h2"
    using set_next_dom [of p h2 n] assms(4) 1(2) 2(2) by auto
  obtain h4 where 4: "set_previous e n h3 = Some h4" "dom h4 = dom h3"
    "\<forall>x. previous x h4 = (if x = e then Some n else previous x h3) \<and> next_node x h4 = next_node x h3"
    using set_previous_dom [of e h3 n] links_dom(2) [OF assms(3)] 1(2) 2(2) 3(2) by auto
  have "InsertBefore n e h = Some h4"
    using 1 2 3 4(1) assms by (simp add: InsertBefore_def)
  then show ?thesis using 1 2 3 4 assms by auto
qed

lemma InsertAfter_links:
  assumes "n \<in> dom h" "n \<noteq> e" "next_node e h = Some q" "q \<in> dom h" "n \<noteq> q"
  shows "\<exists>h'. InsertAfter n e h = Some h' \<and> dom h' = dom h
    \<and> (\<forall>x. next_node x h' = (if x = n then Some q else if x = e then Some n else next_node x h))
    \<and> (\<forall>x. previous x h' = (if x = q then Some n else if x = n then Some e else previous x h))"
proof -
  obtain h1 where 1: "set_next n q h = Some h1" "dom h1 = dom h"
    "\<forall>x. next_node x h1 = (if x = n then Some q else next_node x h) \<and> previous x h1 = previous x h"
    using set_next_dom [OF assms(1)] by blast
  obtain h2 where 2: "set_previous n e h1 = Some h2" "dom h2 = dom h1"
    "\<forall>x. previous x h2 = (if x = n then Some e else previous x h1) \<and> next_node x h2 = next_node x h1"
    using set_previous_dom [of n h1 e] assms(1) 1(2) by auto
  obtain h3 where 3: "set_previous q n h2 = Some h3" "dom h3 = dom h2"
    "\<forall>x. previous x h3 = (if x = q then Some n else previous x h2) \<and> next_node x h3 = next_node x h2"
    using set_previous_dom [of q h2 n] assms(4) 1(2) 2(2) by auto
  obtain h4 where 4: "set_next e n h3 = Some h4" "dom h4 = dom h3"
    "\<forall>x. next_node x h4 = (if x = e then Some n else next_node x h3) \<and> previous x h4 = previous x h3"
    using set_next_dom [of e h3 n] links_dom(1) [OF assms(3)] 1(2) 2(2) 3(2) by auto
  have "InsertAfter n e h = Some h4"
    using 1 2 3 4(1) assms by (simp add: InsertAfter_def)
  then show ?thesis using 1 2 3 4 assms by auto
qed

lemma RemoveFromList_links:
  assumes "previous a h = Some p" "next_node a h = Some n" "p \<in> dom h" "n \<in> dom h" "p \<noteq> a"
  shows "\<exists>h'. RemoveFromList a h = Some h' \<and> dom h' = dom h
    \<and> (\<forall>x. next_node x h' = (if x = p then Some n else next_node x h))
    \<and> (\<forall>x. previous x h' = (if x = n then Some p else previous x h))"
proof -
  obtain h1 where 1: "set_next p n h = Some h1" "dom h1 = dom h"
    "\<forall>x. next_node x h1 = (if x = p then Some n else next_node x h) \<and> previous x h1 = previous x h"
    using set_next_dom [OF assms(3)] by blast
  obtain h2 where 2: "set_previous n p h1 = Some h2" "dom h2 = dom h1"
    "\<forall>x. previous x h2 = (if x = n then Some p else previous x h1) \<and> next_node x h2 = next_node x h1"
    using set_previous_dom [of n h1 p] assms(4) 1(2) by auto
  have "RemoveFromList a h = Some h2" using 1 2 assms by (simp add: RemoveFromList_def)
  then show ?thesis using 1 2 by auto
qed

subsection \<open>The operations on cycles\<close>

lemma edges_inner:
  assumes "successively (edge h) ys" "distinct ys"
    "\<And>x. x \<in> set ys \<Longrightarrow> x \<noteq> last ys \<Longrightarrow> next_node x h' = next_node x h"
    "\<And>x. x \<in> set ys \<Longrightarrow> x \<noteq> hd ys \<Longrightarrow> previous x h' = previous x h"
  shows "successively (edge h') ys"
  using assms(1)
proof (rule successively_cong_on)
  fix a b us vs
  assume ys: "ys = us @ a # b # vs" and e: "edge h a b"
  have "a \<noteq> last ys" using assms(2) ys last_in_set [of "b # vs"] by auto
  moreover have "b \<noteq> hd ys" using assms(2) ys by (cases us) auto
  ultimately have "next_node a h' = next_node a h" "previous b h' = previous b h"
    using assms(3,4) ys by auto
  then show "edge h' a b" using e by (simp add: edge_def)
qed

lemma cycle_dom: "cycle h ys \<Longrightarrow> y \<in> set ys \<Longrightarrow> y \<in> dom h"
proof -
  assume c: "cycle h ys" and "y \<in> set ys"
  then obtain us vs where "ys = us @ y # vs" by (auto simp: in_set_conv_decomp)
  then have "cycle h (y # vs @ us)" using c cycle_rotate [of h us "y # vs"] by simp
  then have "previous y h \<noteq> None" using edge_ends(2) [of h y "vs @ us" y] by (simp add: cycle_Cons)
  then show "y \<in> dom h" by (auto simp: previous_def)
qed

lemma cycle_ends:
  assumes "cycle h (y # zs)"
  shows "next_node y h = Some (hd (zs @ [y]))" "previous y h = Some (last (y # zs))"
    "successively (edge h) (y # zs)" "successively (edge h) zs"
proof -
  have c: "successively (edge h) (y # zs @ [y])" using assms by (simp add: cycle_Cons)
  show "next_node y h = Some (hd (zs @ [y]))" "previous y h = Some (last (y # zs))"
    using edge_ends [OF c] by simp_all
  have "successively (edge h) ((y # zs) @ [y])" using c by simp
  then show "successively (edge h) (y # zs)" unfolding successively_append_iff by simp
  then show "successively (edge h) zs" by (cases zs) auto
qed

lemma cycle_insert_before:
  assumes c: "cycle h (e # zs)" and n: "n \<in> dom h" "n \<notin> set (e # zs)"
  shows "\<exists>h'. InsertBefore n e h = Some h' \<and> dom h' = dom h \<and> cycle h' (e # zs @ [n])"
proof -
  let ?p = "last (e # zs)"
  note ends = cycle_ends [OF c]
  have p: "?p \<in> set (e # zs)" by (rule last_in_set) simp
  then have "?p \<in> dom h" "n \<noteq> ?p" using cycle_dom [OF c, of ?p] n(2) by metis+
  then obtain h' where h': "InsertBefore n e h = Some h'" "dom h' = dom h"
    "\<forall>x. next_node x h' = (if x = n then Some e else if x = ?p then Some n else next_node x h)"
    "\<forall>x. previous x h' = (if x = e then Some n else if x = n then Some ?p else previous x h)"
    using InsertBefore_links [OF n(1) _ ends(2)] n(2) by auto
  have "successively (edge h') (e # zs)"
    by (rule edges_inner [OF ends(3)]) (use c h' n(2) in \<open>auto simp: cycle_Cons split: if_splits\<close>)
  moreover have "edge h' ?p n" using h' n(2) \<open>n \<noteq> ?p\<close> by (auto simp: edge_def)
  moreover have "edge h' n e" using h' n(2) by (auto simp: edge_def)
  ultimately have "successively (edge h') ((e # zs) @ [n, e])"
    unfolding successively_append_iff by simp
  then show ?thesis using h'(1,2) c n(2) by (auto simp: cycle_Cons)
qed

lemma cycle_insert_after:
  assumes c: "cycle h (e # zs)" and n: "n \<in> dom h" "n \<notin> set (e # zs)"
  shows "\<exists>h'. InsertAfter n e h = Some h' \<and> dom h' = dom h \<and> cycle h' (e # n # zs)"
proof -
  let ?q = "hd (zs @ [e])"
  note ends = cycle_ends [OF c]
  have cr: "cycle h (zs @ [e])" using c cycle_rotate [of h "[e]" zs] by simp
  have "?q \<in> set (zs @ [e])" by (rule hd_in_set) simp
  then have "?q \<in> dom h" "n \<noteq> ?q" using cycle_dom [OF c, of ?q] n(2) by auto
  then obtain h' where h': "InsertAfter n e h = Some h'" "dom h' = dom h"
    "\<forall>x. next_node x h' = (if x = n then Some ?q else if x = e then Some n else next_node x h)"
    "\<forall>x. previous x h' = (if x = ?q then Some n else if x = n then Some e else previous x h)"
    using InsertAfter_links [OF n(1) _ ends(1)] n(2) by auto
  have d: "distinct (zs @ [e])" using c by (simp add: cycle_Cons)
  have "successively (edge h) (zs @ [e])"
    using c by (cases zs) (auto simp: cycle_Cons)
  then have "successively (edge h') (zs @ [e])"
    by (rule edges_inner [OF _ d]) (use h' n(2) in auto)
  moreover have "edge h' n ?q" "edge h' e n" using h' n(2) \<open>n \<noteq> ?q\<close> by (auto simp: edge_def)
  moreover have "hd (zs @ [e, n]) = ?q" by (cases zs) simp_all
  ultimately have "successively (edge h') ([n] @ (zs @ [e]) @ [n])"
    unfolding successively_append_iff by simp
  then have "cycle h' (n # zs @ [e])" using d n(2) by (simp add: cycle_Cons)
  then show ?thesis using h'(1,2) cycle_rotate [of h' "n # zs" "[e]"] by auto
qed

lemma cycle_remove:
  assumes c: "cycle h (a # zs)" and zs: "zs \<noteq> []"
  shows "\<exists>h'. RemoveFromList a h = Some h' \<and> dom h' = dom h \<and> cycle h' zs"
proof -
  note ends = cycle_ends [OF c]
  have d: "distinct zs" "a \<notin> set zs" using c by (simp_all add: cycle_Cons)
  have m: "last zs \<in> set zs" "hd zs \<in> set zs" using zs by simp_all
  then have "last zs \<in> dom h" "hd zs \<in> dom h" "last zs \<noteq> a"
    using cycle_dom [OF c] d(2) by auto
  then obtain h' where h': "RemoveFromList a h = Some h'" "dom h' = dom h"
    "\<forall>x. next_node x h' = (if x = last zs then Some (hd zs) else next_node x h)"
    "\<forall>x. previous x h' = (if x = hd zs then Some (last zs) else previous x h)"
    using RemoveFromList_links [of a h "last zs" "hd zs"] ends(1,2) zs by auto
  have "successively (edge h') zs" by (rule edges_inner [OF ends(4) d(1)]) (use h' in auto)
  moreover have "edge h' (last zs) (hd zs)" using h' by (simp add: edge_def)
  ultimately have "cycle h' zs" using zs d(1) by (simp add: cycle_def successively_append_iff)
  then show ?thesis using h'(1,2) by blast
qed

lemma walk_next:
  assumes "successively (edge h) (xs @ [root])" "root \<notin> set xs"
  shows "walk next_node root (length xs) (hd (xs @ [root])) h = Some xs"
  using assms
proof (induction xs)
  case (Cons x xs)
  then have "next_node x h = Some (hd (xs @ [root]))" using edge_ends(1) [of h x xs root] by simp
  moreover have "successively (edge h) (xs @ [root])" using Cons.prems(1) by (cases xs) auto
  ultimately show ?case using Cons by simp
qed simp

lemma walk_previous:
  assumes "successively (edge h) (root # xs)" "root \<notin> set xs"
  shows "walk previous root (length xs) (last (root # xs)) h = Some (rev xs)"
  using assms
proof (induction xs rule: rev_induct)
  case (snoc x xs)
  then have "previous x h = Some (last (root # xs))" using edge_ends(2) [of h root xs x] by simp
  moreover have "successively (edge h) (root # xs)"
    using snoc.prems(1) successively_append_iff [of "edge h" "root # xs" "[x]"] by simp
  ultimately show ?case using snoc by simp
qed simp

subsection \<open>Properties\<close>

fun append_all :: "nat \<Rightarrow> nat list \<Rightarrow> lheap \<Rightarrow> lheap option" where
  "append_all root [] h = Some h"
| "append_all root (e # es) h = do {
     h1 \<leftarrow> Append root e h;
     append_all root es h1}"

lemma append_all_cycle:
  "cycle h (root # xs) \<Longrightarrow> set es \<subseteq> dom h \<Longrightarrow> distinct (root # xs @ es) \<Longrightarrow>
   \<exists>h'. append_all root es h = Some h' \<and> cycle h' (root # xs @ es)"
proof (induction es arbitrary: xs h)
  case (Cons e es)
  then obtain h1 where "InsertBefore e root h = Some h1" "dom h1 = dom h" "cycle h1 (root # xs @ [e])"
    using cycle_insert_before [of h root xs e] by auto
  moreover from this Cons.prems Cons.IH [of h1 "xs @ [e]"] obtain h2 where
    "append_all root es h1 = Some h2" "cycle h2 (root # xs @ e # es)" by auto
  ultimately show ?case by (simp add: Append_def)
qed simp

text \<open>A list built by \<open>Append\<close>: the loop from \<open>head()\<close> along \<open>next()\<close> visits the appended
  nodes in order and ends at \<open>end()\<close>; the loop from \<open>tail()\<close> along \<open>previous()\<close> visits them in
  reverse order.\<close>

theorem linked_list_traversal:
  assumes "distinct (root # es)" "set es \<subseteq> dom h"
  shows "\<exists>h' f l. append_all root es (LinkedList root h) = Some h'
    \<and> list_head root h' = Some f \<and> walk next_node root (length es) f h' = Some es
    \<and> list_tail root h' = Some l \<and> walk previous root (length es) l h' = Some (rev es)"
proof -
  have "cycle (LinkedList root h) [root]"
    by (simp add: cycle_def edge_def LinkedList_def next_node_def previous_def)
  then obtain h' where h': "append_all root es (LinkedList root h) = Some h'" "cycle h' (root # es)"
    using append_all_cycle [of "LinkedList root h" root "[]" es] assms by (auto simp: LinkedList_def)
  note ends = cycle_ends [OF h'(2)]
  have "successively (edge h') (es @ [root])" using h'(2) by (cases es) (auto simp: cycle_Cons)
  then show ?thesis
    using h' ends walk_next [of h' es root] walk_previous [OF ends(3)] assms(1)
    by (auto simp: list_head_def list_tail_def)
qed

theorem linked_list_traversal_witness:
  "\<exists>h' f l. append_all 8 [16, 24, 32] (LinkedList 8 [16 \<mapsto> LinkNode, 24 \<mapsto> LinkNode, 32 \<mapsto> LinkNode]) = Some h'
    \<and> list_head 8 h' = Some f \<and> walk next_node 8 3 f h' = Some [16, 24, 32]
    \<and> list_tail 8 h' = Some l \<and> walk previous 8 3 l h' = Some (rev [16, 24, 32])"
  using linked_list_traversal [of 8 "[16, 24, 32]" "[16 \<mapsto> LinkNode, 24 \<mapsto> LinkNode, 32 \<mapsto> LinkNode]"]
  by (simp add: numeral_3_eq_3 del: walk.simps append_all.simps)

text \<open>(C35) Editing at any position of a list \<open>us @ e # vs\<close> with the given root:
  \<open>InsertBefore(e)\<close> and \<open>InsertAfter(e)\<close> put the new node next to \<open>e\<close>, \<open>RemoveFromList\<close> takes
  \<open>e\<close> out, and every other link stays consistent in both directions.\<close>

theorem linked_list_edit:
  assumes "cycle h (root # us @ e # vs)" "n \<in> dom h" "n \<notin> set (root # us @ e # vs)"
  shows "(\<exists>h'. InsertBefore n e h = Some h' \<and> cycle h' (root # us @ n # e # vs))
    \<and> (\<exists>h'. InsertAfter n e h = Some h' \<and> cycle h' (root # us @ e # n # vs))
    \<and> (\<exists>h'. RemoveFromList e h = Some h' \<and> cycle h' (root # us @ vs))"
proof -
  have c: "cycle h (e # vs @ root # us)"
    using assms(1) cycle_rotate [of h "root # us" "e # vs"] by simp
  have n: "n \<notin> set (e # vs @ root # us)" using assms(3) by auto
  have "cycle h' (root # us @ n # e # vs)" if "cycle h' (e # (vs @ root # us) @ [n])" for h'
    using that cycle_rotate [of h' "e # vs" "root # us @ [n]"] by simp
  moreover have "cycle h' (root # us @ e # n # vs)" if "cycle h' (e # n # vs @ root # us)" for h'
    using that cycle_rotate [of h' "e # n # vs" "root # us"] by simp
  moreover have "cycle h' (root # us @ vs)" if "cycle h' (vs @ root # us)" for h'
    using that cycle_rotate [of h' vs "root # us"] by simp
  ultimately show ?thesis
    using cycle_insert_before [OF c assms(2) n] cycle_insert_after [OF c assms(2) n] cycle_remove [OF c]
    by blast
qed

definition three_nodes :: lheap where
  "three_nodes = [8 \<mapsto> \<lparr>l_previous = 24, l_next = 16\<rparr>, 16 \<mapsto> \<lparr>l_previous = 8, l_next = 24\<rparr>,
     24 \<mapsto> \<lparr>l_previous = 16, l_next = 8\<rparr>, 32 \<mapsto> LinkNode]"

theorem linked_list_edit_witness:
  "(\<exists>h'. InsertBefore 32 24 three_nodes = Some h' \<and> cycle h' (8 # [16] @ 32 # 24 # []))
    \<and> (\<exists>h'. InsertAfter 32 24 three_nodes = Some h' \<and> cycle h' (8 # [16] @ 24 # 32 # []))
    \<and> (\<exists>h'. RemoveFromList 24 three_nodes = Some h' \<and> cycle h' (8 # [16] @ []))"
  by (rule linked_list_edit)
    (simp_all add: three_nodes_def cycle_def edge_def next_node_def previous_def)

end
