(* ===== verification/Linked_Queue.thy ===== *)
theory Linked_Queue
  imports Prelude "HOL-Library.Sublist"
begin

text \<open>
  \<open>LinkedQueue\<close> of \<^verbatim>\<open>queue.h\<close>: a lock-free queue with many producers and one consumer.
  \<open>push_back\<close> is two atomic steps, the exchange of the tail and the linking of the
  predecessor; between them other producers and the consumer may run. The interleavings are a
  step relation; \<open>q_pushed\<close> and \<open>q_popped\<close> record the order of the exchanges and of the nodes
  handed out and are not fields of the code. With one consumer the compare-and-exchange of
  \<open>pop_front\<close> can only fail spuriously, and then it is repeated.
\<close>

subsection \<open>The operations\<close>

record linked_queue =
  q_dummy :: nat
  q_head :: nat
  q_tail :: nat
  q_next :: "nat \<Rightarrow> nat"
  q_pending :: "(nat \<times> nat) set"
  q_pushed :: "nat list"
  q_popped :: "nat list"

definition LinkedQueue :: "nat \<Rightarrow> (nat \<Rightarrow> nat) \<Rightarrow> linked_queue" where
  "LinkedQueue dummy nx = \<lparr>q_dummy = dummy, q_head = dummy, q_tail = dummy, q_next = nx(dummy := 0),
     q_pending = {}, q_pushed = [], q_popped = []\<rparr>"

text \<open>The first half of \<open>push_back\<close>: \<open>node->next = nullptr\<close> and the exchange of the tail.\<close>

definition push_exchange :: "nat \<Rightarrow> linked_queue \<Rightarrow> linked_queue" where
  "push_exchange node q = q\<lparr>q_next := (q_next q)(node := 0), q_tail := node,
     q_pending := insert (q_tail q, node) (q_pending q), q_pushed := q_pushed q @ [node]\<rparr>"

text \<open>The second half: \<open>p->next = node\<close>.\<close>

definition push_link :: "nat \<Rightarrow> nat \<Rightarrow> linked_queue \<Rightarrow> linked_queue" where
  "push_link p node q = q\<lparr>q_next := (q_next q)(p := node), q_pending := q_pending q - {(p, node)}\<rparr>"

definition queue_pop_front :: "linked_queue \<Rightarrow> nat \<times> linked_queue" where
  "queue_pop_front q = (let p = q_head q in
     if q_next q p = 0 then (0, q)
     else (p, q\<lparr>q_head := q_next q p, q_popped := q_popped q @ [p]\<rparr>))"

text \<open>The nodes in the queue, from the head to the last exchanged one.\<close>

definition in_queue :: "linked_queue \<Rightarrow> nat list" where
  "in_queue q = drop (length (q_popped q)) (q_dummy q # q_pushed q)"

subsection \<open>Interleavings\<close>

text \<open>A producer may push any node that is not in the queue; nothing else is asked of the
  producers, and the order of their steps is arbitrary.\<close>

inductive queue_step :: "linked_queue \<Rightarrow> linked_queue \<Rightarrow> bool" where
  exchange: "node \<noteq> 0 \<Longrightarrow> node \<notin> set (in_queue q) \<Longrightarrow> queue_step q (push_exchange node q)"
| link: "(p, node) \<in> q_pending q \<Longrightarrow> queue_step q (push_link p node q)"
| pop: "queue_pop_front q = (r, q') \<Longrightarrow> queue_step q q'"

inductive_cases queue_stepE: "queue_step q q'"

inductive queue_reach :: "linked_queue \<Rightarrow> bool" where
  init: "dummy \<noteq> 0 \<Longrightarrow> queue_reach (LinkedQueue dummy nx)"
| step: "queue_reach q \<Longrightarrow> queue_step q q' \<Longrightarrow> queue_reach q'"

text \<open>
  The invariant: the queue runs from its head to its tail; the link between two neighbours is
  there, or its producer is about to write it.
\<close>

definition linked :: "linked_queue \<Rightarrow> nat \<Rightarrow> nat \<Rightarrow> bool" where
  "linked q a b = (if (a, b) \<in> q_pending q then q_next q a = 0 else q_next q a = b)"

definition queue_inv :: "linked_queue \<Rightarrow> bool" where
  "queue_inv q = (q_popped q @ in_queue q = q_dummy q # q_pushed q \<and> in_queue q \<noteq> []
     \<and> q_head q = hd (in_queue q) \<and> q_tail q = last (in_queue q)
     \<and> distinct (in_queue q) \<and> 0 \<notin> set (in_queue q)
     \<and> successively (linked q) (in_queue q) \<and> q_next q (q_tail q) = 0
     \<and> (\<forall>(p, n) \<in> q_pending q. \<exists>us vs. in_queue q = us @ p # n # vs))"

lemma queue_inv_init: "dummy \<noteq> 0 \<Longrightarrow> queue_inv (LinkedQueue dummy nx)"
  by (simp add: queue_inv_def LinkedQueue_def in_queue_def)

lemma queue_inv_exchange:
  assumes inv: "queue_inv q" and n: "node \<noteq> 0" "node \<notin> set (in_queue q)"
  shows "queue_inv (push_exchange node q)"
proof -
  let ?q = "push_exchange node q"
  have le: "length (q_popped q) \<le> length (q_dummy q # q_pushed q)"
    using inv unfolding queue_inv_def in_queue_def by (metis length_append le_add1)
  then have iq: "in_queue ?q = in_queue q @ [node]"
    using drop_append [of "length (q_popped q)" "q_dummy q # q_pushed q" "[node]"]
    by (simp add: in_queue_def push_exchange_def del: drop_append)
  have last: "last (in_queue q) \<in> set (in_queue q)" using inv by (simp add: queue_inv_def)
  have pend: "p \<in> set (in_queue q)" "m \<in> set (in_queue q)" if "(p, m) \<in> q_pending q" for p m
    using inv that by (fastforce simp: queue_inv_def)+
  have "successively (linked ?q) (in_queue q)"
  proof (rule successively_cong_on)
    show "successively (linked q) (in_queue q)" using inv by (simp add: queue_inv_def)
    fix a b us vs
    assume iq: "in_queue q = us @ a # b # vs" and l: "linked q a b"
    then have "a \<noteq> node" "b \<noteq> node" using n(2) by auto
    then show "linked ?q a b" using l by (simp add: linked_def push_exchange_def)
  qed
  moreover have "linked ?q (last (in_queue q)) node"
    using inv last n by (auto simp: linked_def push_exchange_def queue_inv_def)
  ultimately have "successively (linked ?q) (in_queue ?q)"
    using inv iq by (simp add: successively_append_iff)
  moreover have "\<exists>us vs. in_queue ?q = us @ p # m # vs" if "(p, m) \<in> q_pending ?q" for p m
  proof (cases "(p, m) \<in> q_pending q")
    case True
    then obtain us vs where "in_queue q = us @ p # m # vs" using inv by (auto simp: queue_inv_def)
    then show ?thesis using iq by auto
  next
    case False
    then have "p = last (in_queue q)" "m = node" using that inv by (auto simp: push_exchange_def queue_inv_def)
    then have "in_queue ?q = butlast (in_queue q) @ p # m # []"
      using iq inv by (simp add: queue_inv_def)
    then show ?thesis by blast
  qed
  ultimately show ?thesis
    using inv n iq unfolding queue_inv_def by (auto simp: push_exchange_def)
qed

lemma queue_inv_link:
  assumes inv: "queue_inv q" and pn: "(p, node) \<in> q_pending q"
  shows "queue_inv (push_link p node q)"
proof -
  let ?q = "push_link p node q"
  have iq: "in_queue ?q = in_queue q" by (simp add: in_queue_def push_link_def)
  obtain us vs where uv: "in_queue q = us @ p # node # vs" using inv pn by (auto simp: queue_inv_def)
  have d: "distinct (in_queue q)" using inv by (simp add: queue_inv_def)
  have "last (in_queue q) = last (node # vs)" using uv by simp
  then have pl: "p \<noteq> last (in_queue q)" using d uv last_in_set [of "node # vs"] by auto
  have "successively (linked ?q) (in_queue q)"
  proof (rule successively_cong_on)
    show "successively (linked q) (in_queue q)" using inv by (simp add: queue_inv_def)
    fix a b xs ys
    assume ab: "in_queue q = xs @ a # b # ys" and l: "linked q a b"
    have "a = p \<Longrightarrow> b = node" using neighbours_unique [OF d ab] uv by metis
    then show "linked ?q a b" using l by (auto simp: linked_def push_link_def)
  qed
  then show ?thesis using inv iq pl by (auto simp: queue_inv_def push_link_def)
qed

lemma queue_inv_pop:
  assumes inv: "queue_inv q" and run: "queue_pop_front q = (r, q')"
  shows "queue_inv q'"
proof (cases "q_next q (q_head q) = 0")
  case True
  then show ?thesis using assms by (simp add: queue_pop_front_def)
next
  case False
  then have q': "q' = q\<lparr>q_head := q_next q (q_head q), q_popped := q_popped q @ [q_head q]\<rparr>"
    using run by (auto simp: queue_pop_front_def Let_def)
  obtain zs where zs: "in_queue q = q_head q # zs" using inv by (cases "in_queue q") (auto simp: queue_inv_def)
  have ne: "zs \<noteq> []" using False inv zs by (auto simp: queue_inv_def)
  have iq: "in_queue q' = zs"
    using zs inv by (simp add: q' in_queue_def queue_inv_def drop_Suc [symmetric])
      (metis drop_Suc list.sel(3) tl_drop)
  have "linked q (q_head q) (hd zs)" using inv zs ne by (cases zs) (auto simp: queue_inv_def)
  then have hd: "q_next q (q_head q) = hd zs" and np: "(q_head q, hd zs) \<notin> q_pending q"
    using False by (auto simp: linked_def split: if_splits)
  have d: "distinct (in_queue q)" using inv by (simp add: queue_inv_def)
  have "successively (linked q) zs" using inv zs ne by (cases zs) (auto simp: queue_inv_def)
  moreover have "linked q' = linked q" by (intro ext) (simp add: q' linked_def)
  ultimately have succ: "successively (linked q') zs" by simp
  have pend: "\<exists>us vs. zs = us @ p # m # vs" if "(p, m) \<in> q_pending q" for p m
  proof -
    have "\<forall>(p, n) \<in> q_pending q. \<exists>us vs. in_queue q = us @ p # n # vs"
      using inv unfolding queue_inv_def by (elim conjE)
    from bspec [OF this that] obtain us vs where "in_queue q = us @ p # m # vs"
      unfolding prod.case by (elim exE)
    then have uv: "q_head q # zs = us @ p # m # vs" by (rule trans [OF zs [symmetric]])
    then have "us \<noteq> []" using np that by (cases us) auto
    then show ?thesis using uv by (cases us) auto
  qed
  show ?thesis
    using inv zs ne iq hd d succ pend unfolding queue_inv_def by (auto simp: q')
qed

lemma queue_inv_reach: "queue_reach q \<Longrightarrow> queue_inv q"
proof (induction rule: queue_reach.induct)
  case (step q q')
  then show ?case
    using queue_inv_exchange queue_inv_link queue_inv_pop by (auto elim!: queue_stepE)
qed (rule queue_inv_init)

subsection \<open>Properties\<close>

text \<open>(C17) In every interleaving of any number of producers with the consumer, the nodes handed
  out are a prefix of the dummy followed by the pushed nodes in the order of their exchanges:
  nothing is lost, duplicated or reordered, and the first node handed out is the dummy.\<close>

theorem linked_queue_fifo:
  assumes "queue_reach q"
  shows "prefix (q_popped q) (q_dummy q # q_pushed q) \<and> length (q_popped q) \<le> length (q_pushed q)"
proof -
  have inv: "q_popped q @ in_queue q = q_dummy q # q_pushed q" "in_queue q \<noteq> []"
    using queue_inv_reach [OF assms] by (simp_all add: queue_inv_def)
  then have "length (q_popped q) + length (in_queue q) = Suc (length (q_pushed q))"
    by (metis length_append length_Cons)
  moreover have "0 < length (in_queue q)" using inv(2) by simp
  ultimately show ?thesis using inv(1) by (metis prefixI add_gr_0 less_Suc_eq_le less_add_same_cancel1)
qed

text \<open>When no producer is between its two steps, \<open>pop_front\<close> fails only on a queue from which
  as many nodes were taken as were pushed; otherwise it hands out the next node of the order
  (the dummy counted first). A producer that stopped between its steps is what can make it
  fail earlier.\<close>

theorem linked_queue_pop_progress:
  assumes "queue_reach q" "q_pending q = {}"
  shows "fst (queue_pop_front q) = (if length (q_popped q) < length (q_pushed q)
    then (q_dummy q # q_pushed q) ! length (q_popped q) else 0)"
proof -
  have inv: "queue_inv q" using assms(1) by (rule queue_inv_reach)
  then obtain zs where zs: "in_queue q = q_head q # zs" by (cases "in_queue q") (auto simp: queue_inv_def)
  have eq: "q_popped q @ q_head q # zs = q_dummy q # q_pushed q" using inv zs by (simp add: queue_inv_def)
  then have len: "length (q_popped q) + length zs = length (q_pushed q)"
    by (metis add_Suc_right length_Cons length_append nat.inject)
  have hd: "(q_dummy q # q_pushed q) ! length (q_popped q) = q_head q"
    unfolding eq [symmetric] by simp
  show ?thesis
  proof (cases zs)
    case Nil
    then have "q_next q (q_head q) = 0" using inv zs by (auto simp: queue_inv_def)
    then show ?thesis using len Nil by (simp add: queue_pop_front_def)
  next
    case (Cons b bs)
    then have "q_next q (q_head q) = b" "b \<noteq> 0"
      using inv zs assms(2) by (auto simp: queue_inv_def linked_def)
    then show ?thesis using len Cons hd by (simp add: queue_pop_front_def Let_def)
  qed
qed

lemma demo_queue: "queue_reach (push_link 8 16 (push_exchange 16 (LinkedQueue 8 (\<lambda>_. 0))))"
proof -
  have "queue_reach (push_exchange 16 (LinkedQueue 8 (\<lambda>_. 0)))"
    by (rule queue_reach.step [OF queue_reach.init queue_step.exchange])
      (simp_all add: in_queue_def LinkedQueue_def)
  then show ?thesis
    by (rule queue_reach.step) (rule queue_step.link, simp add: push_exchange_def LinkedQueue_def)
qed

theorem linked_queue_fifo_witness:
  "prefix (q_popped (push_link 8 16 (push_exchange 16 (LinkedQueue 8 (\<lambda>_. 0))))) [8, 16]
    \<and> length (q_popped (push_link 8 16 (push_exchange 16 (LinkedQueue 8 (\<lambda>_. 0))))) \<le> 1"
  using linked_queue_fifo [OF demo_queue] by (simp add: push_link_def push_exchange_def LinkedQueue_def)

theorem linked_queue_pop_progress_witness:
  "fst (queue_pop_front (push_link 8 16 (push_exchange 16 (LinkedQueue 8 (\<lambda>_. 0))))) = 8"
  using linked_queue_pop_progress [OF demo_queue] by (simp add: push_link_def push_exchange_def LinkedQueue_def)

end
