(* ===== verification/Linked_Stack.thy ===== *)
theory Linked_Stack
  imports Prelude
begin

text \<open>
  \<open>LinkedStack\<close> of \<^verbatim>\<open>stack.h\<close>: nodes linked through their own \<open>next\<close> field under a
  mutex, so each operation is one atomic step. The contract of a stack is a locale over an
  abstraction to lists; its client lemma says what any sequence of operations, from any
  number of threads in any order, returns.
\<close>

subsection \<open>The stack\<close>

text \<open>\<open>st_next\<close> is the \<open>next\<close> field of the nodes that exist; the stack owns no memory.\<close>

record linked_stack =
  st_head :: nat
  st_next :: "nat \<Rightarrow> nat option"

definition LinkedStack :: "(nat \<Rightarrow> nat option) \<Rightarrow> linked_stack" where
  "LinkedStack nx = \<lparr>st_head = 0, st_next = nx\<rparr>"

definition stack_push :: "nat \<Rightarrow> linked_stack \<Rightarrow> linked_stack option" where
  "stack_push node st = do {
     _ \<leftarrow> st_next st node;
     Some (st\<lparr>st_next := (st_next st)(node \<mapsto> st_head st), st_head := node\<rparr>)}"

definition stack_pop :: "linked_stack \<Rightarrow> (nat \<times> linked_stack) option" where
  "stack_pop st =
     (if st_head st \<noteq> 0 then do {
        let tmp = st_head st;
        nx \<leftarrow> st_next st tmp;
        Some (tmp, st\<lparr>st_head := nx\<rparr>)}
      else Some (0, st))"

subsection \<open>The contract of a stack\<close>

datatype stack_op = SPush nat | SPop

fun list_op :: "stack_op \<Rightarrow> nat list \<Rightarrow> nat \<times> nat list" where
  "list_op (SPush a) xs = (a, a # xs)"
| "list_op SPop [] = (0, [])"
| "list_op SPop (x # xs) = (x, xs)"

fun list_ops :: "stack_op list \<Rightarrow> nat list \<Rightarrow> nat list \<times> nat list" where
  "list_ops [] xs = ([], xs)"
| "list_ops (f # fs) xs = (let (r, ys) = list_op f xs; (rs, zs) = list_ops fs ys in (r # rs, zs))"

text \<open>A node may be pushed when it exists and is not on the stack already.\<close>

fun list_can :: "nat set \<Rightarrow> stack_op list \<Rightarrow> nat list \<Rightarrow> bool" where
  "list_can nodes [] xs = True"
| "list_can nodes (f # fs) xs =
     ((case f of SPush a \<Rightarrow> a \<in> nodes \<and> a \<notin> set xs | SPop \<Rightarrow> True)
       \<and> list_can nodes fs (snd (list_op f xs)))"

fun stack_run :: "(nat \<Rightarrow> 's \<Rightarrow> 's option) \<Rightarrow> ('s \<Rightarrow> (nat \<times> 's) option) \<Rightarrow> stack_op list \<Rightarrow> 's
    \<Rightarrow> (nat list \<times> 's) option" where
  "stack_run push pop [] s = Some ([], s)"
| "stack_run push pop (SPush a # fs) s = do {
     s1 \<leftarrow> push a s;
     (rs, s2) \<leftarrow> stack_run push pop fs s1;
     Some (a # rs, s2)}"
| "stack_run push pop (SPop # fs) s = do {
     (r, s1) \<leftarrow> pop s;
     (rs, s2) \<leftarrow> stack_run push pop fs s1;
     Some (r # rs, s2)}"

locale lifo =
  fixes holds_list :: "'s \<Rightarrow> nat list \<Rightarrow> bool" and nodes :: "nat set"
    and push :: "nat \<Rightarrow> 's \<Rightarrow> 's option" and pop :: "'s \<Rightarrow> (nat \<times> 's) option"
  assumes push_law: "holds_list s xs \<Longrightarrow> a \<in> nodes \<Longrightarrow> a \<notin> set xs \<Longrightarrow>
      \<exists>s'. push a s = Some s' \<and> holds_list s' (a # xs)"
    and pop_empty: "holds_list s [] \<Longrightarrow> pop s = Some (0, s)"
    and pop_law: "holds_list s (x # xs) \<Longrightarrow> \<exists>s'. pop s = Some (x, s') \<and> holds_list s' xs"
begin

lemma run_refines:
  "holds_list s xs \<Longrightarrow> list_can nodes fs xs \<Longrightarrow>
   \<exists>s'. stack_run push pop fs s = Some (fst (list_ops fs xs), s') \<and> holds_list s' (snd (list_ops fs xs))"
proof (induction fs arbitrary: s xs)
  case (Cons f fs)
  show ?case
  proof (cases f)
    case (SPush a)
    then obtain s1 where "push a s = Some s1" "holds_list s1 (a # xs)"
      using push_law Cons.prems by fastforce
    moreover from this SPush Cons obtain s2 where
      "stack_run push pop fs s1 = Some (fst (list_ops fs (a # xs)), s2)"
      "holds_list s2 (snd (list_ops fs (a # xs)))" by fastforce
    ultimately show ?thesis using SPush by (auto simp: case_prod_beta' Let_def)
  next
    case SPop
    obtain r ys where ry: "list_op SPop xs = (r, ys)" by fastforce
    obtain s1 where "pop s = Some (r, s1)" "holds_list s1 ys"
      using ry Cons.prems(1) pop_empty pop_law by (cases xs) fastforce+
    moreover from this SPop Cons ry obtain s2 where
      "stack_run push pop fs s1 = Some (fst (list_ops fs ys), s2)"
      "holds_list s2 (snd (list_ops fs ys))" by fastforce
    ultimately show ?thesis using SPop ry by (auto simp: case_prod_beta' Let_def)
  qed
qed simp

end

text \<open>The list a stack holds: the chain from its head, over the nodes that exist.\<close>

definition stack_holds :: "nat set \<Rightarrow> linked_stack \<Rightarrow> nat list \<Rightarrow> bool" where
  "stack_holds nodes st xs = (dom (st_next st) = nodes \<and> 0 \<notin> nodes \<and> chain (st_next st) (st_head st) xs)"

interpretation ls: lifo "stack_holds nodes" nodes stack_push stack_pop for nodes
proof
  fix s xs a
  assume h: "stack_holds nodes s xs" "a \<in> nodes" "a \<notin> set xs"
  then obtain v where "st_next s a = Some v" by (auto simp: stack_holds_def)
  moreover from h have "a \<noteq> 0" by (auto simp: stack_holds_def)
  ultimately show "\<exists>s'. stack_push a s = Some s' \<and> stack_holds nodes s' (a # xs)"
    using h by (auto simp: stack_push_def stack_holds_def)
next
  fix s
  assume "stack_holds nodes s []"
  then show "stack_pop s = Some (0, s)" by (simp add: stack_holds_def stack_pop_def)
next
  fix s x xs
  assume "stack_holds nodes s (x # xs)"
  then show "\<exists>s'. stack_pop s = Some (x, s') \<and> stack_holds nodes s' xs"
    by (auto simp: stack_holds_def stack_pop_def)
qed

subsection \<open>Property\<close>

text \<open>(C34) \<open>LinkedStack\<close> is a last-in first-out stack of nodes: any sequence of pushes (of
  existing nodes that are not on the stack) and pops, starting from an empty stack, never
  follows a null or dangling pointer and returns what the same operations on a list return, with
  the null pointer for a pop of the empty stack.\<close>

theorem linked_stack_lifo:
  assumes "0 \<notin> dom nx" "list_can (dom nx) fs []"
  shows "\<exists>st. stack_run stack_push stack_pop fs (LinkedStack nx) = Some (fst (list_ops fs []), st)
    \<and> chain (st_next st) (st_head st) (snd (list_ops fs []))"
proof -
  have "stack_holds (dom nx) (LinkedStack nx) []" using assms(1) by (simp add: stack_holds_def LinkedStack_def)
  from ls.run_refines [OF this assms(2)] show ?thesis by (auto simp: stack_holds_def)
qed

theorem linked_stack_lifo_witness:
  "\<exists>st. stack_run stack_push stack_pop [SPush 8, SPush 16, SPop, SPop, SPop]
      (LinkedStack [8 \<mapsto> 0, 16 \<mapsto> 0]) = Some ([8, 16, 16, 8, 0], st)
    \<and> chain (st_next st) (st_head st) []"
  using linked_stack_lifo [of "[8 \<mapsto> 0, 16 \<mapsto> 0]" "[SPush 8, SPush 16, SPop, SPop, SPop]"]
  by (simp del: stack_run.simps)

end
