(* ===== verification/Lock_Free_Stack.thy ===== *)
theory Lock_Free_Stack
  imports Prelude
begin

text \<open>
  \<open>LockFreeStack\<close> of \<^verbatim>\<open>object_pool.h\<close>: a lock-free stack of arena ids. An id carries a
  version in its upper half that every push increments; the node of an id is the arena object
  of its lower half. The model is a step relation in which any number of threads execute the
  atomic steps of \<open>push\<close> and \<open>pop\<close> in any order, a compare-and-exchange may fail
  spuriously, and a node's \<open>next\<close> field is read and written while other threads work.
  \<open>f_list\<close> (the stack as a list) and \<open>f_held\<close> (the ids that clients hold) record what the
  successful exchanges did; the code has no such fields. The versions are assumed not to wrap:
  a client does not push one id more than \<open>2 ^ 32 - 1\<close> times.
\<close>

subsection \<open>Threads and steps\<close>

text \<open>Where a thread is: about to load the head for a push of \<open>v\<close>, to write the node's link, to
  exchange; about to load the head for a pop, to read the link of \<open>p\<close>, to exchange.\<close>

datatype lf_local =
    Idle
  | Push_load nat
  | Push_link nat nat
  | Push_cas nat nat
  | Pop_load
  | Pop_next nat
  | Pop_cas nat nat

record lf_stack =
  f_head :: nat
  f_next :: "nat \<Rightarrow> nat"
  f_loc :: "nat \<Rightarrow> lf_local"
  f_list :: "nat list"
  f_held :: "nat set"

definition LockFreeStack :: "nat set \<Rightarrow> (nat \<Rightarrow> nat) \<Rightarrow> lf_stack" where
  "LockFreeStack H nx = \<lparr>f_head = 0, f_next = nx, f_loc = (\<lambda>_. Idle), f_list = [], f_held = H\<rparr>"

definition node :: "nat \<Rightarrow> nat" where
  "node v = v AND 0xFFFFFFFF"

definition call_push :: "nat \<Rightarrow> nat \<Rightarrow> lf_stack \<Rightarrow> lf_stack" where
  "call_push t v s = s\<lparr>f_loc := (f_loc s)(t := Push_load (u64 (v + 0x100000000))),
     f_held := f_held s - {v}\<rparr>"

definition call_pop :: "nat \<Rightarrow> lf_stack \<Rightarrow> lf_stack" where
  "call_pop t s = s\<lparr>f_loc := (f_loc s)(t := Pop_load)\<rparr>"

text \<open>The next step of thread \<open>t\<close>; \<open>fails\<close> is a spurious failure of the exchange. The second
  component is what \<open>pop\<close> returns when the step ends it.\<close>

definition lf_run :: "nat \<Rightarrow> bool \<Rightarrow> lf_stack \<Rightarrow> lf_stack \<times> nat option" where
  "lf_run t fails s = (case f_loc s t of
     Idle \<Rightarrow> (s, None)
   | Push_load v \<Rightarrow> (s\<lparr>f_loc := (f_loc s)(t := Push_link v (f_head s))\<rparr>, None)
   | Push_link v p \<Rightarrow> (s\<lparr>f_next := (f_next s)(node v := p), f_loc := (f_loc s)(t := Push_cas v p)\<rparr>, None)
   | Push_cas v p \<Rightarrow>
       if f_head s = p \<and> \<not> fails
       then (s\<lparr>f_head := v, f_loc := (f_loc s)(t := Idle), f_list := v # f_list s\<rparr>, None)
       else (s\<lparr>f_loc := (f_loc s)(t := Push_load v)\<rparr>, None)
   | Pop_load \<Rightarrow>
       if f_head s = 0 then (s\<lparr>f_loc := (f_loc s)(t := Idle)\<rparr>, Some 0)
       else (s\<lparr>f_loc := (f_loc s)(t := Pop_next (f_head s))\<rparr>, None)
   | Pop_next p \<Rightarrow> (s\<lparr>f_loc := (f_loc s)(t := Pop_cas p (f_next s (node p)))\<rparr>, None)
   | Pop_cas p n \<Rightarrow>
       if f_head s = p \<and> \<not> fails
       then (s\<lparr>f_head := n, f_loc := (f_loc s)(t := Idle), f_list := tl (f_list s),
               f_held := insert p (f_held s)\<rparr>, Some p)
       else (s\<lparr>f_loc := (f_loc s)(t := Pop_load)\<rparr>, None))"

inductive lf_step :: "lf_stack \<Rightarrow> lf_stack \<Rightarrow> bool" where
  push: "f_loc s t = Idle \<Longrightarrow> v \<in> f_held s \<Longrightarrow> v + 0x100000000 < 2 ^ 64 \<Longrightarrow> lf_step s (call_push t v s)"
| pop: "f_loc s t = Idle \<Longrightarrow> lf_step s (call_pop t s)"
| run: "lf_step s (fst (lf_run t fails s))"

inductive_cases lf_stepE: "lf_step s s'"

inductive lf_reach :: "lf_stack \<Rightarrow> bool" where
  init: "inj_on node H \<Longrightarrow> 0 \<notin> node ` H \<Longrightarrow> lf_reach (LockFreeStack H nx)"
| step: "lf_reach s \<Longrightarrow> lf_step s s' \<Longrightarrow> lf_reach s'"

subsection \<open>The invariant\<close>

text \<open>Following the \<open>next\<close> fields of the nodes from the id \<open>h\<close> visits the ids of the list.\<close>

primrec vchain :: "(nat \<Rightarrow> nat) \<Rightarrow> nat \<Rightarrow> nat list \<Rightarrow> bool" where
  "vchain nx h [] = (h = 0)"
| "vchain nx h (v # vs) = (h = v \<and> v \<noteq> 0 \<and> vchain nx (nx (node v)) vs)"

fun pushing :: "lf_local \<Rightarrow> nat option" where
  "pushing (Push_load v) = Some v"
| "pushing (Push_link v p) = Some v"
| "pushing (Push_cas v p) = Some v"
| "pushing _ = None"

fun remembered :: "lf_local \<Rightarrow> nat option" where
  "remembered (Pop_next p) = Some p"
| "remembered (Pop_cas p n) = Some p"
| "remembered _ = None"

text \<open>Every node has one owner: the stack, a client, or the thread that is pushing it.\<close>

datatype owner = Stack | Client | Thread nat

fun has :: "lf_stack \<Rightarrow> owner \<Rightarrow> nat \<Rightarrow> bool" where
  "has s Stack v = (v \<in> set (f_list s))"
| "has s Client v = (v \<in> f_held s)"
| "has s (Thread t) v = (pushing (f_loc s t) = Some v)"

definition owners_ok :: "lf_stack \<Rightarrow> bool" where
  "owners_ok s = ((\<forall>a v b w. has s a v \<longrightarrow> has s b w \<longrightarrow> node v = node w \<longrightarrow> a = b \<and> v = w)
     \<and> (\<forall>a v. has s a v \<longrightarrow> node v \<noteq> 0) \<and> distinct (f_list s))"

text \<open>An id that a thread remembers is not newer than the id its node has now, and older than one
  that is being pushed.\<close>

definition versions_ok :: "lf_stack \<Rightarrow> bool" where
  "versions_ok s = (\<forall>t p a v. remembered (f_loc s t) = Some p \<longrightarrow> has s a v \<longrightarrow> node v = node p \<longrightarrow>
     p \<le> v \<and> (\<forall>t'. a = Thread t' \<longrightarrow> p < v))"

definition links_ok :: "lf_stack \<Rightarrow> bool" where
  "links_ok s = (vchain (f_next s) (f_head s) (f_list s)
     \<and> (\<forall>t v p. f_loc s t = Push_cas v p \<longrightarrow> f_next s (node v) = p)
     \<and> (\<forall>t p n. f_loc s t = Pop_cas p n \<longrightarrow> p \<in> set (f_list s) \<longrightarrow> f_next s (node p) = n)
     \<and> (\<forall>t p. remembered (f_loc s t) = Some p \<longrightarrow> p \<noteq> 0))"

definition lf_inv :: "lf_stack \<Rightarrow> bool" where
  "lf_inv s = (owners_ok s \<and> versions_ok s \<and> links_ok s)"

lemma vchain_upd: "node v \<notin> node ` set vs \<Longrightarrow> vchain (nx(node v := p)) h vs = vchain nx h vs"
  by (induction vs arbitrary: h) auto

lemma node_version [simp]: "node (v + 4294967296) = node v"
  using and_mask_mod [of _ 32] by (simp add: node_def)

lemma node_0 [simp]: "node 0 = 0"
  by (simp add: node_def)

lemma has_init: "has (LockFreeStack H nx) a v = (a = Client \<and> v \<in> H)"
  by (cases a) (simp_all add: LockFreeStack_def)

lemma lf_inv_init: "inj_on node H \<Longrightarrow> 0 \<notin> node ` H \<Longrightarrow> lf_inv (LockFreeStack H nx)"
proof -
  assume H: "inj_on node H" "0 \<notin> node ` H"
  let ?s = "LockFreeStack H nx"
  have "owners_ok ?s"
    unfolding owners_ok_def has_init using H by (auto simp: inj_on_def LockFreeStack_def)
  moreover have "versions_ok ?s" by (simp add: versions_ok_def LockFreeStack_def)
  moreover have "links_ok ?s" by (simp add: links_ok_def LockFreeStack_def)
  ultimately show ?thesis by (simp add: lf_inv_def)
qed

text \<open>Handing a node from one owner to another, possibly with a new version.\<close>

lemma owners_move:
  assumes ok: "owners_ok s" and old: "has s a0 v0" and same: "node v1 = node v0"
    and new: "\<And>a v. has s' a v \<Longrightarrow> a = a1 \<and> v = v1 \<or> has s a v \<and> (a, v) \<noteq> (a0, v0)"
    and d: "distinct (f_list s')"
  shows "owners_ok s'"
proof -
  have u: "a = b \<and> v = w" if "has s a v" "has s b w" "node v = node w" for a v b w
    using ok that by (auto simp: owners_ok_def)
  have z: "node v \<noteq> 0" if "has s a v" for a v using ok that by (auto simp: owners_ok_def)
  have "a = b \<and> v = w" if "has s' a v" "has s' b w" "node v = node w" for a v b w
  proof -
    have clash: False if "has s b w" "(b, w) \<noteq> (a0, v0)" "node w = node v1" for b w
      using u [OF that(1) old] that(2,3) same by auto
    from new [OF that(1)] new [OF that(2)] show ?thesis using clash u that(3) by (elim disjE conjE) auto
  qed
  moreover have "node v \<noteq> 0" if "has s' a v" for a v
    using new [OF that] z same z [OF old] by metis
  ultimately show ?thesis using d by (auto simp: owners_ok_def)
qed

lemma versions_move:
  assumes ok: "versions_ok s" and old: "has s a0 v0" and same: "node v1 = node v0"
    and new: "\<And>a v. has s' a v \<Longrightarrow> a = a1 \<and> v = v1 \<or> has s a v"
    and grow: "v0 \<le> v1" "\<And>t. a1 = Thread t \<Longrightarrow> v0 < v1 \<or> a0 = Thread t"
    and rem: "\<And>t p. remembered (f_loc s' t) = Some p \<Longrightarrow> remembered (f_loc s t) = Some p"
  shows "versions_ok s'"
  unfolding versions_ok_def
proof (intro allI impI)
  fix t p a v
  assume r: "remembered (f_loc s' t) = Some p" and h: "has s' a v" and n: "node v = node p"
  have le: "p \<le> w \<and> (\<forall>t'. b = Thread t' \<longrightarrow> p < w)" if "has s b w" "node w = node p" for b w
    using ok rem [OF r] that by (auto simp: versions_ok_def)
  show "p \<le> v \<and> (\<forall>t'. a = Thread t' \<longrightarrow> p < v)"
  proof (cases "a = a1 \<and> v = v1")
    case True
    then have "p \<le> v0 \<and> (\<forall>t'. a0 = Thread t' \<longrightarrow> p < v0)" using le [OF old] n same by simp
    then show ?thesis using grow True by (metis le_less_trans less_le_trans order_trans)
  next
    case False
    then show ?thesis using le new [OF h] n by blast
  qed
qed

lemma lf_inv_call_push:
  assumes inv: "lf_inv s" and t: "f_loc s t = Idle" and v: "v \<in> f_held s" and w: "v + 4294967296 < 2 ^ 64"
  shows "lf_inv (call_push t v s)"
proof -
  let ?v = "v + 4294967296" and ?s = "call_push t v s"
  have eq: "?s = s\<lparr>f_loc := (f_loc s)(t := Push_load ?v), f_held := f_held s - {v}\<rparr>"
    using w by (simp add: call_push_def wrap_simps)
  have hs: "a = Thread t \<and> u = ?v \<or> has s a u \<and> (a, u) \<noteq> (Client, v)" if "has ?s a u" for a u
    using that by (cases a) (auto simp: eq split: if_splits)
  have "owners_ok ?s" by (rule owners_move [of s Client v ?v]) (use inv v hs in \<open>auto simp: lf_inv_def owners_ok_def eq\<close>)
  moreover have "versions_ok ?s"
    by (rule versions_move [of s Client v ?v])
      (use inv v hs in \<open>auto simp: lf_inv_def eq split: if_splits\<close>)
  moreover have "links_ok ?s" using inv by (auto simp: lf_inv_def eq links_ok_def)
  ultimately show ?thesis by (simp add: lf_inv_def)
qed

text \<open>A step that changes only where its thread is.\<close>

lemma has_local:
  "pushing l = pushing (f_loc s t) \<Longrightarrow> has (s\<lparr>f_loc := (f_loc s)(t := l)\<rparr>) a v = has s a v"
  by (cases a) auto

lemma lf_inv_local:
  assumes inv: "lf_inv s" and push: "pushing l = pushing (f_loc s t)"
    and rem: "\<And>p. remembered l = Some p \<Longrightarrow> p \<noteq> 0 \<and> (remembered (f_loc s t) = Some p \<or> p \<in> set (f_list s))"
    and cas: "\<And>v p. l \<noteq> Push_cas v p"
    and pop: "\<And>p n. l = Pop_cas p n \<Longrightarrow> f_next s (node p) = n"
  shows "lf_inv (s\<lparr>f_loc := (f_loc s)(t := l)\<rparr>)"
proof -
  let ?s = "s\<lparr>f_loc := (f_loc s)(t := l)\<rparr>"
  have "owners_ok ?s" using inv unfolding lf_inv_def owners_ok_def has_local [OF push] by simp
  moreover have "versions_ok ?s" unfolding versions_ok_def has_local [OF push]
  proof (intro allI impI)
    fix t' p a v
    assume r: "remembered (f_loc ?s t') = Some p" and h: "has s a v" "node v = node p"
    have "(\<exists>t'. remembered (f_loc s t') = Some p) \<or> has s Stack p" using r rem by (auto split: if_splits)
    then show "p \<le> v \<and> (\<forall>t'. a = Thread t' \<longrightarrow> p < v)"
    proof
      assume "\<exists>t'. remembered (f_loc s t') = Some p"
      then show ?thesis using inv h unfolding lf_inv_def versions_ok_def by blast
    next
      assume "has s Stack p"
      then have "a = Stack \<and> v = p" using inv h unfolding lf_inv_def owners_ok_def by metis
      then show ?thesis by simp
    qed
  qed
  moreover have "links_ok ?s"
    using inv rem cas pop by (auto simp: lf_inv_def links_ok_def split: if_splits)
  ultimately show ?thesis by (simp add: lf_inv_def)
qed

lemma lf_inv_link:
  assumes inv: "lf_inv s" and t: "f_loc s t = Push_link v p"
  shows "lf_inv (s\<lparr>f_next := (f_next s)(node v := p), f_loc := (f_loc s)(t := Push_cas v p)\<rparr>)"
proof -
  let ?s = "s\<lparr>f_next := (f_next s)(node v := p), f_loc := (f_loc s)(t := Push_cas v p)\<rparr>"
  have hs: "has ?s a u = has s a u" for a u using t by (cases a) auto
  have u: "a = Thread t \<and> w = v" if "has s a w" "node w = node v" for a w
    using inv t that unfolding lf_inv_def owners_ok_def by (metis has.simps(3) pushing.simps(2))
  have "owners_ok ?s" using inv unfolding lf_inv_def owners_ok_def hs by simp
  moreover have "versions_ok ?s"
    using inv unfolding lf_inv_def versions_ok_def hs by (auto split: if_splits)
  moreover have nl: "node v \<notin> node ` set (f_list s)"
  proof
    assume "node v \<in> node ` set (f_list s)"
    then obtain x where "x \<in> set (f_list s)" "node x = node v" by auto
    then show False using u [of Stack x] by simp
  qed
  have "vchain ((f_next s)(node v := p)) (f_head s) (f_list s)"
    using inv vchain_upd [OF nl] by (simp add: lf_inv_def links_ok_def)
  moreover have "node w \<noteq> node v" if "t' \<noteq> t" "f_loc s t' = Push_cas w q" for t' w q
    using u [of "Thread t'" w] that by auto
  moreover have "node q \<noteq> node v" if "q \<in> set (f_list s)" for q using nl that by (metis imageI)
  ultimately have "links_ok ?s"
    using inv by (auto simp: lf_inv_def links_ok_def split: if_splits)
  then show ?thesis using \<open>owners_ok ?s\<close> \<open>versions_ok ?s\<close> by (simp add: lf_inv_def)
qed

lemma lf_inv_push_cas:
  assumes inv: "lf_inv s" and t: "f_loc s t = Push_cas v (f_head s)"
  shows "lf_inv (s\<lparr>f_head := v, f_loc := (f_loc s)(t := Idle), f_list := v # f_list s\<rparr>)"
proof -
  let ?s = "s\<lparr>f_head := v, f_loc := (f_loc s)(t := Idle), f_list := v # f_list s\<rparr>"
  have old: "has s (Thread t) v" using t by simp
  have hs: "a = Stack \<and> u = v \<or> has s a u \<and> (a, u) \<noteq> (Thread t, v)" if "has ?s a u" for a u
    using that by (cases a) (auto split: if_splits)
  have nl: "v \<notin> set (f_list s)" and v0: "v \<noteq> 0"
    using inv old unfolding lf_inv_def owners_ok_def by (metis has.simps(1) owner.distinct(3), metis node_0)
  have "owners_ok ?s"
    by (rule owners_move [OF _ old refl hs]) (use inv nl in \<open>auto simp: lf_inv_def owners_ok_def\<close>)
  moreover have "versions_ok ?s"
    by (rule versions_move [OF _ old refl, where ?a1.0 = Stack])
      (use inv hs in \<open>auto simp: lf_inv_def split: if_splits\<close>)
  moreover have "p \<noteq> v" if "f_loc s t' = Pop_cas p n" for t' p n
    using inv old that unfolding lf_inv_def versions_ok_def by (metis less_irrefl remembered.simps(2))
  then have "links_ok ?s"
    using inv t v0 by (auto simp: lf_inv_def links_ok_def split: if_splits)
  ultimately show ?thesis by (simp add: lf_inv_def)
qed

lemma lf_pop_list:
  assumes inv: "lf_inv s" and t: "f_loc s t = Pop_cas p n" and h: "f_head s = p"
  shows "\<exists>rest. f_list s = p # rest \<and> vchain (f_next s) n rest"
proof -
  have "remembered (f_loc s t) = Some p" using t by simp
  then have "p \<noteq> 0" using inv unfolding lf_inv_def links_ok_def by blast
  then obtain rest where r: "f_list s = p # rest" "vchain (f_next s) (f_next s (node p)) rest"
    using inv h by (cases "f_list s") (auto simp: lf_inv_def links_ok_def)
  moreover have "f_next s (node p) = n" using inv t r(1) by (simp add: lf_inv_def links_ok_def)
  ultimately show ?thesis by simp
qed

lemma lf_inv_pop_cas:
  assumes inv: "lf_inv s" and t: "f_loc s t = Pop_cas p n" and h: "f_head s = p"
  shows "lf_inv (s\<lparr>f_head := n, f_loc := (f_loc s)(t := Idle), f_list := tl (f_list s),
    f_held := insert p (f_held s)\<rparr>)"
proof -
  let ?s = "s\<lparr>f_head := n, f_loc := (f_loc s)(t := Idle), f_list := tl (f_list s),
    f_held := insert p (f_held s)\<rparr>"
  obtain rest where rest: "f_list s = p # rest" "vchain (f_next s) n rest"
    using lf_pop_list [OF assms] by blast
  have old: "has s Stack p" using rest by simp
  have d: "distinct (f_list s)" using inv by (simp add: lf_inv_def owners_ok_def)
  have hs: "a = Client \<and> u = p \<or> has s a u \<and> (a, u) \<noteq> (Stack, p)" if "has ?s a u" for a u
    using that rest(1) d by (cases a) (auto split: if_splits)
  have "owners_ok ?s" by (rule owners_move [OF _ old refl hs]) (use inv d rest in \<open>auto simp: lf_inv_def\<close>)
  moreover have "versions_ok ?s"
    by (rule versions_move [OF _ old refl, where ?a1.0 = Client])
      (use inv hs in \<open>auto simp: lf_inv_def split: if_splits\<close>)
  moreover have "links_ok ?s"
    using inv rest by (auto simp: lf_inv_def links_ok_def split: if_splits)
  ultimately show ?thesis by (simp add: lf_inv_def)
qed

lemma lf_inv_run: "lf_inv s \<Longrightarrow> lf_inv (fst (lf_run t fails s))"
proof (cases "f_loc s t")
  case (Push_link v p)
  moreover assume "lf_inv s"
  ultimately show ?thesis using lf_inv_link by (simp add: lf_run_def)
next
  case (Push_cas v p)
  moreover assume "lf_inv s"
  ultimately show ?thesis
    using lf_inv_push_cas [of s t v] lf_inv_local [of s "Push_load v" t] by (simp add: lf_run_def)
next
  case Pop_load
  moreover assume inv: "lf_inv s"
  moreover have "f_head s \<in> set (f_list s)" if "f_head s \<noteq> 0"
    using inv that by (cases "f_list s") (auto simp: lf_inv_def links_ok_def)
  ultimately show ?thesis
    using lf_inv_local [of s Idle t] lf_inv_local [of s "Pop_next (f_head s)" t] by (simp add: lf_run_def)
next
  case (Pop_next p)
  assume inv: "lf_inv s"
  have "remembered (f_loc s t) = Some p" using Pop_next by simp
  then have "p \<noteq> 0" using inv unfolding lf_inv_def links_ok_def by blast
  then have "lf_inv (s\<lparr>f_loc := (f_loc s)(t := Pop_cas p (f_next s (node p)))\<rparr>)"
    by (intro lf_inv_local [OF inv]) (use Pop_next in auto)
  then show ?thesis using Pop_next by (simp add: lf_run_def)
next
  case (Pop_cas p n)
  moreover assume "lf_inv s"
  ultimately show ?thesis
    using lf_inv_pop_cas [of s t p n] lf_inv_local [of s Pop_load t] by (simp add: lf_run_def)
next
  case (Push_load v)
  moreover assume "lf_inv s"
  ultimately show ?thesis using lf_inv_local [of s "Push_link v (f_head s)" t] by (simp add: lf_run_def)
qed (simp add: lf_run_def)

lemma lf_inv_reach: "lf_reach s \<Longrightarrow> lf_inv s"
proof (induction rule: lf_reach.induct)
  case (step s s')
  from step.hyps(2) show ?case
  proof (cases rule: lf_step.cases)
    case (pop t)
    then show ?thesis using lf_inv_local [of s Pop_load t] step.IH by (simp add: call_pop_def)
  qed (use lf_inv_call_push lf_inv_run step.IH in auto)
qed (rule lf_inv_init)

subsection \<open>Properties\<close>

text \<open>(C2) In every interleaving of any number of threads the links from the head are the abstract
  stack: a successful exchange of a push puts its id on top of the list, and a successful
  exchange of a pop takes exactly the top off and leaves the head at the rest, even if the node
  was popped and pushed again since the thread read it: the versions rule the ABA problem out.\<close>

theorem lock_free_stack_linearizable:
  assumes "lf_reach s"
  shows "vchain (f_next s) (f_head s) (f_list s)
    \<and> (\<forall>t v p. f_loc s t = Push_cas v p \<longrightarrow> f_head s = p \<longrightarrow>
         vchain (f_next (fst (lf_run t False s))) v (v # f_list s))
    \<and> (\<forall>t p n. f_loc s t = Pop_cas p n \<longrightarrow> f_head s = p \<longrightarrow>
         (\<exists>rest. f_list s = p # rest \<and> snd (lf_run t False s) = Some p
            \<and> f_list (fst (lf_run t False s)) = rest
            \<and> vchain (f_next (fst (lf_run t False s))) (f_head (fst (lf_run t False s))) rest))"
proof -
  note inv = lf_inv_reach [OF assms]
  have 1: "vchain (f_next s) (f_head s) (f_list s)" using inv by (simp add: lf_inv_def links_ok_def)
  have 2: "vchain (f_next (fst (lf_run t False s))) v (v # f_list s)"
    if "f_loc s t = Push_cas v p" "f_head s = p" for t v p
    using lf_inv_run [OF inv, of t False] that by (simp add: lf_run_def lf_inv_def links_ok_def)
  have 3: "\<exists>rest. f_list s = p # rest \<and> snd (lf_run t False s) = Some p
      \<and> f_list (fst (lf_run t False s)) = rest
      \<and> vchain (f_next (fst (lf_run t False s))) (f_head (fst (lf_run t False s))) rest"
    if "f_loc s t = Pop_cas p n" "f_head s = p" for t p n
    using lf_pop_list [OF inv that] that by (auto simp: lf_run_def)
  show ?thesis using 1 2 3 by blast
qed

text \<open>Two threads and two ids; the first id is pushed.\<close>

lemma demo_lf: "\<exists>s. lf_reach s \<and> f_loc s 0 = Push_cas 4294967297 0 \<and> f_head s = 0 \<and> f_list s = []"
proof -
  let ?s0 = "LockFreeStack {1, 2} (\<lambda>_. 0)"
  let ?s1 = "call_push 0 1 ?s0"
  let ?s2 = "fst (lf_run 0 False ?s1)"
  let ?s3 = "fst (lf_run 0 False ?s2)"
  have n: "node 1 = 1" "node 2 = 2" by (simp_all add: node_def)
  then have "lf_reach ?s0" by (intro lf_reach.init) (auto simp: inj_on_def)
  then have "lf_reach ?s1" by (rule lf_reach.step) (rule lf_step.push, simp_all add: LockFreeStack_def)
  then have "lf_reach ?s2" by (rule lf_reach.step) (rule lf_step.run)
  then have "lf_reach ?s3" by (rule lf_reach.step) (rule lf_step.run)
  moreover have "f_loc ?s3 0 = Push_cas 4294967297 0 \<and> f_head ?s3 = 0 \<and> f_list ?s3 = []"
    by (simp add: lf_run_def call_push_def LockFreeStack_def u64_def)
  ultimately show ?thesis by blast
qed

theorem lock_free_stack_linearizable_witness:
  "\<exists>s. f_loc s 0 = Push_cas 4294967297 0 \<and> vchain (f_next s) (f_head s) []
    \<and> vchain (f_next (fst (lf_run 0 False s))) 4294967297 [4294967297]"
proof -
  obtain s where s: "lf_reach s" "f_loc s 0 = Push_cas 4294967297 0" "f_head s = 0" "f_list s = []"
    using demo_lf by blast
  then show ?thesis using lock_free_stack_linearizable [OF s(1)] by (intro exI [of _ s]) auto
qed

text \<open>(C29) Ownership is exclusive between the three owners: at any time the node of an id belongs to the stack, to the client
  that popped it, or to the one thread that pushes it, and never to two of them, nor to two threads or under two ids to
  the same owner; so no node is linked twice, no object is handed to two clients, and the link that a push writes before
  its exchange is in no node that the stack or a client uses.\<close>

theorem lock_free_stack_exclusive:
  assumes "lf_reach s"
  shows "distinct (map node (f_list s)) \<and> inj_on node (f_held s)
    \<and> node ` f_held s \<inter> node ` set (f_list s) = {}
    \<and> (\<forall>t v. pushing (f_loc s t) = Some v \<longrightarrow> node v \<notin> node ` f_held s \<and> node v \<notin> node ` set (f_list s)
        \<and> (\<forall>t' v'. pushing (f_loc s t') = Some v' \<and> node v' = node v \<longrightarrow> t' = t))"
proof -
  have ok: "owners_ok s" using lf_inv_reach [OF assms] by (simp add: lf_inv_def)
  then have d: "distinct (f_list s)" by (simp add: owners_ok_def)
  have o: "has s a v \<Longrightarrow> has s b w \<Longrightarrow> node v = node w \<Longrightarrow> a = b \<and> v = w" for a v b w
    using ok unfolding owners_ok_def by blast
  have "inj_on node (set (f_list s))" using o [of Stack _ Stack] by (auto simp: inj_on_def)
  moreover have "inj_on node (f_held s)" using o [of Client _ Client] by (auto simp: inj_on_def)
  moreover have "node v \<noteq> node w" if "v \<in> f_held s" "w \<in> set (f_list s)" for v w
    using o [of Client v Stack w] that by auto
  moreover have "node v \<noteq> node w" if "pushing (f_loc s t) = Some v" "w \<in> f_held s \<or> w \<in> set (f_list s)" for t v w
    using o [of "Thread t" v Client w] o [of "Thread t" v Stack w] that by auto
  moreover have "t' = t" if "pushing (f_loc s t) = Some v" "pushing (f_loc s t') = Some v'" "node v' = node v" for t t' v v'
    using o [of "Thread t'" v' "Thread t" v] that by simp
  ultimately show ?thesis using d by (auto simp: distinct_map)
qed

text \<open>One id is on the stack, one is being pushed by the second thread, one is with a client.\<close>

text \<open>A push up to its exchange, and with it.\<close>

lemma push_alone:
  assumes "lf_reach s" "f_loc s t = Idle" "v \<in> f_held s" "v + 0x100000000 < 2 ^ 64"
  defines "v' \<equiv> v + 0x100000000"
  shows "\<exists>s'. lf_reach s' \<and> f_loc s' = (f_loc s)(t := Push_cas v' (f_head s)) \<and> f_list s' = f_list s \<and> f_held s' = f_held s - {v}"
    "\<exists>s'. lf_reach s' \<and> f_loc s' = (f_loc s)(t := Idle) \<and> f_list s' = v' # f_list s \<and> f_held s' = f_held s - {v}"
proof -
  have run: "lf_reach s \<Longrightarrow> lf_reach (fst (lf_run t False s))" for s by (erule lf_reach.step) (rule lf_step.run)
  have v: "u64 (v + 0x100000000) = v'" using assms(4) by (simp add: u64_def v'_def)
  let ?s1 = "call_push t v s"
  let ?s3 = "s\<lparr>f_next := (f_next s)(node v' := f_head s), f_loc := (f_loc s)(t := Push_cas v' (f_head s)), f_held := f_held s - {v}\<rparr>"
  have "lf_reach ?s1" using assms(1-4) by (intro lf_reach.step [OF assms(1)] lf_step.push)
  then have "lf_reach (fst (lf_run t False (fst (lf_run t False ?s1))))" by (intro run)
  moreover have "fst (lf_run t False (fst (lf_run t False ?s1))) = ?s3" using v by (simp add: lf_run_def call_push_def)
  ultimately have s3: "lf_reach ?s3" by simp
  then show "\<exists>s'. lf_reach s' \<and> f_loc s' = (f_loc s)(t := Push_cas v' (f_head s)) \<and> f_list s' = f_list s \<and> f_held s' = f_held s - {v}"
    by (intro exI [of _ ?s3]) simp
  show "\<exists>s'. lf_reach s' \<and> f_loc s' = (f_loc s)(t := Idle) \<and> f_list s' = v' # f_list s \<and> f_held s' = f_held s - {v}"
    by (intro exI [of _ "fst (lf_run t False ?s3)"] conjI run s3) (simp_all add: lf_run_def)
qed

lemma demo_owners: "\<exists>s. lf_reach s \<and> f_list s = [4294967297] \<and> pushing (f_loc s 1) = Some 4294967298 \<and> f_held s = {3}"
proof -
  let ?s0 = "LockFreeStack {1, 2, 3} (\<lambda>_. 0)"
  have n: "node 1 = 1" "node 2 = 2" "node 3 = 3" by (simp_all add: node_def)
  then have 0: "lf_reach ?s0" by (intro lf_reach.init) (auto simp: inj_on_def)
  obtain s1 where 1: "lf_reach s1" "f_loc s1 = (f_loc ?s0)(0 := Idle)" "f_list s1 = 4294967297 # f_list ?s0" "f_held s1 = f_held ?s0 - {1}"
    using push_alone(2) [OF 0, of 0 1] by (auto simp: LockFreeStack_def)
  obtain s2 where "lf_reach s2" "f_loc s2 = (f_loc s1)(1 := Push_cas 4294967298 (f_head s1))" "f_list s2 = f_list s1" "f_held s2 = f_held s1 - {2}"
    using push_alone(1) [OF 1(1), of 1 2] 1(2,4) by (auto simp: LockFreeStack_def)
  then show ?thesis using 1 by (intro exI [of _ s2]) (auto simp: LockFreeStack_def)
qed

theorem lock_free_stack_exclusive_witness:
  "\<exists>s :: lf_stack. f_list s = [4294967297] \<and> pushing (f_loc s 1) = Some 4294967298 \<and> f_held s = {3}
    \<and> node 4294967298 \<notin> node ` f_held s \<and> node 4294967298 \<notin> node ` set (f_list s)
    \<and> node ` f_held s \<inter> node ` set (f_list s) = {}"
proof -
  obtain s where s: "lf_reach s" "f_list s = [4294967297]" "pushing (f_loc s 1) = Some 4294967298" "f_held s = {3}"
    using demo_owners by blast
  note x = lock_free_stack_exclusive [OF s(1)]
  note q = x [THEN conjunct2, THEN conjunct2, THEN conjunct2, THEN spec, THEN spec, THEN mp, OF s(3)]
  have f: "node 4294967298 \<notin> node ` f_held s" "node 4294967298 \<notin> node ` set (f_list s)" "node ` f_held s \<inter> node ` set (f_list s) = {}"
    by (rule conjunct1 [OF q], rule conjunct1 [OF conjunct2 [OF q]], rule x [THEN conjunct2, THEN conjunct2, THEN conjunct1])
  show ?thesis by (intro exI [of _ s] conjI s(2-4) f)
qed

end
