(* ===== verification/Object_Arena.thy ===== *)
theory Object_Arena
  imports Prelude
begin

text \<open>
  \<open>ObjectArena\<close> of \<^verbatim>\<open>object_arena.h\<close>: a three-level table that maps 32-bit object numbers to
  objects that never move. A group holds 1024 blocks of 1024 objects; there are at most 2048
  groups. An object number names the group (counted from 1), the block and the slot; the upper
  32 bits of an id are a version and are ignored. Each operation is modelled as one step.
\<close>

subsection \<open>The table\<close>

definition BASE :: nat where
  "BASE = 10"

definition BASE_MARK :: nat where
  "BASE_MARK = 0x3FF"

definition N :: nat where
  "N = 2 ^ BASE"

definition NG :: nat where
  "NG = 2 ^ (31 - BASE - BASE)"

text \<open>A slot of a group is \<^term>\<open>None\<close> until a block is stored there; blocks are named by the
  order of their allocation.\<close>

record block_group =
  block_list :: "nat \<Rightarrow> nat option"
  block_size :: nat

record global_group =
  group_list :: "block_group list"
  new_blocks :: nat

definition BlockGroup :: block_group where
  "BlockGroup = \<lparr>block_list = (\<lambda>_. None), block_size = 0\<rparr>"

definition group_size :: "global_group \<Rightarrow> nat" where
  "group_size g = length (group_list g)"

definition add_group :: "nat \<Rightarrow> global_group \<Rightarrow> bool \<times> global_group" where
  "add_group old_group_size g =
     (if group_size g \<noteq> old_group_size then (True, g)
      else if group_size g < NG then (True, g\<lparr>group_list := group_list g @ [BlockGroup]\<rparr>)
      else (False, g))"

definition GlobalGroup :: global_group where
  "GlobalGroup = snd (add_group 0 \<lparr>group_list = [], new_blocks = 0\<rparr>)"

text \<open>The object of a block: the block and the index of the item.\<close>

definition arena_find :: "nat \<Rightarrow> global_group \<Rightarrow> (nat \<times> nat) option" where
  "arena_find oid g = do {
     let obj_id = oid AND 0xFFFFFFFF;
     let block_id = drop_bit BASE obj_id;
     let group_id = sub64 (drop_bit BASE block_id) 1;
     check (group_id < group_size g);
     blk \<leftarrow> block_list (group_list g ! group_id) (block_id AND BASE_MARK);
     Some (blk, obj_id AND BASE_MARK)}"

text \<open>The loop of \<open>add_block\<close> for a block \<open>ret\<close> that is allocated already; running out of groups
  fails an assertion. A group's counter is incremented, and decremented again when the group
  turns out to be full.\<close>

partial_function (option) add_block_loop ::
  "nat \<Rightarrow> global_group \<Rightarrow> (nat \<times> nat \<times> global_group) option" where
  "add_block_loop ret g = do {
     let gs = group_size g;
     check (0 < gs);
     let grp = group_list g ! (gs - 1);
     let bs = block_size grp;
     if bs < N then
       Some (u64 (push_bit BASE (u64 (push_bit BASE gs) + bs)), ret,
         g\<lparr>group_list := (group_list g)[gs - 1 := grp\<lparr>block_size := bs + 1,
             block_list := (block_list grp)(bs \<mapsto> ret)\<rparr>]\<rparr>)
     else do {
       let (more, g1) = add_group gs g;
       check more;
       add_block_loop ret g1}}"

definition add_block :: "global_group \<Rightarrow> (nat \<times> nat \<times> global_group) option" where
  "add_block g = add_block_loop (new_blocks g) (g\<lparr>new_blocks := new_blocks g + 1\<rparr>)"

subsection \<open>The invariant\<close>

definition group_ok :: "block_group \<Rightarrow> bool" where
  "group_ok b = (block_size b \<le> N \<and> (\<forall>i. (block_list b i \<noteq> None) = (i < block_size b)))"

definition in_slot :: "global_group \<Rightarrow> nat \<Rightarrow> nat \<Rightarrow> nat \<Rightarrow> bool" where
  "in_slot g i c blk = (i < group_size g \<and> block_list (group_list g ! i) c = Some blk)"

text \<open>Every group is filled from its first slot on, and no block is stored twice.\<close>

definition arena_ok :: "global_group \<Rightarrow> bool" where
  "arena_ok g = (group_list g \<noteq> [] \<and> group_size g \<le> NG \<and> (\<forall>b \<in> set (group_list g). group_ok b)
     \<and> (\<forall>i c blk. in_slot g i c blk \<longrightarrow> blk < new_blocks g)
     \<and> (\<forall>i c i' c' blk. in_slot g i c blk \<longrightarrow> in_slot g i' c' blk \<longrightarrow> i = i' \<and> c = c'))"

text \<open>There is room for another block.\<close>

definition arena_room :: "global_group \<Rightarrow> bool" where
  "arena_room g = (group_size g < NG \<or> block_size (last (group_list g)) < N)"

lemma arena_consts [simp]: "BASE = 10" "BASE_MARK = 1023" "N = 1024" "NG = 2048"
  by (simp_all add: BASE_def BASE_MARK_def N_def NG_def)

lemma GlobalGroup_ok: "arena_ok GlobalGroup" "arena_room GlobalGroup"
  by (auto simp: arena_ok_def arena_room_def GlobalGroup_def add_group_def group_size_def
      BlockGroup_def group_ok_def in_slot_def)

lemma and_1023: "(x :: nat) AND 1023 = x mod 1024"
  using and_mask_mod [of x 10] by simp

lemma and_32: "(x :: nat) AND 4294967295 = x mod 4294967296"
  using and_mask_mod [of x 32] by simp

text \<open>Taking an id apart, whatever its version.\<close>

lemma arena_find_parts:
  assumes "gs < 4096" "bs < 1024" "j < 1024" "0 < gs"
  shows "arena_find (v * 4294967296 + ((gs * 1024 + bs) * 1024 + j)) g = do {
    check (gs - 1 < group_size g);
    blk \<leftarrow> block_list (group_list g ! (gs - 1)) bs;
    Some (blk, j)}"
proof -
  let ?o = "(gs * 1024 + bs) * 1024 + j"
  have lt: "?o < 4294967296" using assms by simp
  have 1: "(v * 4294967296 + ?o) mod 4294967296 = ?o" using lt by simp
  have dm: "(x * 1024 + y) div 1024 = x" "(x * 1024 + y) mod 1024 = y" if "y < 1024" for x y :: nat
    using that by (simp_all only: mod_mult_self3 mod_less div_mult_self3)
  note 2 = dm [OF assms(3), of "gs * 1024 + bs"] and 3 = dm [OF assms(2), of gs]
  have 4: "sub64 gs 1 = gs - 1" using assms by (simp add: wrap_simps)
  show ?thesis
    unfolding arena_find_def arena_consts and_1023 and_32 Let_def drop_bit_eq_div
    using 1 2 3 4 by simp
qed

lemma arena_find_slot:
  "arena_find oid g = Some (blk, j) \<longleftrightarrow> j = (oid AND 0xFFFFFFFF) AND BASE_MARK
    \<and> in_slot g (sub64 (drop_bit BASE (drop_bit BASE (oid AND 0xFFFFFFFF))) 1)
        (drop_bit BASE (oid AND 0xFFFFFFFF) AND BASE_MARK) blk"
  unfolding arena_find_def Let_def in_slot_def
  by (auto simp: check_def simp del: arena_consts split: if_splits bind_splits)

text \<open>Storing a block in the first free slot of the last group.\<close>

lemma store_block:
  assumes ok: "arena_ok g" and bs: "block_size (last (group_list g)) < N"
  defines "gs \<equiv> group_size g" and "b \<equiv> block_size (last (group_list g))"
  defines "g' \<equiv> g\<lparr>new_blocks := new_blocks g + 1, group_list := (group_list g)[gs - 1 :=
      (last (group_list g))\<lparr>block_size := b + 1, block_list := (block_list (last (group_list g)))(b \<mapsto> new_blocks g)\<rparr>]\<rparr>"
  shows "add_block_loop (new_blocks g) (g\<lparr>new_blocks := new_blocks g + 1\<rparr>)
      = Some ((gs * 1024 + b) * 1024, new_blocks g, g')" (is ?run)
    "arena_ok g'" "0 < gs" "gs \<le> 2048" "b < 1024"
    "in_slot g' i c blk = (in_slot g i c blk \<or> i = gs - 1 \<and> c = b \<and> blk = new_blocks g)"
proof -
  have gs: "0 < gs" "gs \<le> 2048" and b: "b < 1024"
    using ok bs by (auto simp: arena_ok_def gs_def group_size_def b_def)
  then show "0 < gs" "gs \<le> 2048" "b < 1024" by simp_all
  have last: "group_list g ! (gs - 1) = last (group_list g)"
    using gs by (simp add: gs_def group_size_def last_conv_nth)
  have grp: "group_ok (last (group_list g))" using ok by (simp add: arena_ok_def)
  have size: "group_size g' = gs" by (simp add: g'_def gs_def group_size_def)
  have "u64 (push_bit 10 (u64 (push_bit 10 gs) + b)) = (gs * 1024 + b) * 1024"
    using gs b by (simp add: push_bit_eq_mult wrap_simps mult.commute)
  then show ?run
    using gs b last by (subst add_block_loop.simps)
      (simp add: Let_def group_size_def gs_def b_def g'_def)
  let ?grp = "(last (group_list g))\<lparr>block_size := b + 1,
      block_list := (block_list (last (group_list g)))(b \<mapsto> new_blocks g)\<rparr>"
  have nth: "group_list g' ! i = (if i = gs - 1 then ?grp else group_list g ! i)" if "i < gs" for i
    using that gs by (simp add: g'_def gs_def group_size_def nth_list_update)
  have free: "block_list (last (group_list g)) b = None" using grp by (auto simp: group_ok_def b_def)
  show slot: "in_slot g' i c blk = (in_slot g i c blk \<or> i = gs - 1 \<and> c = b \<and> blk = new_blocks g)" for i c blk
  proof (cases "i < gs")
    case True
    then show ?thesis using free last size by (auto simp: in_slot_def nth gs_def [symmetric])
  next
    case False
    then show ?thesis using gs size by (auto simp: in_slot_def gs_def [symmetric])
  qed
  have "\<forall>x \<in> set (group_list g'). group_ok x"
  proof -
    have "group_ok ?grp" using grp b by (auto simp: group_ok_def b_def less_Suc_eq)
    then show ?thesis using ok set_update_subset_insert by (fastforce simp: g'_def arena_ok_def)
  qed
  moreover have "blk < new_blocks g" if "in_slot g i c blk" for i c blk
    using ok that by (auto simp: arena_ok_def)
  moreover have "new_blocks g' = new_blocks g + 1" by (simp add: g'_def)
  moreover have "group_list g' \<noteq> []" using gs size by (auto simp: group_size_def)
  ultimately show "arena_ok g'"
    using gs size ok unfolding arena_ok_def slot by (auto simp: less_Suc_eq) blast+
qed

lemma open_group:
  assumes ok: "arena_ok g" and full: "\<not> block_size (last (group_list g)) < N" and room: "arena_room g"
  defines "g1 \<equiv> g\<lparr>group_list := group_list g @ [BlockGroup]\<rparr>"
  shows "add_block_loop (new_blocks g) (g\<lparr>new_blocks := new_blocks g + 1\<rparr>)
      = add_block_loop (new_blocks g1) (g1\<lparr>new_blocks := new_blocks g1 + 1\<rparr>)"
    "arena_ok g1" "block_size (last (group_list g1)) < N" "in_slot g1 i c blk = in_slot g i c blk"
proof -
  have ne: "group_list g \<noteq> []" using ok by (simp add: arena_ok_def)
  have lt: "group_size g < 2048" using room full by (simp add: arena_room_def)
  have comm: "g\<lparr>new_blocks := x, group_list := y\<rparr> = g\<lparr>group_list := y, new_blocks := x\<rparr>" for x y by simp
  show "add_block_loop (new_blocks g) (g\<lparr>new_blocks := new_blocks g + 1\<rparr>)
      = add_block_loop (new_blocks g1) (g1\<lparr>new_blocks := new_blocks g1 + 1\<rparr>)"
    using ne lt full by (subst add_block_loop.simps)
      (simp add: Let_def group_size_def add_group_def g1_def last_conv_nth comm)
  show slot: "in_slot g1 i c blk = in_slot g i c blk" for i c blk
    by (auto simp: in_slot_def g1_def group_size_def nth_append BlockGroup_def)
  show "block_size (last (group_list g1)) < N" by (simp add: g1_def BlockGroup_def)
  have "group_ok BlockGroup" by (simp add: group_ok_def BlockGroup_def)
  then show "arena_ok g1" using ok lt unfolding arena_ok_def slot by (auto simp: g1_def group_size_def)
qed

lemma add_block_ok:
  assumes "arena_ok g" "arena_room g"
  shows "\<exists>gs b g'. add_block g = Some ((gs * 1024 + b) * 1024, new_blocks g, g') \<and> arena_ok g'
    \<and> 0 < gs \<and> gs \<le> 2048 \<and> b < 1024
    \<and> (\<forall>i c blk. in_slot g' i c blk = (in_slot g i c blk \<or> i = gs - 1 \<and> c = b \<and> blk = new_blocks g))"
proof (cases "block_size (last (group_list g)) < N")
  case True
  show ?thesis unfolding add_block_def using store_block [OF assms(1) True] by blast
next
  case False
  let ?g = "g\<lparr>group_list := group_list g @ [BlockGroup]\<rparr>"
  note o = open_group [OF assms(1) False assms(2)]
  show ?thesis unfolding add_block_def o(1) using store_block [OF o(2,3)] o(4) by fastforce
qed

lemma add_block_finds:
  assumes "arena_ok g" "arena_room g"
  shows "\<exists>base blk g'. add_block g = Some (base, blk, g') \<and> arena_ok g'
    \<and> (\<forall>v j. j < N \<longrightarrow> arena_find (v * 2 ^ 32 + (base + j)) g' = Some (blk, j)
         \<and> arena_find (v * 2 ^ 32 + (base + j)) g = None)
    \<and> (\<forall>oid r. arena_find oid g = Some r \<longrightarrow> arena_find oid g' = Some r)"
proof -
  obtain gs b g' where r: "add_block g = Some ((gs * 1024 + b) * 1024, new_blocks g, g')" "arena_ok g'"
    "0 < gs" "gs \<le> 2048" "b < 1024"
    and slot: "\<And>i c blk. in_slot g' i c blk = (in_slot g i c blk \<or> i = gs - 1 \<and> c = b \<and> blk = new_blocks g)"
    using add_block_ok [OF assms] by blast
  have parts: "arena_find (v * 2 ^ 32 + ((gs * 1024 + b) * 1024 + j)) h = Some (blk, k)
      \<longleftrightarrow> in_slot h (gs - 1) b blk \<and> k = j" if "j < N" for v j h blk k
    using arena_find_parts [of gs b j v h] r that
    by (auto simp: in_slot_def check_def split: bind_splits)
  have old: "blk < new_blocks g" if "in_slot g i c blk" for i c blk
    using assms(1) that by (auto simp: arena_ok_def)
  have inj: "i = i' \<and> c = c'" if "in_slot g' i c blk" "in_slot g' i' c' blk" for i c i' c' blk
    using r(2) that by (auto simp: arena_ok_def)
  have none: "arena_find (v * 2 ^ 32 + ((gs * 1024 + b) * 1024 + j)) g = None" if "j < N" for v j
  proof (rule ccontr)
    assume "\<not> ?thesis"
    then obtain blk k where "arena_find (v * 2 ^ 32 + ((gs * 1024 + b) * 1024 + j)) g = Some (blk, k)" by auto
    then have "in_slot g (gs - 1) b blk" using parts [OF that] by simp
    then have "in_slot g' (gs - 1) b blk" "in_slot g' (gs - 1) b (new_blocks g)" "blk < new_blocks g"
      using slot old by auto
    then show False by (simp add: in_slot_def)
  qed
  have keep: "arena_find oid g' = Some q" if "arena_find oid g = Some q" for oid q
    using that slot by (cases q) (auto simp: arena_find_slot simp del: arena_consts)
  show ?thesis using r(1,2) parts slot none keep by blast
qed

lemma add_block_base:
  assumes "arena_ok g" "arena_room g" "add_block g = Some (base, blk, g')"
  shows "base + 1024 \<le> 4294967296"
  using add_block_ok [OF assms(1,2)] assms(3) by auto

lemma arena_find_inj:
  assumes "arena_ok g" "arena_find x g = Some r" "arena_find y g = Some r"
  shows "x mod 2 ^ 32 = y mod 2 ^ 32"
proof -
  obtain blk j where r: "r = (blk, j)" by fastforce
  have grp: "1 \<le> z div 1024 div 1024 \<and> sub64 (z div 1024 div 1024) 1 = z div 1024 div 1024 - 1"
    if "sub64 (z div 1024 div 1024) 1 < 2048" "z < 4294967296" for z
  proof (cases "z div 1024 div 1024 = 0")
    case True
    then show ?thesis using that(1) by (simp add: sub64_def)
  next
    case False
    then show ?thesis using that(2) by (simp add: wrap_simps)
  qed
  let ?x = "x mod 4294967296" and ?y = "y mod 4294967296"
  have s: "in_slot g (sub64 (?x div 1024 div 1024) 1) (?x div 1024 mod 1024) blk" "j = ?x mod 1024"
    "in_slot g (sub64 (?y div 1024 div 1024) 1) (?y div 1024 mod 1024) blk" "j = ?y mod 1024"
    using assms(2,3) unfolding r arena_find_slot by (simp_all add: and_1023 and_32 drop_bit_eq_div)
  then have eq: "sub64 (?x div 1024 div 1024) 1 = sub64 (?y div 1024 div 1024) 1"
    "?x div 1024 mod 1024 = ?y div 1024 mod 1024" "?x mod 1024 = ?y mod 1024"
    using assms(1) unfolding arena_ok_def by (blast, blast, simp)
  have "sub64 (?x div 1024 div 1024) 1 < 2048" "sub64 (?y div 1024 div 1024) 1 < 2048"
    using s assms(1) by (auto simp: in_slot_def arena_ok_def)
  from grp [OF this(1)] grp [OF this(2)]
  have "1 \<le> ?x div 1024 div 1024" "1 \<le> ?y div 1024 div 1024"
    "?x div 1024 div 1024 - 1 = ?y div 1024 div 1024 - 1" using eq(1) by simp_all
  then have "?x div 1024 div 1024 = ?y div 1024 div 1024" by linarith
  then have "?x div 1024 = ?y div 1024" using eq(2) by (metis div_mult_mod_eq)
  then have "?x = ?y" using eq(3) by (metis div_mult_mod_eq)
  then show ?thesis by simp
qed

lemma add_block_only:
  assumes ok: "arena_ok g" "arena_room g" and run: "add_block g = Some (base, blk, g')" "arena_find n g' = Some r"
  shows "arena_find n g = Some r \<or> (\<exists>j < 1024. n mod 2 ^ 32 = base + j)"
proof -
  obtain gs b where a: "base = (gs * 1024 + b) * 1024" "blk = new_blocks g" "arena_ok g'" "0 < gs" "gs \<le> 2048" "b < 1024"
    and slot: "\<forall>i c blk. in_slot g' i c blk = (in_slot g i c blk \<or> i = gs - 1 \<and> c = b \<and> blk = new_blocks g)"
    using add_block_ok [OF ok] run(1) by auto
  obtain blk' j where r: "r = (blk', j)" by fastforce
  note f = run(2) [unfolded r arena_find_slot]
  have j: "j < 1024" using f by (simp add: and_1023)
  show ?thesis
  proof (cases "arena_find n g = Some r")
    case False
    then have "blk' = new_blocks g" using f slot unfolding r arena_find_slot by (auto simp del: arena_consts)
    moreover have "in_slot g' (gs - 1) b (new_blocks g)" using slot by blast
    then have "arena_find (0 * 4294967296 + (base + j)) g' = Some (new_blocks g, j)"
      using arena_find_parts [of gs b j 0 g'] a j by (simp add: in_slot_def check_def)
    ultimately have "n mod 2 ^ 32 = (base + j) mod 2 ^ 32"
      using arena_find_inj [OF a(3) run(2)] r by simp
    moreover have "base + j < 2 ^ 32" using a j by simp
    ultimately show ?thesis using j by auto
  qed simp
qed

lemma arena_find_GlobalGroup [simp]: "arena_find n GlobalGroup = None"
  by (auto simp: arena_find_def GlobalGroup_def add_group_def group_size_def BlockGroup_def check_def Let_def)

subsection \<open>Properties\<close>

text \<open>(C27) While there is room, acquiring a block gives an id whose 1024 consecutive numbers, with
  any version in the upper half, find the objects of the new block, and every id that was valid
  before still finds the object it found: objects never move.\<close>

theorem arena_acquire_find:
  assumes "arena_ok g" "arena_room g"
  shows "\<exists>base blk g'. add_block g = Some (base, blk, g') \<and> arena_ok g'
    \<and> (\<forall>v j. j < N \<longrightarrow> arena_find (v * 2 ^ 32 + (base + j)) g' = Some (blk, j)
         \<and> arena_find (v * 2 ^ 32 + (base + j)) g = None)
    \<and> (\<forall>oid r. arena_find oid g = Some r \<longrightarrow> arena_find oid g' = Some r)"
  using add_block_finds [OF assms] .

theorem arena_acquire_find_witness:
  "\<exists>base blk g'. add_block GlobalGroup = Some (base, blk, g') \<and> arena_ok g'
    \<and> (\<forall>v j. j < N \<longrightarrow> arena_find (v * 2 ^ 32 + (base + j)) g' = Some (blk, j)
         \<and> arena_find (v * 2 ^ 32 + (base + j)) GlobalGroup = None)
    \<and> (\<forall>oid r. arena_find oid GlobalGroup = Some r \<longrightarrow> arena_find oid g' = Some r)"
  by (rule arena_acquire_find [OF GlobalGroup_ok])

text \<open>Two ids find the same object only if their object numbers agree: the table is injective
  up to versions.\<close>

theorem arena_find_injective:
  assumes "arena_ok g" "arena_find x g = Some r" "arena_find y g = Some r"
  shows "x mod 2 ^ 32 = y mod 2 ^ 32"
  using arena_find_inj [OF assms] .

lemma first_block:
  "add_block GlobalGroup = Some (1048576, 0, \<lparr>group_list = [\<lparr>block_list = [0 \<mapsto> 0], block_size = 1\<rparr>], new_blocks = 1\<rparr>)"
  by (simp add: add_block_def GlobalGroup_def add_group_def group_size_def BlockGroup_def,
      subst add_block_loop.simps)
    (simp add: group_size_def push_bit_eq_mult u64_def Let_def)

theorem arena_find_injective_witness:
  "\<exists>g. arena_find (7 * 2 ^ 32 + 1048579) g = Some (0, 3) \<and> (7 * 2 ^ 32 + 1048579) mod 2 ^ 32 = 1048579 mod (2 ^ 32 :: nat)"
proof -
  obtain base blk g' where a: "add_block GlobalGroup = Some (base, blk, g')" "arena_ok g'"
    "\<forall>v j. j < N \<longrightarrow> arena_find (v * 2 ^ 32 + (base + j)) g' = Some (blk, j)"
    using add_block_finds [OF GlobalGroup_ok] by blast
  then have "base = 1048576" "blk = 0" using first_block by simp_all
  then have f: "arena_find (7 * 2 ^ 32 + 1048579) g' = Some (0, 3)" "arena_find 1048579 g' = Some (0, 3)"
    using a(3) [rule_format, of 3 7] a(3) [rule_format, of 3 0] by simp_all
  from arena_find_injective [OF a(2) this] f(1) show ?thesis by blast
qed

end
