(* ===== verification/Object_Pool.thy ===== *)
theory Object_Pool
  imports Lock_Free_Stack Object_Arena
begin

text \<open>
  \<open>ObjectPool\<close> and \<open>ArenaObjectPool\<close> of \<^verbatim>\<open>object_pool.h\<close>: free objects are kept in groups of up
  to \<open>K\<close> (\<open>kObjectGroupItemSize\<close>). Every thread owns at most one group; groups that hold
  objects and groups that are free lie on two global stacks. The groups live in an
  \<open>ObjectArena\<close>. An operation of a thread is one step here; the interleaving inside the two
  stacks is the subject of \<open>Lock_Free_Stack\<close>, which shows that they act as the lists used here.
\<close>

subsection \<open>State\<close>

record object_group =
  og_size :: nat
  og_items :: "nat \<Rightarrow> nat"

record local_group =
  group_ptr :: "(nat \<times> nat) option"
  group_id :: nat

record pool =
  g_arena :: global_group
  groups :: "nat \<times> nat \<Rightarrow> object_group"
  full_stack :: "nat list"
  free_stack :: "nat list"
  locals :: "local_group list"

text \<open>\<open>ObjectPool\<close> creates objects with \<open>T::NewThis\<close>: objects are numbered in the order of their
  creation, and \<open>news\<close> has the argument of each call. \<open>ArenaObjectPool\<close> takes its objects from a
  second arena.\<close>

record object_pool = pool +
  news :: "nat option list"

record arena_pool = pool +
  o_arena :: global_group

definition LocalObjectGroup :: local_group where
  "LocalObjectGroup = \<lparr>group_ptr = None, group_id = 0\<rparr>"

definition ObjectPool :: "(nat \<times> nat \<Rightarrow> object_group) \<Rightarrow> nat \<Rightarrow> object_pool" where
  "ObjectPool mem n = \<lparr>g_arena = GlobalGroup, groups = mem, full_stack = [], free_stack = [],
     locals = replicate n LocalObjectGroup, news = []\<rparr>"

definition ArenaObjectPool :: "(nat \<times> nat \<Rightarrow> object_group) \<Rightarrow> nat \<Rightarrow> arena_pool" where
  "ArenaObjectPool mem n = \<lparr>g_arena = GlobalGroup, groups = mem, full_stack = [], free_stack = [],
     locals = replicate n LocalObjectGroup, o_arena = GlobalGroup\<rparr>"

subsection \<open>The stacks and the groups\<close>

definition push_full :: "nat \<Rightarrow> 'z pool_scheme \<Rightarrow> 'z pool_scheme option" where
  "push_full v p = do {
     let value = u64 (v + 0x100000000);
     _ \<leftarrow> arena_find value (g_arena p);
     Some (p\<lparr>full_stack := value # full_stack p\<rparr>)}"

definition push_free :: "nat \<Rightarrow> 'z pool_scheme \<Rightarrow> 'z pool_scheme option" where
  "push_free v p = do {
     let value = u64 (v + 0x100000000);
     _ \<leftarrow> arena_find value (g_arena p);
     Some (p\<lparr>free_stack := value # free_stack p\<rparr>)}"

definition pop_full :: "'z pool_scheme \<Rightarrow> nat \<times> 'z pool_scheme" where
  "pop_full p = (case full_stack p of [] \<Rightarrow> (0, p) | v # vs \<Rightarrow> (v, p\<lparr>full_stack := vs\<rparr>))"

definition pop_free :: "'z pool_scheme \<Rightarrow> nat \<times> 'z pool_scheme" where
  "pop_free p = (case free_stack p of [] \<Rightarrow> (0, p) | v # vs \<Rightarrow> (v, p\<lparr>free_stack := vs\<rparr>))"

definition set_local :: "nat \<Rightarrow> (nat \<times> nat) option \<Rightarrow> nat \<Rightarrow> 'z pool_scheme \<Rightarrow> 'z pool_scheme" where
  "set_local t ptr gid p = p\<lparr>locals := (locals p)[t := \<lparr>group_ptr = ptr, group_id = gid\<rparr>]\<rparr>"

definition set_group :: "nat \<times> nat \<Rightarrow> object_group \<Rightarrow> 'z pool_scheme \<Rightarrow> 'z pool_scheme" where
  "set_group a g p = p\<lparr>groups := (groups p)(a := g)\<rparr>"

text \<open>\<open>items[--size]\<close>, and \<open>items[size++] = x\<close>.\<close>

definition take_item :: "nat \<Rightarrow> nat \<times> nat \<Rightarrow> 'z pool_scheme \<Rightarrow> (nat \<times> 'z pool_scheme) option" where
  "take_item K a p = do {
     let g = groups p a;
     check (0 < og_size g \<and> og_size g \<le> K);
     Some (og_items g (og_size g - 1), set_group a (g\<lparr>og_size := og_size g - 1\<rparr>) p)}"

definition put_item :: "nat \<Rightarrow> nat \<Rightarrow> nat \<times> nat \<Rightarrow> 'z pool_scheme \<Rightarrow> 'z pool_scheme option" where
  "put_item K x a p = do {
     let g = groups p a;
     check (og_size g < K);
     Some (set_group a (g\<lparr>og_items := (og_items g)(og_size g := x), og_size := og_size g + 1\<rparr>) p)}"

text \<open>The loop that puts the other groups of a new block on the free stack.\<close>

fun push_free_range :: "nat \<Rightarrow> nat \<Rightarrow> 'z pool_scheme \<Rightarrow> 'z pool_scheme option" where
  "push_free_range 0 free_id p = Some p"
| "push_free_range (Suc k) free_id p = do {
     p1 \<leftarrow> push_free (u64 (free_id + 1)) p;
     push_free_range k (u64 (free_id + 1)) p1}"

definition new_free_object_group :: "nat \<Rightarrow> 'z pool_scheme \<Rightarrow> 'z pool_scheme option" where
  "new_free_object_group t p = (let (gid, p1) = pop_free p in
     if gid \<noteq> 0 then do {
       a \<leftarrow> arena_find gid (g_arena p1);
       Some (set_local t (Some a) gid p1)}
     else do {
       (gid, blk, ga) \<leftarrow> add_block (g_arena p1);
       push_free_range (N - 1) gid (set_local t (Some (blk, 0)) gid (p1\<lparr>g_arena := ga\<rparr>))})"

subsection \<open>The operations of a thread\<close>

text \<open>\<open>got\<close> is what \<open>acquire\<close> returns for an item of a group, \<open>fresh t\<close> what it does when no group with objects is left.\<close>

definition acquire_global :: "nat \<Rightarrow> (nat \<times> 'z pool_scheme \<Rightarrow> 'r option) \<Rightarrow> (nat \<Rightarrow> 'z pool_scheme \<Rightarrow> 'r option)
    \<Rightarrow> nat \<Rightarrow> 'z pool_scheme \<Rightarrow> 'r option" where
  "acquire_global K got fresh t p = (let (gid, p1) = pop_full p in
     if gid \<noteq> 0 then do {
       a \<leftarrow> arena_find gid (g_arena p1);
       xp \<leftarrow> take_item K a (set_local t (Some a) gid p1);
       got xp}
     else fresh t p1)"

definition local_acquire :: "nat \<Rightarrow> (nat \<times> 'z pool_scheme \<Rightarrow> 'r option) \<Rightarrow> (nat \<Rightarrow> 'z pool_scheme \<Rightarrow> 'r option)
    \<Rightarrow> nat \<Rightarrow> 'z pool_scheme \<Rightarrow> 'r option" where
  "local_acquire K got fresh t p = (let l = locals p ! t in
     case group_ptr l of
       Some a \<Rightarrow>
         if 0 < og_size (groups p a) then do {
           xp \<leftarrow> take_item K a p;
           got xp}
         else do {
           p1 \<leftarrow> push_free (group_id l) p;
           acquire_global K got fresh t p1}
     | None \<Rightarrow> acquire_global K got fresh t p)"

definition NewThis :: "nat option \<Rightarrow> object_pool \<Rightarrow> (nat \<times> object_pool) option" where
  "NewThis arg p = Some (length (news p), p\<lparr>news := news p @ [arg]\<rparr>)"

definition pool_acquire :: "nat \<Rightarrow> nat \<Rightarrow> object_pool \<Rightarrow> (nat \<times> object_pool) option" where
  "pool_acquire K t p = local_acquire K Some (\<lambda>t p. NewThis None (set_local t None 0 p)) t p"

definition pool_acquire_arg :: "nat \<Rightarrow> nat \<Rightarrow> nat \<Rightarrow> object_pool \<Rightarrow> (nat \<times> object_pool) option" where
  "pool_acquire_arg K arg t p = local_acquire K Some (\<lambda>t p. NewThis (Some arg) (set_local t None 0 p)) t p"

definition release_new :: "nat \<Rightarrow> nat \<Rightarrow> 'z pool_scheme \<Rightarrow> 'z pool_scheme option" where
  "release_new t x p = do {
     p1 \<leftarrow> new_free_object_group t p;
     a \<leftarrow> group_ptr (locals p1 ! t);
     let g = groups p1 a;
     Some (set_group a (g\<lparr>og_size := 1, og_items := (og_items g)(0 := x)\<rparr>) p1)}"

definition local_release :: "nat \<Rightarrow> nat \<Rightarrow> nat \<Rightarrow> 'z pool_scheme \<Rightarrow> 'z pool_scheme option" where
  "local_release K t x p = (let l = locals p ! t in
     case group_ptr l of
       Some a \<Rightarrow>
         if og_size (groups p a) < K then put_item K x a p
         else do {
           p1 \<leftarrow> push_full (group_id l) p;
           release_new t x p1}
     | None \<Rightarrow> release_new t x p)"

text \<open>The destructor of a thread's group; its slot is then as for a thread that starts.\<close>

definition local_exit :: "nat \<Rightarrow> 'z pool_scheme \<Rightarrow> 'z pool_scheme option" where
  "local_exit t p = (let l = locals p ! t in
     case group_ptr l of
       Some a \<Rightarrow> do {
         p1 \<leftarrow> (if 0 < og_size (groups p a) then push_full (group_id l) p else push_free (group_id l) p);
         Some (set_local t None 0 p1)}
     | None \<Rightarrow> Some (set_local t None 0 p))"

text \<open>\<open>ArenaObjectPool\<close>: a new block of objects fills the thread's group with all but its first object.\<close>

definition fill_items :: "nat \<Rightarrow> nat \<Rightarrow> object_group \<Rightarrow> object_group" where
  "fill_items K tmp_id g = g\<lparr>og_size := K - 1,
     og_items := (\<lambda>i. if i < K - 1 then u64 (tmp_id + (i + 1)) else og_items g i)\<rparr>"

definition arena_fresh :: "nat \<Rightarrow> nat \<Rightarrow> arena_pool \<Rightarrow> (nat \<times> (nat \<times> nat) \<times> arena_pool) option" where
  "arena_fresh K t p = do {
     p1 \<leftarrow> new_free_object_group t p;
     (obj_id, blk, oa) \<leftarrow> add_block (o_arena p1);
     a \<leftarrow> group_ptr (locals p1 ! t);
     Some (obj_id, (blk, 0), set_group a (fill_items K obj_id (groups p1 a)) (p1\<lparr>o_arena := oa\<rparr>))}"

text \<open>The id and the object: the one that the arena finds for an id of a group, or the first one of a new block.\<close>

definition arena_pool_acquire :: "nat \<Rightarrow> arena_pool \<Rightarrow> (nat \<times> (nat \<times> nat) \<times> arena_pool) option" where
  "arena_pool_acquire t p = local_acquire N
     (\<lambda>(obj_id, p1). do {
        obj \<leftarrow> arena_find obj_id (o_arena p1);
        Some (obj_id, obj, p1)})
     (arena_fresh N) t p"

definition arena_pool_release :: "nat \<Rightarrow> nat \<Rightarrow> arena_pool \<Rightarrow> arena_pool option" where
  "arena_pool_release t obj_id p = local_release N t obj_id p"

definition arena_pool_exit :: "nat \<Rightarrow> arena_pool \<Rightarrow> arena_pool option" where
  "arena_pool_exit t p = local_exit t p"

subsection \<open>The invariant\<close>

definition local_ids :: "'z pool_scheme \<Rightarrow> nat list" where
  "local_ids p = concat (map (\<lambda>l. case group_ptr l of None \<Rightarrow> [] | Some a \<Rightarrow> [group_id l]) (locals p))"

definition ids :: "'z pool_scheme \<Rightarrow> nat list" where
  "ids p = full_stack p @ free_stack p @ local_ids p"

definition contents :: "object_group \<Rightarrow> nat list" where
  "contents g = map (og_items g) [0..<og_size g]"

definition live :: "'z pool_scheme \<Rightarrow> nat \<Rightarrow> nat list" where
  "live p v = (case arena_find v (g_arena p) of None \<Rightarrow> [] | Some a \<Rightarrow> contents (groups p a))"

text \<open>The objects in the pool: those of the stacked groups and of the threads' groups.\<close>

definition stored :: "'z pool_scheme \<Rightarrow> nat list" where
  "stored p = concat (map (live p) (full_stack p @ local_ids p))"

text \<open>Every group is on one of the stacks or with one thread, and the stacked groups are not empty.\<close>

definition pool_ok :: "nat \<Rightarrow> 'z pool_scheme \<Rightarrow> bool" where
  "pool_ok K p = (arena_ok (g_arena p) \<and> distinct (map node (ids p))
     \<and> (\<forall>v \<in> set (ids p). arena_find v (g_arena p) \<noteq> None)
     \<and> (\<forall>l \<in> set (locals p). \<forall>a. group_ptr l = Some a \<longrightarrow> arena_find (group_id l) (g_arena p) = Some a)
     \<and> (\<forall>v \<in> set (full_stack p). live p v \<noteq> []) \<and> (\<forall>v \<in> set (full_stack p @ local_ids p). length (live p v) \<le> K))"

lemma node_mod: "node v = v mod 4294967296"
  by (simp add: node_def and_32)

lemma arena_find_node: "node v = node w \<Longrightarrow> arena_find v g = arena_find w g"
  by (simp add: arena_find_def node_def)

lemma live_node: "node v = node w \<Longrightarrow> live p v = live p w"
  by (simp add: live_def arena_find_node [of v w])

lemma node_bump [simp]: "node (u64 (v + 4294967296)) = node v"
  by (simp add: node_mod u64_def mod_mod_cancel)

lemma bump_live [simp]: "live p (u64 (v + 4294967296)) = live p v" "arena_find (u64 (v + 4294967296)) g = arena_find v g"
  by (rule live_node arena_find_node, simp)+

lemma arena_find_nonzero:
  assumes "arena_ok g" "arena_find v g \<noteq> None"
  shows "v \<noteq> 0"
proof
  assume "v = 0"
  moreover have "arena_find 0 g = None"
    using assms(1) by (simp add: arena_find_def arena_ok_def sub64_def check_def)
  ultimately show False using assms(2) by simp
qed

lemma set_local_simps [simp]:
  "g_arena (set_local t ptr v p) = g_arena p" "groups (set_local t ptr v p) = groups p"
  "full_stack (set_local t ptr v p) = full_stack p" "free_stack (set_local t ptr v p) = free_stack p"
  "locals (set_local t ptr v p) = (locals p)[t := \<lparr>group_ptr = ptr, group_id = v\<rparr>]"
  "set_local t ptr v (set_local t ptr' v' p) = set_local t ptr v p"
  by (simp_all add: set_local_def)

lemma set_group_simps [simp]:
  "g_arena (set_group a g p) = g_arena p" "groups (set_group a g p) = (groups p)(a := g)"
  "full_stack (set_group a g p) = full_stack p" "free_stack (set_group a g p) = free_stack p"
  "locals (set_group a g p) = locals p" "local_ids (set_group a g p) = local_ids p" "ids (set_group a g p) = ids p"
  by (simp_all add: set_group_def local_ids_def ids_def)

text \<open>The identities of the threads' groups when one thread gets or loses its group.\<close>

lemma local_ids_set:
  "t < length (locals p) \<Longrightarrow> group_ptr (locals p ! t) = None \<Longrightarrow>
   mset (local_ids (set_local t (Some a) v p)) = add_mset v (mset (local_ids p))"
  using mset_concat_update [of t "locals p" "\<lambda>l. case group_ptr l of None \<Rightarrow> [] | Some a \<Rightarrow> [group_id l]"
      "\<lparr>group_ptr = Some a, group_id = v\<rparr>"]
  by (simp add: local_ids_def)

lemma local_ids_clear:
  "t < length (locals p) \<Longrightarrow> group_ptr (locals p ! t) = Some a \<Longrightarrow>
   mset (local_ids p) = add_mset (group_id (locals p ! t)) (mset (local_ids (set_local t None 0 p)))"
  using mset_concat_update [of t "locals p" "\<lambda>l. case group_ptr l of None \<Rightarrow> [] | Some a \<Rightarrow> [group_id l]"
      "\<lparr>group_ptr = None, group_id = 0\<rparr>"]
  by (simp add: local_ids_def)

lemma local_ids_None:
  "t < length (locals p) \<Longrightarrow> group_ptr (locals p ! t) = None \<Longrightarrow> mset (local_ids (set_local t None 0 p)) = mset (local_ids p)"
  using mset_concat_update [of t "locals p" "\<lambda>l. case group_ptr l of None \<Rightarrow> [] | Some a \<Rightarrow> [group_id l]"
      "\<lparr>group_ptr = None, group_id = 0\<rparr>"]
  by (simp add: local_ids_def)

subsection \<open>Moving groups\<close>

lemma pool_okD:
  assumes "pool_ok K p"
  shows "arena_ok (g_arena p)" "distinct (map node (ids p))"
    "v \<in> set (ids p) \<Longrightarrow> arena_find v (g_arena p) \<noteq> None"
    "t < length (locals p) \<Longrightarrow> group_ptr (locals p ! t) = Some a \<Longrightarrow> arena_find (group_id (locals p ! t)) (g_arena p) = Some a"
    "v \<in> set (full_stack p) \<Longrightarrow> live p v \<noteq> []"
    "v \<in> set (full_stack p @ local_ids p) \<Longrightarrow> length (live p v) \<le> K"
  using assms unfolding pool_ok_def by (blast, blast, blast, metis nth_mem, blast, blast)

lemma local_id_in:
  "t < length (locals p) \<Longrightarrow> group_ptr (locals p ! t) = Some a \<Longrightarrow> group_id (locals p ! t) \<in> set (local_ids p)"
  by (drule (1) local_ids_clear) (metis set_mset_mset union_single_eq_member)

text \<open>A group goes from one place to another, possibly with a new version.\<close>

lemma pool_ok_move:
  assumes ok: "pool_ok K p" and same: "g_arena q = g_arena p" "groups q = groups p"
    and ids: "mset (map node (ids q)) = mset (map node (ids p))"
    and ptrs: "\<forall>l \<in> set (locals q). \<forall>a. group_ptr l = Some a \<longrightarrow> arena_find (group_id l) (g_arena p) = Some a"
    and full: "\<forall>v \<in> set (full_stack q). live p v \<noteq> []"
    and stored: "mset (map (\<lambda>v. live p v) (filter (\<lambda>v. live p v \<noteq> []) (full_stack q @ local_ids q)))
      = mset (map (\<lambda>v. live p v) (filter (\<lambda>v. live p v \<noteq> []) (full_stack p @ local_ids p)))"
  shows "pool_ok K q" "mset (stored q) = mset (stored p)"
proof -
  have live: "live q = live p" by (rule ext) (simp add: live_def same split: option.split)
  have dist: "distinct (map node (ids q))" using ids pool_okD(2) [OF ok] by (metis mset_eq_imp_distinct_iff)
  have valid: "arena_find v (g_arena p) \<noteq> None" if v: "v \<in> set (ids q)" for v
  proof -
    have "node v \<in> set (map node (ids p))" using v ids by (metis image_eqI list.set_map set_mset_mset)
    then obtain w where "w \<in> set (ids p)" "node w = node v" by auto
    then show ?thesis using pool_okD(3) [OF ok] arena_find_node by metis
  qed
  have small: "length (live p v) \<le> K" if "v \<in> set (full_stack q @ local_ids q)" for v
  proof (cases "live p v = []")
    case False
    then have "live p v \<in># mset (map (\<lambda>v. live p v) (filter (\<lambda>v. live p v \<noteq> []) (full_stack q @ local_ids q)))"
      using that by auto
    then have "live p v \<in> set (map (\<lambda>v. live p v) (full_stack p @ local_ids p))"
      unfolding stored by auto
    then show ?thesis using pool_okD(6) [OF ok] by auto
  qed simp
  show "pool_ok K q" unfolding pool_ok_def live same
    using pool_okD(1) [OF ok] dist valid ptrs full small by blast
  have c: "concat (map (live p) xs) = concat (map (\<lambda>v. live p v) (filter (\<lambda>v. live p v \<noteq> []) xs))" for xs
    by (induction xs) auto
  have "mset (concat xs) = \<Sum>\<^sub># (image_mset mset (mset xs))" for xs :: "nat list list"
    by (induction xs) simp_all
  then show "mset (stored q) = mset (stored p)"
    unfolding stored_def live using stored c by metis
qed

definition idle :: "nat \<Rightarrow> 'z pool_scheme \<Rightarrow> bool" where
  "idle t p = (t < length (locals p) \<and> group_ptr (locals p ! t) = None)"

lemma ptrs_clear:
  assumes "pool_ok K p"
  shows "\<forall>l \<in> set ((locals p)[t := \<lparr>group_ptr = None, group_id = 0\<rparr>]). \<forall>a. group_ptr l = Some a \<longrightarrow> arena_find (group_id l) (g_arena p) = Some a"
  using assms set_update_subset_insert [of "locals p" t "\<lparr>group_ptr = None, group_id = 0\<rparr>"]
  unfolding pool_ok_def by fastforce

lemma ptrs_set:
  assumes "pool_ok K p" "arena_find v (g_arena p) = Some a"
  shows "\<forall>l \<in> set ((locals p)[t := \<lparr>group_ptr = Some a, group_id = v\<rparr>]). \<forall>a. group_ptr l = Some a \<longrightarrow> arena_find (group_id l) (g_arena p) = Some a"
  using assms set_update_subset_insert [of "locals p" t "\<lparr>group_ptr = Some a, group_id = v\<rparr>"]
  unfolding pool_ok_def by fastforce

lemma live_at: "arena_find v (g_arena p) = Some a \<Longrightarrow> live p v = contents (groups p a)"
  by (simp add: live_def)

lemma contents_empty [simp]: "(contents g = []) = (og_size g = 0)" "length (contents g) = og_size g"
  by (simp_all add: contents_def)

lemma idle_set [simp]: "t < length (locals p) \<Longrightarrow> idle t (set_local t None v p)"
  by (simp add: idle_def)

lemma ids_simps [simp]:
  "local_ids (p\<lparr>full_stack := vs\<rparr>) = local_ids p" "local_ids (p\<lparr>free_stack := vs\<rparr>) = local_ids p"
  "local_ids (p\<lparr>g_arena := ga\<rparr>) = local_ids p"
  by (simp_all add: local_ids_def)

lemma set_local_stacks:
  "set_local t ptr v (p\<lparr>full_stack := vs\<rparr>) = (set_local t ptr v p)\<lparr>full_stack := vs\<rparr>"
  "set_local t ptr v (p\<lparr>free_stack := vs\<rparr>) = (set_local t ptr v p)\<lparr>free_stack := vs\<rparr>"
  by (simp_all add: set_local_def)

text \<open>The thread gives its group to one of the stacks.\<close>

lemma park_full:
  assumes ok: "pool_ok K p" and t: "t < length (locals p)" "group_ptr (locals p ! t) = Some a"
    and size: "0 < og_size (groups p a)"
  defines "p1 \<equiv> p\<lparr>full_stack := u64 (group_id (locals p ! t) + 4294967296) # full_stack p\<rparr>"
  shows "push_full (group_id (locals p ! t)) p = Some p1" "pool_ok K (set_local t None 0 p1)"
    "mset (stored (set_local t None 0 p1)) = mset (stored p)" "idle t (set_local t None 0 p1)"
proof -
  let ?v = "group_id (locals p ! t)" and ?q = "set_local t None 0 p1"
  have v: "arena_find ?v (g_arena p) = Some a" using pool_okD(4) [OF ok t] .
  then show "push_full ?v p = Some p1" by (simp add: push_full_def p1_def)
  have l: "mset (local_ids p) = add_mset ?v (mset (local_ids ?q))"
    using local_ids_clear [OF t] by (simp add: p1_def set_local_stacks)
  have f: "full_stack ?q = u64 (?v + 4294967296) # full_stack p" "free_stack ?q = free_stack p"
    by (simp_all add: p1_def)
  have "mset (map node (ids ?q)) = mset (map node (ids p))"
    unfolding ids_def f using l by simp
  moreover have "live p ?v \<noteq> []" using size by (simp add: live_at [OF v])
  then have "\<forall>w \<in> set (full_stack ?q). live p w \<noteq> []" unfolding f using pool_okD(5) [OF ok] by auto
  moreover have "mset (map (\<lambda>v. live p v) (filter (\<lambda>v. live p v \<noteq> []) (full_stack ?q @ local_ids ?q)))
      = mset (map (\<lambda>v. live p v) (filter (\<lambda>v. live p v \<noteq> []) (full_stack p @ local_ids p)))"
    unfolding f using l by simp
  ultimately show "pool_ok K ?q" "mset (stored ?q) = mset (stored p)"
    using ptrs_clear [OF ok, of t] pool_ok_move [OF ok, of ?q] by (simp_all add: p1_def)
  show "idle t ?q" using t by (simp add: p1_def)
qed

lemma park_free:
  assumes ok: "pool_ok K p" and t: "t < length (locals p)" "group_ptr (locals p ! t) = Some a"
    and size: "og_size (groups p a) = 0"
  defines "p1 \<equiv> p\<lparr>free_stack := u64 (group_id (locals p ! t) + 4294967296) # free_stack p\<rparr>"
  shows "push_free (group_id (locals p ! t)) p = Some p1" "pool_ok K (set_local t None 0 p1)"
    "mset (stored (set_local t None 0 p1)) = mset (stored p)" "idle t (set_local t None 0 p1)"
proof -
  let ?v = "group_id (locals p ! t)" and ?q = "set_local t None 0 p1"
  have v: "arena_find ?v (g_arena p) = Some a" using pool_okD(4) [OF ok t] .
  then show "push_free ?v p = Some p1" by (simp add: push_free_def p1_def)
  have l: "mset (local_ids p) = add_mset ?v (mset (local_ids ?q))"
    using local_ids_clear [OF t] by (simp add: p1_def set_local_stacks)
  have f: "free_stack ?q = u64 (?v + 4294967296) # free_stack p" "full_stack ?q = full_stack p"
    by (simp_all add: p1_def)
  have "mset (map node (ids ?q)) = mset (map node (ids p))"
    unfolding ids_def f using l by simp
  moreover have "\<forall>w \<in> set (full_stack ?q). live p w \<noteq> []" unfolding f using pool_okD(5) [OF ok] by auto
  moreover have "live p ?v = []" using size by (simp add: live_at [OF v])
  then have "mset (map (\<lambda>v. live p v) (filter (\<lambda>v. live p v \<noteq> []) (full_stack ?q @ local_ids ?q)))
      = mset (map (\<lambda>v. live p v) (filter (\<lambda>v. live p v \<noteq> []) (full_stack p @ local_ids p)))"
    unfolding f using l by simp
  ultimately show "pool_ok K ?q" "mset (stored ?q) = mset (stored p)"
    using ptrs_clear [OF ok, of t] pool_ok_move [OF ok, of ?q] by (simp_all add: p1_def)
  show "idle t ?q" using t by (simp add: p1_def)
qed

text \<open>A thread without a group takes one from the stack of groups with objects.\<close>

lemma take_full:
  assumes ok: "pool_ok K p" and t: "idle t p" and f: "full_stack p = v # vs"
  shows "\<exists>a. arena_find v (g_arena p) = Some a \<and> v \<noteq> 0 \<and> 0 < og_size (groups p a)
    \<and> pool_ok K (set_local t (Some a) v (p\<lparr>full_stack := vs\<rparr>))
    \<and> mset (stored (set_local t (Some a) v (p\<lparr>full_stack := vs\<rparr>))) = mset (stored p)"
proof -
  have in_ids: "v \<in> set (ids p)" by (simp add: ids_def f)
  obtain a where a: "arena_find v (g_arena p) = Some a" using pool_okD(3) [OF ok in_ids] by blast
  let ?q = "set_local t (Some a) v (p\<lparr>full_stack := vs\<rparr>)"
  have nz: "v \<noteq> 0" using arena_find_nonzero [OF pool_okD(1) [OF ok]] a by auto
  have ne: "live p v \<noteq> []" using pool_okD(5) [OF ok] f by simp
  then have size: "0 < og_size (groups p a)" using live_at [of v p a] a by simp
  have l: "mset (local_ids ?q) = add_mset v (mset (local_ids p))"
    using local_ids_set [of t "p\<lparr>full_stack := vs\<rparr>" a v] t by (simp add: idle_def)
  have "mset (map node (ids ?q)) = mset (map node (ids p))"
    unfolding ids_def using l by (simp add: f)
  moreover have "\<forall>w \<in> set (full_stack ?q). live p w \<noteq> []" using pool_okD(5) [OF ok] by (auto simp: f)
  moreover have "mset (map (\<lambda>v. live p v) (filter (\<lambda>v. live p v \<noteq> []) (full_stack ?q @ local_ids ?q)))
      = mset (map (\<lambda>v. live p v) (filter (\<lambda>v. live p v \<noteq> []) (full_stack p @ local_ids p)))"
    using l ne by (simp add: f)
  ultimately have "pool_ok K ?q" "mset (stored ?q) = mset (stored p)"
    using ptrs_set [OF ok a, of t] pool_ok_move [OF ok, of ?q] by simp_all
  then show ?thesis using a nz size by blast
qed

subsection \<open>Changing the thread's group\<close>

lemma set_group_live:
  assumes ok: "pool_ok K p" and t: "t < length (locals p)" "group_ptr (locals p ! t) = Some a"
  shows "live (set_group a g p) (group_id (locals p ! t)) = contents g"
    "w \<in> set (ids p) \<Longrightarrow> w \<noteq> group_id (locals p ! t) \<Longrightarrow> live (set_group a g p) w = live p w"
proof -
  let ?v = "group_id (locals p ! t)"
  have v: "arena_find ?v (g_arena p) = Some a" using pool_okD(4) [OF ok t] .
  then show "live (set_group a g p) ?v = contents g" by (simp add: live_def)
  assume w: "w \<in> set (ids p)" "w \<noteq> ?v"
  have "?v \<in> set (ids p)" using local_id_in [OF t] by (simp add: ids_def)
  then have "node w \<noteq> node ?v" using pool_okD(2) [OF ok] w by (auto simp: distinct_map dest: inj_onD)
  then have "arena_find w (g_arena p) \<noteq> Some a"
    using arena_find_inj [OF pool_okD(1) [OF ok] _ v] by (auto simp: node_mod)
  then show "live (set_group a g p) w = live p w" by (auto simp: live_def split: option.split)
qed

lemma set_group_ok:
  assumes ok: "pool_ok K p" and t: "t < length (locals p)" "group_ptr (locals p ! t) = Some a"
    and g: "og_size g \<le> K"
  shows "pool_ok K (set_group a g p)"
    "mset (stored (set_group a g p)) + mset (contents (groups p a)) = mset (stored p) + mset (contents g)"
proof -
  let ?v = "group_id (locals p ! t)" and ?q = "set_group a g p"
  note live = set_group_live [OF ok t]
  have v: "?v \<in> set (local_ids p)" using local_id_in [OF t] .
  have dist: "distinct (ids p)" using pool_okD(2) [OF ok] by (simp add: distinct_map)
  then have nf: "?v \<notin> set (full_stack p)" using v by (auto simp: ids_def)
  have ne: "live ?q w \<noteq> []" if "w \<in> set (full_stack p)" for w
    using live(2) [of w g] pool_okD(5) [OF ok that] nf that by (cases "w = ?v") (simp_all add: ids_def)
  have small: "length (live ?q w) \<le> K" if "w \<in> set (full_stack p @ local_ids p)" for w
    using live(1) [of g] live(2) [of w g] pool_okD(6) [OF ok] that g
    by (cases "w = ?v") (auto simp: ids_def)
  show "pool_ok K ?q"
    using ok ne small unfolding pool_ok_def set_group_simps by blast
  have vals: "?v \<in> set (full_stack p @ local_ids p)" "distinct (full_stack p @ local_ids p)"
    using v dist by (auto simp: ids_def)
  have "mset (concat (map (live ?q) (full_stack p @ local_ids p))) + mset (live p ?v)
      = mset (concat (map (live p) (full_stack p @ local_ids p))) + mset (live ?q ?v)"
    by (rule mset_concat_change [OF vals]) (auto simp: ids_def intro: live(2))
  then show "mset (stored ?q) + mset (contents (groups p a)) = mset (stored p) + mset (contents g)"
    using live_at [OF pool_okD(4) [OF ok t]] live(1) [of g] by (simp add: stored_def)
qed

lemma take_item_ok:
  assumes ok: "pool_ok K p" and t: "t < length (locals p)" "group_ptr (locals p ! t) = Some a"
    and size: "0 < og_size (groups p a)"
  shows "\<exists>x g. take_item K a p = Some (x, set_group a g p) \<and> pool_ok K (set_group a g p)
    \<and> mset (stored p) = add_mset x (mset (stored (set_group a g p)))"
proof -
  let ?g = "groups p a" and ?n = "og_size (groups p a) - 1"
  have "og_size ?g \<le> K"
    using pool_okD(6) [OF ok, of "group_id (locals p ! t)"] local_id_in [OF t] live_at [OF pool_okD(4) [OF ok t]]
    by simp
  then have run: "take_item K a p = Some (og_items ?g ?n, set_group a (?g\<lparr>og_size := ?n\<rparr>) p)"
    and le: "og_size (?g\<lparr>og_size := ?n\<rparr>) \<le> K" using size by (simp_all add: take_item_def Let_def)
  have "contents ?g = contents (?g\<lparr>og_size := ?n\<rparr>) @ [og_items ?g ?n]"
    using size by (cases "og_size ?g") (simp_all add: contents_def)
  then show ?thesis using set_group_ok [OF ok t le] run by auto
qed

lemma put_item_ok:
  assumes ok: "pool_ok K p" and t: "t < length (locals p)" "group_ptr (locals p ! t) = Some a"
    and size: "og_size (groups p a) < K"
  shows "\<exists>g. put_item K x a p = Some (set_group a g p) \<and> pool_ok K (set_group a g p)
    \<and> mset (stored (set_group a g p)) = add_mset x (mset (stored p))"
proof -
  let ?g = "groups p a"
  let ?g' = "?g\<lparr>og_items := (og_items ?g)(og_size ?g := x), og_size := og_size ?g + 1\<rparr>"
  have run: "put_item K x a p = Some (set_group a ?g' p)" and le: "og_size ?g' \<le> K"
    using size by (simp_all add: put_item_def Let_def)
  have "contents ?g' = contents ?g @ [x]" by (simp add: contents_def)
  then show ?thesis using set_group_ok [OF ok t le] run by auto
qed

subsection \<open>Groups from the free stack and from the arena\<close>

text \<open>What a group on the free stack contains does not matter.\<close>

lemma free_group_ok:
  assumes ok: "pool_ok K p" and v: "v \<in> set (free_stack p)" "arena_find v (g_arena p) = Some a"
  shows "pool_ok K (set_group a g p)" "stored (set_group a g p) = stored p"
proof -
  have live: "live (set_group a g p) w = live p w" if w: "w \<in> set (full_stack p @ local_ids p)" for w
  proof -
    have "v \<in> set (ids p)" "w \<in> set (ids p)" "w \<noteq> v"
      using v w pool_okD(2) [OF ok] by (auto simp: ids_def distinct_map)
    then have "node w \<noteq> node v" using pool_okD(2) [OF ok] by (auto simp: distinct_map dest: inj_onD)
    then have "arena_find w (g_arena p) \<noteq> Some a"
      using arena_find_inj [OF pool_okD(1) [OF ok] _ v(2)] by (auto simp: node_mod)
    then show ?thesis by (auto simp: live_def split: option.split)
  qed
  show "pool_ok K (set_group a g p)"
    using ok live unfolding pool_ok_def set_group_simps by simp
  show "stored (set_group a g p) = stored p"
    unfolding stored_def set_group_simps using live by (metis (no_types, lifting) map_cong)
qed

lemma take_free:
  assumes ok: "pool_ok K p" and t: "idle t p" and f: "free_stack p = v # vs"
    and a: "arena_find v (g_arena p) = Some a" and g: "og_size g \<le> K"
  defines "p1 \<equiv> set_local t (Some a) v (p\<lparr>free_stack := vs\<rparr>)"
  shows "pool_ok K (set_group a g p1)" "mset (stored (set_group a g p1)) = mset (stored p) + mset (contents g)"
proof -
  let ?e = "\<lparr>og_size = 0, og_items = (\<lambda>_. 0)\<rparr>"
  let ?p = "set_group a ?e p" and ?q = "set_group a ?e p1"
  have v: "v \<in> set (free_stack p)" by (simp add: f)
  note p = free_group_ok [OF ok v a, of ?e]
  have tl: "t < length (locals p)" using t by (simp add: idle_def)
  have l: "mset (local_ids ?q) = add_mset v (mset (local_ids p))"
    using local_ids_set [of t "p\<lparr>free_stack := vs\<rparr>" a v] t by (simp add: idle_def p1_def)
  have fs: "full_stack ?q = full_stack ?p" "free_stack ?q = vs" "free_stack ?p = v # vs" by (simp_all add: p1_def f)
  have "mset (map node (ids ?q)) = mset (map node (ids ?p))"
    unfolding ids_def fs using l by simp
  moreover have "\<forall>w \<in> set (full_stack ?q). live ?p w \<noteq> []" unfolding fs using pool_okD(5) [OF p(1)] by auto
  moreover have "live ?p v = []" using a by (simp add: live_def)
  then have "mset (map (\<lambda>v. live ?p v) (filter (\<lambda>v. live ?p v \<noteq> []) (full_stack ?q @ local_ids ?q)))
      = mset (map (\<lambda>v. live ?p v) (filter (\<lambda>v. live ?p v \<noteq> []) (full_stack ?p @ local_ids ?p)))"
    unfolding fs using l by simp
  moreover have "g_arena ?q = g_arena ?p" "groups ?q = groups ?p" by (simp_all add: p1_def)
  moreover have "\<forall>l \<in> set (locals ?q). \<forall>a. group_ptr l = Some a \<longrightarrow> arena_find (group_id l) (g_arena ?p) = Some a"
    using ptrs_set [OF ok a, of t] by (simp add: p1_def)
  ultimately have q: "pool_ok K ?q" "mset (stored ?q) = mset (stored ?p)"
    using pool_ok_move [OF p(1), of ?q] by blast+
  have ql: "t < length (locals ?q)" "group_ptr (locals ?q ! t) = Some a" using tl by (simp_all add: p1_def)
  have "set_group a g ?q = set_group a g p1" by (simp add: set_group_def)
  then show "pool_ok K (set_group a g p1)" "mset (stored (set_group a g p1)) = mset (stored p) + mset (contents g)"
    using set_group_ok [OF q(1) ql g] q(2) p(2) by (simp_all add: contents_def)
qed

lemma new_ids_ok:
  assumes ok: "pool_ok K p" and ga: "arena_ok ga"
    and keep: "\<And>oid r. arena_find oid (g_arena p) = Some r \<Longrightarrow> arena_find oid ga = Some r"
    and new: "\<And>v. v \<in> set vs \<Longrightarrow> arena_find v ga \<noteq> None \<and> arena_find v (g_arena p) = None"
    and dist: "distinct (map node vs)"
  shows "pool_ok K (p\<lparr>g_arena := ga, free_stack := vs @ free_stack p\<rparr>)"
    "stored (p\<lparr>g_arena := ga, free_stack := vs @ free_stack p\<rparr>) = stored p"
proof -
  let ?q = "p\<lparr>g_arena := ga, free_stack := vs @ free_stack p\<rparr>"
  have found: "arena_find w (g_arena p) \<noteq> None" if "w \<in> set (ids p)" for w using pool_okD(3) [OF ok that] .
  have live: "live ?q w = live p w" if w: "w \<in> set (full_stack p @ local_ids p)" for w
  proof -
    have "w \<in> set (ids p)" using w by (auto simp: ids_def)
    from found [OF this] obtain r where "arena_find w (g_arena p) = Some r" by blast
    then show ?thesis using keep by (simp add: live_def)
  qed
  have lq: "local_ids ?q = local_ids p" by (simp add: local_ids_def)
  have apart: "node w \<noteq> node v" if "v \<in> set vs" "w \<in> set (ids p)" for v w
    using new [OF that(1)] found [OF that(2)] arena_find_node [of w v] by metis
  have "set (map node vs) \<inter> set (map node (ids p)) = {}"
  proof -
    have "x \<noteq> y" if x: "x \<in> set (map node vs)" and y: "y \<in> set (map node (ids p))" for x y
      using x y apart by (metis (no_types, lifting) imageE list.set_map)
    then show ?thesis by blast
  qed
  then have "distinct (map node (vs @ ids p))" using dist pool_okD(2) [OF ok] by (simp only: map_append distinct_append)
  moreover have "mset (map node (ids ?q)) = mset (map node (vs @ ids p))" by (simp add: ids_def lq)
  ultimately have d: "distinct (map node (ids ?q))" by (metis mset_eq_imp_distinct_iff)
  have valid: "arena_find w ga \<noteq> None" if "w \<in> set (ids ?q)" for w
  proof (cases "w \<in> set vs")
    case False
    then have "w \<in> set (ids p)" using that by (auto simp: ids_def lq)
    then show ?thesis using found keep by blast
  qed (use new in blast)
  have ptrs: "\<forall>l \<in> set (locals p). \<forall>a. group_ptr l = Some a \<longrightarrow> arena_find (group_id l) ga = Some a"
    using ok keep unfolding pool_ok_def by blast
  show "pool_ok K ?q"
    using ga d valid ptrs live pool_okD(5,6) [OF ok] unfolding pool_ok_def lq by simp
  show "stored ?q = stored p"
  proof -
    have "map (live ?q) (full_stack p @ local_ids p) = map (live p) (full_stack p @ local_ids p)"
      by (rule map_cong [OF refl live])
    then show ?thesis unfolding stored_def lq by (simp del: map_eq_conv map_append)
  qed
qed

lemma push_free_Some:
  "arena_find v (g_arena p) \<noteq> None \<Longrightarrow>
   push_free v p = Some (p\<lparr>free_stack := u64 (v + 4294967296) # free_stack p\<rparr>)"
  by (auto simp: push_free_def)

lemma push_free_range_eq:
  "free_id + k < 2 ^ 64 \<Longrightarrow> (\<And>j. j \<le> k \<Longrightarrow> arena_find (free_id + j) (g_arena p) \<noteq> None) \<Longrightarrow>
   push_free_range k free_id p = Some (p\<lparr>free_stack := rev (map (\<lambda>j. u64 (free_id + Suc j + 4294967296)) [0..<k]) @ free_stack p\<rparr>)"
proof (induction k arbitrary: free_id p)
  case 0
  then show ?case by simp
next
  case (Suc k)
  have u: "u64 (free_id + 1) = free_id + 1" using Suc.prems(1) by (simp add: u64_def)
  have "arena_find (free_id + 1) (g_arena p) \<noteq> None" using Suc.prems(2) [of 1] by simp
  then obtain r where r: "arena_find (Suc free_id) (g_arena p) = Some r" by auto
  let ?p = "p\<lparr>free_stack := u64 (Suc free_id + 4294967296) # free_stack p\<rparr>"
  have 1: "push_free (Suc free_id) p = Some ?p" by (rule push_free_Some) (simp add: r)
  have 2: "push_free_range k (Suc free_id) ?p
      = Some (?p\<lparr>free_stack := rev (map (\<lambda>j. u64 (Suc free_id + Suc j + 4294967296)) [0..<k]) @ free_stack ?p\<rparr>)"
    using Suc.prems(1) Suc.prems(2) [of "Suc j" for j] by (intro Suc.IH) simp_all
  have "map (\<lambda>j. u64 (free_id + Suc j + 4294967296)) [0..<Suc k]
      = u64 (Suc free_id + 4294967296) # map (\<lambda>j. u64 (Suc free_id + Suc j + 4294967296)) [0..<k]"
    unfolding upt_rec [of 0 "Suc k"] by (simp add: map_Suc_upt [symmetric] comp_def del: upt_Suc)
  then show ?case using u 1 2 by (simp del: upt_Suc)
qed

lemma new_block_ids:
  assumes "arena_ok g" "arena_room g"
  shows "\<exists>base blk ga. add_block g = Some (base, blk, ga) \<and> arena_ok ga \<and> base + 1024 \<le> 4294967296
    \<and> (\<forall>j < 1024. arena_find (base + j) ga = Some (blk, j) \<and> arena_find (base + j) g = None)
    \<and> (\<forall>oid r. arena_find oid g = Some r \<longrightarrow> arena_find oid ga = Some r)"
proof -
  obtain base blk ga where a: "add_block g = Some (base, blk, ga)" "arena_ok ga"
    "\<forall>v j. j < N \<longrightarrow> arena_find (v * 2 ^ 32 + (base + j)) ga = Some (blk, j) \<and> arena_find (v * 2 ^ 32 + (base + j)) g = None"
    "\<forall>oid r. arena_find oid g = Some r \<longrightarrow> arena_find oid ga = Some r"
    using add_block_finds [OF assms] by blast
  have "arena_find (base + j) ga = Some (blk, j) \<and> arena_find (base + j) g = None" if "j < 1024" for j
    using a(3) [rule_format, of j 0] that by simp
  then show ?thesis using a(1,2,4) add_block_base [OF assms a(1)] by blast
qed

text \<open>What an operation on the groups leaves alone: the fields of the larger record and the number of threads.\<close>

definition frame :: "'z pool_scheme \<Rightarrow> 'z pool_scheme \<Rightarrow> bool" where
  "frame p q = (pool.more q = pool.more p \<and> length (locals q) = length (locals p))"

lemma frame_simps [simp]:
  "frame p p" "frame (set_local t ptr v p) q = frame p q" "frame p (set_local t ptr v q) = frame p q" "frame p (set_group a g q) = frame p q"
  "frame p (q\<lparr>full_stack := vs\<rparr>) = frame p q" "frame p (q\<lparr>free_stack := vs\<rparr>) = frame p q" "frame p (q\<lparr>g_arena := ga\<rparr>) = frame p q"
  by (simp_all add: frame_def set_local_def set_group_def)

lemma frame_trans: "frame p q \<Longrightarrow> frame q r \<Longrightarrow> frame p r"
  by (simp add: frame_def)

lemma frame_threads: "frame p q \<Longrightarrow> length (locals q) = length (locals p)"
  by (simp add: frame_def)

lemma new_free_ok:
  assumes ok: "pool_ok K p" and t: "idle t p" and room: "arena_room (g_arena p)"
  shows "\<exists>a p1. new_free_object_group t p = Some p1 \<and> frame p p1 \<and> groups p1 = groups p \<and> group_ptr (locals p1 ! t) = Some a
    \<and> (\<forall>g. og_size g \<le> K \<longrightarrow> pool_ok K (set_group a g p1) \<and> mset (stored (set_group a g p1)) = mset (stored p) + mset (contents g))"
proof (cases "free_stack p")
  case (Cons v vs)
  then have "v \<in> set (ids p)" by (simp add: ids_def)
  from pool_okD(3) [OF ok this] obtain a where a: "arena_find v (g_arena p) = Some a" by blast
  then have nz: "v \<noteq> 0" using arena_find_nonzero [OF pool_okD(1) [OF ok]] by auto
  let ?p1 = "set_local t (Some a) v (p\<lparr>free_stack := vs\<rparr>)"
  have "new_free_object_group t p = Some ?p1"
    using Cons a nz by (simp add: new_free_object_group_def pop_free_def)
  moreover have "group_ptr (locals ?p1 ! t) = Some a" using t by (simp add: idle_def)
  ultimately show ?thesis using take_free [OF ok t Cons a]
    by (intro exI [of _ a] exI [of _ ?p1]) simp
next
  case Nil
  obtain base blk ga where b: "add_block (g_arena p) = Some (base, blk, ga)" "arena_ok ga" "base + 1024 \<le> 4294967296"
    "\<forall>j < 1024. arena_find (base + j) ga = Some (blk, j) \<and> arena_find (base + j) (g_arena p) = None"
    "\<forall>oid r. arena_find oid (g_arena p) = Some r \<longrightarrow> arena_find oid ga = Some r"
    using new_block_ids [OF pool_okD(1) [OF ok] room] by blast
  let ?rest = "rev (map (\<lambda>j. u64 (base + Suc j + 4294967296)) [0..<1023])"
  let ?p1 = "set_local t (Some (blk, 0)) base (p\<lparr>g_arena := ga, free_stack := ?rest\<rparr>)"
  have "push_free_range 1023 base (set_local t (Some (blk, 0)) base (p\<lparr>g_arena := ga\<rparr>))
      = Some ((set_local t (Some (blk, 0)) base (p\<lparr>g_arena := ga\<rparr>))\<lparr>free_stack := ?rest @ free_stack p\<rparr>)"
    using push_free_range_eq [of base 1023 "set_local t (Some (blk, 0)) base (p\<lparr>g_arena := ga\<rparr>)"] b(3,4) by simp
  then have run: "new_free_object_group t p = Some ?p1"
    using Nil b(1) by (simp add: new_free_object_group_def pop_free_def set_local_def)
  let ?q = "p\<lparr>g_arena := ga, free_stack := (base # ?rest) @ free_stack p\<rparr>"
  have nodes: "node (base + j) = base + j" if "j < 1024" for j using that b(3) by (simp add: node_mod)
  have "map node (base # rev ?rest) = map (\<lambda>j. base + j) [0..<1024]"
  proof -
    have "node (u64 (base + Suc j + 4294967296)) = base + Suc j" if "j \<in> set [0..<1023]" for j
      unfolding node_bump using nodes [of "Suc j"] that by simp
    then have "map node (rev ?rest) = map (\<lambda>j. base + Suc j) [0..<1023]"
      unfolding rev_rev_ident map_map comp_def by (rule map_cong [OF refl])
    then have "map node (base # rev ?rest) = base # map (\<lambda>j. base + j) (map Suc [0..<1023])"
      using nodes [of 0] by (simp del: upt_Suc add: comp_def)
    also have "\<dots> = map (\<lambda>j. base + j) (0 # [1..<1024])" by (simp add: map_Suc_upt del: upt_Suc)
    also have "0 # [1..<1024] = [0..<1024 :: nat]" by (simp add: upt_rec [of 0 1024] del: upt_Suc)
    finally show ?thesis .
  qed
  then have "distinct (map node (base # rev ?rest))" by (simp only: distinct_map) (simp add: inj_on_def)
  moreover have "mset (map node (base # ?rest)) = mset (map node (base # rev ?rest))"
    by (simp only: mset_map mset.simps mset_rev)
  ultimately have dist: "distinct (map node (base # ?rest))" using mset_eq_imp_distinct_iff by blast
  have new: "arena_find v ga \<noteq> None \<and> arena_find v (g_arena p) = None" if v: "v \<in> set (base # ?rest)" for v
  proof -
    obtain j where "j < 1024" "node v = node (base + j)"
    proof (cases "v = base")
      case True
      then show ?thesis using that [of 0] by simp
    next
      case False
      then obtain j where "j < 1023" "v = u64 (base + Suc j + 4294967296)" using v by (auto simp del: upt_Suc)
      then show ?thesis using that [of "Suc j"] node_bump [of "base + Suc j"] by simp
    qed
    then show ?thesis using b(4) arena_find_node [of v "base + j"] by simp
  qed
  have qt: "idle t ?q" using t by (simp add: idle_def)
  have q: "pool_ok K ?q" "stored ?q = stored p" using new_ids_ok [OF ok b(2) _ new dist] b(5) by blast+
  have f: "free_stack ?q = base # ?rest" using Nil by simp
  have a: "arena_find base (g_arena ?q) = Some (blk, 0)" using b(4) [rule_format, of 0] by (simp del: upt_Suc)
  have p1: "set_local t (Some (blk, 0)) base (?q\<lparr>free_stack := ?rest\<rparr>) = ?p1" by simp
  have "pool_ok K (set_group (blk, 0) g ?p1) \<and> mset (stored (set_group (blk, 0) g ?p1)) = mset (stored p) + mset (contents g)"
    if g: "og_size g \<le> K" for g
    using take_free [OF q(1) qt f a g] unfolding p1 q(2) by blast
  then show ?thesis using run t
    by (intro exI [of _ "(blk, 0)"] exI [of _ ?p1]) (simp add: idle_def)
qed

subsection \<open>The operations keep the invariant\<close>

lemma release_new_ok:
  assumes ok: "pool_ok K p" and t: "idle t p" and room: "arena_room (g_arena p)" and K: "1 \<le> K"
  shows "\<exists>p1. release_new t x p = Some p1 \<and> frame p p1 \<and> pool_ok K p1 \<and> mset (stored p1) = add_mset x (mset (stored p))"
proof -
  obtain a p1 where n: "new_free_object_group t p = Some p1" "frame p p1" "groups p1 = groups p" "group_ptr (locals p1 ! t) = Some a"
    and g: "\<And>g. og_size g \<le> K \<Longrightarrow> pool_ok K (set_group a g p1)
        \<and> mset (stored (set_group a g p1)) = mset (stored p) + mset (contents g)"
    using new_free_ok [OF ok t room] by blast
  let ?g = "(groups p a)\<lparr>og_size := 1, og_items := (og_items (groups p a))(0 := x)\<rparr>"
  have "contents ?g = [x]" "og_size ?g \<le> K" using K by (simp_all add: contents_def)
  moreover have "release_new t x p = Some (set_group a ?g p1)"
    using n by (simp add: release_new_def Let_def)
  ultimately show ?thesis using g [of ?g] n(2) by (intro exI [of _ "set_group a ?g p1"]) simp
qed

text \<open>What follows a push of the thread's group does not read the thread's old group.\<close>

lemma clear_local:
  "new_free_object_group t (set_local t None 0 p) = new_free_object_group t p"
  "release_new t x (set_local t None 0 p) = release_new t x p"
  "pop_full (set_local t None 0 p) = (fst (pop_full p), set_local t None 0 (snd (pop_full p)))"
proof -
  have u: "(set_local t None 0 p)\<lparr>free_stack := vs\<rparr> = set_local t None 0 (p\<lparr>free_stack := vs\<rparr>)"
    "(set_local t None 0 p)\<lparr>full_stack := vs\<rparr> = set_local t None 0 (p\<lparr>full_stack := vs\<rparr>)"
    "(set_local t None 0 p)\<lparr>g_arena := g\<rparr> = set_local t None 0 (p\<lparr>g_arena := g\<rparr>)"
    for p :: "'a pool_scheme" and vs g by (simp_all add: set_local_def)
  show n: "new_free_object_group t (set_local t None 0 p) = new_free_object_group t p"
    by (simp add: new_free_object_group_def pop_free_def u split: list.split)
  show "release_new t x (set_local t None 0 p) = release_new t x p" by (simp add: release_new_def n)
  show "pop_full (set_local t None 0 p) = (fst (pop_full p), set_local t None 0 (snd (pop_full p)))"
    by (simp add: pop_full_def u split: list.split)
qed

lemma local_release_ok:
  assumes ok: "pool_ok K p" and t: "t < length (locals p)" and room: "arena_room (g_arena p)" and K: "1 \<le> K"
  shows "\<exists>p1. local_release K t x p = Some p1 \<and> frame p p1 \<and> pool_ok K p1 \<and> mset (stored p1) = add_mset x (mset (stored p))"
proof (cases "group_ptr (locals p ! t)")
  case None
  then have "local_release K t x p = release_new t x p" "idle t p" using t by (simp_all add: local_release_def idle_def)
  then show ?thesis using release_new_ok [OF ok _ room K, of t x] by simp
next
  case (Some a)
  show ?thesis
  proof (cases "og_size (groups p a) < K")
    case True
    then have "local_release K t x p = put_item K x a p" using Some by (simp add: local_release_def)
    then show ?thesis using put_item_ok [OF ok t Some True, of x] by auto
  next
    case False
    then have size: "0 < og_size (groups p a)" using K by simp
    define p1 where "p1 = p\<lparr>full_stack := u64 (group_id (locals p ! t) + 4294967296) # full_stack p\<rparr>"
    note park = park_full [OF ok t Some size, folded p1_def]
    have "local_release K t x p = release_new t x (set_local t None 0 p1)"
      using Some False park(1) by (simp add: local_release_def clear_local)
    moreover have "arena_room (g_arena (set_local t None 0 p1))" using room by (simp add: p1_def)
    from release_new_ok [OF park(2,4) this K, of x] park(3)
    obtain p2 where "release_new t x (set_local t None 0 p1) = Some p2" "frame p1 p2" "pool_ok K p2"
      "mset (stored p2) = add_mset x (mset (stored p))" by auto
    moreover have "frame p p1" by (simp add: p1_def)
    ultimately show ?thesis using frame_trans by metis
  qed
qed

text \<open>A thread that ends leaves the objects of its group to the others.\<close>

lemma local_exit_ok:
  assumes ok: "pool_ok K p" and t: "t < length (locals p)"
  shows "\<exists>p1. local_exit t p = Some p1 \<and> frame p p1 \<and> pool_ok K p1 \<and> mset (stored p1) = mset (stored p)
    \<and> g_arena p1 = g_arena p"
proof (cases "group_ptr (locals p ! t)")
  case None
  let ?q = "set_local t None 0 p"
  have l: "mset (local_ids ?q) = mset (local_ids p)" by (rule local_ids_None [OF t None])
  then have "pool_ok K ?q" "mset (stored ?q) = mset (stored p)"
    using ptrs_clear [OF ok, of t] pool_okD(5) [OF ok] pool_ok_move [OF ok, of ?q] by (simp_all add: ids_def)
  then show ?thesis using None by (simp add: local_exit_def)
next
  case (Some a)
  show ?thesis
  proof (cases "0 < og_size (groups p a)")
    case True
    then show ?thesis using park_full [OF ok t Some True] Some by (simp add: local_exit_def)
  next
    case False
    then have z: "og_size (groups p a) = 0" by simp
    show ?thesis using park_free [OF ok t Some z] Some z by (simp add: local_exit_def)
  qed
qed

text \<open>\<open>acquire\<close> hands out a stored object, or comes to its last resort with no stacked group left.\<close>

lemma acquire_global_ok:
  assumes ok: "pool_ok K p" and t: "idle t p"
  shows "(\<exists>x p1. acquire_global K got fresh t p = got (x, p1) \<and> frame p p1 \<and> pool_ok K p1
      \<and> mset (stored p) = add_mset x (mset (stored p1)) \<and> g_arena p1 = g_arena p)
    \<or> full_stack p = [] \<and> acquire_global K got fresh t p = fresh t p"
proof (cases "full_stack p")
  case Nil
  then show ?thesis by (simp add: acquire_global_def pop_full_def)
next
  case (Cons v vs)
  from take_full [OF ok t Cons] obtain a where a: "arena_find v (g_arena p) = Some a" "v \<noteq> 0" "0 < og_size (groups p a)"
    "pool_ok K (set_local t (Some a) v (p\<lparr>full_stack := vs\<rparr>))"
    "mset (stored (set_local t (Some a) v (p\<lparr>full_stack := vs\<rparr>))) = mset (stored p)" by blast
  let ?p = "set_local t (Some a) v (p\<lparr>full_stack := vs\<rparr>)"
  have "t < length (locals ?p)" "group_ptr (locals ?p ! t) = Some a" "0 < og_size (groups ?p a)"
    using t a(3) by (simp_all add: idle_def)
  from take_item_ok [OF a(4) this] obtain x g where "take_item K a ?p = Some (x, set_group a g ?p)"
    "pool_ok K (set_group a g ?p)" "mset (stored ?p) = add_mset x (mset (stored (set_group a g ?p)))" by blast
  moreover have "acquire_global K got fresh t p = Option.bind (take_item K a ?p) got"
    using Cons a by (simp add: acquire_global_def pop_full_def)
  ultimately show ?thesis using a(5) by (intro disjI1 exI [of _ x] exI [of _ "set_group a g ?p"]) simp
qed

lemma acquire_global_clear:
  assumes "\<And>p. fresh t (set_local t None 0 p) = fresh t p"
  shows "acquire_global K got fresh t (set_local t None 0 p) = acquire_global K got fresh t p"
  by (simp add: acquire_global_def clear_local assms case_prod_beta' Let_def)

lemma local_acquire_ok:
  assumes ok: "pool_ok K p" and t: "t < length (locals p)" and fresh: "\<And>p. fresh t (set_local t None 0 p) = fresh t p"
  shows "(\<exists>x p1. local_acquire K got fresh t p = got (x, p1) \<and> frame p p1 \<and> pool_ok K p1
      \<and> mset (stored p) = add_mset x (mset (stored p1)) \<and> g_arena p1 = g_arena p)
    \<or> (\<exists>p1. local_acquire K got fresh t p = fresh t p1 \<and> idle t p1 \<and> frame p p1 \<and> pool_ok K p1
      \<and> mset (stored p1) = mset (stored p) \<and> g_arena p1 = g_arena p)"
proof (cases "group_ptr (locals p ! t)")
  case None
  then have "local_acquire K got fresh t p = acquire_global K got fresh t p" "idle t p"
    using t by (simp_all add: local_acquire_def idle_def)
  then show ?thesis using acquire_global_ok [OF ok, of t got fresh] ok frame_simps(1) by metis
next
  case (Some a)
  show ?thesis
  proof (cases "0 < og_size (groups p a)")
    case True
    then have "local_acquire K got fresh t p = Option.bind (take_item K a p) got" using Some by (simp add: local_acquire_def)
    moreover obtain x g where "take_item K a p = Some (x, set_group a g p)" "pool_ok K (set_group a g p)"
      "mset (stored p) = add_mset x (mset (stored (set_group a g p)))" using take_item_ok [OF ok t Some True] by blast
    ultimately show ?thesis by (intro disjI1 exI [of _ x] exI [of _ "set_group a g p"]) simp
  next
    case False
    then have z: "og_size (groups p a) = 0" by simp
    define p1 where "p1 = p\<lparr>free_stack := u64 (group_id (locals p ! t) + 4294967296) # free_stack p\<rparr>"
    define q where "q = set_local t None 0 p1"
    note park = park_free [OF ok t Some z, folded p1_def, folded q_def]
    have run: "local_acquire K got fresh t p = acquire_global K got fresh t q"
      using Some z park(1) acquire_global_clear [of fresh t K got p1] fresh by (simp add: local_acquire_def q_def)
    have q: "frame p q" "g_arena q = g_arena p" by (simp_all add: q_def p1_def)
    from acquire_global_ok [OF park(2,4), of got fresh] show ?thesis
    proof (elim disjE exE conjE)
      fix x p2
      assume "acquire_global K got fresh t q = got (x, p2)" "frame q p2" "pool_ok K p2"
        "mset (stored q) = add_mset x (mset (stored p2))" "g_arena p2 = g_arena q"
      then show ?thesis using run q park(3) frame_trans by (intro disjI1 exI [of _ x] exI [of _ p2]) auto
    next
      assume "acquire_global K got fresh t q = fresh t q"
      then show ?thesis using run q park by (intro disjI2 exI [of _ q]) auto
    qed
  qed
qed

subsection \<open>What a client may rely on\<close>

text \<open>The states that calls of any threads can reach, with the objects that are held; \<open>room\<close> says that
  the arenas have room. A held object may be given back under another version of its id.\<close>

inductive client_reach ::
  "(nat \<Rightarrow> 'p \<Rightarrow> (nat \<times> 'p) option) \<Rightarrow> (nat \<Rightarrow> nat \<Rightarrow> 'p \<Rightarrow> 'p option) \<Rightarrow> (nat \<Rightarrow> 'p \<Rightarrow> 'p option)
    \<Rightarrow> (nat \<Rightarrow> nat) \<Rightarrow> ('p \<Rightarrow> nat) \<Rightarrow> ('p \<Rightarrow> bool) \<Rightarrow> 'p \<Rightarrow> 'p \<Rightarrow> nat list \<Rightarrow> bool"
  for acq rel ext name threads room p0 where
  start: "client_reach acq rel ext name threads room p0 p0 []"
| acquire: "client_reach acq rel ext name threads room p0 p H \<Longrightarrow> t < threads p \<Longrightarrow> room p \<Longrightarrow>
    acq t p = Some (x, p') \<Longrightarrow> client_reach acq rel ext name threads room p0 p' (x # H)"
| release: "client_reach acq rel ext name threads room p0 p H \<Longrightarrow> t < threads p \<Longrightarrow> room p \<Longrightarrow>
    x \<in> set H \<Longrightarrow> name y = name x \<Longrightarrow> rel t y p = Some p' \<Longrightarrow>
    client_reach acq rel ext name threads room p0 p' (remove1 x H)"
| exit: "client_reach acq rel ext name threads room p0 p H \<Longrightarrow> t < threads p \<Longrightarrow>
    ext t p = Some p' \<Longrightarrow> client_reach acq rel ext name threads room p0 p' H"

locale object_source =
  fixes inv :: "nat list \<Rightarrow> 'p \<Rightarrow> bool"
    and acq :: "nat \<Rightarrow> 'p \<Rightarrow> (nat \<times> 'p) option" and rel :: "nat \<Rightarrow> nat \<Rightarrow> 'p \<Rightarrow> 'p option"
    and ext :: "nat \<Rightarrow> 'p \<Rightarrow> 'p option" and name :: "nat \<Rightarrow> nat" and threads :: "'p \<Rightarrow> nat" and room :: "'p \<Rightarrow> bool"
  assumes acquire_law: "inv H p \<Longrightarrow> t < threads p \<Longrightarrow> room p \<Longrightarrow> \<exists>x p'. acq t p = Some (x, p') \<and> inv (x # H) p'"
    and release_law: "inv H p \<Longrightarrow> t < threads p \<Longrightarrow> room p \<Longrightarrow> x \<in> set H \<Longrightarrow> name y = name x \<Longrightarrow>
      \<exists>p'. rel t y p = Some p' \<and> inv (remove1 x H) p'"
    and exit_law: "inv H p \<Longrightarrow> t < threads p \<Longrightarrow> \<exists>p'. ext t p = Some p' \<and> inv H p'"
    and held_distinct: "inv H p \<Longrightarrow> distinct (map name H)"
begin

lemma reach_inv:
  assumes "inv [] p0" "client_reach acq rel ext name threads room p0 p H"
  shows "inv H p"
  using assms(2,1)
proof induction
  case (acquire p H t x p')
  then show ?case using acquire_law [of H p t] by auto
next
  case (release p H t x y p')
  then show ?case using release_law [of H p t x y] by auto
next
  case (exit p H t p')
  then show ?case using exit_law [of H p t] by auto
qed

lemma exclusive:
  assumes "inv [] p0" "client_reach acq rel ext name threads room p0 p H" "t < threads p" "room p"
  shows "distinct (map name H)" "\<exists>x p'. acq t p = Some (x, p') \<and> name x \<notin> name ` set H"
    "x \<in> set H \<Longrightarrow> name y = name x \<Longrightarrow> \<exists>p'. rel t y p = Some p'" "\<exists>p'. ext t p = Some p'"
proof -
  have inv: "inv H p" using reach_inv assms(1,2) .
  then show "distinct (map name H)" by (rule held_distinct)
  from acquire_law [OF inv assms(3,4)] held_distinct show "\<exists>x p'. acq t p = Some (x, p') \<and> name x \<notin> name ` set H"
    by fastforce
  show "\<exists>p'. rel t y p = Some p'" if "x \<in> set H" "name y = name x" using release_law [OF inv assms(3,4) that] by blast
  show "\<exists>p'. ext t p = Some p'" using exit_law [OF inv assms(3)] by blast
qed

end

subsection \<open>ObjectPool\<close>

text \<open>Every object that was ever created is stored or held, once.\<close>

definition pool_inv :: "nat \<Rightarrow> nat list \<Rightarrow> object_pool \<Rightarrow> bool" where
  "pool_inv K H p = (1 \<le> K \<and> pool_ok K p \<and> mset (stored p) + mset H = mset [0..<length (news p)])"

definition n_threads :: "'z pool_scheme \<Rightarrow> nat" where
  "n_threads p = length (locals p)"

definition pool_room :: "'z pool_scheme \<Rightarrow> bool" where
  "pool_room p = arena_room (g_arena p)"

lemma frame_news: "frame p q \<Longrightarrow> news q = news p"
  by (cases p, cases q) (simp add: frame_def)

lemma frame_o_arena: "frame p q \<Longrightarrow> o_arena q = o_arena p"
  by (cases p, cases q) (simp add: frame_def)

lemma local_ids_new: "local_ids (p\<lparr>locals := replicate n LocalObjectGroup\<rparr>) = []"
  by (simp add: local_ids_def LocalObjectGroup_def)

lemma ObjectPool_inv: "1 \<le> K \<Longrightarrow> pool_inv K [] (ObjectPool mem n)"
proof -
  have "local_ids (ObjectPool mem n) = []" by (simp add: local_ids_def ObjectPool_def LocalObjectGroup_def)
  then show "1 \<le> K \<Longrightarrow> pool_inv K [] (ObjectPool mem n)"
    by (simp add: pool_inv_def pool_ok_def ids_def stored_def)
      (simp add: ObjectPool_def GlobalGroup_ok LocalObjectGroup_def)
qed

lemma pool_acquire_law:
  assumes inv: "pool_inv K H p" and t: "t < n_threads p"
  shows "\<exists>x p'. local_acquire K Some (\<lambda>t p. NewThis arg (set_local t None 0 p)) t p = Some (x, p') \<and> pool_inv K (x # H) p'"
proof -
  let ?fresh = "\<lambda>t p. NewThis arg (set_local t None 0 p)"
  have ok: "pool_ok K p" "t < length (locals p)" using inv t by (simp_all add: pool_inv_def n_threads_def)
  have "?fresh t (set_local t None 0 p) = ?fresh t p" for p by simp
  from local_acquire_ok [of K p t ?fresh Some, OF ok this] show ?thesis
  proof (elim disjE exE conjE)
    fix x p1
    assume 1: "local_acquire K Some ?fresh t p = Some (x, p1)" "frame p p1" "pool_ok K p1" "mset (stored p) = add_mset x (mset (stored p1))"
    then have "pool_inv K (x # H) p1" using inv frame_news [OF 1(2)] by (simp add: pool_inv_def)
    then show ?thesis using 1(1) by blast
  next
    fix p1
    assume 1: "local_acquire K Some ?fresh t p = ?fresh t p1" "idle t p1" "frame p p1" "pool_ok K p1" "mset (stored p1) = mset (stored p)"
    let ?q = "set_local t None 0 p1"
    have t1: "t < length (locals p1)" "group_ptr (locals p1 ! t) = None" using 1(2) by (simp_all add: idle_def)
    have "local_exit t p1 = Some ?q" using t1(2) by (simp add: local_exit_def)
    then have q: "pool_ok K ?q" "mset (stored ?q) = mset (stored p)" using local_exit_ok [OF 1(4) t1(1)] 1(5) by auto
    let ?r = "?q\<lparr>news := news p @ [arg]\<rparr>"
    have n: "news ?q = news p" using frame_news [of p ?q] 1(3) by simp
    have l: "local_ids ?r = local_ids ?q" by (simp add: local_ids_def)
    have live: "live ?r = live ?q" by (rule ext) (simp add: live_def split: option.split)
    have "pool_ok K ?r" "stored ?r = stored ?q"
      using q(1) by (simp_all add: pool_ok_def ids_def stored_def l live)
    then have "pool_inv K (length (news p) # H) ?r" using inv q(2) by (simp add: pool_inv_def)
    moreover have "?fresh t p1 = Some (length (news p), ?r)" using n by (simp add: NewThis_def)
    ultimately show ?thesis using 1(1) by auto
  qed
qed

lemma pool_release_law:
  assumes inv: "pool_inv K H p" and t: "t < n_threads p" and room: "pool_room p" and x: "x \<in> set H"
  shows "\<exists>p'. local_release K t x p = Some p' \<and> pool_inv K (remove1 x H) p'"
proof -
  have "pool_ok K p" "t < length (locals p)" "arena_room (g_arena p)" "1 \<le> K"
    using inv t room by (simp_all add: pool_inv_def n_threads_def pool_room_def)
  from local_release_ok [OF this, of x] obtain p1 where 1: "local_release K t x p = Some p1" "frame p p1" "pool_ok K p1"
    "mset (stored p1) = add_mset x (mset (stored p))" by blast
  have "mset (stored p1) + mset (remove1 x H) = mset (stored p) + add_mset x (mset (remove1 x H))"
    unfolding 1(4) by simp
  also have "add_mset x (mset (remove1 x H)) = mset H" using x by simp
  finally have "pool_inv K (remove1 x H) p1" using 1(3) inv frame_news [OF 1(2)] unfolding pool_inv_def by metis
  then show ?thesis using 1(1) by blast
qed

lemma pool_exit_law:
  assumes inv: "pool_inv K H p" and t: "t < n_threads p"
  shows "\<exists>p'. local_exit t p = Some p' \<and> pool_inv K H p'"
proof -
  have "pool_ok K p" "t < length (locals p)" using inv t by (simp_all add: pool_inv_def n_threads_def)
  from local_exit_ok [OF this] obtain p1 where 1: "local_exit t p = Some p1" "frame p p1" "pool_ok K p1"
    "mset (stored p1) = mset (stored p)" by blast
  then show ?thesis using inv frame_news [OF 1(2)] by (simp add: pool_inv_def)
qed

lemma pool_inv_distinct: "pool_inv K H p \<Longrightarrow> distinct (stored p @ H)"
  unfolding pool_inv_def by (metis distinct_upt mset_append mset_eq_imp_distinct_iff)

interpretation op: object_source "pool_inv K" "pool_acquire K" "local_release K" local_exit id n_threads pool_room for K
proof unfold_locales
  fix H p t x y
  assume inv: "pool_inv K H p"
  show "\<exists>x p'. pool_acquire K t p = Some (x, p') \<and> pool_inv K (x # H) p'" if "t < n_threads p"
    unfolding pool_acquire_def using pool_acquire_law [OF inv that] .
  show "\<exists>p'. local_release K t y p = Some p' \<and> pool_inv K (remove1 x H) p'"
    if "t < n_threads p" "pool_room p" "x \<in> set H" "id y = id x"
    using pool_release_law [OF inv that(1,2,3)] that(4) by simp
  show "\<exists>p'. local_exit t p = Some p' \<and> pool_inv K H p'" if "t < n_threads p" using pool_exit_law [OF inv that] .
  show "distinct (map id H)" using pool_inv_distinct [OF inv] by simp
qed

text \<open>(C18) \<open>ObjectPool\<close> over any sequence of calls of any threads, thread exits included: no
  assertion fails and no access is undefined; an acquired object is held by nobody else; and
  every object ever created is held or in the pool exactly once, so nothing is leaked.\<close>

theorem object_pool_exclusive:
  assumes "1 \<le> K" "client_reach (pool_acquire K) (local_release K) local_exit id n_threads pool_room (ObjectPool mem n) p H"
    "t < n_threads p" "pool_room p"
  shows "distinct H \<and> mset (stored p) + mset H = mset [0..<length (news p)]
    \<and> (\<exists>x p'. pool_acquire K t p = Some (x, p') \<and> x \<notin> set H)
    \<and> (\<forall>x \<in> set H. \<exists>p'. local_release K t x p = Some p') \<and> (\<exists>p'. local_exit t p = Some p')"
proof -
  note init = ObjectPool_inv [OF assms(1), of mem n]
  have "pool_inv K H p" by (rule op.reach_inv [OF init assms(2)])
  then show ?thesis using op.exclusive [OF init assms(2,3,4)] by (simp add: pool_inv_def)
qed

theorem object_pool_exclusive_witness:
  "\<exists>x p. pool_acquire 256 1 (ObjectPool (\<lambda>_. \<lparr>og_size = 7, og_items = (\<lambda>_. 0)\<rparr>) 2) = Some (x, p)"
  using object_pool_exclusive [OF _ client_reach.start, of 256 1 "\<lambda>_. \<lparr>og_size = 7, og_items = (\<lambda>_. 0)\<rparr>" 2]
  by (simp add: n_threads_def pool_room_def ObjectPool_def GlobalGroup_ok)

subsection \<open>ArenaObjectPool\<close>

text \<open>The numbers of the stored and the held objects are the numbers the arena knows, each once.\<close>

definition arena_pool_inv :: "nat list \<Rightarrow> arena_pool \<Rightarrow> bool" where
  "arena_pool_inv H p = (pool_ok N p \<and> arena_ok (o_arena p) \<and> distinct (map node (stored p @ H))
     \<and> set (map node (stored p @ H)) = {n. n < 2 ^ 32 \<and> arena_find n (o_arena p) \<noteq> None})"

definition arena_pool_room :: "arena_pool \<Rightarrow> bool" where
  "arena_pool_room p = (arena_room (g_arena p) \<and> arena_room (o_arena p))"

lemma arena_pool_inv_cong:
  assumes "mset (stored p1) + mset H1 = mset (stored p) + mset H" "pool_ok N p1" "o_arena p1 = o_arena p" "arena_pool_inv H p"
  shows "arena_pool_inv H1 p1"
proof -
  have m: "mset (map node (stored p1 @ H1)) = mset (map node (stored p @ H))"
    using assms(1) by (metis mset_append mset_map)
  then have "set (map node (stored p1 @ H1)) = set (map node (stored p @ H))" by (rule mset_eq_setD)
  moreover have "distinct (map node (stored p1 @ H1)) = distinct (map node (stored p @ H))"
    using m by (rule mset_eq_imp_distinct_iff)
  ultimately show ?thesis using assms(2-4) unfolding arena_pool_inv_def by metis
qed

lemma arena_find_node_num: "node n < 4294967296" "arena_find (node n) g = arena_find n g"
  by (simp add: node_mod) (rule arena_find_node, simp add: node_mod)

lemma shifted_range: "n \<in> set (map (\<lambda>j. x + j) [0..<k]) \<longleftrightarrow> (\<exists>j < k. n = x + j)" for n x k :: nat
  by (auto simp: image_def simp del: image_add_atLeastLessThan)

lemma contents_fill: "map node (x # contents (fill_items 1024 x g)) = map (\<lambda>j. x + j) [0..<1024]"
  if "x + 1024 \<le> 4294967296"
proof -
  have "node (u64 (x + (i + 1))) = x + Suc i" if "i < 1023" for i
    using that \<open>x + 1024 \<le> 4294967296\<close> by (simp add: node_mod u64_def)
  then have "map node (contents (fill_items 1024 x g)) = map (\<lambda>j. x + j) (map Suc [0..<1023])"
    by (simp add: contents_def fill_items_def del: upt_Suc)
  moreover have "node x = x" using that by (simp add: node_mod)
  ultimately have "map node (x # contents (fill_items 1024 x g)) = map (\<lambda>j. x + j) (0 # [1..<1024])"
    by (simp add: map_Suc_upt del: upt_Suc)
  also have "0 # [1..<1024] = [0..<1024 :: nat]" by (simp add: upt_rec [of 0 1024] del: upt_Suc)
  finally show ?thesis .
qed

text \<open>Where an acquired id comes from: the pool, or the new ids \<open>ys\<close> of a block that nobody knew.\<close>

definition supplied :: "nat list \<Rightarrow> arena_pool \<Rightarrow> nat \<Rightarrow> arena_pool \<Rightarrow> bool" where
  "supplied H p x p' = (\<exists>ys. mset (x # stored p') = mset (stored p) + mset ys
     \<and> (\<forall>y \<in> set ys. y < 2 ^ 32 \<and> node y \<notin> node ` set (stored p @ H)))"

lemma supplied_stored: "mset (stored p) = add_mset x (mset (stored p')) \<Longrightarrow> supplied H p x p'"
  unfolding supplied_def by (intro exI [of _ "[]"]) simp

lemma supplied_cong: "supplied H p1 x p' \<Longrightarrow> mset (stored p1) = mset (stored p) \<Longrightarrow> supplied H p x p'"
  unfolding supplied_def by (metis mset_append mset_eq_setD)

lemma arena_fresh_law:
  assumes inv: "arena_pool_inv H p" and t: "idle t p" and room: "arena_pool_room p"
  shows "\<exists>x obj p'. arena_fresh N t p = Some (x, obj, p') \<and> arena_find x (o_arena p') = Some obj \<and> arena_pool_inv (x # H) p'
    \<and> supplied H p x p' \<and> n_threads p' = n_threads p"
proof -
  have ok: "pool_ok 1024 p" "arena_ok (o_arena p)" "arena_room (g_arena p)" "arena_room (o_arena p)"
    using inv room by (simp_all add: arena_pool_inv_def arena_pool_room_def)
  obtain a p1 where n: "new_free_object_group t p = Some p1" "frame p p1" "groups p1 = groups p" "group_ptr (locals p1 ! t) = Some a"
    and g: "\<And>g. og_size g \<le> 1024 \<Longrightarrow> pool_ok 1024 (set_group a g p1)
        \<and> mset (stored (set_group a g p1)) = mset (stored p) + mset (contents g)"
    using new_free_ok [OF ok(1) t ok(3)] by blast
  obtain x blk oa where b: "add_block (o_arena p) = Some (x, blk, oa)" "arena_ok oa" "x + 1024 \<le> 4294967296"
    "\<forall>j < 1024. arena_find (x + j) oa = Some (blk, j) \<and> arena_find (x + j) (o_arena p) = None"
    "\<forall>oid r. arena_find oid (o_arena p) = Some r \<longrightarrow> arena_find oid oa = Some r"
    using new_block_ids [OF ok(2,4)] by blast
  let ?g = "fill_items 1024 x (groups p a)"
  define q where "q = set_group a ?g (p1\<lparr>o_arena := oa\<rparr>)"
  have "q = (set_group a ?g p1)\<lparr>o_arena := oa\<rparr>" by (simp add: q_def set_group_def)
  then have q: "pool_ok 1024 q = pool_ok 1024 (set_group a ?g p1)" "stored q = stored (set_group a ?g p1)" "o_arena q = oa"
    by (simp_all add: pool_ok_def ids_def stored_def local_ids_def live_def [abs_def] cong: option.case_cong)
  have "og_size ?g \<le> 1024" by (simp add: fill_items_def)
  note g = g [OF this]
  have run: "arena_fresh N t p = Some (x, (blk, 0), q)"
    using n b(1) frame_o_arena [OF n(2)] by (simp add: arena_fresh_def q_def)
  have ms: "mset (map node (stored q @ x # H)) = mset (map node (stored p @ H)) + mset (map (\<lambda>j. x + j) [0..<1024])"
    unfolding contents_fill [OF b(3), of "groups p a", symmetric] using g q(2) by simp
  have new: "set (map (\<lambda>j. x + j) [0..<1024]) \<inter> set (map node (stored p @ H)) = {}"
  proof -
    have "arena_find (x + j) (o_arena p) = None" if "j < 1024" for j using b(4) that by blast
    then have out: "x + j \<notin> set (map node (stored p @ H))" if "j < 1024" for j
      using that inv unfolding arena_pool_inv_def by blast
    then have "y \<notin> set (map node (stored p @ H))" if "y \<in> set (map (\<lambda>j. x + j) [0..<1024])" for y
      using that unfolding shifted_range by blast
    then show ?thesis unfolding disjoint_iff by blast
  qed
  have "distinct (map (\<lambda>j. x + j) [0..<1024])" by (simp add: distinct_map inj_on_def)
  then have "distinct (map node (stored p @ H) @ map (\<lambda>j. x + j) [0..<1024])"
    using inv new unfolding arena_pool_inv_def distinct_append by blast
  then have d: "distinct (map node (stored q @ x # H))" using ms by (metis mset_append mset_eq_imp_distinct_iff)
  have "set (map node (stored q @ x # H)) = set (map node (stored p @ H)) \<union> set (map (\<lambda>j. x + j) [0..<1024])"
    using ms by (metis mset_append mset_eq_setD set_append)
  also have "\<dots> = {n. n < 2 ^ 32 \<and> arena_find n oa \<noteq> None}"
  proof (rule set_eqI)
    fix n
    have old: "n \<in> set (map node (stored p @ H)) \<longleftrightarrow> n < 2 ^ 32 \<and> arena_find n (o_arena p) \<noteq> None"
      using inv unfolding arena_pool_inv_def by blast
    have "\<exists>j < 1024. n = x + j" if n: "n < 2 ^ 32" "arena_find n oa \<noteq> None" "arena_find n (o_arena p) = None"
      using n(2) add_block_only [OF ok(2,4) b(1), of n] n(1,3) by auto
    moreover have "x + j < 2 ^ 32 \<and> arena_find (x + j) oa \<noteq> None" if "j < 1024" for j using that b(3,4) by simp
    moreover have "arena_find n oa \<noteq> None" if "arena_find n (o_arena p) \<noteq> None" using that b(5) by blast
    ultimately show "n \<in> set (map node (stored p @ H)) \<union> set (map (\<lambda>j. x + j) [0..<1024])
        \<longleftrightarrow> n \<in> {n. n < 2 ^ 32 \<and> arena_find n oa \<noteq> None}"
      unfolding Un_iff old shifted_range mem_Collect_eq by blast
  qed
  finally have "arena_pool_inv (x # H) q" using d q g b(2) by (simp add: arena_pool_inv_def)
  moreover have "arena_find x (o_arena q) = Some (blk, 0)" using b(4) [rule_format, of 0] q(3) by simp
  moreover have "supplied H p x q"
    unfolding supplied_def
  proof (intro exI conjI)
    show "mset (x # stored q) = mset (stored p) + mset (x # contents ?g)" using g q(2) by simp
    have "set (map node (x # contents ?g)) \<inter> set (map node (stored p @ H)) = {}"
      using new unfolding contents_fill [OF b(3), of "groups p a"] .
    moreover have "\<forall>y \<in> set (x # contents ?g). y < 2 ^ 32"
      using b(3) by (auto simp: contents_def fill_items_def u64_def)
    ultimately show "\<forall>y \<in> set (x # contents ?g). y < 2 ^ 32 \<and> node y \<notin> node ` set (stored p @ H)" by auto
  qed
  moreover have "n_threads q = n_threads p" using n(2) by (simp add: n_threads_def frame_def q_def set_group_def)
  ultimately show ?thesis using run by blast
qed

lemma arena_acquire_supplied:
  assumes inv: "arena_pool_inv H p" and t: "t < n_threads p" and room: "arena_pool_room p"
  shows "\<exists>x obj p'. arena_pool_acquire t p = Some (x, obj, p') \<and> arena_find x (o_arena p') = Some obj \<and> arena_pool_inv (x # H) p'
    \<and> supplied H p x p' \<and> n_threads p' = n_threads p"
proof -
  let ?got = "\<lambda>(obj_id, p1). do { obj \<leftarrow> arena_find obj_id (o_arena p1); Some (obj_id, obj, p1) }"
  have ok: "pool_ok N p" "t < length (locals p)" using inv t by (simp_all add: arena_pool_inv_def n_threads_def)
  have "arena_fresh N t (set_local t None 0 p) = arena_fresh N t p" for p :: arena_pool
    by (simp add: arena_fresh_def clear_local del: arena_consts)
  from local_acquire_ok [of N p t "arena_fresh N" ?got, OF ok this] show ?thesis
    unfolding arena_pool_acquire_def
  proof (elim disjE exE conjE)
    fix x p1
    assume 1: "local_acquire N ?got (arena_fresh N) t p = ?got (x, p1)" "frame p p1" "pool_ok N p1"
      "mset (stored p) = add_mset x (mset (stored p1))"
    have o: "o_arena p1 = o_arena p" by (rule frame_o_arena [OF 1(2)])
    have "arena_pool_inv (x # H) p1" by (rule arena_pool_inv_cong [OF _ 1(3) o inv]) (simp add: 1(4))
    moreover have "x \<in> set (stored p)" using 1(4) by (metis set_mset_mset union_single_eq_member)
    then have "node x \<in> set (map node (stored p @ H))" by simp
    then have "arena_find (node x) (o_arena p) \<noteq> None" using inv unfolding arena_pool_inv_def by blast
    then obtain obj where "arena_find x (o_arena p) = Some obj" unfolding arena_find_node_num(2) by blast
    moreover have "n_threads p1 = n_threads p" using 1(2) by (simp add: n_threads_def frame_def)
    ultimately show "\<exists>x obj p'. local_acquire N ?got (arena_fresh N) t p = Some (x, obj, p') \<and> arena_find x (o_arena p') = Some obj
      \<and> arena_pool_inv (x # H) p' \<and> supplied H p x p' \<and> n_threads p' = n_threads p"
      using 1(1) o supplied_stored [OF 1(4)] by (intro exI [of _ x] exI [of _ obj] exI [of _ p1]) (simp del: arena_consts)
  next
    fix p1
    assume 1: "local_acquire N ?got (arena_fresh N) t p = arena_fresh N t p1" "idle t p1" "frame p p1" "pool_ok N p1"
      "mset (stored p1) = mset (stored p)" "g_arena p1 = g_arena p"
    have o: "o_arena p1 = o_arena p" by (rule frame_o_arena [OF 1(3)])
    have "arena_pool_inv H p1" by (rule arena_pool_inv_cong [OF _ 1(4) o inv]) (simp add: 1(5))
    moreover have "arena_pool_room p1" using room o 1(6) by (simp add: arena_pool_room_def)
    moreover have "n_threads p1 = n_threads p" using 1(3) by (simp add: n_threads_def frame_def)
    ultimately show "\<exists>x obj p'. local_acquire N ?got (arena_fresh N) t p = Some (x, obj, p') \<and> arena_find x (o_arena p') = Some obj
      \<and> arena_pool_inv (x # H) p' \<and> supplied H p x p' \<and> n_threads p' = n_threads p"
      using arena_fresh_law [OF _ 1(2)] supplied_cong [OF _ 1(5)] unfolding 1(1) by metis
  qed
qed

lemma arena_acquire_law:
  assumes "arena_pool_inv H p" "t < n_threads p" "arena_pool_room p"
  shows "\<exists>x obj p'. arena_pool_acquire t p = Some (x, obj, p') \<and> arena_find x (o_arena p') = Some obj \<and> arena_pool_inv (x # H) p'"
  using arena_acquire_supplied [OF assms] by blast

lemma arena_release_stored:
  assumes inv: "arena_pool_inv H p" and t: "t < n_threads p" and room: "arena_pool_room p" and x: "x \<in> set H" "node y = node x"
  shows "\<exists>p'. arena_pool_release t y p = Some p' \<and> arena_pool_inv (remove1 x H) p'
    \<and> mset (stored p') = add_mset y (mset (stored p)) \<and> n_threads p' = n_threads p"
proof -
  have "pool_ok N p" "t < length (locals p)" "arena_room (g_arena p)" "1 \<le> N"
    using inv t room by (simp_all add: arena_pool_inv_def n_threads_def arena_pool_room_def)
  from local_release_ok [OF this, of y] obtain p1 where 1: "local_release N t y p = Some p1" "frame p p1" "pool_ok N p1"
    "mset (stored p1) = add_mset y (mset (stored p))" by blast
  have "mset (map node (stored p1 @ remove1 x H)) = image_mset node (mset (stored p)) + image_mset node (add_mset x (mset (remove1 x H)))"
    using 1(4) x(2) by simp
  also have "add_mset x (mset (remove1 x H)) = mset H" using x(1) by simp
  finally have m: "mset (map node (stored p1 @ remove1 x H)) = mset (map node (stored p @ H))" by simp
  have "arena_pool_inv (remove1 x H) p1"
    using inv 1(3) frame_o_arena [OF 1(2)] mset_eq_setD [OF m] mset_eq_imp_distinct_iff [OF m]
    unfolding arena_pool_inv_def by metis
  moreover have "n_threads p1 = n_threads p" using 1(2) by (simp add: n_threads_def frame_def)
  ultimately show ?thesis using 1(1,4) unfolding arena_pool_release_def by blast
qed

lemma arena_release_law:
  assumes "arena_pool_inv H p" "t < n_threads p" "arena_pool_room p" "x \<in> set H" "node y = node x"
  shows "\<exists>p'. arena_pool_release t y p = Some p' \<and> arena_pool_inv (remove1 x H) p'"
  using arena_release_stored [OF assms] by blast

lemma arena_exit_stored:
  assumes inv: "arena_pool_inv H p" and t: "t < n_threads p"
  shows "\<exists>p'. arena_pool_exit t p = Some p' \<and> arena_pool_inv H p'
    \<and> mset (stored p') = mset (stored p) \<and> n_threads p' = n_threads p"
proof -
  have "pool_ok N p" "t < length (locals p)" using inv t by (simp_all add: arena_pool_inv_def n_threads_def)
  from local_exit_ok [OF this] obtain p1 where 1: "local_exit t p = Some p1" "frame p p1" "pool_ok N p1"
    "mset (stored p1) = mset (stored p)" by blast
  have "arena_pool_inv H p1" by (rule arena_pool_inv_cong [OF _ 1(3) frame_o_arena [OF 1(2)] inv]) (simp add: 1(4))
  moreover have "n_threads p1 = n_threads p" using 1(2) by (simp add: n_threads_def frame_def)
  ultimately show ?thesis using 1(1,4) unfolding arena_pool_exit_def by blast
qed

lemma arena_exit_law:
  assumes "arena_pool_inv H p" "t < n_threads p"
  shows "\<exists>p'. arena_pool_exit t p = Some p' \<and> arena_pool_inv H p'"
  using arena_exit_stored [OF assms] by blast

text \<open>The id alone, as the interface counts objects by their ids.\<close>

definition arena_acquire_id :: "nat \<Rightarrow> arena_pool \<Rightarrow> (nat \<times> arena_pool) option" where
  "arena_acquire_id t p = do {
     (obj_id, obj, p1) \<leftarrow> arena_pool_acquire t p;
     Some (obj_id, p1)}"

interpretation ap: object_source arena_pool_inv arena_acquire_id arena_pool_release arena_pool_exit node n_threads arena_pool_room
proof unfold_locales
  fix H p t x y
  assume inv: "arena_pool_inv H p"
  show "\<exists>x p'. arena_acquire_id t p = Some (x, p') \<and> arena_pool_inv (x # H) p'" if "t < n_threads p" "arena_pool_room p"
    using arena_acquire_law [OF inv that] by (auto simp: arena_acquire_id_def)
  show "\<exists>p'. arena_pool_release t y p = Some p' \<and> arena_pool_inv (remove1 x H) p'"
    if "t < n_threads p" "arena_pool_room p" "x \<in> set H" "node y = node x"
    using arena_release_law [OF inv that] .
  show "\<exists>p'. arena_pool_exit t p = Some p' \<and> arena_pool_inv H p'" if "t < n_threads p" using arena_exit_law [OF inv that] .
  show "distinct (map node H)" using inv by (simp add: arena_pool_inv_def)
qed

lemma ArenaObjectPool_inv: "arena_pool_inv [] (ArenaObjectPool mem n)"
proof -
  have "local_ids (ArenaObjectPool mem n) = []" by (simp add: local_ids_def ArenaObjectPool_def LocalObjectGroup_def)
  then show ?thesis
    by (simp add: arena_pool_inv_def pool_ok_def ids_def stored_def)
      (simp add: ArenaObjectPool_def GlobalGroup_ok LocalObjectGroup_def)
qed

text \<open>(C7) \<open>ArenaObjectPool\<close> over any sequence of calls of any threads, thread exits included, where a
  client may give an id back with another version: no assertion fails; the acquired id finds its
  object in the arena, and no other client holds an id with the same object number; every object
  number of the arena is held or in the pool exactly once.\<close>

theorem arena_pool_exclusive:
  assumes "client_reach arena_acquire_id arena_pool_release arena_pool_exit node n_threads arena_pool_room (ArenaObjectPool mem n) p H"
    "t < n_threads p" "arena_pool_room p"
  shows "distinct (map node (stored p @ H))
    \<and> set (map node (stored p @ H)) = {k. k < 2 ^ 32 \<and> arena_find k (o_arena p) \<noteq> None}
    \<and> (\<exists>x obj p'. arena_pool_acquire t p = Some (x, obj, p') \<and> arena_find x (o_arena p') = Some obj \<and> node x \<notin> node ` set H)
    \<and> (\<forall>x \<in> set H. \<forall>y. node y = node x \<longrightarrow> (\<exists>p'. arena_pool_release t y p = Some p'))"
proof -
  note init = ArenaObjectPool_inv [of mem n]
  have inv: "arena_pool_inv H p" by (rule ap.reach_inv [OF init assms(1)])
  obtain x obj p' where 1: "arena_pool_acquire t p = Some (x, obj, p')" "arena_find x (o_arena p') = Some obj" "arena_pool_inv (x # H) p'"
    using arena_acquire_law [OF inv assms(2,3)] by blast
  have "node x \<notin> node ` set H" using ap.held_distinct [OF 1(3)] by simp
  moreover have "distinct (map node (stored p @ H))"
    "set (map node (stored p @ H)) = {k. k < 2 ^ 32 \<and> arena_find k (o_arena p) \<noteq> None}"
    using inv unfolding arena_pool_inv_def by blast+
  ultimately show ?thesis using 1(1,2) ap.exclusive(3) [OF init assms] by blast
qed

theorem arena_pool_exclusive_witness:
  "\<exists>x obj p. arena_pool_acquire 0 (ArenaObjectPool (\<lambda>_. \<lparr>og_size = 7, og_items = (\<lambda>_. 0)\<rparr>) 2) = Some (x, obj, p)
    \<and> arena_find x (o_arena p) = Some obj"
  using arena_pool_exclusive [OF client_reach.start, of 0 "\<lambda>_. \<lparr>og_size = 7, og_items = (\<lambda>_. 0)\<rparr>" 2]
  by (auto simp: n_threads_def arena_pool_room_def ArenaObjectPool_def GlobalGroup_ok)

end
