(* ===== verification/Timer.thy ===== *)
theory Timer
  imports Prelude
begin

text \<open>
  The life of one timer object of \<^verbatim>\<open>src/timer.cpp\<close>: \<open>add_timer\<close>, \<open>cancel_timer\<close> from any number
  of threads, and the timer thread's \<open>try_delete\<close> and \<open>run_and_delete\<close>. A timer id is the number
  of the object with a version in the upper half; the atomic field \<open>version\<close> starts at that
  version, is raised by one while the function runs and by two when the timer is finished or
  cancelled, and every reuse of the object raises the id's version by three.
  \<open>compare_exchange_strong\<close> overwrites its first argument with the value it found when it fails,
  which two callers overlook.
\<close>

subsection \<open>The operations on a timer\<close>

record timer =
  run_time :: nat
  timer_id :: nat
  func :: nat
  version :: nat

text \<open>\<open>atomic.compare_exchange_strong(expected, desired)\<close>: success, the new value of the atomic,
  and the new value of \<open>expected\<close>.\<close>

definition compare_exchange_strong :: "nat \<Rightarrow> nat \<Rightarrow> nat \<Rightarrow> bool \<times> nat \<times> nat" where
  "compare_exchange_strong cur expected desired =
     (if cur = expected then (True, desired, expected) else (False, cur, cur))"

definition version_of :: "nat \<Rightarrow> nat" where
  "version_of tid = u32 (drop_bit 32 tid)"

text \<open>Whether the timer is to be released; a failed assertion is \<^term>\<open>None\<close>.\<close>

definition try_delete :: "timer \<Rightarrow> bool option" where
  "try_delete tm = (let base_version = version_of (timer_id tm) in
     if version tm \<noteq> base_version then do {
       check (version tm = u32 (base_version + 2));
       Some True}
     else Some False)"

text \<open>\<open>run_and_delete\<close> up to the call of the function: the flag says that it is called.\<close>

definition run_begin :: "timer \<Rightarrow> (bool \<times> timer) option" where
  "run_begin tm = (let base_version = version_of (timer_id tm);
       (ok, v, base_version') = compare_exchange_strong (version tm) base_version (u32 (base_version + 1)) in
     if ok then Some (True, tm\<lparr>version := v\<rparr>)
     else do {
       check (v = u32 (base_version' + 2));
       Some (False, tm)})"

text \<open>The rest of \<open>run_and_delete\<close> after the function returned.\<close>

definition run_end :: "timer \<Rightarrow> timer" where
  "run_end tm = tm\<lparr>version := u32 (version_of (timer_id tm) + 2)\<rparr>"

definition init_timer :: "nat \<Rightarrow> nat \<Rightarrow> nat \<Rightarrow> timer \<Rightarrow> timer" where
  "init_timer tid t f tm = tm\<lparr>timer_id := tid, run_time := t, func := f, version := version_of tid\<rparr>"

text \<open>\<open>cancel_timer\<close> in its three atomic parts: the comparison of the ids, the exchange, and the
  load that decides between "running" and "finished". The exchange leaves the version it found
  in \<open>base_version\<close>.\<close>

definition cancel_find :: "nat \<Rightarrow> timer \<Rightarrow> bool" where
  "cancel_find tid tm = (tid = timer_id tm)"

definition cancel_exchange :: "nat \<Rightarrow> timer \<Rightarrow> bool \<times> nat \<times> timer" where
  "cancel_exchange tid tm = (let base_version = version_of tid;
       (ok, v, base_version') = compare_exchange_strong (version tm) base_version (u32 (base_version + 2))
     in (ok, base_version', tm\<lparr>version := v\<rparr>))"

definition cancel_result :: "nat \<Rightarrow> timer \<Rightarrow> int" where
  "cancel_result base_version tm = (if version tm = u32 (base_version + 1) then 1 else - 1)"

text \<open>The whole of \<open>cancel_timer\<close> when no other thread runs in between.\<close>

definition cancel_timer :: "nat \<Rightarrow> timer \<Rightarrow> int \<times> timer" where
  "cancel_timer tid tm =
     (if \<not> cancel_find tid tm then (- 1, tm)
      else let (ok, base_version, tm') = cancel_exchange tid tm
           in if ok then (0, tm') else (cancel_result base_version tm', tm'))"

subsection \<open>Interleavings\<close>

text \<open>Where the object is: in the pool, being set up by \<open>add_timer\<close>, queued, or running; \<open>Aborted\<close>
  is a failed assertion of the timer thread. The versions are assumed not to wrap: an object is not
  reused more than a thousand million times.\<close>

datatype timer_phase = Pooled | Queued | Running | Aborted

datatype canceller = Away | Found nat | Lost nat nat

text \<open>\<open>added\<close>, \<open>ran_ids\<close> and \<open>cancelled\<close> record the ids that \<open>add_timer\<close> returned, whose function
  was called, and for which \<open>cancel_timer\<close> returned 0.\<close>

record timer_state =
  obj :: timer
  phase :: timer_phase
  threads :: "nat \<Rightarrow> canceller"
  added :: "nat set"
  ran_ids :: "nat list"
  cancelled :: "nat list"

definition version_step :: nat where
  "version_step = 0x300000000"

inductive timer_step :: "timer_state \<Rightarrow> timer_state \<Rightarrow> bool" where
  add: "phase s = Pooled \<Longrightarrow> timer_id (obj s) + 2 * version_step \<le> 2 ^ 64 \<Longrightarrow>
    tid = timer_id (obj s) + version_step \<Longrightarrow>
    timer_step s (s\<lparr>obj := init_timer tid t f (obj s), phase := Queued, added := insert tid (added s)\<rparr>)"
| find: "threads s c = Away \<Longrightarrow> tid \<in> added s \<Longrightarrow> cancel_find tid (obj s) \<Longrightarrow>
    timer_step s (s\<lparr>threads := (threads s)(c := Found tid)\<rparr>)"
| exchange: "threads s c = Found tid \<Longrightarrow> cancel_exchange tid (obj s) = (True, b, tm) \<Longrightarrow>
    timer_step s (s\<lparr>obj := tm, threads := (threads s)(c := Away), cancelled := tid # cancelled s\<rparr>)"
| lost: "threads s c = Found tid \<Longrightarrow> cancel_exchange tid (obj s) = (False, b, tm) \<Longrightarrow>
    timer_step s (s\<lparr>threads := (threads s)(c := Lost tid b)\<rparr>)"
| result: "threads s c = Lost tid b \<Longrightarrow> timer_step s (s\<lparr>threads := (threads s)(c := Away)\<rparr>)"
| delete: "phase s = Queued \<Longrightarrow> try_delete (obj s) = Some True \<Longrightarrow> timer_step s (s\<lparr>phase := Pooled\<rparr>)"
| begin_run: "phase s = Queued \<Longrightarrow> run_begin (obj s) = Some (True, tm) \<Longrightarrow>
    timer_step s (s\<lparr>obj := tm, phase := Running, ran_ids := timer_id tm # ran_ids s\<rparr>)"
| give_up: "phase s = Queued \<Longrightarrow> run_begin (obj s) = Some (False, tm) \<Longrightarrow>
    timer_step s (s\<lparr>phase := Pooled\<rparr>)"
| abort: "phase s = Queued \<Longrightarrow> run_begin (obj s) = None \<or> try_delete (obj s) = None \<Longrightarrow>
    timer_step s (s\<lparr>phase := Aborted\<rparr>)"
| end_run: "phase s = Running \<Longrightarrow> timer_step s (s\<lparr>obj := run_end (obj s), phase := Pooled\<rparr>)"

text \<open>At first the object is in the pool with an id of version 0 and arbitrary other fields.\<close>

inductive timer_reach :: "timer_state \<Rightarrow> bool" where
  init: "phase s = Pooled \<Longrightarrow> timer_id (obj s) < 2 ^ 32 \<Longrightarrow> threads s = (\<lambda>_. Away) \<Longrightarrow>
    added s = {} \<Longrightarrow> ran_ids s = [] \<Longrightarrow> cancelled s = [] \<Longrightarrow> timer_reach s"
| step: "timer_reach s \<Longrightarrow> timer_step s s' \<Longrightarrow> timer_reach s'"

subsection \<open>The invariant\<close>

definition busy_version :: "timer_state \<Rightarrow> bool" where
  "busy_version s = (let tid = timer_id (obj s); v = version (obj s); b = tid div 2 ^ 32 in
     (case phase s of
        Queued \<Rightarrow> tid \<notin> set (ran_ids s) \<and> (v = b \<and> tid \<notin> set (cancelled s) \<or> v = b + 2 \<and> tid \<in> set (cancelled s))
      | Running \<Rightarrow> v = b + 1 \<and> tid \<in> set (ran_ids s) \<and> tid \<notin> set (cancelled s)
      | _ \<Rightarrow> added s \<noteq> {} \<longrightarrow> v = b + 2))"

text \<open>All ids ever used are ids of this object, three versions apart, and none is newer than the
  current one.\<close>

definition ids_ok :: "timer_state \<Rightarrow> bool" where
  "ids_ok s = (timer_id (obj s) + version_step \<le> 2 ^ 64
     \<and> (\<forall>tid \<in> added s. \<exists>k. timer_id (obj s) = tid + k * version_step)
     \<and> set (ran_ids s) \<subseteq> added s \<and> set (cancelled s) \<subseteq> added s
     \<and> (\<forall>c tid. threads s c = Found tid \<longrightarrow> tid \<in> added s)
     \<and> (phase s \<noteq> Pooled \<longrightarrow> timer_id (obj s) \<in> added s))"

definition timer_inv :: "timer_state \<Rightarrow> bool" where
  "timer_inv s = (busy_version s \<and> ids_ok s \<and> distinct (ran_ids s @ cancelled s))"

lemma version_of_id:
  assumes "tid + version_step \<le> 2 ^ 64"
  shows "version_of tid = tid div 2 ^ 32" "u32 (version_of tid + 1) = tid div 2 ^ 32 + 1"
    "u32 (version_of tid + 2) = tid div 2 ^ 32 + 2"
proof -
  have "tid div 4294967296 + 3 \<le> 4294967296" using assms by (simp add: version_step_def)
  then show "version_of tid = tid div 2 ^ 32" "u32 (version_of tid + 1) = tid div 2 ^ 32 + 1"
    "u32 (version_of tid + 2) = tid div 2 ^ 32 + 2"
    by (simp_all add: version_of_def drop_bit_eq_div wrap_simps)
qed

lemma version_apart: "(tid + k * version_step) div 2 ^ 32 = tid div 2 ^ 32 + 3 * k"
proof -
  have "tid + k * version_step = (3 * k) * 2 ^ 32 + tid" by (simp add: version_step_def)
  moreover have "((3 * k) * 2 ^ 32 + tid) div 2 ^ 32 = 3 * k + tid div 2 ^ 32"
    by (rule div_mult_self3) simp
  ultimately show ?thesis by (metis add.commute)
qed

lemma ids_apart: "timer_inv s \<Longrightarrow> tid \<in> added s \<Longrightarrow> \<exists>k. timer_id (obj s) = tid + k * version_step"
  unfolding timer_inv_def ids_ok_def by blast

lemma ids_bound: "timer_inv s \<Longrightarrow> timer_id (obj s) + version_step \<le> 2 ^ 64"
  unfolding timer_inv_def ids_ok_def by blast

text \<open>An exchange of \<open>cancel_timer\<close> can only succeed on the current id of a timer that is queued
  and has been neither run nor cancelled.\<close>

lemma cancel_exchange_current:
  assumes inv: "timer_inv s" and tid: "tid \<in> added s" and ok: "cancel_exchange tid (obj s) = (True, b, tm)"
  shows "tid = timer_id (obj s)" "phase s = Queued" "tid \<notin> set (ran_ids s)" "tid \<notin> set (cancelled s)"
    "tm = (obj s)\<lparr>version := tid div 2 ^ 32 + 2\<rparr>"
proof -
  obtain k where k: "timer_id (obj s) = tid + k * version_step" using ids_apart [OF inv tid] by blast
  have "tid + version_step \<le> 2 ^ 64" using k ids_bound [OF inv] by simp
  note v = version_of_id [OF this]
  have eq: "version (obj s) = tid div 2 ^ 32" "tm = (obj s)\<lparr>version := tid div 2 ^ 32 + 2\<rparr>"
    using ok v by (auto simp: cancel_exchange_def compare_exchange_strong_def Let_def split: if_splits)
  have bv: "busy_version s" using inv by (simp add: timer_inv_def)
  have cur: "timer_id (obj s) div 2 ^ 32 = tid div 2 ^ 32 + 3 * k" unfolding k by (rule version_apart)
  have "added s \<noteq> {}" using tid by auto
  then have q: "k = 0 \<and> phase s = Queued \<and> timer_id (obj s) \<notin> set (ran_ids s) \<and> timer_id (obj s) \<notin> set (cancelled s)"
    using bv eq(1) cur by (cases "phase s") (auto simp: busy_version_def Let_def)
  then show "tid = timer_id (obj s)" "phase s = Queued" "tid \<notin> set (ran_ids s)" "tid \<notin> set (cancelled s)"
    using k by auto
  show "tm = (obj s)\<lparr>version := tid div 2 ^ 32 + 2\<rparr>" by (rule eq(2))
qed

lemma timer_inv_init:
  "phase s = Pooled \<Longrightarrow> timer_id (obj s) < 2 ^ 32 \<Longrightarrow> threads s = (\<lambda>_. Away) \<Longrightarrow>
   added s = {} \<Longrightarrow> ran_ids s = [] \<Longrightarrow> cancelled s = [] \<Longrightarrow> timer_inv s"
  by (simp add: timer_inv_def busy_version_def ids_ok_def version_step_def Let_def)

lemma timer_inv_add:
  assumes inv: "timer_inv s" and p: "phase s = Pooled" and le: "timer_id (obj s) + 2 * version_step \<le> 2 ^ 64"
  defines "tid \<equiv> timer_id (obj s) + version_step"
  shows "timer_inv (s\<lparr>obj := init_timer tid t f (obj s), phase := Queued, added := insert tid (added s)\<rparr>)"
proof -
  let ?s = "s\<lparr>obj := init_timer tid t f (obj s), phase := Queued, added := insert tid (added s)\<rparr>"
  have new: "tid \<notin> added s"
  proof
    assume "tid \<in> added s"
    then obtain k where "timer_id (obj s) = tid + k * version_step" using ids_apart [OF inv] by blast
    then show False by (simp add: tid_def version_step_def)
  qed
  have tle: "tid + version_step \<le> 2 ^ 64" using le by (simp add: tid_def)
  have "\<exists>k. tid = u + k * version_step" if u: "u \<in> added s" for u
  proof -
    obtain k where "timer_id (obj s) = u + k * version_step" using ids_apart [OF inv u] by blast
    then have "tid = u + Suc k * version_step" by (simp add: tid_def)
    then show ?thesis by blast
  qed
  then have "ids_ok ?s" using inv tle
    by (auto simp: timer_inv_def ids_ok_def init_timer_def intro: exI [of _ 0])
  moreover have "tid \<notin> set (ran_ids s)" "tid \<notin> set (cancelled s)"
    using inv new unfolding timer_inv_def ids_ok_def by blast+
  then have "busy_version ?s"
    using version_of_id(1) [OF tle] by (simp add: busy_version_def init_timer_def Let_def)
  ultimately show ?thesis using inv by (simp add: timer_inv_def)
qed

lemma timer_inv_threads:
  assumes "timer_inv s" "\<And>c tid. ths c = Found tid \<Longrightarrow> tid \<in> added s"
  shows "timer_inv (s\<lparr>threads := ths\<rparr>)"
proof -
  have "busy_version (s\<lparr>threads := ths\<rparr>) = busy_version s"
    by (cases "phase s") (simp_all add: busy_version_def Let_def)
  moreover have "ids_ok (s\<lparr>threads := ths\<rparr>)" using assms by (simp add: timer_inv_def ids_ok_def)
  ultimately show ?thesis using assms(1) by (simp add: timer_inv_def)
qed

lemma found_added: "timer_inv s \<Longrightarrow> threads s c = Found tid \<Longrightarrow> tid \<in> added s"
  unfolding timer_inv_def ids_ok_def by blast

lemma u32_plus2: "u32 (x + 2) \<noteq> x"
proof -
  consider "x + 2 < 4294967296" | "x < 4294967296" "4294967296 \<le> x + 2" | "4294967296 \<le> x" by linarith
  then show ?thesis
  proof cases
    case 2
    then have "(x + 2) mod 4294967296 = x + 2 - 4294967296" by (simp add: le_mod_geq)
    then show ?thesis using 2 by (simp add: u32_def)
  next
    case 3
    then show ?thesis using u32_less [of "x + 2"] by linarith
  qed (simp add: wrap_simps)
qed

text \<open>What the timer thread finds in a queued timer.\<close>

lemma queued_cases:
  assumes inv: "timer_inv s" and q: "phase s = Queued"
  obtains (fresh) "try_delete (obj s) = Some False" "timer_id (obj s) \<notin> set (cancelled s)"
      "run_begin (obj s) = Some (True, (obj s)\<lparr>version := timer_id (obj s) div 2 ^ 32 + 1\<rparr>)"
    | (gone) "try_delete (obj s) = Some True" "run_begin (obj s) = None"
      "timer_id (obj s) \<in> set (cancelled s)" "version (obj s) = timer_id (obj s) div 2 ^ 32 + 2"
proof -
  let ?b = "timer_id (obj s) div 2 ^ 32"
  note v = version_of_id [OF ids_bound [OF inv]]
  have "version (obj s) = ?b \<and> timer_id (obj s) \<notin> set (cancelled s)
      \<or> version (obj s) = ?b + 2 \<and> timer_id (obj s) \<in> set (cancelled s)"
    using inv q by (auto simp: timer_inv_def busy_version_def Let_def)
  then show thesis
  proof
    assume "version (obj s) = ?b \<and> timer_id (obj s) \<notin> set (cancelled s)"
    then show thesis using v
      by (intro fresh) (simp_all add: try_delete_def run_begin_def compare_exchange_strong_def)
  next
    assume a: "version (obj s) = ?b + 2 \<and> timer_id (obj s) \<in> set (cancelled s)"
    show thesis using a v u32_plus2 [of "?b + 2"]
      by (intro gone) (simp_all add: try_delete_def run_begin_def compare_exchange_strong_def check_def)
  qed
qed

lemma timer_inv_step:
  assumes inv: "timer_inv s" and st: "timer_step s s'"
  shows "timer_inv s'"
  using st
proof (cases rule: timer_step.cases)
  case (add tid t f)
  then show ?thesis using timer_inv_add [OF inv] by simp
next
  case (exchange c tid b tm)
  note cur = cancel_exchange_current [OF inv found_added [OF inv exchange(2)] exchange(3)]
  show ?thesis using exchange cur inv
    by (auto simp: timer_inv_def busy_version_def ids_ok_def Let_def)
next
  case delete
  then show ?thesis using inv queued_cases [OF inv delete(2)]
    by (auto simp: timer_inv_def busy_version_def ids_ok_def Let_def)
next
  case (begin_run tm)
  show ?thesis using inv begin_run(2)
  proof (cases rule: queued_cases)
    case fresh
    have "timer_id (obj s) \<in> added s" using begin_run(2) inv by (simp add: timer_inv_def ids_ok_def)
    then show ?thesis using fresh begin_run inv
      by (auto simp: timer_inv_def busy_version_def ids_ok_def Let_def)
  qed (use begin_run in simp)
next
  case (give_up tm)
  then show ?thesis using queued_cases [OF inv give_up(2)] by auto
next
  case abort
  then show ?thesis using inv queued_cases [OF inv abort(2)]
    by (auto simp: timer_inv_def busy_version_def ids_ok_def Let_def)
next
  case end_run
  then show ?thesis using inv version_of_id(3) [of "timer_id (obj s)"]
    by (auto simp: timer_inv_def busy_version_def ids_ok_def run_end_def Let_def)
qed (use inv found_added [OF inv] in \<open>auto intro!: timer_inv_threads split: if_splits\<close>)

lemma timer_inv_reach: "timer_reach s \<Longrightarrow> timer_inv s"
  by (induction rule: timer_reach.induct) (auto intro: timer_inv_init timer_inv_step)

subsection \<open>Properties\<close>

text \<open>(C6) In every interleaving of the timer thread with any number of cancelling threads, over any
  number of reuses of the timer object: the function of a timer id is called at most once, at most
  one \<open>cancel_timer\<close> of an id succeeds, and never both; a cancel with an id of an earlier use of
  the object never touches the current one.\<close>

theorem timer_run_xor_cancel:
  assumes "timer_reach s"
  shows "distinct (ran_ids s) \<and> distinct (cancelled s) \<and> set (ran_ids s) \<inter> set (cancelled s) = {}
    \<and> (\<forall>c tid b tm. threads s c = Found tid \<longrightarrow> cancel_exchange tid (obj s) = (True, b, tm) \<longrightarrow>
         tid = timer_id (obj s) \<and> phase s = Queued \<and> tid \<notin> set (ran_ids s))"
proof -
  note inv = timer_inv_reach [OF assms]
  have "tid = timer_id (obj s) \<and> phase s = Queued \<and> tid \<notin> set (ran_ids s)"
    if "threads s c = Found tid" "cancel_exchange tid (obj s) = (True, b, tm)" for c tid b tm
    using cancel_exchange_current [OF inv found_added [OF inv that(1)] that(2)] by simp
  then show ?thesis using inv by (simp add: timer_inv_def)
qed

definition new_timer_state :: timer_state where
  "new_timer_state = \<lparr>obj = \<lparr>run_time = 0, timer_id = 5, func = 0, version = 77\<rparr>, phase = Pooled,
     threads = (\<lambda>_. Away), added = {}, ran_ids = [], cancelled = []\<rparr>"

lemma new_timer_reach: "timer_reach new_timer_state"
  by (rule timer_reach.init) (simp_all add: new_timer_state_def)

definition added_timer_state :: timer_state where
  "added_timer_state = new_timer_state\<lparr>obj := init_timer (5 + version_step) 1000 8 (obj new_timer_state),
     phase := Queued, added := {5 + version_step}\<rparr>"

lemma added_timer_reach: "timer_reach added_timer_state"
proof -
  have "timer_step new_timer_state added_timer_state"
    using timer_step.add [of new_timer_state "5 + version_step" 1000 8]
    by (simp add: added_timer_state_def) (simp add: new_timer_state_def version_step_def)
  then show ?thesis by (rule timer_reach.step [OF new_timer_reach])
qed

theorem timer_run_xor_cancel_witness:
  "\<exists>s :: timer_state. phase s = Queued \<and> distinct (ran_ids s) \<and> distinct (cancelled s) \<and> set (ran_ids s) \<inter> set (cancelled s) = {}"
  using timer_run_xor_cancel [OF added_timer_reach]
  by (intro exI [of _ added_timer_state]) (simp add: added_timer_state_def)

text \<open>\<open>cancel_timer\<close> of a timer whose function is running: the documentation promises a positive
  result, but the failed exchange has overwritten \<open>base_version\<close>, so that without a further change
  of the version the result is \<open>-1\<close>, the same as for a finished timer.\<close>

theorem cancel_running_timer:
  assumes "timer_reach s" "phase s = Running"
  shows "cancel_timer (timer_id (obj s)) (obj s) = (- 1, obj s)"
proof -
  let ?b = "timer_id (obj s) div 2 ^ 32"
  have inv: "timer_inv s" using assms(1) by (rule timer_inv_reach)
  note v = version_of_id [OF ids_bound [OF inv]]
  have ver: "version (obj s) = ?b + 1" using inv assms(2) by (simp add: timer_inv_def busy_version_def Let_def)
  have "u32 (?b + 1 + 1) = ?b + 2" using v by simp
  then show ?thesis using ver v
    by (simp add: cancel_timer_def cancel_find_def cancel_exchange_def cancel_result_def
        compare_exchange_strong_def Let_def)
qed

lemma running_timer: "\<exists>s. timer_reach s \<and> phase s = Running"
proof -
  have "run_begin (obj added_timer_state) = Some (True, (obj added_timer_state)\<lparr>version := 4\<rparr>)"
    by (simp add: added_timer_state_def new_timer_state_def init_timer_def run_begin_def version_of_def
        compare_exchange_strong_def version_step_def drop_bit_eq_div u32_def)
  then have "timer_step added_timer_state (added_timer_state\<lparr>obj := (obj added_timer_state)\<lparr>version := 4\<rparr>,
      phase := Running, ran_ids := timer_id ((obj added_timer_state)\<lparr>version := 4\<rparr>) # ran_ids added_timer_state\<rparr>)"
    by (intro timer_step.begin_run) (simp_all add: added_timer_state_def)
  from timer_reach.step [OF added_timer_reach this] show ?thesis by fastforce
qed

theorem cancel_running_timer_witness:
  "\<exists>s :: timer_state. phase s = Running \<and> cancel_timer (timer_id (obj s)) (obj s) = (- 1, obj s)"
  using running_timer cancel_running_timer by blast

text \<open>A timer that is cancelled between the timer thread's \<open>try_delete\<close> and its
  \<open>run_and_delete\<close> fails the assertion of \<open>run_and_delete\<close>: the failed exchange has replaced
  \<open>base_version\<close> by the version the assertion expects to be two higher.\<close>

theorem cancelled_timer_aborts:
  assumes "timer_reach s" "phase s = Queued" "timer_id (obj s) \<in> set (cancelled s)"
  shows "run_begin (obj s) = None \<and> try_delete (obj s) = Some True"
  using queued_cases [OF timer_inv_reach [OF assms(1)] assms(2)] assms(3) by blast

lemma cancelled_timer:
  "\<exists>s. timer_reach s \<and> phase s = Queued \<and> timer_id (obj s) \<in> set (cancelled s)"
proof -
  let ?tid = "5 + version_step"
  let ?f = "added_timer_state\<lparr>threads := (threads added_timer_state)(0 := Found ?tid)\<rparr>"
  have id: "timer_id (obj added_timer_state) = ?tid" "version (obj added_timer_state) = 3"
    by (simp_all add: added_timer_state_def init_timer_def version_of_def version_step_def drop_bit_eq_div u32_def)
  have "timer_step added_timer_state ?f"
    by (rule timer_step.find) (simp_all add: cancel_find_def id, simp_all add: added_timer_state_def new_timer_state_def)
  then have "timer_reach ?f" by (rule timer_reach.step [OF added_timer_reach])
  moreover have ex: "cancel_exchange ?tid (obj ?f) = (True, 3, (obj ?f)\<lparr>version := 5\<rparr>)"
    using id by (simp add: cancel_exchange_def compare_exchange_strong_def version_of_def version_step_def
        drop_bit_eq_div u32_def)
  let ?g = "?f\<lparr>obj := (obj ?f)\<lparr>version := 5\<rparr>, threads := (threads ?f)(0 := Away), cancelled := ?tid # cancelled ?f\<rparr>"
  have "timer_step ?f ?g" by (rule timer_step.exchange [OF _ ex]) simp
  ultimately have "timer_reach ?g" by (rule timer_reach.step)
  moreover have "phase ?g = Queued" "timer_id (obj ?g) \<in> set (cancelled ?g)"
    using id(1) by (simp_all add: added_timer_state_def)
  ultimately show ?thesis by blast
qed

theorem cancelled_timer_aborts_witness:
  "\<exists>s :: timer_state. phase s = Queued \<and> timer_id (obj s) \<in> set (cancelled s) \<and> run_begin (obj s) = None
    \<and> try_delete (obj s) = Some True"
  using cancelled_timer cancelled_timer_aborts by blast

end
