(* ===== verification/Timer_Heap.thy ===== *)
theory Timer_Heap
  imports Prelude
begin

text \<open>
  The heap of timers of \<^verbatim>\<open>src/timer.cpp\<close>: a vector kept in heap order by \<open>std::push_heap\<close> and
  \<open>std::pop_heap\<close> with \<open>timer_compare\<close>, so that the first element has the smallest key. The C++
  standard leaves the arrangement to the library; the model is the usual binary heap, and the
  locale states what the standard promises, which is all that the timer thread relies on.
\<close>

subsection \<open>Heap order\<close>

definition parent :: "nat \<Rightarrow> nat" where
  "parent i = (i - 1) div 2"

definition is_heap :: "('a \<Rightarrow> nat) \<Rightarrow> 'a list \<Rightarrow> bool" where
  "is_heap k xs = (\<forall>i < length xs. 0 < i \<longrightarrow> k (xs ! parent i) \<le> k (xs ! i))"

lemma parent_less: "0 < i \<Longrightarrow> parent i < i"
  by (simp add: parent_def)

lemma heap_min_nth: "is_heap k xs \<Longrightarrow> i < length xs \<Longrightarrow> k (xs ! 0) \<le> k (xs ! i)"
proof (induction i rule: less_induct)
  case (less i)
  show ?case
  proof (cases "i = 0")
    case False
    then have "parent i < i" by (simp add: parent_less)
    with less have "k (xs ! 0) \<le> k (xs ! parent i)" by simp
    also have "\<dots> \<le> k (xs ! i)" using less.prems False by (simp add: is_heap_def)
    finally show ?thesis .
  qed simp
qed

text \<open>What \<open>push_heap\<close> and \<open>pop_heap\<close> promise.\<close>

locale std_heap =
  fixes k :: "'a \<Rightarrow> nat" and push_heap :: "'a list \<Rightarrow> 'a list" and pop_heap :: "'a list \<Rightarrow> 'a list"
  assumes push_law: "is_heap k xs \<Longrightarrow> is_heap k (push_heap (xs @ [x])) \<and> mset (push_heap (xs @ [x])) = mset (xs @ [x])"
    and pop_law: "is_heap k xs \<Longrightarrow> xs \<noteq> [] \<Longrightarrow>
      is_heap k (butlast (pop_heap xs)) \<and> mset (pop_heap xs) = mset xs \<and> last (pop_heap xs) = hd xs"
begin

lemma front_minimal: "is_heap k xs \<Longrightarrow> x \<in> set xs \<Longrightarrow> k (hd xs) \<le> k x"
  by (metis heap_min_nth hd_conv_nth in_set_conv_nth length_greater_0_conv length_pos_if_in_set)

lemma pop_rest:
  assumes "is_heap k xs" "xs \<noteq> []"
  shows "is_heap k (butlast (pop_heap xs))" "mset xs = add_mset (hd xs) (mset (butlast (pop_heap xs)))"
proof -
  note law = pop_law [OF assms]
  show "is_heap k (butlast (pop_heap xs))" using law by simp
  have "pop_heap xs \<noteq> []" using law assms(2) by auto
  then have "mset (pop_heap xs) = add_mset (last (pop_heap xs)) (mset (butlast (pop_heap xs)))"
    by (metis append_butlast_last_id mset.simps(2) mset_append union_mset_add_mset_right mset_single_iff_right add.right_neutral)
  then show "mset xs = add_mset (hd xs) (mset (butlast (pop_heap xs)))" using law by simp
qed

end

subsection \<open>The binary heap\<close>

definition swap :: "nat \<Rightarrow> nat \<Rightarrow> 'a list \<Rightarrow> 'a list" where
  "swap i j xs = xs[i := xs ! j, j := xs ! i]"

lemma length_swap [simp]: "length (swap i j xs) = length xs"
  by (simp add: swap_def)

lemma nth_swap: "i < length xs \<Longrightarrow> j < length xs \<Longrightarrow> l < length xs \<Longrightarrow>
    swap i j xs ! l = (if l = i then xs ! j else if l = j then xs ! i else xs ! l)"
  by (auto simp: swap_def nth_list_update)

lemma mset_swap_eq [simp]: "i < length xs \<Longrightarrow> j < length xs \<Longrightarrow> mset (swap i j xs) = mset xs"
  by (simp add: swap_def mset_swap)

function sift_up :: "('a \<Rightarrow> nat) \<Rightarrow> nat \<Rightarrow> 'a list \<Rightarrow> 'a list" where
  "sift_up k i xs = (if 0 < i \<and> k (xs ! i) < k (xs ! parent i)
     then sift_up k (parent i) (swap i (parent i) xs) else xs)"
  by pat_completeness auto
termination
  by (relation "measure (\<lambda>(k, i, xs). i)") (auto simp: parent_less)

declare sift_up.simps [simp del]

text \<open>In order except that the element at \<open>i\<close> may be smaller than its parent.\<close>

definition up_ok :: "('a \<Rightarrow> nat) \<Rightarrow> nat \<Rightarrow> 'a list \<Rightarrow> bool" where
  "up_ok k i xs = ((\<forall>j < length xs. 0 < j \<longrightarrow> j \<noteq> i \<longrightarrow> k (xs ! parent j) \<le> k (xs ! j))
     \<and> (\<forall>j < length xs. 0 < j \<longrightarrow> parent j = i \<longrightarrow> 0 < i \<longrightarrow> k (xs ! parent i) \<le> k (xs ! j)))"

lemma up_ok_swap:
  assumes ok: "up_ok k i xs" and i: "i < length xs" "0 < i" and lt: "k (xs ! i) < k (xs ! parent i)"
  shows "up_ok k (parent i) (swap i (parent i) xs)"
proof -
  let ?p = "parent i"
  let ?ys = "swap i ?p xs"
  have p: "?p < i" "?p < length xs" using i parent_less [of i] by simp_all
  have nth: "?ys ! l = (if l = i then xs ! ?p else if l = ?p then xs ! i else xs ! l)" if "l < length xs" for l
    using nth_swap [OF i(1) p(2) that] .
  have par: "parent j < length xs" if "0 < j" "j < length xs" for j using parent_less [of j] that by simp
  have 1: "k (xs ! parent j) \<le> k (xs ! j)" if "j < length xs" "0 < j" "j \<noteq> i" for j
    using ok that by (simp add: up_ok_def)
  have 2: "k (xs ! ?p) \<le> k (xs ! j)" if "j < length xs" "0 < j" "parent j = i" for j
    using ok that i(2) by (simp add: up_ok_def)
  have a: "k (?ys ! parent j) \<le> k (?ys ! j)" if j: "j < length xs" "0 < j" "j \<noteq> ?p" for j
  proof (cases "j = i")
    case True
    then show ?thesis using nth p lt i by simp
  next
    case False
    have le: "k (xs ! parent j) \<le> k (xs ! j)" using 1 j False by simp
    show ?thesis
    proof (cases "parent j = i")
      case True
      then show ?thesis using nth [OF j(1)] nth [OF i(1)] 2 [OF j(1,2)] False j(3) p by simp
    next
      case ni: False
      then show ?thesis
        using nth [OF j(1)] nth [OF par [OF j(2,1)]] le lt False j(3) by (auto intro: order_trans less_imp_le)
    qed
  qed
  have b: "k (?ys ! parent ?p) \<le> k (?ys ! j)" if j: "j < length xs" "0 < j" "parent j = ?p" "0 < ?p" for j
  proof -
    have pp: "parent ?p < ?p" using j(4) by (rule parent_less)
    then have "?ys ! parent ?p = xs ! parent ?p" using nth [of "parent ?p"] p by simp
    moreover have "k (xs ! parent ?p) \<le> k (xs ! ?p)" using 1 [OF p(2) j(4)] p by simp
    moreover have "k (xs ! ?p) \<le> k (xs ! j)" if "j \<noteq> i" using 1 [OF j(1,2) that] j(3) by simp
    moreover have "j \<noteq> ?p" using parent_less [of j] j by auto
    ultimately show ?thesis using nth [OF j(1)] by (auto intro: order_trans)
  qed
  show ?thesis using a b by (simp add: up_ok_def)
qed

lemma sift_up_heap:
  "up_ok k i xs \<Longrightarrow> i < length xs \<Longrightarrow> is_heap k (sift_up k i xs) \<and> mset (sift_up k i xs) = mset xs"
proof (induction k i xs rule: sift_up.induct)
  case (1 k i xs)
  show ?case
  proof (cases "0 < i \<and> k (xs ! i) < k (xs ! parent i)")
    case True
    then have "parent i < length xs" using parent_less [of i] "1.prems" by simp
    moreover have "up_ok k (parent i) (swap i (parent i) xs)" using True "1.prems" up_ok_swap by blast
    ultimately show ?thesis using "1.IH" True "1.prems" by (subst (1 2) sift_up.simps) simp
  next
    case False
    then have "is_heap k xs" using "1.prems" by (auto simp: is_heap_def up_ok_def not_less)
    moreover have "sift_up k i xs = xs" using False by (subst sift_up.simps) (rule if_not_P)
    ultimately show ?thesis by simp
  qed
qed

text \<open>The child of \<open>i\<close> with the smaller key; \<open>i\<close> itself when it has no child.\<close>

definition least_child :: "('a \<Rightarrow> nat) \<Rightarrow> nat \<Rightarrow> 'a list \<Rightarrow> nat" where
  "least_child k i xs = (if length xs \<le> 2 * i + 1 then i
     else if length xs \<le> 2 * i + 2 \<or> k (xs ! (2 * i + 1)) \<le> k (xs ! (2 * i + 2)) then 2 * i + 1
     else 2 * i + 2)"

function sift_down :: "('a \<Rightarrow> nat) \<Rightarrow> nat \<Rightarrow> 'a list \<Rightarrow> 'a list" where
  "sift_down k i xs = (let c = least_child k i xs in
     if i < c \<and> k (xs ! c) < k (xs ! i) then sift_down k c (swap i c xs) else xs)"
  by pat_completeness auto
termination
  by (relation "measure (\<lambda>(k, i, xs). length xs - i)")
    (auto simp: least_child_def split: if_splits)

declare sift_down.simps [simp del]

lemma parent_eq: "0 < j \<Longrightarrow> parent j = i \<longleftrightarrow> j = 2 * i + 1 \<or> j = 2 * i + 2"
  by (auto simp: parent_def)

lemma least_child:
  assumes "i < least_child k i xs"
  shows "least_child k i xs < length xs" "parent (least_child k i xs) = i"
    "\<And>j. j < length xs \<Longrightarrow> 0 < j \<Longrightarrow> parent j = i \<Longrightarrow> k (xs ! least_child k i xs) \<le> k (xs ! j)"
proof -
  show "least_child k i xs < length xs" "parent (least_child k i xs) = i"
    using assms by (auto simp: least_child_def parent_def split: if_splits)
  fix j
  assume j: "j < length xs" "0 < j" "parent j = i"
  then have "j = 2 * i + 1 \<or> j = 2 * i + 2" by (simp only: parent_eq)
  then show "k (xs ! least_child k i xs) \<le> k (xs ! j)"
    using j(1) assms by (auto simp: least_child_def split: if_splits)
qed

lemma no_child: "\<not> i < least_child k i xs \<Longrightarrow> 0 < j \<Longrightarrow> parent j = i \<Longrightarrow> \<not> j < length xs"
  by (auto simp: least_child_def parent_eq split: if_splits)

text \<open>In order except that the element at \<open>i\<close> may be larger than its children.\<close>

definition down_ok :: "('a \<Rightarrow> nat) \<Rightarrow> nat \<Rightarrow> 'a list \<Rightarrow> bool" where
  "down_ok k i xs = ((\<forall>j < length xs. 0 < j \<longrightarrow> parent j \<noteq> i \<longrightarrow> k (xs ! parent j) \<le> k (xs ! j))
     \<and> (\<forall>j < length xs. 0 < j \<longrightarrow> parent j = i \<longrightarrow> 0 < i \<longrightarrow> k (xs ! parent i) \<le> k (xs ! j)))"

lemma down_ok_swap:
  assumes ok: "down_ok k i xs" and c: "i < least_child k i xs" "k (xs ! least_child k i xs) < k (xs ! i)"
  defines "c \<equiv> least_child k i xs"
  shows "down_ok k c (swap i c xs)"
proof -
  let ?ys = "swap i c xs"
  note lc = least_child [OF c(1), folded c_def]
  have ci: "i < c" "i < length xs" "0 < c" using c(1) lc(1) by (simp_all add: c_def)
  have nth: "?ys ! l = (if l = i then xs ! c else if l = c then xs ! i else xs ! l)" if "l < length xs" for l
    using nth_swap [OF ci(2) lc(1) that] .
  have 1: "k (xs ! parent j) \<le> k (xs ! j)" if "j < length xs" "0 < j" "parent j \<noteq> i" for j
    using ok that by (simp add: down_ok_def)
  have 2: "k (xs ! parent i) \<le> k (xs ! j)" if "j < length xs" "0 < j" "parent j = i" "0 < i" for j
    using ok that by (simp add: down_ok_def)
  have par: "parent j < length xs" if "0 < j" "j < length xs" for j using parent_less [of j] that by simp
  have a: "k (?ys ! parent j) \<le> k (?ys ! j)" if j: "j < length xs" "0 < j" "parent j \<noteq> c" for j
  proof (cases "parent j = i")
    case True
    then have "?ys ! parent j = xs ! c" using nth [OF ci(2)] by simp
    moreover have "j \<noteq> i" using parent_less [OF j(2)] True by simp
    moreover have "k (xs ! c) \<le> k (xs ! j)" using lc(3) [OF j(1,2) True] .
    ultimately show ?thesis using nth [OF j(1)] c(2) by (simp add: c_def)
  next
    case False
    have pj: "?ys ! parent j = xs ! parent j" using nth [OF par [OF j(2,1)]] False j(3) by simp
    have le: "k (xs ! parent j) \<le> k (xs ! j)" using 1 [OF j(1,2) False] .
    have "k (xs ! parent i) \<le> k (xs ! c)" if "j = i" using 2 [OF lc(1) ci(3) lc(2)] j(2) that by simp
    moreover have "j \<noteq> c" using False lc(2) by auto
    ultimately show ?thesis using pj le nth [OF j(1)] by auto
  qed
  have b: "k (?ys ! parent c) \<le> k (?ys ! j)" if j: "j < length xs" "0 < j" "parent j = c" for j
  proof -
    have "j \<noteq> i" "j \<noteq> c" using parent_less [OF j(2)] j(3) ci(1) by auto
    moreover have "k (xs ! c) \<le> k (xs ! j)" using 1 [OF j(1,2)] j(3) ci(1) by simp
    ultimately show ?thesis using nth [OF j(1)] nth [OF ci(2)] lc(2) by simp
  qed
  show ?thesis using a b by (simp add: down_ok_def)
qed

lemma sift_down_heap:
  "down_ok k i xs \<Longrightarrow> i < length xs \<Longrightarrow> is_heap k (sift_down k i xs) \<and> mset (sift_down k i xs) = mset xs"
proof (induction k i xs rule: sift_down.induct)
  case (1 k i xs)
  let ?c = "least_child k i xs"
  show ?case
  proof (cases "i < ?c \<and> k (xs ! ?c) < k (xs ! i)")
    case True
    then have "?c < length xs" "down_ok k ?c (swap i ?c xs)"
      using least_child(1) down_ok_swap "1.prems" by blast+
    then show ?thesis using "1.IH" [OF refl True] True "1.prems"
      by (subst (1 2) sift_down.simps) (simp add: Let_def)
  next
    case False
    have "k (xs ! parent j) \<le> k (xs ! j)" if j: "j < length xs" "0 < j" for j
    proof (cases "parent j = i")
      case True
      then have "i < ?c" using no_child [of i k xs j] j by blast
      with False have "k (xs ! i) \<le> k (xs ! ?c)" by simp
      also have "\<dots> \<le> k (xs ! j)" using least_child(3) \<open>i < ?c\<close> j True by blast
      finally show ?thesis using True by simp
    qed (use "1.prems" j in \<open>simp add: down_ok_def\<close>)
    then have "is_heap k xs" by (simp add: is_heap_def)
    moreover have "sift_down k i xs = xs" using False by (subst sift_down.simps) (simp only: Let_def if_not_P if_False)
    ultimately show ?thesis by simp
  qed
qed

definition std_push_heap :: "('a \<Rightarrow> nat) \<Rightarrow> 'a list \<Rightarrow> 'a list" where
  "std_push_heap k xs = sift_up k (length xs - 1) xs"

text \<open>\<open>pop_heap\<close> moves the first element to the end and restores the order of the rest.\<close>

definition std_pop_heap :: "('a \<Rightarrow> nat) \<Rightarrow> 'a list \<Rightarrow> 'a list" where
  "std_pop_heap k xs = (case xs of [] \<Rightarrow> [] | [x] \<Rightarrow> [x]
     | x # ys \<Rightarrow> sift_down k 0 (last ys # butlast ys) @ [x])"

interpretation bh: std_heap k "std_push_heap k" "std_pop_heap k" for k
proof
  fix xs :: "'a list" and x
  assume h: "is_heap k xs"
  have "up_ok k (length xs) (xs @ [x])"
    unfolding up_ok_def
  proof (intro conjI allI impI)
    fix j
    assume j: "j < length (xs @ [x])" "0 < j" "j \<noteq> length xs"
    then show "k ((xs @ [x]) ! parent j) \<le> k ((xs @ [x]) ! j)"
      using h parent_less [of j] by (simp add: nth_append is_heap_def)
  next
    fix j
    assume "j < length (xs @ [x])" "0 < j" "parent j = length xs"
    then show "k ((xs @ [x]) ! parent (length xs)) \<le> k ((xs @ [x]) ! j)"
      using parent_less [of j] by simp
  qed
  from sift_up_heap [OF this] show "is_heap k (std_push_heap k (xs @ [x]))
      \<and> mset (std_push_heap k (xs @ [x])) = mset (xs @ [x])" by (simp add: std_push_heap_def)
next
  fix xs :: "'a list"
  assume h: "is_heap k xs" and ne: "xs \<noteq> []"
  show "is_heap k (butlast (std_pop_heap k xs)) \<and> mset (std_pop_heap k xs) = mset xs
      \<and> last (std_pop_heap k xs) = hd xs"
  proof (cases "\<exists>x. xs = [x]")
    case True
    then show ?thesis by (auto simp: std_pop_heap_def is_heap_def)
  next
    case False
    then obtain x ys where xs: "xs = x # ys" "ys \<noteq> []" using ne by (cases xs) auto
    let ?zs = "last ys # butlast ys"
    have eq: "std_pop_heap k xs = sift_down k 0 ?zs @ [x]" using xs by (cases ys) (auto simp: std_pop_heap_def)
    have "down_ok k 0 ?zs"
      unfolding down_ok_def
    proof (intro conjI allI impI)
      fix j
      assume j: "j < length ?zs" "0 < j" "parent j \<noteq> 0"
      have nth: "?zs ! l = xs ! l" if "0 < l" "l < length ?zs" for l
        using that xs by (cases l) (auto simp: nth_butlast)
      have "k (xs ! parent j) \<le> k (xs ! j)"
      proof -
        have "j < length xs" using j(1) xs by simp
        then show ?thesis using h j(2) unfolding is_heap_def by blast
      qed
      then show "k (?zs ! parent j) \<le> k (?zs ! j)"
        using nth [OF j(2,1)] nth [of "parent j"] j parent_less [OF j(2)] by simp
    qed simp
    from sift_down_heap [OF this] have "is_heap k (sift_down k 0 ?zs)" "mset (sift_down k 0 ?zs) = mset ?zs"
      by simp_all
    moreover have "mset ?zs = mset ys"
      using xs(2) append_butlast_last_id [OF xs(2)] by (metis mset.simps(2) mset_append mset_single_iff_right union_commute add_mset_add_single)
    ultimately show ?thesis using eq xs by simp
  qed
qed

end
