(* ===== verification/Timer_Thread.thy ===== *)
theory Timer_Thread
  imports Timer Timer_Heap
begin

text \<open>
  The buckets, the heap and the main loop of the timer thread of \<^verbatim>\<open>src/timer.cpp\<close>. The model
  executes one call of \<open>add_timer\<close> or one round of \<open>Run\<close> at a time; the interleaving of
  cancels with the thread is the subject of \<open>Timer\<close>. \<open>clock n\<close> is what the \<open>n\<close>-th call of
  \<open>gettimeofday_us\<close> returns. \<open>released\<close> and \<open>called\<close> record the calls of \<open>TimerFactory::release\<close>
  and of the timers' functions; what the functions do is not modelled.
\<close>

subsection \<open>Buckets\<close>

definition int64_max :: nat where
  "int64_max = 9223372036854775807"

text \<open>The list of a bucket, from \<open>head_\<close> along \<open>next\<close>.\<close>

record timer_bucket =
  tb_timers :: "timer list"
  tb_min :: nat

definition TimerBucket :: timer_bucket where
  "TimerBucket = \<lparr>tb_timers = [], tb_min = int64_max\<rparr>"

definition bucket_reset :: "timer_bucket \<Rightarrow> timer list \<times> timer_bucket" where
  "bucket_reset b = (tb_timers b, b\<lparr>tb_timers := [], tb_min := int64_max\<rparr>)"

definition bucket_add_timer :: "timer \<Rightarrow> timer_bucket \<Rightarrow> bool \<times> timer_bucket" where
  "bucket_add_timer tm b = (let b1 = b\<lparr>tb_timers := tm # tb_timers b\<rparr> in
     if run_time tm < tb_min b1 then (False, b1\<lparr>tb_min := run_time tm\<rparr>) else (True, b1))"

subsection \<open>The thread\<close>

record timer_thread =
  bucket_array :: "timer_bucket list"
  min_timestamp :: nat
  signal_pending :: nat
  tm_heap :: "timer list"
  released :: "nat list"
  called :: "timer list"

definition TimerThread :: "nat \<Rightarrow> timer_thread" where
  "TimerThread n = \<lparr>bucket_array = replicate (if n = 0 then 1 else n) TimerBucket,
     min_timestamp = int64_max, signal_pending = 0, tm_heap = [], released = [], called = []\<rparr>"

definition futex_wake :: "nat \<Rightarrow> timer_thread \<Rightarrow> timer_thread" where
  "futex_wake n th = th\<lparr>signal_pending := u32 (signal_pending th + n)\<rparr>"

definition thread_add_timer :: "nat \<Rightarrow> timer \<Rightarrow> timer_thread \<Rightarrow> timer_thread" where
  "thread_add_timer thread_id tm th =
     (let i = thread_id mod length (bucket_array th);
          (later, b) = bucket_add_timer tm (bucket_array th ! i);
          th1 = th\<lparr>bucket_array := (bucket_array th)[i := b]\<rparr>
      in if later then th1
         else if min_timestamp th1 \<le> run_time tm then th1
         else futex_wake 1 (th1\<lparr>min_timestamp := run_time tm\<rparr>))"

text \<open>\<open>TimerControl::add_timer\<close> for an object that the factory handed out with the id \<open>raw\<close>.\<close>

definition control_add_timer :: "nat \<Rightarrow> nat \<Rightarrow> nat \<Rightarrow> nat \<Rightarrow> timer_thread \<Rightarrow> nat \<times> timer_thread" where
  "control_add_timer thread_id raw f abstime_us th =
     (let tid = u64 (raw + version_step);
          tm = init_timer tid abstime_us f \<lparr>run_time = 0, timer_id = 0, func = 0, version = 0\<rparr>
      in (tid, thread_add_timer thread_id tm th))"

definition release_timer :: "timer \<Rightarrow> timer_thread \<Rightarrow> timer_thread" where
  "release_timer tm th = th\<lparr>released := released th @ [timer_id tm]\<rparr>"

text \<open>Moving the timers of one list, and of all buckets, into the heap.\<close>

fun pull_list :: "timer list \<Rightarrow> timer_thread \<Rightarrow> timer_thread option" where
  "pull_list [] th = Some th"
| "pull_list (tm # tms) th = do {
     del \<leftarrow> try_delete tm;
     pull_list tms (if del then release_timer tm th
       else th\<lparr>tm_heap := std_push_heap run_time (tm_heap th @ [tm])\<rparr>)}"

fun pull_buckets :: "nat \<Rightarrow> nat \<Rightarrow> timer_thread \<Rightarrow> timer_thread option" where
  "pull_buckets 0 i th = Some th"
| "pull_buckets (Suc k) i th = do {
     let (tms, b) = bucket_reset (bucket_array th ! i);
     th1 \<leftarrow> pull_list tms (th\<lparr>bucket_array := (bucket_array th)[i := b]\<rparr>);
     pull_buckets k (Suc i) th1}"

definition drop_front :: "timer_thread \<Rightarrow> timer_thread" where
  "drop_front th = th\<lparr>tm_heap := butlast (std_pop_heap run_time (tm_heap th))\<rparr>"

definition run_and_delete :: "timer \<Rightarrow> timer_thread \<Rightarrow> timer_thread option" where
  "run_and_delete tm th = do {
     (go, tm1) \<leftarrow> run_begin tm;
     let th1 = (if go then th\<lparr>called := called th @ [tm]\<rparr> else th);
     Some (release_timer (if go then run_end tm1 else tm1) th1)}"

lemma length_sift_down [simp]: "length (sift_down k i xs) = length xs"
proof (induction k i xs rule: sift_down.induct)
  case (1 k i xs)
  then show ?case by (subst sift_down.simps) (auto simp: Let_def)
qed

lemma length_pop_heap [simp]: "length (std_pop_heap k xs) = length xs"
  by (auto simp: std_pop_heap_def split: list.splits)

lemma run_and_delete_heap: "run_and_delete tm th = Some th' \<Longrightarrow> tm_heap th' = tm_heap th"
  by (auto simp: run_and_delete_def release_timer_def Let_def split: bind_splits)

text \<open>The inner loop of \<open>Run\<close>; \<open>n\<close> counts the clock readings.\<close>

function run_due :: "(nat \<Rightarrow> nat) \<Rightarrow> nat \<Rightarrow> timer_thread \<Rightarrow> (nat \<times> timer_thread) option" where
  "run_due clock n th =
     (if tm_heap th = [] then Some (n, th)
      else do {
        let tm = hd (tm_heap th);
        del \<leftarrow> try_delete tm;
        if del then run_due clock n (release_timer tm (drop_front th))
        else if run_time tm > clock n then Some (Suc n, th)
        else do {
          th1 \<leftarrow> run_and_delete tm (drop_front th);
          run_due clock (Suc n) th1}})"
  by pat_completeness auto
termination
  by (relation "measure (\<lambda>(clock, n, th). length (tm_heap th))")
    (auto simp: release_timer_def drop_front_def dest!: run_and_delete_heap)

declare run_due.simps [simp del]

text \<open>When to sleep and for how long: the seconds and the field \<open>tv_nsec\<close>.\<close>

definition sleep_time :: "nat \<Rightarrow> timer_thread \<Rightarrow> (nat \<times> nat) option" where
  "sleep_time now th =
     (let point = (if tm_heap th \<noteq> [] \<and> min_timestamp th > run_time (hd (tm_heap th))
                   then run_time (hd (tm_heap th)) else min_timestamp th)
      in if point > now
         then let d = point - now; sec = d div 1000000 in Some (sec, d - sec * 1000000)
         else None)"

text \<open>One round of the loop of \<open>Run\<close>, up to the call of \<open>futex_wait\<close>.\<close>

definition run_round ::
  "(nat \<Rightarrow> nat) \<Rightarrow> nat \<Rightarrow> timer_thread \<Rightarrow> (nat \<times> (nat \<times> nat) option \<times> timer_thread) option" where
  "run_round clock n th = do {
     th1 \<leftarrow> pull_buckets (length (bucket_array th)) 0 (th\<lparr>min_timestamp := int64_max\<rparr>);
     (n1, th2) \<leftarrow> run_due clock n th1;
     Some (Suc n1, sleep_time (clock n1) th2, th2)}"

text \<open>What remains when the thread stops, and the destructor.\<close>

definition run_exit :: "timer_thread \<Rightarrow> timer_thread" where
  "run_exit th = foldl (\<lambda>th tm. release_timer tm th) th (tm_heap th)"

fun release_buckets :: "nat \<Rightarrow> nat \<Rightarrow> timer_thread \<Rightarrow> timer_thread" where
  "release_buckets 0 i th = th"
| "release_buckets (Suc k) i th =
     (let (tms, b) = bucket_reset (bucket_array th ! i)
      in release_buckets k (Suc i)
        (foldl (\<lambda>th tm. release_timer tm th) (th\<lparr>bucket_array := (bucket_array th)[i := b]\<rparr>) tms))"

subsection \<open>Invariants\<close>

text \<open>A timer is waiting or cancelled, and its versions do not wrap.\<close>

definition pending_ok :: "timer \<Rightarrow> bool" where
  "pending_ok tm = (timer_id tm + version_step \<le> 2 ^ 64
     \<and> (version tm = timer_id tm div 2 ^ 32 \<or> version tm = timer_id tm div 2 ^ 32 + 2))"

definition is_cancelled :: "timer \<Rightarrow> bool" where
  "is_cancelled tm = (version tm = timer_id tm div 2 ^ 32 + 2)"

text \<open>All timers that the thread has not released or run.\<close>

definition queued :: "timer_thread \<Rightarrow> timer list" where
  "queued th = concat (map tb_timers (bucket_array th))"

definition thread_ok :: "timer_thread \<Rightarrow> bool" where
  "thread_ok th = (is_heap run_time (tm_heap th) \<and> bucket_array th \<noteq> []
     \<and> (\<forall>tm \<in> set (tm_heap th) \<union> set (queued th). pending_ok tm)
     \<and> (\<forall>b \<in> set (bucket_array th). min_timestamp th \<le> tb_min b \<and> (\<forall>tm \<in> set (tb_timers b). tb_min b \<le> run_time tm)))"

lemma try_delete_ok: "pending_ok tm \<Longrightarrow> try_delete tm = Some (is_cancelled tm)"
  using version_of_id [of "timer_id tm"]
  by (auto simp: pending_ok_def try_delete_def is_cancelled_def Let_def)

lemma run_begin_ok:
  "pending_ok tm \<Longrightarrow> \<not> is_cancelled tm \<Longrightarrow>
   run_begin tm = Some (True, tm\<lparr>version := timer_id tm div 2 ^ 32 + 1\<rparr>)"
  using version_of_id [of "timer_id tm"]
  by (auto simp: pending_ok_def run_begin_def is_cancelled_def compare_exchange_strong_def Let_def)

lemma run_and_delete_ok:
  "pending_ok tm \<Longrightarrow> \<not> is_cancelled tm \<Longrightarrow> run_and_delete tm th
     = Some (th\<lparr>called := called th @ [tm], released := released th @ [timer_id tm]\<rparr>)"
  by (simp add: run_and_delete_def run_begin_ok release_timer_def run_end_def)

subsection \<open>Running what is due\<close>

text \<open>\<open>due_post clock n th m th'\<close>: between the readings \<open>n\<close> and \<open>m\<close> of the clock the timers \<open>es\<close>
  were called, in order of their times and each not before its time; \<open>ds\<close> were found cancelled;
  the others are still in the heap, and the first of them is not due.\<close>

definition due_post :: "(nat \<Rightarrow> nat) \<Rightarrow> nat \<Rightarrow> timer_thread \<Rightarrow> nat \<Rightarrow> timer_thread \<Rightarrow> timer list \<Rightarrow> timer list \<Rightarrow> bool" where
  "due_post clock n th m th' es ds = (called th' = called th @ es
     \<and> mset (tm_heap th) = mset (tm_heap th') + mset es + mset ds
     \<and> is_heap run_time (tm_heap th') \<and> bucket_array th' = bucket_array th \<and> min_timestamp th' = min_timestamp th
     \<and> mset (released th') = mset (released th) + image_mset timer_id (mset es + mset ds)
     \<and> (\<forall>tm \<in> set es. \<not> is_cancelled tm \<and> (\<exists>i. n \<le> i \<and> i < m \<and> run_time tm \<le> clock i))
     \<and> (\<forall>tm \<in> set ds. is_cancelled tm) \<and> sorted (map run_time es)
     \<and> (\<forall>tm \<in> set es. \<forall>tm' \<in> set (tm_heap th'). run_time tm \<le> run_time tm')
     \<and> n \<le> m \<and> (tm_heap th' \<noteq> [] \<longrightarrow> n < m \<and> (\<forall>tm \<in> set (tm_heap th'). clock (m - 1) < run_time tm)
          \<and> \<not> is_cancelled (hd (tm_heap th'))))"

lemma due_post_late:
  assumes "due_post clock n th m th' es ds" "tm \<in> set (tm_heap th')"
  shows "n < m" "clock (m - 1) < run_time tm"
proof -
  have "tm_heap th' \<noteq> []" using assms(2) by auto
  then show "n < m" "clock (m - 1) < run_time tm" using assms by (simp_all add: due_post_def)
qed

lemma due_post_stop:
  assumes h: "is_heap run_time (tm_heap th)" "tm_heap th \<noteq> []" "\<not> is_cancelled (hd (tm_heap th))"
    and late: "clock n < run_time (hd (tm_heap th))"
  shows "due_post clock n th (Suc n) th [] []"
proof -
  have "clock n < run_time tm" if "tm \<in> set (tm_heap th)" for tm
    using late bh.front_minimal [OF h(1) that] by simp
  then show ?thesis using h by (simp add: due_post_def)
qed

lemma due_post_cancelled:
  assumes h: "is_heap run_time (tm_heap th)" "tm_heap th \<noteq> []" "is_cancelled (hd (tm_heap th))"
    and post: "due_post clock n (release_timer (hd (tm_heap th)) (drop_front th)) m th' es ds"
  shows "due_post clock n th m th' es (hd (tm_heap th) # ds)"
proof -
  note rest = bh.pop_rest [OF h(1,2)]
  show ?thesis using post rest h(3)
    by (auto simp: due_post_def release_timer_def drop_front_def)
qed

lemma due_post_called:
  assumes h: "is_heap run_time (tm_heap th)" "tm_heap th \<noteq> []" "\<not> is_cancelled (hd (tm_heap th))"
    and due: "run_time (hd (tm_heap th)) \<le> clock n"
    and post: "due_post clock (Suc n) ((drop_front th)\<lparr>called := called th @ [hd (tm_heap th)],
      released := released th @ [timer_id (hd (tm_heap th))]\<rparr>) m th' es ds"
  shows "due_post clock n th m th' (hd (tm_heap th) # es) ds"
proof -
  let ?tm = "hd (tm_heap th)"
  note rest = bh.pop_rest [OF h(1,2)]
  have ms: "mset (tm_heap th) = add_mset ?tm (mset (tm_heap th') + mset es + mset ds)"
    using post rest(2) by (simp add: due_post_def drop_front_def)
  have "set_mset (mset (tm_heap th)) = insert ?tm (set (tm_heap th') \<union> set es \<union> set ds)"
    unfolding ms by auto
  then have "set (tm_heap th') \<union> set es \<subseteq> set (tm_heap th)" by auto
  then have min: "run_time ?tm \<le> run_time tm" if "tm \<in> set (tm_heap th') \<union> set es" for tm
    using bh.front_minimal [OF h(1)] that by blast
  have m: "Suc n \<le> m" using post by (simp add: due_post_def)
  have times: "\<exists>i. n \<le> i \<and> i < m \<and> run_time tm \<le> clock i" if tm: "tm \<in> set (?tm # es)" for tm
  proof (cases "tm = ?tm")
    case True
    then show ?thesis using due m by (intro exI [of _ n]) simp
  next
    case False
    then have "tm \<in> set es" using tm by simp
    then obtain i where "Suc n \<le> i" "i < m" "run_time tm \<le> clock i"
      using post unfolding due_post_def by blast
    then show ?thesis by (intro exI [of _ i]) simp
  qed
  have "called th' = called th @ ?tm # es" "mset (released th')
      = mset (released th) + image_mset timer_id (mset (?tm # es) + mset ds)"
    using post by (simp_all add: due_post_def drop_front_def)
  then show ?thesis using post times min ms h(3) m unfolding due_post_def
    by (auto simp: drop_front_def)
qed

lemma run_due_ok:
  "is_heap run_time (tm_heap th) \<Longrightarrow> \<forall>tm \<in> set (tm_heap th). pending_ok tm \<Longrightarrow>
   \<exists>m th' es ds. run_due clock n th = Some (m, th') \<and> due_post clock n th m th' es ds"
proof (induction "length (tm_heap th)" arbitrary: n th rule: less_induct)
  case less
  show ?case
  proof (cases "tm_heap th = []")
    case True
    then have "run_due clock n th = Some (n, th)" by (subst run_due.simps) simp
    moreover have "due_post clock n th n th [] []" using True by (simp add: due_post_def is_heap_def)
    ultimately show ?thesis by blast
  next
    case ne: False
    let ?tm = "hd (tm_heap th)"
    have ok: "pending_ok ?tm" using less.prems(2) ne by simp
    note rest = bh.pop_rest [OF less.prems(1) ne]
    have sub: "\<forall>tm \<in> set (tm_heap (drop_front th)). pending_ok tm"
      using less.prems(2) rest(2) by (simp add: drop_front_def flip: set_mset_mset)
    have heap: "is_heap run_time (tm_heap (drop_front th))" and
      small: "length (tm_heap (drop_front th)) < length (tm_heap th)"
      using rest(1) ne by (simp_all add: drop_front_def)
    show ?thesis
    proof (cases "is_cancelled ?tm")
      case True
      let ?th = "release_timer ?tm (drop_front th)"
      have "length (tm_heap ?th) < length (tm_heap th)" "is_heap run_time (tm_heap ?th)"
        "\<forall>tm \<in> set (tm_heap ?th). pending_ok tm" using small heap sub by (simp_all add: release_timer_def)
      from less.hyps [OF this] obtain m th' es ds where "run_due clock n ?th = Some (m, th')"
        "due_post clock n ?th m th' es ds" by blast
      moreover have "run_due clock n th = run_due clock n ?th"
        using ne True try_delete_ok [OF ok] by (subst run_due.simps) simp
      ultimately show ?thesis using due_post_cancelled [OF less.prems(1) ne True] by metis
    next
      case False
      show ?thesis
      proof (cases "clock n < run_time ?tm")
        case True
        then have "run_due clock n th = Some (Suc n, th)"
          using ne False try_delete_ok [OF ok] by (subst run_due.simps) simp
        then show ?thesis using due_post_stop [OF less.prems(1) ne False, of clock n] True by blast
      next
        case due: False
        let ?th = "(drop_front th)\<lparr>called := called th @ [?tm], released := released th @ [timer_id ?tm]\<rparr>"
        have "length (tm_heap ?th) < length (tm_heap th)" "is_heap run_time (tm_heap ?th)"
          "\<forall>tm \<in> set (tm_heap ?th). pending_ok tm" using small heap sub by simp_all
        from less.hyps [OF this, of "Suc n"] obtain m th' es ds where
          "run_due clock (Suc n) ?th = Some (m, th')" "due_post clock (Suc n) ?th m th' es ds" by blast
        moreover have "run_due clock n th = run_due clock (Suc n) ?th"
          using ne False due try_delete_ok [OF ok] run_and_delete_ok [OF ok False, of "drop_front th"]
          by (subst run_due.simps) (simp add: drop_front_def Let_def)
        ultimately show ?thesis using due_post_called [OF less.prems(1) ne False] due by (metis not_less)
      qed
    qed
  qed
qed

subsection \<open>Emptying the buckets\<close>

lemma pull_list_ok:
  "is_heap run_time (tm_heap th) \<Longrightarrow> \<forall>tm \<in> set tms. pending_ok tm \<Longrightarrow>
   \<exists>h r. pull_list tms th = Some (th\<lparr>tm_heap := h, released := released th @ r\<rparr>) \<and> is_heap run_time h
     \<and> mset h = mset (tm_heap th) + mset (filter (\<lambda>tm. \<not> is_cancelled tm) tms)
     \<and> r = map timer_id (filter is_cancelled tms)"
proof (induction tms arbitrary: th)
  case Nil
  then show ?case by (intro exI [of _ "tm_heap th"] exI [of _ "[]"]) simp
next
  case (Cons tm tms)
  have ok: "try_delete tm = Some (is_cancelled tm)" using Cons.prems(2) try_delete_ok by simp
  show ?case
  proof (cases "is_cancelled tm")
    case True
    with Cons.IH [of "release_timer tm th"] Cons.prems ok show ?thesis
      by (auto simp: release_timer_def)
  next
    case False
    let ?h = "std_push_heap run_time (tm_heap th @ [tm])"
    have "is_heap run_time ?h" "mset ?h = mset (tm_heap th @ [tm])"
      using bh.push_law [OF Cons.prems(1), of tm] by simp_all
    with Cons.IH [of "th\<lparr>tm_heap := ?h\<rparr>"] Cons.prems ok False show ?thesis by auto
  qed
qed

lemma pull_buckets_ok:
  "is_heap run_time (tm_heap th) \<Longrightarrow> i + k = length (bucket_array th) \<Longrightarrow>
   \<forall>tm \<in> set (concat (map tb_timers (drop i (bucket_array th)))). pending_ok tm \<Longrightarrow>
   \<exists>h r. pull_buckets k i th = Some (th\<lparr>tm_heap := h, released := released th @ r,
       bucket_array := take i (bucket_array th) @ replicate k TimerBucket\<rparr>) \<and> is_heap run_time h
     \<and> mset h = mset (tm_heap th) + mset (filter (\<lambda>tm. \<not> is_cancelled tm) (concat (map tb_timers (drop i (bucket_array th)))))
     \<and> r = map timer_id (filter is_cancelled (concat (map tb_timers (drop i (bucket_array th)))))"
proof (induction k arbitrary: i th)
  case 0
  then show ?case by (intro exI [of _ "tm_heap th"] exI [of _ "[]"]) simp
next
  case (Suc k)
  let ?b = "bucket_array th ! i"
  have dr: "drop i (bucket_array th) = ?b # drop (Suc i) (bucket_array th)"
    using Suc.prems(2) by (simp add: Cons_nth_drop_Suc)
  have rb: "bucket_reset ?b = (tb_timers ?b, TimerBucket)"
    by (simp add: bucket_reset_def TimerBucket_def)
  let ?th = "th\<lparr>bucket_array := (bucket_array th)[i := TimerBucket]\<rparr>"
  obtain h r where 1: "pull_list (tb_timers ?b) ?th = Some (?th\<lparr>tm_heap := h, released := released th @ r\<rparr>)"
    "is_heap run_time h" "mset h = mset (tm_heap th) + mset (filter (\<lambda>tm. \<not> is_cancelled tm) (tb_timers ?b))"
    "r = map timer_id (filter is_cancelled (tb_timers ?b))"
    using pull_list_ok [of ?th "tb_timers ?b"] Suc.prems(1,3) dr by auto
  let ?th1 = "?th\<lparr>tm_heap := h, released := released th @ r\<rparr>"
  have dr1: "drop (Suc i) ((bucket_array th)[i := TimerBucket]) = drop (Suc i) (bucket_array th)" by simp
  have tk: "take (Suc i) ((bucket_array th)[i := TimerBucket]) = take i (bucket_array th) @ [TimerBucket]"
    using Suc.prems(2) by (simp add: take_Suc_conv_app_nth)
  obtain h' r' where 2: "pull_buckets k (Suc i) ?th1 = Some (?th1\<lparr>tm_heap := h', released := released ?th1 @ r',
      bucket_array := take (Suc i) (bucket_array ?th1) @ replicate k TimerBucket\<rparr>)" "is_heap run_time h'"
    "mset h' = mset h + mset (filter (\<lambda>tm. \<not> is_cancelled tm) (concat (map tb_timers (drop (Suc i) (bucket_array th)))))"
    "r' = map timer_id (filter is_cancelled (concat (map tb_timers (drop (Suc i) (bucket_array th)))))"
    using Suc.IH [of ?th1 "Suc i"] 1(2) Suc.prems(2,3) dr dr1 by auto
  show ?case using 1 2 dr rb tk by (intro exI [of _ h'] exI [of _ "r @ r'"]) (simp add: case_prod_beta')
qed

subsection \<open>Properties\<close>

lemma sleep_time_bound:
  assumes "sleep_time now th = Some (sec, nsec)" "is_heap run_time (tm_heap th)" "tm \<in> set (tm_heap th)"
  shows "1000 * now + (1000000000 * sec + nsec) \<le> 1000 * run_time tm"
proof -
  define point where "point = (if tm_heap th \<noteq> [] \<and> min_timestamp th > run_time (hd (tm_heap th))
    then run_time (hd (tm_heap th)) else min_timestamp th)"
  have "tm_heap th \<noteq> []" using assms(3) by auto
  then have p: "point \<le> run_time (hd (tm_heap th))" by (simp add: point_def)
  also have "\<dots> \<le> run_time tm" using bh.front_minimal [OF assms(2,3)] .
  finally have le: "point \<le> run_time tm" .
  have "now < point" "sec = (point - now) div 1000000" "nsec = (point - now) - sec * 1000000"
    using assms(1) by (auto simp: sleep_time_def point_def Let_def split: if_splits)
  then have "1000000 * sec + nsec = point - now" by simp
  then have "1000000000 * sec + nsec \<le> 1000 * (point - now)" by linarith
  then show ?thesis using le \<open>now < point\<close> by linarith
qed

text \<open>What a round does to a thread whose invariant holds.\<close>

definition round_post :: "(nat \<Rightarrow> nat) \<Rightarrow> nat \<Rightarrow> timer_thread \<Rightarrow> nat \<Rightarrow> timer_thread \<Rightarrow> timer list \<Rightarrow> timer list \<Rightarrow> bool" where
  "round_post clock n th m th' es ds = (called th' = called th @ es
     \<and> mset (tm_heap th @ queued th) = mset (tm_heap th') + mset es + mset ds
     \<and> (\<forall>tm \<in> set es. \<not> is_cancelled tm \<and> (\<exists>i. n \<le> i \<and> i < m \<and> run_time tm \<le> clock i))
     \<and> (\<forall>tm \<in> set ds. is_cancelled tm) \<and> sorted (map run_time es)
     \<and> (\<forall>tm \<in> set (tm_heap th'). n < m \<and> clock (m - 1) < run_time tm)
     \<and> mset (released th') = mset (released th) + image_mset timer_id (mset es + mset ds)
     \<and> is_heap run_time (tm_heap th') \<and> bucket_array th' = replicate (length (bucket_array th)) TimerBucket
     \<and> min_timestamp th' = int64_max)"

lemma run_round_ok:
  assumes "thread_ok th"
  shows "\<exists>m th' es ds. run_round clock n th = Some (Suc m, sleep_time (clock m) th', th') \<and> round_post clock n th m th' es ds"
proof -
  let ?th0 = "th\<lparr>min_timestamp := int64_max\<rparr>"
  obtain h r where pull: "pull_buckets (length (bucket_array th)) 0 ?th0 = Some (?th0\<lparr>tm_heap := h,
      released := released th @ r, bucket_array := replicate (length (bucket_array th)) TimerBucket\<rparr>)"
    "r = map timer_id (filter is_cancelled (queued th))" "is_heap run_time h" "mset h = mset (tm_heap th) + mset (filter (\<lambda>tm. \<not> is_cancelled tm) (queued th))"
    using pull_buckets_ok [of ?th0 0 "length (bucket_array th)"] assms
    by (auto simp: thread_ok_def queued_def)
  let ?th1 = "?th0\<lparr>tm_heap := h, released := released th @ r, bucket_array := replicate (length (bucket_array th)) TimerBucket\<rparr>"
  have sub: "set h \<subseteq> set (tm_heap th) \<union> set (queued th)"
    using pull(4) by (auto simp flip: set_mset_mset)
  then have "\<forall>tm \<in> set (tm_heap ?th1). pending_ok tm" using assms by (auto simp: thread_ok_def)
  with pull(3) obtain m th' es ds where due: "run_due clock n ?th1 = Some (m, th')" "due_post clock n ?th1 m th' es ds"
    using run_due_ok [of ?th1 clock n] by auto
  let ?ds = "ds @ filter is_cancelled (queued th)"
  have run: "run_round clock n th = Some (Suc m, sleep_time (clock m) th', th')"
    using pull(1) due(1) by (simp add: run_round_def)
  have split: "mset (tm_heap th @ queued th) = mset (tm_heap th') + mset es + mset ?ds"
  proof -
    let ?Q = "mset (queued th)"
    have e: "mset (tm_heap th) + filter_mset (\<lambda>tm. \<not> is_cancelled tm) ?Q = mset (tm_heap th') + mset es + mset ds"
      using due(2) pull(4) by (simp add: due_post_def)
    have "?Q = filter_mset is_cancelled ?Q + filter_mset (\<lambda>tm. \<not> is_cancelled tm) ?Q" by (rule multiset_partition)
    then have "mset (tm_heap th @ queued th)
        = (mset (tm_heap th) + filter_mset (\<lambda>tm. \<not> is_cancelled tm) ?Q) + filter_mset is_cancelled ?Q"
      by (metis mset_append add.assoc add.commute)
    then show ?thesis unfolding e by simp
  qed
  have "tm \<in> set (tm_heap th') \<Longrightarrow> n < m \<and> clock (m - 1) < run_time tm" for tm
    using due_post_late [OF due(2)] by blast
  then have "round_post clock n th m th' es ?ds"
    using split due(2) pull(2) unfolding round_post_def by (auto simp: due_post_def)
  then show ?thesis using run by blast
qed

lemma round_keeps_ok:
  assumes "thread_ok th" "round_post clock n th m th' es ds"
  shows "thread_ok th'" "queued th' = []"
proof -
  have sub: "set (tm_heap th') \<subseteq> set (tm_heap th) \<union> set (queued th)"
    using assms(2) unfolding round_post_def by (metis mset_subset_eq_add_left set_append set_mset_mono set_mset_mset add.assoc)
  show q: "queued th' = []" using assms(2) by (simp add: round_post_def queued_def TimerBucket_def)
  show "thread_ok th'"
    using assms sub unfolding thread_ok_def q by (auto simp: round_post_def TimerBucket_def)
qed

lemma timer_round_ok:
  assumes "thread_ok th"
  shows "\<exists>m sl th' es ds. run_round clock n th = Some (m, sl, th') \<and> called th' = called th @ es
    \<and> mset (tm_heap th @ queued th) = mset (tm_heap th') + mset es + mset ds
    \<and> mset (released th') = mset (released th) + image_mset timer_id (mset es + mset ds)
    \<and> (\<forall>tm \<in> set es. \<not> is_cancelled tm \<and> (\<exists>i. n \<le> i \<and> i < m \<and> run_time tm \<le> clock i))
    \<and> (\<forall>tm \<in> set ds. is_cancelled tm) \<and> sorted (map run_time es)
    \<and> (\<forall>tm \<in> set (tm_heap th @ queued th). \<not> is_cancelled tm \<longrightarrow> (\<forall>i \<ge> n. run_time tm \<le> clock i) \<longrightarrow> tm \<in> set es)
    \<and> (\<forall>sec nsec. sl = Some (sec, nsec) \<longrightarrow> (\<forall>tm \<in> set (tm_heap th').
         1000 * clock (m - 1) + (1000000000 * sec + nsec) \<le> 1000 * run_time tm))"
proof -
  obtain m th' es ds where run: "run_round clock n th = Some (Suc m, sleep_time (clock m) th', th')"
    and post: "round_post clock n th m th' es ds" using run_round_ok [OF assms] by blast
  have split: "mset (tm_heap th @ queued th) = mset (tm_heap th') + mset es + mset ds"
    and dc: "\<forall>tm \<in> set ds. is_cancelled tm" using post by (simp_all add: round_post_def)
  have times: "\<forall>tm \<in> set es. \<not> is_cancelled tm \<and> (\<exists>i. n \<le> i \<and> i < Suc m \<and> run_time tm \<le> clock i)"
    using post unfolding round_post_def by (meson less_SucI)
  have late: "\<exists>i \<ge> n. clock i < run_time tm" if "tm \<in> set (tm_heap th')" for tm
    using post that by (intro exI [of _ "m - 1"]) (auto simp: round_post_def)
  have all: "tm \<in> set es" if tm: "tm \<in> set (tm_heap th @ queued th)" "\<not> is_cancelled tm"
      "\<forall>i \<ge> n. run_time tm \<le> clock i" for tm
  proof -
    have "tm \<in># mset (tm_heap th') + mset es + mset ds" using tm(1) unfolding split [symmetric] set_mset_mset .
    then have "tm \<in> set (tm_heap th') \<or> tm \<in> set es \<or> tm \<in> set ds" by (simp only: set_mset_mset union_iff disj_assoc)
    moreover have "tm \<notin> set (tm_heap th')" using late [of tm] tm(3) by (meson not_le)
    moreover have "tm \<notin> set ds" using dc tm(2) by blast
    ultimately show ?thesis by blast
  qed
  have sleep: "1000 * clock m + (1000000000 * sec + nsec) \<le> 1000 * run_time tm"
    if "sleep_time (clock m) th' = Some (sec, nsec)" "tm \<in> set (tm_heap th')" for sec nsec tm
    using sleep_time_bound [OF that(1) _ that(2)] post by (simp add: round_post_def)
  show ?thesis
  proof (intro exI conjI)
    show "run_round clock n th = Some (Suc m, sleep_time (clock m) th', th')" by (rule run)
    show "called th' = called th @ es" "sorted (map run_time es)"
      "mset (released th') = mset (released th) + image_mset timer_id (mset es + mset ds)" using post by (simp_all add: round_post_def)
    show "\<forall>tm \<in> set es. \<not> is_cancelled tm \<and> (\<exists>i. n \<le> i \<and> i < Suc m \<and> run_time tm \<le> clock i)" by (rule times)
  qed (use all sleep split dc in auto)
qed

text \<open>(C11) One round of the timer thread: no assertion fails and the loop ends; the functions called
  are those of timers that were pending and not cancelled, none before its time, in the order of
  their times; every timer that was due at every reading of the clock is called; cancelled
  timers are not called; the objects of the timers called and of the cancelled ones that were found
  are released, once each, and no other is; the others stay in the heap, and the thread does
  not sleep past the time of any of them.\<close>

theorem timer_round_correct:
  assumes "thread_ok th"
  shows "\<exists>m sl th' es ds. run_round clock n th = Some (m, sl, th') \<and> called th' = called th @ es
    \<and> mset (tm_heap th @ queued th) = mset (tm_heap th') + mset es + mset ds
    \<and> mset (released th') = mset (released th) + image_mset timer_id (mset es + mset ds)
    \<and> (\<forall>tm \<in> set es. \<not> is_cancelled tm \<and> (\<exists>i. n \<le> i \<and> i < m \<and> run_time tm \<le> clock i))
    \<and> (\<forall>tm \<in> set ds. is_cancelled tm) \<and> sorted (map run_time es)
    \<and> (\<forall>tm \<in> set (tm_heap th @ queued th). \<not> is_cancelled tm \<longrightarrow> (\<forall>i \<ge> n. run_time tm \<le> clock i) \<longrightarrow> tm \<in> set es)
    \<and> (\<forall>sec nsec. sl = Some (sec, nsec) \<longrightarrow> (\<forall>tm \<in> set (tm_heap th').
         1000 * clock (m - 1) + (1000000000 * sec + nsec) \<le> 1000 * run_time tm))"
  by (rule timer_round_ok [OF assms])

definition two_timers :: timer_thread where
  "two_timers = (TimerThread 1)\<lparr>tm_heap := [\<lparr>run_time = 10, timer_id = 12884901893, func = 1, version = 3\<rparr>,
     \<lparr>run_time = 20, timer_id = 12884901894, func = 2, version = 3\<rparr>]\<rparr>"

lemma two_timers_ok: "thread_ok two_timers" "queued two_timers = []"
  by (auto simp: two_timers_def thread_ok_def TimerThread_def queued_def TimerBucket_def is_heap_def
      parent_def pending_ok_def version_step_def less_Suc_eq)

theorem timer_round_correct_witness:
  "\<exists>m sl th' es ds. run_round (\<lambda>i. 15) 0 two_timers = Some (m, sl, th') \<and> called th' = es
    \<and> mset (tm_heap two_timers) = mset (tm_heap th') + mset es + mset ds
    \<and> mset (released th') = image_mset timer_id (mset es + mset ds)
    \<and> \<lparr>run_time = 10, timer_id = 12884901893, func = 1, version = 3\<rparr> \<in> set es"
proof -
  have "called two_timers = []" "released two_timers = []" by (simp_all add: two_timers_def TimerThread_def)
  moreover have "\<lparr>run_time = 10, timer_id = 12884901893, func = 1, version = 3\<rparr> \<in> set (tm_heap two_timers)"
    "\<not> is_cancelled \<lparr>run_time = 10, timer_id = 12884901893, func = 1, version = 3\<rparr>"
    by (simp_all add: two_timers_def is_cancelled_def)
  ultimately show ?thesis
    using timer_round_correct [OF two_timers_ok(1), of "\<lambda>i. 15" 0] two_timers_ok(2) by fastforce
qed

lemma thread_add_timer_ok:
  assumes "thread_ok th" "pending_ok tm"
  shows "thread_ok (thread_add_timer c tm th)
    \<and> mset (queued (thread_add_timer c tm th)) = add_mset tm (mset (queued th))
    \<and> (\<forall>q \<in> set (queued (thread_add_timer c tm th)). min_timestamp (thread_add_timer c tm th) \<le> run_time q)
    \<and> (run_time tm < min_timestamp th \<longrightarrow>
         signal_pending (thread_add_timer c tm th) = u32 (signal_pending th + 1))"
proof -
  let ?i = "c mod length (bucket_array th)" and ?th = "thread_add_timer c tm th"
  let ?b = "bucket_array th ! ?i" and ?min = "min (min_timestamp th) (run_time tm)"
  have i: "?i < length (bucket_array th)" using assms(1) by (simp add: thread_ok_def)
  then have b: "min_timestamp th \<le> tb_min ?b" "\<forall>t \<in> set (tb_timers ?b). tb_min ?b \<le> run_time t"
    using assms(1) by (auto simp: thread_ok_def)
  let ?b' = "\<lparr>tb_timers = tm # tb_timers ?b, tb_min = min (tb_min ?b) (run_time tm)\<rparr>"
  have th: "bucket_array ?th = (bucket_array th)[?i := ?b']" "tm_heap ?th = tm_heap th"
    "min_timestamp ?th = ?min"
    "run_time tm < min_timestamp th \<Longrightarrow> signal_pending ?th = u32 (signal_pending th + 1)"
    using b(1) by (cases ?b; auto simp: thread_add_timer_def bucket_add_timer_def futex_wake_def Let_def)+
  have q: "mset (queued ?th) = add_mset tm (mset (queued th))"
    using mset_concat_update [OF i, of tb_timers ?b'] by (simp add: queued_def th(1))
  have bs: "\<forall>b \<in> set (bucket_array ?th). min_timestamp ?th \<le> tb_min b \<and> (\<forall>t \<in> set (tb_timers b). tb_min b \<le> run_time t)"
    using assms(1) b set_update_subset_insert [of "bucket_array th" ?i ?b']
    unfolding th(1,3) thread_ok_def by (auto simp: min_le_iff_disj dest!: subsetD)
  then have low: "\<forall>t \<in> set (queued ?th). min_timestamp ?th \<le> run_time t"
    unfolding queued_def by (auto intro: order_trans)
  have "set (queued ?th) = insert tm (set (queued th))"
    using q by (metis set_mset_mset set_mset_add_mset_insert)
  moreover have "bucket_array ?th \<noteq> []" using assms(1) by (simp add: th(1) thread_ok_def)
  ultimately have "thread_ok ?th" using assms bs by (simp add: thread_ok_def th(2))
  then show ?thesis using low q th(4) by blast
qed

text \<open>(C30) Adding a timer keeps the thread's invariant: the global minimum is not above the time of any
  timer in a bucket, so the thread, which sleeps at most until that minimum, does not sleep past
  a timer that it has not pulled yet; and when the new timer is earlier than the minimum the thread
  was going to sleep until, the signal counter changes, which ends or prevents the wait.\<close>

theorem add_timer_wakes:
  assumes "thread_ok th" "pending_ok tm"
  shows "thread_ok (thread_add_timer c tm th)
    \<and> mset (queued (thread_add_timer c tm th)) = add_mset tm (mset (queued th))
    \<and> (\<forall>q \<in> set (queued (thread_add_timer c tm th)). min_timestamp (thread_add_timer c tm th) \<le> run_time q)
    \<and> (run_time tm < min_timestamp th \<longrightarrow>
         signal_pending (thread_add_timer c tm th) = u32 (signal_pending th + 1))"
  by (rule thread_add_timer_ok [OF assms])

theorem add_timer_wakes_witness:
  "thread_ok (thread_add_timer 7 \<lparr>run_time = 5, timer_id = 12884901895, func = 1, version = 3\<rparr> two_timers)
   \<and> signal_pending (thread_add_timer 7 \<lparr>run_time = 5, timer_id = 12884901895, func = 1, version = 3\<rparr> two_timers) = 1"
proof -
  have "pending_ok \<lparr>run_time = 5, timer_id = 12884901895, func = 1, version = 3\<rparr>"
    by (simp add: pending_ok_def version_step_def)
  from add_timer_wakes [OF two_timers_ok(1) this, of 7] show ?thesis
    by (simp add: two_timers_def TimerThread_def int64_max_def u32_def)
qed

end
