(* ===== verification/Timer_Service.thy ===== *)
theory Timer_Service
  imports Timer_Thread Object_Pool
begin

text \<open>
  The timer service as a whole: \<open>TimerControl\<close> with the \<open>ArenaObjectPool\<close> that its timer objects come from. A
  released timer goes back to the pool under the id it had, and the next \<open>add_timer\<close> that gets the object raises the
  version in that id. Calls are executed one at a time (\<open>Timer\<close> has the interleavings of a cancel with the timer
  thread, \<open>Lock_Free_Stack\<close> those of the pool's stacks).
\<close>

subsection \<open>The service\<close>

record timer_service =
  sv_pool :: arena_pool
  sv_thread :: timer_thread

definition TimerControl :: "(nat \<times> nat \<Rightarrow> object_group) \<Rightarrow> nat \<Rightarrow> nat \<Rightarrow> timer_service" where
  "TimerControl mem slots buckets = \<lparr>sv_pool = ArenaObjectPool mem slots, sv_thread = TimerThread buckets\<rparr>"

text \<open>\<open>add_timer\<close> in the thread with the pool slot \<open>c\<close> and the thread id \<open>k\<close>.\<close>

definition sv_add :: "nat \<Rightarrow> nat \<Rightarrow> nat \<Rightarrow> nat \<Rightarrow> timer_service \<Rightarrow> (nat \<times> timer_service) option" where
  "sv_add c k f abstime_us sv = do {
     (raw, p) \<leftarrow> arena_acquire_id c (sv_pool sv);
     let (tid, th) = control_add_timer k raw f abstime_us (sv_thread sv);
     Some (tid, sv\<lparr>sv_pool := p, sv_thread := th\<rparr>)}"

text \<open>The timers that are in the heap or in a bucket.\<close>

definition outstanding :: "timer_thread \<Rightarrow> timer list" where
  "outstanding th = tm_heap th @ queued th"

definition map_timers :: "(timer \<Rightarrow> timer) \<Rightarrow> timer_thread \<Rightarrow> timer_thread" where
  "map_timers f th = th\<lparr>tm_heap := map f (tm_heap th),
     bucket_array := map (\<lambda>b. b\<lparr>tb_timers := map f (tb_timers b)\<rparr>) (bucket_array th)\<rparr>"

text \<open>\<open>cancel_timer\<close> changes the object wherever its pointer is. An object that was released has a finished version or
  another id.\<close>

definition sv_cancel :: "nat \<Rightarrow> timer_service \<Rightarrow> int \<times> timer_service" where
  "sv_cancel tid sv = (case find (\<lambda>tm. timer_id tm = tid) (outstanding (sv_thread sv)) of
     None \<Rightarrow> (- 1, sv)
   | Some tm \<Rightarrow> (fst (cancel_timer tid tm),
       sv\<lparr>sv_thread := map_timers (\<lambda>tm. if timer_id tm = tid then snd (cancel_timer tid tm) else tm) (sv_thread sv)\<rparr>))"

fun release_all :: "nat \<Rightarrow> nat list \<Rightarrow> arena_pool \<Rightarrow> arena_pool option" where
  "release_all c [] p = Some p"
| "release_all c (x # xs) p = do {
     p1 \<leftarrow> arena_pool_release c x p;
     release_all c xs p1}"

text \<open>What \<open>th'\<close> has released since \<open>th\<close>.\<close>

definition new_released :: "timer_thread \<Rightarrow> timer_thread \<Rightarrow> nat list" where
  "new_released th th' = drop (length (released th)) (released th')"

definition sv_round :: "nat \<Rightarrow> (nat \<Rightarrow> nat) \<Rightarrow> nat \<Rightarrow> timer_service \<Rightarrow> timer_service option" where
  "sv_round c clock n sv = do {
     (m, sl, th) \<leftarrow> run_round clock n (sv_thread sv);
     p \<leftarrow> release_all c (new_released (sv_thread sv) th) (sv_pool sv);
     Some (sv\<lparr>sv_pool := p, sv_thread := th\<rparr>)}"

text \<open>The timer thread leaves its loop and ends, and the thread with the slot \<open>d\<close> destroys the buckets.\<close>

definition sv_stop :: "nat \<Rightarrow> nat \<Rightarrow> timer_service \<Rightarrow> timer_service option" where
  "sv_stop c d sv = do {
     let th1 = (run_exit (sv_thread sv))\<lparr>tm_heap := []\<rparr>;
     p1 \<leftarrow> release_all c (new_released (sv_thread sv) th1) (sv_pool sv);
     p2 \<leftarrow> arena_pool_exit c p1;
     let th2 = release_buckets (length (bucket_array th1)) 0 th1;
     p3 \<leftarrow> release_all d (new_released th1 th2) p2;
     Some (sv\<lparr>sv_pool := p3, sv_thread := th2\<rparr>)}"

subsection \<open>Reachable states\<close>

text \<open>The pool has room for the groups that the releases may need.\<close>

fun can_release :: "nat \<Rightarrow> nat list \<Rightarrow> arena_pool \<Rightarrow> bool" where
  "can_release c [] p = True"
| "can_release c (x # xs) p = (arena_pool_room p
     \<and> (case arena_pool_release c x p of None \<Rightarrow> True | Some p1 \<Rightarrow> can_release c xs p1))"

definition version_room :: "nat \<Rightarrow> timer_service \<Rightarrow> bool" where
  "version_room c sv = (case arena_acquire_id c (sv_pool sv) of None \<Rightarrow> True | Some (raw, p) \<Rightarrow> raw + 2 * version_step \<le> 2 ^ 64)"

text \<open>\<open>A\<close> has the ids that \<open>add_timer\<close> returned, \<open>C\<close> those that \<open>cancel_timer\<close> returned 0 for.\<close>

inductive service_reach :: "timer_service \<Rightarrow> timer_service \<Rightarrow> nat list \<Rightarrow> nat list \<Rightarrow> bool" for sv0 where
  start: "service_reach sv0 sv0 [] []"
| add: "service_reach sv0 sv A C \<Longrightarrow> c < n_threads (sv_pool sv) \<Longrightarrow> arena_pool_room (sv_pool sv) \<Longrightarrow> version_room c sv
    \<Longrightarrow> sv_add c k f t sv = Some (tid, sv') \<Longrightarrow> service_reach sv0 sv' (tid # A) C"
| cancel: "service_reach sv0 sv A C \<Longrightarrow> tid \<in> set A \<Longrightarrow> sv_cancel tid sv = (ret, sv')
    \<Longrightarrow> service_reach sv0 sv' A (if ret = 0 then tid # C else C)"
| round: "service_reach sv0 sv A C \<Longrightarrow> c < n_threads (sv_pool sv)
    \<Longrightarrow> run_round clock n (sv_thread sv) = Some (m, sl, th) \<Longrightarrow> can_release c (new_released (sv_thread sv) th) (sv_pool sv)
    \<Longrightarrow> sv_round c clock n sv = Some sv' \<Longrightarrow> service_reach sv0 sv' A C"
| exit: "service_reach sv0 sv A C \<Longrightarrow> c < n_threads (sv_pool sv) \<Longrightarrow> arena_pool_exit c (sv_pool sv) = Some p
    \<Longrightarrow> service_reach sv0 (sv\<lparr>sv_pool := p\<rparr>) A C"

definition ids_of :: "timer list \<Rightarrow> nat list" where
  "ids_of tms = map timer_id tms"

definition service_inv :: "timer_service \<Rightarrow> nat list \<Rightarrow> nat list \<Rightarrow> bool" where
  "service_inv sv A C = (thread_ok (sv_thread sv) \<and> distinct A
     \<and> mset A = mset (released (sv_thread sv)) + mset (ids_of (outstanding (sv_thread sv)))
     \<and> arena_pool_inv (ids_of (outstanding (sv_thread sv))) (sv_pool sv)
     \<and> (\<forall>tid \<in> set A. \<exists>y \<in> set (stored (sv_pool sv) @ ids_of (outstanding (sv_thread sv))). node y = node tid \<and> tid \<le> y)
     \<and> (\<forall>tm \<in> set (outstanding (sv_thread sv)). is_cancelled tm = (timer_id tm \<in> set C))
     \<and> set C \<subseteq> set A \<and> distinct (ids_of (called (sv_thread sv)))
     \<and> set (released (sv_thread sv)) = set (ids_of (called (sv_thread sv))) \<union> (set C - set (ids_of (outstanding (sv_thread sv))))
     \<and> set (ids_of (called (sv_thread sv))) \<inter> set C = {})"

subsection \<open>The pool\<close>

lemma arena_pool_inv_node: "map node H = map node H' \<Longrightarrow> arena_pool_inv H p = arena_pool_inv H' p"
  by (simp add: arena_pool_inv_def)

lemma arena_pool_inv_mset: "mset H = mset H' \<Longrightarrow> arena_pool_inv H p \<Longrightarrow> arena_pool_inv H' p"
  by (rule arena_pool_inv_cong [of p H' p H]) (simp_all add: arena_pool_inv_def)

lemma release_all_ok:
  "arena_pool_inv (ys @ H) p \<Longrightarrow> c < n_threads p \<Longrightarrow> can_release c ys p \<Longrightarrow>
    \<exists>p'. release_all c ys p = Some p' \<and> arena_pool_inv H p' \<and> mset (stored p') = mset ys + mset (stored p) \<and> n_threads p' = n_threads p"
proof (induction ys arbitrary: p)
  case (Cons y ys)
  from arena_release_stored [OF Cons.prems(1,2), of y y] Cons.prems(3) obtain p1 where
    p1: "arena_pool_release c y p = Some p1" "arena_pool_inv (ys @ H) p1" "mset (stored p1) = add_mset y (mset (stored p))"
      "n_threads p1 = n_threads p" by auto
  then have "c < n_threads p1" "can_release c ys p1" using Cons.prems(2,3) by simp_all
  from Cons.IH [OF p1(2) this] p1 show ?case by auto
qed simp

subsection \<open>The thread only adds to what it has released\<close>

lemma foldl_release: "foldl (\<lambda>th tm. release_timer tm th) th tms = th\<lparr>released := released th @ ids_of tms\<rparr>"
  by (induction tms arbitrary: th) (simp_all add: release_timer_def ids_of_def)

lemma pull_list_released: "pull_list tms th = Some th' \<Longrightarrow> \<exists>r. released th' = released th @ r"
proof (induction tms arbitrary: th)
  case (Cons tm tms)
  from Cons.prems obtain del where "pull_list tms (if del then release_timer tm th
      else th\<lparr>tm_heap := std_push_heap run_time (tm_heap th @ [tm])\<rparr>) = Some th'" by (auto split: bind_splits)
  from Cons.IH [OF this] show ?case by (auto simp: release_timer_def split: if_splits)
qed simp

lemma pull_buckets_released: "pull_buckets k i th = Some th' \<Longrightarrow> \<exists>r. released th' = released th @ r"
proof (induction k arbitrary: i th)
  case (Suc k)
  from Suc.prems obtain tms b th1 where "pull_list tms (th\<lparr>bucket_array := (bucket_array th)[i := b]\<rparr>) = Some th1"
    "pull_buckets k (Suc i) th1 = Some th'" by (auto split: bind_splits prod.splits)
  with Suc.IH pull_list_released show ?case by fastforce
qed simp

lemma run_and_delete_released: "run_and_delete tm th = Some th' \<Longrightarrow> \<exists>r. released th' = released th @ r"
  by (auto simp: run_and_delete_def release_timer_def Let_def split: bind_splits)

lemma run_due_released: "run_due clock n th = Some (m, th') \<Longrightarrow> \<exists>r. released th' = released th @ r"
proof (induction clock n th rule: run_due.induct)
  case (1 clock n th)
  show ?case
  proof (cases "tm_heap th = []")
    case True
    then show ?thesis using "1.prems" by (subst (asm) run_due.simps) simp
  next
    case ne: False
    from "1.prems" ne obtain del where del: "try_delete (hd (tm_heap th)) = Some del"
      by (subst (asm) run_due.simps) (auto simp: Let_def split: bind_splits)
    show ?thesis
    proof (cases del)
      case True
      have "run_due clock n (release_timer (hd (tm_heap th)) (drop_front th)) = Some (m, th')"
        using "1.prems" ne del True by (subst (asm) run_due.simps) simp
      from "1.IH"(1) [OF ne refl del True this] show ?thesis by (auto simp: release_timer_def drop_front_def)
    next
      case False
      show ?thesis
      proof (cases "run_time (hd (tm_heap th)) > clock n")
        case True
        then show ?thesis using "1.prems" ne del False by (subst (asm) run_due.simps) simp
      next
        case due: False
        obtain th1 where th1: "run_and_delete (hd (tm_heap th)) (drop_front th) = Some th1" "run_due clock (Suc n) th1 = Some (m, th')"
          using "1.prems" ne del False due by (subst (asm) run_due.simps) (auto split: bind_splits)
        from "1.IH"(2) [OF ne refl del False due th1] run_and_delete_released [OF th1(1)]
        show ?thesis by (auto simp: drop_front_def)
      qed
    qed
  qed
qed

lemma run_round_released:
  assumes "run_round clock n th = Some (m, sl, th')"
  shows "released th' = released th @ new_released th th'"
proof -
  obtain th1 n1 where "pull_buckets (length (bucket_array th)) 0 (th\<lparr>min_timestamp := int64_max\<rparr>) = Some th1"
    "run_due clock n th1 = Some (n1, th')"
    using assms by (auto simp: run_round_def split: bind_splits)
  then obtain r where "released th' = released th @ r" using pull_buckets_released run_due_released by fastforce
  then show ?thesis by (simp add: new_released_def)
qed

subsection \<open>The operations keep the invariant\<close>

lemma outstanding_ids: "mset (ids_of (outstanding th)) = mset (ids_of (tm_heap th)) + mset (ids_of (queued th))"
  by (simp add: outstanding_def ids_of_def)

lemma service_inv_start: "service_inv (TimerControl mem slots buckets) [] []"
proof -
  have "outstanding (TimerThread buckets) = []"
    by (simp add: outstanding_def queued_def TimerThread_def TimerBucket_def)
  moreover have "thread_ok (TimerThread buckets)"
    by (auto simp: thread_ok_def TimerThread_def queued_def TimerBucket_def is_heap_def)
  ultimately show ?thesis using ArenaObjectPool_inv [of mem slots]
    by (simp add: service_inv_def TimerControl_def ids_of_def) (simp add: TimerThread_def)
qed

lemma service_ids_distinct:
  assumes "service_inv sv A C"
  shows "distinct (ids_of (outstanding (sv_thread sv)))" "set (released (sv_thread sv)) \<inter> set (ids_of (outstanding (sv_thread sv))) = {}"
proof -
  have "mset A = mset (released (sv_thread sv) @ ids_of (outstanding (sv_thread sv)))" "distinct A"
    using assms by (simp_all add: service_inv_def)
  then have "distinct (released (sv_thread sv) @ ids_of (outstanding (sv_thread sv)))" using mset_eq_imp_distinct_iff by blast
  then show "distinct (ids_of (outstanding (sv_thread sv)))" "set (released (sv_thread sv)) \<inter> set (ids_of (outstanding (sv_thread sv))) = {}"
    by simp_all
qed

lemma node_add_version [simp]: "node (raw + version_step) = node raw"
  using mod_mult_self1 [of raw 3 4294967296] by (simp add: node_mod version_step_def)

lemma control_add_ok:
  assumes "thread_ok th" "raw + 2 * version_step \<le> 2 ^ 64"
  obtains tm th' where "control_add_timer k raw f t th = (raw + version_step, th')" "thread_ok th'" "pending_ok tm"
    "timer_id tm = raw + version_step" "\<not> is_cancelled tm" "mset (outstanding th') = add_mset tm (mset (outstanding th))"
    "released th' = released th" "called th' = called th"
proof -
  let ?tid = "raw + version_step"
  let ?tm = "init_timer ?tid t f \<lparr>run_time = 0, timer_id = 0, func = 0, version = 0\<rparr>"
  have small: "?tid < 2 ^ 64" using assms(2) by (simp add: version_step_def)
  have "version_of ?tid = ?tid div 2 ^ 32" using version_of_id(1) [of ?tid] assms(2) by (simp add: version_step_def)
  then have tm: "pending_ok ?tm" "\<not> is_cancelled ?tm" "timer_id ?tm = ?tid"
    using assms(2) by (simp_all add: pending_ok_def is_cancelled_def init_timer_def version_step_def)
  have "control_add_timer k raw f t th = (?tid, thread_add_timer k ?tm th)"
    using small by (simp add: control_add_timer_def u64_def Let_def)
  moreover have "tm_heap (thread_add_timer k ?tm th) = tm_heap th" "released (thread_add_timer k ?tm th) = released th"
    "called (thread_add_timer k ?tm th) = called th"
    by (simp_all add: thread_add_timer_def futex_wake_def Let_def split: prod.split)
  ultimately show ?thesis using that tm thread_add_timer_ok [OF assms(1) tm(1), of k] by (simp add: outstanding_def)
qed

lemma add_inv:
  assumes inv: "service_inv sv A C" and c: "c < n_threads (sv_pool sv)" "arena_pool_room (sv_pool sv)" "version_room c sv"
    and add: "sv_add c k f t sv = Some (tid, sv')"
  shows "service_inv sv' (tid # A) C" "n_threads (sv_pool sv') = n_threads (sv_pool sv)"
proof -
  let ?O = "outstanding (sv_thread sv)" and ?p = "sv_pool sv"
  have pool: "arena_pool_inv (ids_of ?O) ?p" and ok: "thread_ok (sv_thread sv)" using inv by (simp_all add: service_inv_def)
  from arena_acquire_supplied [OF pool c(1,2)] obtain raw p' where
    acq: "arena_acquire_id c ?p = Some (raw, p')" "arena_pool_inv (raw # ids_of ?O) p'" "supplied (ids_of ?O) ?p raw p'"
    "n_threads p' = n_threads ?p" by (auto simp: arena_acquire_id_def)
  have "raw + 2 * version_step \<le> 2 ^ 64" using c(3) acq(1) by (simp add: version_room_def)
  from control_add_ok [OF ok this] obtain tm th' where
    th: "control_add_timer k raw f t (sv_thread sv) = (raw + version_step, th')" "thread_ok th'" "timer_id tm = raw + version_step"
      "\<not> is_cancelled tm" "mset (outstanding th') = add_mset tm (mset ?O)" "released th' = released (sv_thread sv)"
      "called th' = called (sv_thread sv)" by metis
  have sv': "tid = raw + version_step" "sv' = sv\<lparr>sv_pool := p', sv_thread := th'\<rparr>" using add acq(1) th(1) by (auto simp: sv_add_def)
  have ids: "mset (ids_of (outstanding th')) = add_mset tid (mset (ids_of ?O))" using th(3,5) sv'(1) by (simp add: ids_of_def)
  obtain ys where ys: "mset (raw # stored p') = mset (stored ?p) + mset ys" "\<forall>y \<in> set ys. node y \<notin> node ` set (stored ?p @ ids_of ?O)"
    using acq(3) by (auto simp: supplied_def)
  have raw: "raw \<in> set (stored ?p) \<or> raw \<in> set ys" using ys(1) by (metis Un_iff list.set_intros(1) set_mset_mset set_mset_union)
  have dist: "distinct (map node (stored ?p @ ids_of ?O))" using pool by (simp add: arena_pool_inv_def)
  have seen: "\<exists>y \<in> set (stored ?p @ ids_of ?O). node y = node a \<and> a \<le> y" if "a \<in> set A" for a
    using inv that unfolding service_inv_def by blast
  have new: "tid \<notin> set A"
  proof
    assume "tid \<in> set A"
    from seen [OF this] sv'(1) obtain y where y: "y \<in> set (stored ?p @ ids_of ?O)" "node y = node raw" "tid \<le> y"
      by (metis node_add_version)
    have "node raw \<in> node ` set (stored ?p @ ids_of ?O)" using y(1) unfolding y(2) [symmetric] by (rule imageI)
    then have "raw \<in> set (stored ?p @ ids_of ?O)" using raw ys(2) by auto
    then have "y = raw" using dist y(1,2) by (metis distinct_map inj_onD)
    then show False using y(3) sv'(1) by (simp add: version_step_def)
  qed
  have sub: "set (stored ?p) \<subseteq> insert raw (set (stored p'))" using ys(1) by (metis list.simps(15) set_mset_mset set_mset_union sup_ge1)
  have "\<exists>y \<in> set (stored p' @ ids_of (outstanding th')). node y = node a \<and> a \<le> y" if a: "a \<in> set (tid # A)" for a
  proof (cases "a = tid")
    case True
    then show ?thesis using ids by (metis Un_iff order_refl set_append set_mset_add_mset_insert set_mset_mset insertI1)
  next
    case False
    then obtain y where y: "y \<in> set (stored ?p @ ids_of ?O)" "node y = node a" "a \<le> y" using seen a by auto
    have set_ids: "set (ids_of (outstanding th')) = insert tid (set (ids_of ?O))" using ids by (metis set_mset_add_mset_insert set_mset_mset)
    show ?thesis
    proof (cases "y = raw")
      case True
      then show ?thesis using y sv'(1) set_ids by (intro bexI [of _ tid]) auto
    next
      case False
      then show ?thesis using y sub set_ids by (intro bexI [of _ y]) auto
    qed
  qed
  moreover have "arena_pool_inv (ids_of (outstanding th')) p'"
  proof -
    have "arena_pool_inv (tid # ids_of ?O) p'" using acq(2) arena_pool_inv_node [of "tid # ids_of ?O" "raw # ids_of ?O"] sv'(1) by simp
    then show ?thesis by (rule arena_pool_inv_mset [rotated]) (simp add: ids)
  qed
  moreover have "set (outstanding th') = insert tm (set ?O)" using th(5) by (metis set_mset_add_mset_insert set_mset_mset)
  moreover have "set (ids_of (outstanding th')) = insert tid (set (ids_of ?O))" using ids by (metis set_mset_add_mset_insert set_mset_mset)
  moreover have "timer_id tm = tid" using th(3) sv'(1) by simp
  ultimately show "service_inv sv' (tid # A) C"
    using inv new th(2,4) ids unfolding service_inv_def sv'(2) by (auto simp: th(6,7))
  show "n_threads (sv_pool sv') = n_threads ?p" using acq(4) sv'(2) by simp
qed

lemma cancel_pending:
  assumes "pending_ok tm"
  shows "is_cancelled tm \<Longrightarrow> cancel_timer (timer_id tm) tm = (- 1, tm)"
    "\<not> is_cancelled tm \<Longrightarrow> \<exists>tm'. cancel_timer (timer_id tm) tm = (0, tm') \<and> pending_ok tm' \<and> is_cancelled tm'
      \<and> run_time tm' = run_time tm \<and> timer_id tm' = timer_id tm"
proof -
  have b: "timer_id tm + version_step \<le> 2 ^ 64" using assms by (simp add: pending_ok_def)
  have up: "timer_id tm div 2 ^ 32 + 3 \<le> 4294967296" using b by (simp add: version_step_def)
  note v = version_of_id [OF b]
  have "u32 (timer_id tm div 2 ^ 32 + 3) \<noteq> timer_id tm div 2 ^ 32 + 2"
    using up by (cases "timer_id tm div 2 ^ 32 + 3 = 4294967296") (simp_all add: u32_def)
  then show "cancel_timer (timer_id tm) tm = (- 1, tm)" if "is_cancelled tm"
    using that v(1)
    by (simp add: cancel_timer_def cancel_find_def cancel_exchange_def compare_exchange_strong_def cancel_result_def is_cancelled_def
        Let_def numeral_3_eq_3)
  show "\<exists>tm'. cancel_timer (timer_id tm) tm = (0, tm') \<and> pending_ok tm' \<and> is_cancelled tm'
      \<and> run_time tm' = run_time tm \<and> timer_id tm' = timer_id tm" if "\<not> is_cancelled tm"
  proof -
    have "version tm = timer_id tm div 2 ^ 32" using that assms by (auto simp: pending_ok_def is_cancelled_def)
    then have "cancel_timer (timer_id tm) tm = (0, tm\<lparr>version := timer_id tm div 2 ^ 32 + 2\<rparr>)"
      using v by (simp add: cancel_timer_def cancel_find_def cancel_exchange_def compare_exchange_strong_def Let_def)
    then show ?thesis using b by (simp add: pending_ok_def is_cancelled_def)
  qed
qed

lemma is_heap_map: "(\<And>x. x \<in> set xs \<Longrightarrow> k (f x) = k x) \<Longrightarrow> is_heap k xs \<Longrightarrow> is_heap k (map f xs)"
  unfolding is_heap_def by (simp add: less_trans [OF parent_less])

lemma map_timers_outstanding: "outstanding (map_timers f th) = map f (outstanding th)"
  by (simp add: outstanding_def map_timers_def queued_def map_concat comp_def)

lemma map_timers_ok:
  assumes "thread_ok th" "\<And>tm. tm \<in> set (outstanding th) \<Longrightarrow> pending_ok (f tm) \<and> run_time (f tm) = run_time tm"
  shows "thread_ok (map_timers f th)"
proof -
  have out: "tm \<in> set (outstanding th)" if "b \<in> set (bucket_array th)" "tm \<in> set (tb_timers b)" for b tm
    using that by (auto simp: outstanding_def queued_def)
  have "is_heap run_time (map f (tm_heap th))"
    using assms by (intro is_heap_map) (simp_all add: thread_ok_def outstanding_def)
  moreover have "pending_ok tm" if "tm \<in> set (outstanding (map_timers f th))" for tm
    using that assms(2) by (auto simp: map_timers_outstanding)
  ultimately show ?thesis using assms out
    unfolding thread_ok_def by (auto simp: outstanding_def [of "map_timers f th"]) (auto simp: map_timers_def)
qed

lemma cancel_inv:
  assumes inv: "service_inv sv A C" and cancel: "sv_cancel tid sv = (ret, sv')" and tid: "tid \<in> set A"
  shows "service_inv sv' A (if ret = 0 then tid # C else C)" "n_threads (sv_pool sv') = n_threads (sv_pool sv)"
proof -
  let ?th = "sv_thread sv"
  have "service_inv sv' A (if ret = 0 then tid # C else C) \<and> n_threads (sv_pool sv') = n_threads (sv_pool sv)"
  proof (cases "find (\<lambda>tm. timer_id tm = tid) (outstanding ?th)")
    case None
    then show ?thesis using inv cancel by (auto simp: sv_cancel_def)
  next
    case (Some tm)
    then have tm: "tm \<in> set (outstanding ?th)" "timer_id tm = tid" by (auto simp: find_Some_iff in_set_conv_nth)
    have dist: "distinct (ids_of (outstanding ?th))" by (rule service_ids_distinct [OF inv])
    have uniq: "x = tm" if "x \<in> set (outstanding ?th)" "timer_id x = tid" for x
      using dist that tm by (metis ids_of_def distinct_map inj_onD)
    have ok: "pending_ok x" if "x \<in> set (outstanding ?th)" for x
      using inv that by (auto simp: service_inv_def thread_ok_def outstanding_def)
    define f where "f x = (if timer_id x = tid then snd (cancel_timer tid x) else x)" for x
    have sv': "ret = fst (cancel_timer tid tm)" "sv' = sv\<lparr>sv_thread := map_timers f ?th\<rparr>"
      using cancel Some by (auto simp: sv_cancel_def f_def [abs_def])
    have f: "pending_ok (f x) \<and> run_time (f x) = run_time x \<and> timer_id (f x) = timer_id x
        \<and> is_cancelled (f x) = (is_cancelled x \<or> ret = 0 \<and> timer_id x = tid)" if x: "x \<in> set (outstanding ?th)" for x
    proof (cases "timer_id x = tid")
      case True
      then have "x = tm" using uniq x by blast
      then show ?thesis using cancel_pending [OF ok [OF x]] ok [OF x] True sv'(1) by (cases "is_cancelled x") (auto simp: f_def)
    next
      case False
      then show ?thesis using ok [OF x] by (simp add: f_def)
    qed
    have ids: "ids_of (outstanding (map_timers f ?th)) = ids_of (outstanding ?th)"
      using f by (simp add: map_timers_outstanding ids_of_def)
    have "thread_ok (map_timers f ?th)" using inv f by (intro map_timers_ok) (simp_all add: service_inv_def)
    moreover have "released (map_timers f ?th) = released ?th" "called (map_timers f ?th) = called ?th"
      by (simp_all add: map_timers_def)
    moreover have "\<forall>x \<in> set (outstanding (map_timers f ?th)). is_cancelled x = (timer_id x \<in> set (if ret = 0 then tid # C else C))"
      using f inv by (auto simp: map_timers_outstanding service_inv_def)
    moreover have "tid \<in> set (ids_of (outstanding ?th))" using tm by (auto simp: ids_of_def)
    moreover from this have "tid \<notin> set (ids_of (called ?th))"
      using service_ids_distinct(2) [OF inv] inv by (auto simp: service_inv_def)
    ultimately show ?thesis using inv tid unfolding service_inv_def sv'(2) by (simp add: ids)
  qed
  then show "service_inv sv' A (if ret = 0 then tid # C else C)" "n_threads (sv_pool sv') = n_threads (sv_pool sv)" by blast+
qed

text \<open>Timers \<open>gone\<close> leave the thread and their ids go back to the pool.\<close>

lemma service_release_inv:
  assumes inv: "service_inv sv A C" and c: "c < n_threads (sv_pool sv)"
    and split: "mset (outstanding (sv_thread sv)) = mset (outstanding th) + mset gone"
    and new: "released th = released (sv_thread sv) @ new_released (sv_thread sv) th"
      "mset (new_released (sv_thread sv) th) = mset (ids_of gone)"
    and can: "can_release c (new_released (sv_thread sv) th) (sv_pool sv)"
  shows "\<exists>p. release_all c (new_released (sv_thread sv) th) (sv_pool sv) = Some p \<and> arena_pool_inv (ids_of (outstanding th)) p
    \<and> n_threads p = n_threads (sv_pool sv) \<and> mset A = mset (released th) + mset (ids_of (outstanding th))
    \<and> (\<forall>tid \<in> set A. \<exists>y \<in> set (stored p @ ids_of (outstanding th)). node y = node tid \<and> tid \<le> y)"
proof -
  let ?O = "outstanding (sv_thread sv)" and ?new = "new_released (sv_thread sv) th" and ?p = "sv_pool sv"
  have ids: "mset (ids_of ?O) = mset (ids_of (outstanding th)) + mset ?new"
    using arg_cong [OF split, of "image_mset timer_id"] new(2) by (simp add: ids_of_def)
  have "arena_pool_inv (?new @ ids_of (outstanding th)) ?p"
    by (rule arena_pool_inv_mset [of "ids_of ?O"]) (use inv ids in \<open>simp_all add: service_inv_def\<close>)
  from release_all_ok [OF this c can] obtain p where p: "release_all c ?new ?p = Some p" "arena_pool_inv (ids_of (outstanding th)) p"
    "mset (stored p) = mset ?new + mset (stored ?p)" "n_threads p = n_threads ?p" by blast
  have "mset A = mset (released th) + mset (ids_of (outstanding th))"
    using inv ids new(1) by (simp add: service_inv_def)
  moreover have "mset (stored p @ ids_of (outstanding th)) = mset (stored ?p @ ids_of ?O)" using p(3) ids by simp
  then have "set (stored p @ ids_of (outstanding th)) = set (stored ?p @ ids_of ?O)" by (rule mset_eq_setD)
  then have "\<forall>tid \<in> set A. \<exists>y \<in> set (stored p @ ids_of (outstanding th)). node y = node tid \<and> tid \<le> y"
    using inv unfolding service_inv_def by simp
  ultimately show ?thesis using p by blast
qed

lemma round_inv:
  assumes inv: "service_inv sv A C" and c: "c < n_threads (sv_pool sv)"
  shows "\<exists>m sl th. run_round clock n (sv_thread sv) = Some (m, sl, th)
    \<and> (can_release c (new_released (sv_thread sv) th) (sv_pool sv) \<longrightarrow> (\<exists>sv'. sv_round c clock n sv = Some sv' \<and> service_inv sv' A C
        \<and> n_threads (sv_pool sv') = n_threads (sv_pool sv)))"
proof -
  let ?th = "sv_thread sv"
  let ?O = "outstanding ?th"
  have ok: "thread_ok ?th" using inv by (simp add: service_inv_def)
  obtain m th es ds where run: "run_round clock n ?th = Some (Suc m, sleep_time (clock m) th, th)"
    and post: "round_post clock n ?th m th es ds" using run_round_ok [OF ok] by blast
  have ok': "thread_ok th" "queued th = []" using round_keeps_ok [OF ok post] .
  have rel: "released th = released ?th @ new_released ?th th" by (rule run_round_released [OF run])
  have "mset (new_released ?th th) + mset (released ?th) = mset (released th)" by (subst rel) simp
  then have new: "mset (new_released ?th th) = mset (ids_of (es @ ds))" using post by (simp add: round_post_def ids_of_def)
  have split: "mset ?O = mset (outstanding th) + mset (es @ ds)"
    using post ok'(2) by (simp add: outstanding_def round_post_def)
  have "\<exists>sv'. sv_round c clock n sv = Some sv' \<and> service_inv sv' A C \<and> n_threads (sv_pool sv') = n_threads (sv_pool sv)"
    if can: "can_release c (new_released ?th th) (sv_pool sv)"
  proof -
    obtain p where p: "release_all c (new_released ?th th) (sv_pool sv) = Some p" "arena_pool_inv (ids_of (outstanding th)) p"
      "n_threads p = n_threads (sv_pool sv)" "mset A = mset (released th) + mset (ids_of (outstanding th))"
      "\<forall>tid \<in> set A. \<exists>y \<in> set (stored p @ ids_of (outstanding th)). node y = node tid \<and> tid \<le> y"
      using service_release_inv [OF inv c split rel new can] by blast
    have sets: "set (released th) = set (released ?th) \<union> set (ids_of es) \<union> set (ids_of ds)"
      using rel mset_eq_setD [OF new] by (subst rel) (simp add: ids_of_def Un_assoc)
    have O: "set ?O = set (outstanding th) \<union> set es \<union> set ds" using mset_eq_setD [of ?O "outstanding th @ es @ ds"] split by auto
    have dist: "distinct (ids_of (outstanding th @ es @ ds))"
      using service_ids_distinct(1) [OF inv] arg_cong [OF split, of "image_mset timer_id"]
      by (metis ids_of_def mset_append mset_eq_imp_distinct_iff mset_map)
    have canc: "is_cancelled tm = (timer_id tm \<in> set C)" if "tm \<in> set ?O" for tm using inv that by (simp add: service_inv_def)
    have es: "set (ids_of es) \<inter> set C = {}" using post canc O by (auto simp: round_post_def ids_of_def)
    have ds: "set (ids_of ds) \<subseteq> set C" using post canc O by (auto simp: round_post_def ids_of_def)
    have called: "ids_of (called th) = ids_of (called ?th) @ ids_of es" using post by (simp add: round_post_def ids_of_def)
    have idO: "set (ids_of ?O) = set (ids_of (outstanding th)) \<union> set (ids_of es) \<union> set (ids_of ds)" using O by (auto simp: ids_of_def)
    have old: "set (released ?th) = set (ids_of (called ?th)) \<union> (set C - set (ids_of ?O))" "set (ids_of (called ?th)) \<inter> set C = {}"
      "distinct (ids_of (called ?th))" "set C \<subseteq> set A" "distinct A" using inv by (simp_all add: service_inv_def)
    have apart: "set (ids_of (called ?th)) \<inter> set (ids_of ?O) = {}" using service_ids_distinct(2) [OF inv] old(1) by blast
    have d2: "distinct (ids_of es)" "set (ids_of ds) \<inter> set (ids_of (outstanding th)) = {}" using dist by (auto simp: ids_of_def)
    have "distinct (ids_of (called th))" unfolding called using old(3) d2(1) apart idO by auto
    moreover have "set (ids_of (called th)) \<inter> set C = {}" unfolding called using es old(2) by auto
    moreover have "set (released th) = set (ids_of (called th)) \<union> (set C - set (ids_of (outstanding th)))"
      unfolding sets called set_append old(1) idO using es ds d2(2) by blast
    moreover have "\<forall>tm \<in> set (outstanding th). is_cancelled tm = (timer_id tm \<in> set C)" using canc O by blast
    ultimately have "service_inv (sv\<lparr>sv_pool := p, sv_thread := th\<rparr>) A C"
      using ok' p old(4,5) unfolding service_inv_def by simp
    moreover have "sv_round c clock n sv = Some (sv\<lparr>sv_pool := p, sv_thread := th\<rparr>)" using run p(1) by (simp add: sv_round_def)
    ultimately show ?thesis using p(3) by auto
  qed
  then show ?thesis using run by blast
qed

lemma exit_inv:
  assumes "service_inv sv A C" "c < n_threads (sv_pool sv)"
  shows "\<exists>p. arena_pool_exit c (sv_pool sv) = Some p \<and> service_inv (sv\<lparr>sv_pool := p\<rparr>) A C \<and> n_threads p = n_threads (sv_pool sv)"
proof -
  have "arena_pool_inv (ids_of (outstanding (sv_thread sv))) (sv_pool sv)" using assms(1) by (simp add: service_inv_def)
  from arena_exit_stored [OF this assms(2)] obtain p where p: "arena_pool_exit c (sv_pool sv) = Some p"
    "arena_pool_inv (ids_of (outstanding (sv_thread sv))) p" "mset (stored p) = mset (stored (sv_pool sv))"
    "n_threads p = n_threads (sv_pool sv)" by blast
  then show ?thesis using assms(1) mset_eq_setD [OF p(3)] unfolding service_inv_def by simp
qed

lemma service_reach_inv:
  assumes "service_reach (TimerControl mem slots buckets) sv A C"
  shows "service_inv sv A C \<and> n_threads (sv_pool sv) = slots"
  using assms
proof induction
  case start
  then show ?case using service_inv_start by (simp add: TimerControl_def n_threads_def ArenaObjectPool_def)
next
  case (add sv A C c k f t tid sv')
  then show ?case using add_inv by metis
next
  case (cancel sv A C tid ret sv')
  then show ?case using cancel_inv by metis
next
  case (round sv A C c clock n m sl th sv')
  then show ?case using round_inv [of sv A C c clock n] by auto
next
  case (exit sv A C c p)
  then show ?case using exit_inv [of sv A C c] by auto
qed

subsection \<open>Stopping\<close>

lemma release_buckets_eq:
  "i + k = length (bucket_array th) \<Longrightarrow> release_buckets k i th = th\<lparr>released := released th @ ids_of (concat (map tb_timers (drop i (bucket_array th)))),
     bucket_array := take i (bucket_array th) @ replicate k TimerBucket\<rparr>"
proof (induction k arbitrary: i th)
  case 0
  then show ?case by (simp add: ids_of_def)
next
  case (Suc k)
  let ?b = "bucket_array th ! i"
  let ?th = "th\<lparr>bucket_array := (bucket_array th)[i := TimerBucket], released := released th @ ids_of (tb_timers ?b)\<rparr>"
  have "bucket_reset ?b = (tb_timers ?b, TimerBucket)" by (simp add: bucket_reset_def TimerBucket_def)
  then have "release_buckets (Suc k) i th = release_buckets k (Suc i) ?th"
    using foldl_release [of "th\<lparr>bucket_array := (bucket_array th)[i := TimerBucket]\<rparr>" "tb_timers ?b"] by simp
  also have "\<dots> = ?th\<lparr>released := released ?th @ ids_of (concat (map tb_timers (drop (Suc i) (bucket_array th)))),
     bucket_array := take (Suc i) (bucket_array ?th) @ replicate k TimerBucket\<rparr>"
    using Suc.IH [of "Suc i" ?th] Suc.prems by simp
  finally show ?case
    using Suc.prems by (simp add: take_Suc_conv_app_nth Cons_nth_drop_Suc [symmetric] ids_of_def replicate_app_Cons_same)
qed

definition can_stop :: "nat \<Rightarrow> nat \<Rightarrow> timer_service \<Rightarrow> bool" where
  "can_stop c d sv = (can_release c (ids_of (tm_heap (sv_thread sv))) (sv_pool sv)
     \<and> (case release_all c (ids_of (tm_heap (sv_thread sv))) (sv_pool sv) of None \<Rightarrow> True
         | Some p \<Rightarrow> (case arena_pool_exit c p of None \<Rightarrow> True | Some p' \<Rightarrow> can_release d (ids_of (queued (sv_thread sv))) p')))"

lemma stop_ok:
  assumes inv: "service_inv sv A C" and c: "c < n_threads (sv_pool sv)" "d < n_threads (sv_pool sv)" and can: "can_stop c d sv"
  shows "\<exists>sv'. sv_stop c d sv = Some sv' \<and> mset (released (sv_thread sv')) = mset A \<and> arena_pool_inv [] (sv_pool sv')
    \<and> called (sv_thread sv') = called (sv_thread sv)"
proof -
  let ?th = "sv_thread sv"
  define th1 where "th1 = (run_exit ?th)\<lparr>tm_heap := []\<rparr>"
  define th2 where "th2 = release_buckets (length (bucket_array th1)) 0 th1"
  have th1: "th1 = ?th\<lparr>released := released ?th @ ids_of (tm_heap ?th), tm_heap := []\<rparr>"
    by (simp add: th1_def run_exit_def foldl_release)
  have th2: "released th2 = released ?th @ ids_of (tm_heap ?th) @ ids_of (queued ?th)" "called th2 = called ?th"
    using release_buckets_eq [of 0 "length (bucket_array th1)" th1] by (simp_all add: th2_def) (simp_all add: th1 queued_def)
  have new: "new_released ?th th1 = ids_of (tm_heap ?th)" "new_released th1 th2 = ids_of (queued ?th)"
    by (simp_all add: new_released_def th2) (simp_all add: th1)
  have "arena_pool_inv (ids_of (tm_heap ?th) @ ids_of (queued ?th)) (sv_pool sv)"
    using inv by (simp add: service_inv_def outstanding_def ids_of_def)
  from release_all_ok [OF this c(1)] can obtain p1 where p1: "release_all c (ids_of (tm_heap ?th)) (sv_pool sv) = Some p1"
    "arena_pool_inv (ids_of (queued ?th)) p1" "n_threads p1 = n_threads (sv_pool sv)" by (auto simp: can_stop_def)
  from arena_exit_stored [OF p1(2)] c(1) p1(3) obtain p2 where p2: "arena_pool_exit c p1 = Some p2"
    "arena_pool_inv (ids_of (queued ?th)) p2" "n_threads p2 = n_threads (sv_pool sv)" by auto
  have "arena_pool_inv (ids_of (queued ?th) @ []) p2" "d < n_threads p2" "can_release d (ids_of (queued ?th)) p2"
    using p1 p2 c(2) can by (simp_all add: can_stop_def)
  from release_all_ok [OF this] obtain p3 where p3: "release_all d (ids_of (queued ?th)) p2 = Some p3" "arena_pool_inv [] p3" by blast
  have "sv_stop c d sv = Some (sv\<lparr>sv_pool := p3, sv_thread := th2\<rparr>)"
    using p1(1) p2(1) p3(1) new by (simp add: sv_stop_def Let_def flip: th1_def th2_def)
  moreover have "mset (released th2) = mset A" using inv th2(1) by (simp add: service_inv_def outstanding_def ids_of_def)
  ultimately show ?thesis using p3(2) th2(2) by simp
qed

subsection \<open>What the service promises\<close>

text \<open>(C3) \<open>TimerControl\<close> on top of its object pool, over any sequence of \<open>add_timer\<close> and \<open>cancel_timer\<close> calls, rounds of
  the timer thread and exits of threads: the ids that \<open>add_timer\<close> returns are all different; every timer is waiting or was released, once;
  a timer is called at most once, never after a cancel that returned 0, and every released timer was called or cancelled; no
  object is in the pool while its timer waits; no round fails an assertion, and releases what it takes out. When the service
  stops, every timer that was ever added has been released exactly once. The pool has room and the versions of the ids do not wrap.\<close>

theorem timer_service_correct:
  assumes "service_reach (TimerControl mem slots buckets) sv A C"
  shows "distinct A \<and> mset A = mset (released (sv_thread sv)) + mset (ids_of (outstanding (sv_thread sv)))
    \<and> distinct (ids_of (called (sv_thread sv))) \<and> set (ids_of (called (sv_thread sv))) \<inter> set C = {}
    \<and> set (ids_of (called (sv_thread sv))) \<subseteq> set (released (sv_thread sv))
    \<and> set (released (sv_thread sv)) \<subseteq> set (ids_of (called (sv_thread sv))) \<union> set C
    \<and> distinct (map node (stored (sv_pool sv) @ ids_of (outstanding (sv_thread sv))))
    \<and> (\<forall>c clock n. c < slots \<longrightarrow> (\<exists>m sl th. run_round clock n (sv_thread sv) = Some (m, sl, th)
        \<and> (can_release c (new_released (sv_thread sv) th) (sv_pool sv) \<longrightarrow> (\<exists>sv'. sv_round c clock n sv = Some sv'))))
    \<and> (\<forall>c d. c < slots \<and> d < slots \<and> can_stop c d sv \<longrightarrow> (\<exists>sv'. sv_stop c d sv = Some sv'
        \<and> mset (released (sv_thread sv')) = mset A \<and> called (sv_thread sv') = called (sv_thread sv)))"
proof -
  have inv: "service_inv sv A C" and slots: "n_threads (sv_pool sv) = slots" using service_reach_inv [OF assms] by simp_all
  have round: "\<exists>m sl th. run_round clock n (sv_thread sv) = Some (m, sl, th)
        \<and> (can_release c (new_released (sv_thread sv) th) (sv_pool sv) \<longrightarrow> (\<exists>sv'. sv_round c clock n sv = Some sv'))"
    if "c < slots" for c clock n using round_inv [OF inv, of c clock n] that slots by blast
  have stop: "\<exists>sv'. sv_stop c d sv = Some sv' \<and> mset (released (sv_thread sv')) = mset A \<and> called (sv_thread sv') = called (sv_thread sv)"
    if "c < slots" "d < slots" "can_stop c d sv" for c d using stop_ok [OF inv _ _ that(3)] that(1,2) slots by blast
  have "distinct (map node (stored (sv_pool sv) @ ids_of (outstanding (sv_thread sv))))"
    using inv unfolding service_inv_def arena_pool_inv_def by blast
  then show ?thesis using inv round stop unfolding service_inv_def by blast
qed

definition demo_service :: timer_service where
  "demo_service = TimerControl (\<lambda>_. \<lparr>og_size = 7, og_items = (\<lambda>_. 0)\<rparr>) 2 4"

lemma demo_acquire:
  obtains raw p where "0 < n_threads (sv_pool demo_service)" "arena_pool_room (sv_pool demo_service)" "version_room 0 demo_service"
    "arena_acquire_id 0 (sv_pool demo_service) = Some (raw, p)" "raw + 2 * version_step \<le> 2 ^ 64"
proof -
  have pool: "sv_pool demo_service = ArenaObjectPool (\<lambda>_. \<lparr>og_size = 7, og_items = (\<lambda>_. 0)\<rparr>) 2"
    by (simp add: demo_service_def TimerControl_def)
  have c: "0 < n_threads (sv_pool demo_service)" "arena_pool_room (sv_pool demo_service)"
    by (simp_all add: pool n_threads_def arena_pool_room_def ArenaObjectPool_def GlobalGroup_ok)
  have empty: "stored (sv_pool demo_service) = []"
    by (simp add: pool stored_def) (simp add: ArenaObjectPool_def local_ids_def LocalObjectGroup_def)
  have "arena_pool_inv [] (sv_pool demo_service)" unfolding pool by (rule ArenaObjectPool_inv)
  from arena_acquire_supplied [OF this c] obtain raw p where acq: "arena_acquire_id 0 (sv_pool demo_service) = Some (raw, p)"
    "supplied [] (sv_pool demo_service) raw p" by (auto simp: arena_acquire_id_def)
  then obtain ys where "mset (raw # stored p) = mset ys" "\<forall>y \<in> set ys. y < 2 ^ 32" unfolding supplied_def empty by auto
  then have "raw < 2 ^ 32" by (metis list.set_intros(1) mset_eq_setD)
  then have "raw + 2 * version_step \<le> 2 ^ 64" by (simp add: version_step_def)
  moreover from this have "version_room 0 demo_service" using acq(1) by (simp add: version_room_def)
  ultimately show ?thesis using that c acq(1) by blast
qed

theorem timer_service_correct_witness:
  "\<exists>tid sv. sv_add 0 7 1 1000 demo_service = Some (tid, sv)
    \<and> mset [tid] = mset (released (sv_thread sv)) + mset (ids_of (outstanding (sv_thread sv)))
    \<and> (\<exists>m sl th. run_round (\<lambda>_. 5) 0 (sv_thread sv) = Some (m, sl, th))"
proof -
  obtain raw p where c: "0 < n_threads (sv_pool demo_service)" "arena_pool_room (sv_pool demo_service)" "version_room 0 demo_service"
    and acq: "arena_acquire_id 0 (sv_pool demo_service) = Some (raw, p)" by (rule demo_acquire)
  obtain tid sv where add: "sv_add 0 7 1 1000 demo_service = Some (tid, sv)" using acq
    by (cases "control_add_timer 7 raw 1 1000 (sv_thread demo_service)") (simp add: sv_add_def)
  from service_reach.add [OF service_reach.start c this]
  have "service_reach demo_service sv [tid] []" .
  from timer_service_correct [OF this [unfolded demo_service_def]] add show ?thesis by (metis zero_less_numeral)
qed

end
