(* ===== verification/Log_Date.thy ===== *)
theory Log_Date
  imports Convert
begin

text \<open>
  The clock arithmetic of \<^verbatim>\<open>time.h\<close> and \<open>LogDateImpl\<close> of \<^verbatim>\<open>src/log.cpp\<close>, the cached date of log lines:
  within a day \<open>update_date\<close> rewrites only the digits that changed, and the theorems compare this with
  formatting the date anew. The time zone (\<^verbatim>\<open>localtime_r\<close>) is an argument.
\<close>

subsection \<open>Clock values\<close>

record timespec =
  tv_sec :: nat
  tv_nsec :: nat

definition timespec_to_us :: "timespec \<Rightarrow> nat" where
  "timespec_to_us tp = u64 (tv_sec tp * 1000000 + tv_nsec tp div 1000)"

definition timespec_to_ns :: "timespec \<Rightarrow> nat" where
  "timespec_to_ns tp = u64 (tv_sec tp * 1000000000 + tv_nsec tp)"

definition ns_to_timespec :: "nat \<Rightarrow> timespec" where
  "ns_to_timespec ts = (let sec = ts div 1000000000 in \<lparr>tv_sec = sec, tv_nsec = sub64 ts (u64 (1000000000 * sec))\<rparr>)"

definition us_to_timespec :: "nat \<Rightarrow> timespec" where
  "us_to_timespec ts = ns_to_timespec (u64 (ts * 1000))"

text \<open>The reading of \<^verbatim>\<open>gettimeofday\<close>, seconds and microseconds, is an argument.\<close>

definition gettimeofday_us :: "nat \<times> nat \<Rightarrow> nat" where
  "gettimeofday_us tv = u64 (fst tv * 1000000 + snd tv)"

subsection \<open>The cached date\<close>

record tm =
  tm_year :: int
  tm_mon :: nat
  tm_mday :: nat
  tm_hour :: nat
  tm_min :: nat
  tm_sec :: nat

definition kMinOneDay :: nat where
  "kMinOneDay = 60 * 24"

definition kUSOneMin :: nat where
  "kUSOneMin = 1000000 * 60"

record log_date =
  time_day :: nat
  time_min :: nat
  time_us :: nat
  formatted :: string

text \<open>The format \<^verbatim>\<open>"%04d%02d%02d-%02d:%02d:%02d:%06lu "\<close> for years that are not negative, cut off by
  \<^verbatim>\<open>snprintf\<close> at the 28 bytes of \<open>formatted_\<close>, one of which is the terminator.\<close>

definition date_text :: "tm \<Rightarrow> nat \<Rightarrow> string" where
  "date_text t us = take 27 (zero_pad 4 (nat (tm_year t + 1900)) @ zero_pad 2 (tm_mon t + 1) @ zero_pad 2 (tm_mday t) @ ''-''
     @ zero_pad 2 (tm_hour t) @ '':'' @ zero_pad 2 (tm_min t) @ '':'' @ zero_pad 2 (tm_sec t) @ '':'' @ zero_pad 6 us @ '' '')"

definition format_to_string :: "(nat \<Rightarrow> tm) \<Rightarrow> nat \<Rightarrow> log_date" where
  "format_to_string localtime_r timestamp =
     \<lparr>time_day = u32 (timestamp div kUSOneMin div kMinOneDay),
      time_min = u32 (timestamp div kUSOneMin mod kMinOneDay),
      time_us = u32 (timestamp mod kUSOneMin),
      formatted = date_text (localtime_r (timestamp div 1000000)) (timestamp mod 1000000)\<rparr>"

definition digit_char :: "nat \<Rightarrow> char" where
  "digit_char d = char_of (d + 48)"

text \<open>The digits of the seconds and microseconds: the positions 23 down to 18, then 16 and 15.\<close>

definition set_us :: "nat \<Rightarrow> string \<Rightarrow> string" where
  "set_us tmp0 f =
     (let f = f[23 := digit_char (tmp0 mod 10)]; tmp = tmp0 div 10;
          f = f[22 := digit_char (tmp mod 10)]; tmp = tmp div 10;
          f = f[21 := digit_char (tmp mod 10)]; tmp = tmp div 10;
          f = f[20 := digit_char (tmp mod 10)]; tmp = tmp div 10;
          f = f[19 := digit_char (tmp mod 10)]; tmp = tmp div 10;
          f = f[18 := digit_char (tmp mod 10)]; tmp = tmp div 10;
          f = f[16 := digit_char (tmp mod 10)]
      in f[15 := digit_char (tmp div 10)])"

definition set_min :: "nat \<Rightarrow> string \<Rightarrow> string" where
  "set_min time_min' f =
     (let tmp = time_min' mod 60;
          f = f[13 := digit_char (tmp mod 10)];
          f = f[12 := digit_char (tmp div 10)];
          tmp = time_min' div 60;
          f = f[10 := digit_char (tmp mod 10)]
      in f[9 := digit_char (tmp div 10)])"

text \<open>The branch for a new day passes on the timestamp after its division by \<open>kUSOneMin\<close>, as the code does.\<close>

definition update_date :: "(nat \<Rightarrow> tm) \<Rightarrow> nat \<Rightarrow> log_date \<Rightarrow> log_date" where
  "update_date localtime_r now d =
     (let d = d\<lparr>time_us := u32 (now mod kUSOneMin)\<rparr>;
          timestamp = now div kUSOneMin;
          time_min' = u32 (timestamp mod kMinOneDay);
          time_day' = u32 (timestamp div kMinOneDay)
      in if time_day' \<noteq> time_day d then format_to_string localtime_r timestamp
         else let d = d\<lparr>formatted := set_us (time_us d) (formatted d)\<rparr>
              in if time_min' \<noteq> time_min d
                 then d\<lparr>time_min := time_min', formatted := set_min time_min' (formatted d)\<rparr>
                 else d)"

definition LogDateImpl :: "(nat \<Rightarrow> tm) \<Rightarrow> nat \<Rightarrow> log_date" where
  "LogDateImpl localtime_r now = format_to_string localtime_r now"

subsection \<open>The layout of the text\<close>

lemma zero_pad_unfold: "1 < w \<Longrightarrow> zero_pad w n = zero_pad (w - 1) (n div 10) @ [digit_char (n mod 10)]"
  using zero_pad_step [of "w - 1" n] decimal_char [of "n mod 10"] by (simp add: digit_char_def)

lemma zero_pad_digit: "n < 10 \<Longrightarrow> zero_pad 1 n = [digit_char n]"
  using zero_pad_1 [of n] decimal_char [of n] by (simp add: digit_char_def)

lemma div_chain: "(n :: nat) div a div b = n div (a * b)"
  by (rule div_mult2_eq [symmetric])

lemma zero_pad_2: "n < 100 \<Longrightarrow> zero_pad 2 n = [digit_char (n div 10), digit_char (n mod 10)]"
  using zero_pad_digit [of "n div 10"] zero_pad_unfold [of 2 n] by simp

lemma zero_pad_6:
  assumes "n < 1000000"
  shows "zero_pad 6 n = [digit_char (n div 100000), digit_char (n div 10000 mod 10), digit_char (n div 1000 mod 10),
     digit_char (n div 100 mod 10), digit_char (n div 10 mod 10), digit_char (n mod 10)]"
  using zero_pad_digit [of "n div 100000"] zero_pad_unfold [of 6 n] zero_pad_unfold [of 5 "n div 10"] assms
    zero_pad_unfold [of 4 "n div 100"] zero_pad_unfold [of 3 "n div 1000"] zero_pad_unfold [of 2 "n div 10000"]
  by (simp add: div_chain)

text \<open>The text from the hour on, for the minute of the day and the microsecond of the minute.\<close>

definition clock_text :: "nat \<Rightarrow> nat \<Rightarrow> string" where
  "clock_text m us =
     [digit_char (m div 60 div 10), digit_char (m div 60 mod 10), CHR '':'', digit_char (m mod 60 div 10), digit_char (m mod 60 mod 10), CHR '':'',
      digit_char (us div 10000000), digit_char (us div 1000000 mod 10), CHR '':'', digit_char (us div 100000 mod 10),
      digit_char (us div 10000 mod 10), digit_char (us div 1000 mod 10), digit_char (us div 100 mod 10),
      digit_char (us div 10 mod 10), digit_char (us mod 10), CHR '' '']"

lemma set_us_clock: "length A = 9 \<Longrightarrow> set_us us (A @ clock_text m us') = A @ clock_text m us"
  by (simp add: set_us_def clock_text_def list_update_append Let_def div_mult2_eq [symmetric])

lemma set_min_clock: "length A = 9 \<Longrightarrow> set_min m (A @ clock_text m' us) = A @ clock_text m us"
  by (simp add: set_min_def clock_text_def list_update_append Let_def)

text \<open>A time zone without offset: the time of day is the remainder of the day, and the calendar fields depend on the
  day only.\<close>

definition utc_localtime :: "(nat \<Rightarrow> tm) \<Rightarrow> bool" where
  "utc_localtime lt = (\<forall>sec. tm_hour (lt sec) = sec mod 86400 div 3600 \<and> tm_min (lt sec) = sec mod 3600 div 60
     \<and> tm_sec (lt sec) = sec mod 60 \<and> tm_mon (lt sec) < 12 \<and> tm_mday (lt sec) < 32
     \<and> (\<forall>sec'. sec' div 86400 = sec div 86400 \<longrightarrow> tm_year (lt sec') = tm_year (lt sec)
          \<and> tm_mon (lt sec') = tm_mon (lt sec) \<and> tm_mday (lt sec') = tm_mday (lt sec)))"

definition date_part :: "tm \<Rightarrow> string" where
  "date_part t = zero_pad 4 (nat (tm_year t + 1900)) @ zero_pad 2 (tm_mon t + 1) @ zero_pad 2 (tm_mday t) @ ''-''"

lemma utc_fields:
  assumes "utc_localtime lt"
  shows "tm_hour (lt sec) = sec mod 86400 div 3600" "tm_min (lt sec) = sec mod 3600 div 60" "tm_sec (lt sec) = sec mod 60"
    "tm_mon (lt sec) < 12" "tm_mday (lt sec) < 32"
  using assms unfolding utc_localtime_def by blast+

lemma utc_same_day:
  assumes "utc_localtime lt" "sec' div 86400 = sec div 86400"
  shows "tm_year (lt sec') = tm_year (lt sec)" "date_part (lt sec') = date_part (lt sec)"
proof -
  have "tm_year (lt sec') = tm_year (lt sec) \<and> tm_mon (lt sec') = tm_mon (lt sec) \<and> tm_mday (lt sec') = tm_mday (lt sec)"
    using assms unfolding utc_localtime_def by blast
  then show "tm_year (lt sec') = tm_year (lt sec)" "date_part (lt sec') = date_part (lt sec)"
    by (simp_all add: date_part_def)
qed

lemma date_part_length:
  assumes "utc_localtime lt" "tm_year (lt sec) < 8100"
  shows "length (date_part (lt sec)) = 9"
proof -
  have "tm_mon (lt sec) < 12" "tm_mday (lt sec) < 32" using utc_fields [OF assms(1)] by blast+
  moreover have "length (zero_pad 4 (nat (tm_year (lt sec) + 1900))) = 4" using assms(2) by (intro length_zero_pad) auto
  ultimately show ?thesis by (simp add: date_part_def zero_pad_2)
qed

lemma mod_div_swap: "(t :: nat) mod (a * b) div a = t div a mod b"
  by (cases "a = 0") (simp_all add: mod_mult2_eq)

lemma mod_digit:
  assumes "k * 10 * j = (m :: nat)" "0 < k"
  shows "u mod m div k mod 10 = u div k mod 10"
proof -
  have "u mod m div k = u div k mod (10 * j)" using mod_div_swap [of u k "10 * j"] assms(1) by (simp add: mult.assoc)
  then show ?thesis by (simp add: mod_mod_cancel)
qed

lemma clock_split:
  fixes t :: nat
  shows "t div 1000000 mod 86400 div 3600 = t div kUSOneMin mod kMinOneDay div 60"
    "t div 1000000 mod 3600 div 60 = t div kUSOneMin mod kMinOneDay mod 60"
    "t div 1000000 mod 60 = t mod kUSOneMin div 1000000" "t mod 1000000 = t mod kUSOneMin mod 1000000"
proof -
  show "t div 1000000 mod 86400 div 3600 = t div kUSOneMin mod kMinOneDay div 60"
    using mod_div_swap [of "t div 1000000" 3600 24] mod_div_swap [of "t div kUSOneMin" 60 24]
    by (simp add: kUSOneMin_def kMinOneDay_def div_chain)
  show "t div 1000000 mod 3600 div 60 = t div kUSOneMin mod kMinOneDay mod 60"
    using mod_div_swap [of "t div 1000000" 60 60] by (simp add: kUSOneMin_def kMinOneDay_def div_chain mod_mod_cancel)
  show "t div 1000000 mod 60 = t mod kUSOneMin div 1000000"
    using mod_div_swap [of t 1000000 60] by (simp add: kUSOneMin_def)
  show "t mod 1000000 = t mod kUSOneMin mod 1000000" by (simp add: kUSOneMin_def mod_mod_cancel)
qed

lemma us_digits:
  "zero_pad 6 (u mod 1000000) = [digit_char (u div 100000 mod 10), digit_char (u div 10000 mod 10), digit_char (u div 1000 mod 10),
     digit_char (u div 100 mod 10), digit_char (u div 10 mod 10), digit_char (u mod 10)]"
proof -
  have "u mod 1000000 < 1000000" by simp
  moreover have "u mod 1000000 div 100000 = u div 100000 mod 10" using mod_div_swap [of u 100000 10] by simp
  moreover have "u mod 1000000 mod 10 = u mod 10" by (rule mod_mod_cancel) simp
  moreover have "u mod 1000000 div 10000 mod 10 = u div 10000 mod 10" by (rule mod_digit [of _ 10]) simp_all
  moreover have "u mod 1000000 div 1000 mod 10 = u div 1000 mod 10" by (rule mod_digit [of _ 100]) simp_all
  moreover have "u mod 1000000 div 100 mod 10 = u div 100 mod 10" by (rule mod_digit [of _ 1000]) simp_all
  moreover have "u mod 1000000 div 10 mod 10 = u div 10 mod 10" by (rule mod_digit [of _ 10000]) simp_all
  ultimately show ?thesis by (simp only: zero_pad_6)
qed

lemma utc_format:
  assumes "utc_localtime lt" "tm_year (lt (t div 1000000)) < 8100"
  shows "formatted (format_to_string lt t)
     = date_part (lt (t div 1000000)) @ clock_text (t div kUSOneMin mod kMinOneDay) (t mod kUSOneMin)"
proof -
  let ?tm = "lt (t div 1000000)" and ?m = "t div kUSOneMin mod kMinOneDay" and ?us = "t mod kUSOneMin"
  have tm: "tm_hour ?tm = ?m div 60" "tm_min ?tm = ?m mod 60" "tm_sec ?tm = ?us div 1000000"
    using utc_fields(1-3) [OF assms(1)] clock_split(1-3) [of t] by simp_all
  have bounds: "?m < 1440" "?us < 60000000" by (simp_all add: kUSOneMin_def kMinOneDay_def)
  have h: "?m div 60 < 100" "?m mod 60 < 100" "?us div 1000000 < 100" "?us mod 1000000 < 1000000" using bounds by auto
  have us: "zero_pad 6 (t mod 1000000) @ '' '' = drop 9 (clock_text ?m ?us)"
    using us_digits [of ?us] clock_split(4) [of t] by (simp add: clock_text_def)
  have "date_text ?tm (t mod 1000000)
      = take 27 (date_part ?tm @ take 9 (clock_text ?m ?us) @ zero_pad 6 (t mod 1000000) @ '' '')"
    unfolding date_text_def date_part_def tm zero_pad_2 [OF h(1)] zero_pad_2 [OF h(2)] zero_pad_2 [OF h(3)]
    by (simp add: clock_text_def div_chain)
  also have "\<dots> = date_part ?tm @ clock_text ?m ?us"
    unfolding us append_take_drop_id using date_part_length [OF assms] by (simp add: clock_text_def)
  finally show ?thesis by (simp add: format_to_string_def)
qed

subsection \<open>Updating within a day\<close>

abbreviation day_of :: "nat \<Rightarrow> nat" where
  "day_of t \<equiv> t div kUSOneMin div kMinOneDay"

lemma day_of_sec: "t div 1000000 div 86400 = day_of t"
  by (simp add: kUSOneMin_def kMinOneDay_def div_chain)

lemma u32_fields [simp]: "u32 (t mod kUSOneMin) = t mod kUSOneMin" "u32 (m mod kMinOneDay) = m mod kMinOneDay"
  by (auto simp: kUSOneMin_def kMinOneDay_def intro!: u32_id less_le_trans [OF mod_less_divisor])

lemma update_same_day:
  assumes "utc_localtime lt" "tm_year (lt (t0 div 1000000)) < 8100" "day_of t = day_of t0"
  shows "update_date lt t (format_to_string lt t0) = format_to_string lt t"
proof -
  let ?old = "lt (t0 div 1000000)" and ?d = "lt (t div 1000000)"
  have same: "tm_year ?d = tm_year ?old" "date_part ?d = date_part ?old"
    using utc_same_day [OF assms(1), of "t div 1000000" "t0 div 1000000"] assms(3) by (simp_all add: day_of_sec)
  have f0: "formatted (format_to_string lt t0) = date_part ?old @ clock_text (t0 div kUSOneMin mod kMinOneDay) (t0 mod kUSOneMin)"
    by (rule utc_format [OF assms(1,2)])
  have f: "formatted (format_to_string lt t) = date_part ?old @ clock_text (t div kUSOneMin mod kMinOneDay) (t mod kUSOneMin)"
    using utc_format [OF assms(1), of t] assms(2) same by simp
  note len = date_part_length [OF assms(1,2)]
  have "update_date lt t (format_to_string lt t0) = (format_to_string lt t)\<lparr>formatted
      := date_part ?old @ clock_text (t div kUSOneMin mod kMinOneDay) (t mod kUSOneMin)\<rparr>"
    using f0 assms(3) by (simp add: update_date_def Let_def format_to_string_def set_us_clock [OF len] set_min_clock [OF len])
  then show ?thesis unfolding f [symmetric] by simp
qed

text \<open>(C26) In a time zone without offset, rewriting the changed digits is the same as formatting the date anew: after any
  updates within the day of its creation, in whatever order of their times, the cached date equals a fresh one of the last
  time, and its text has the length that log lines reserve for it.\<close>

theorem log_date_same_day:
  assumes "utc_localtime localtime_r" "tm_year (localtime_r (t0 div 1000000)) < 8100"
    and "\<forall>t \<in> set (ts @ [t]). t div kUSOneMin div kMinOneDay = t0 div kUSOneMin div kMinOneDay"
  shows "foldl (\<lambda>d now. update_date localtime_r now d) (LogDateImpl localtime_r t0) (ts @ [t]) = format_to_string localtime_r t
    \<and> length (formatted (format_to_string localtime_r t)) = 25"
proof -
  have "foldl (\<lambda>d now. update_date localtime_r now d) (format_to_string localtime_r t0) xs = format_to_string localtime_r (last (t0 # xs))"
    if "\<forall>t \<in> set xs. day_of t = day_of t0" for xs
    using that
  proof (induction xs rule: rev_induct)
    case (snoc x xs)
    let ?l = "last (t0 # xs)"
    have "day_of ?l = day_of t0" using snoc.prems by (cases "xs = []") auto
    moreover from this have "tm_year (localtime_r (?l div 1000000)) < 8100"
      using utc_same_day(1) [OF assms(1), of "?l div 1000000" "t0 div 1000000"] assms(2) unfolding day_of_sec by linarith
    ultimately have "update_date localtime_r x (format_to_string localtime_r ?l) = format_to_string localtime_r x"
      using update_same_day [OF assms(1)] snoc.prems by simp
    then show ?case using snoc by simp
  qed simp
  from this [OF assms(3)] have "foldl (\<lambda>d now. update_date localtime_r now d) (LogDateImpl localtime_r t0) (ts @ [t]) = format_to_string localtime_r t"
    by (simp add: LogDateImpl_def)
  moreover have "tm_year (localtime_r (t div 1000000)) < 8100"
    using utc_same_day(1) [OF assms(1), of "t div 1000000" "t0 div 1000000"] assms(2,3) by (simp add: day_of_sec)
  then have "length (formatted (format_to_string localtime_r t)) = 25"
    using utc_format [OF assms(1)] date_part_length [OF assms(1)] by (simp add: clock_text_def)
  ultimately show ?thesis ..
qed

theorem log_date_same_day_witness:
  "foldl (\<lambda>d now. update_date (\<lambda>s. \<lparr>tm_year = 70, tm_mon = 0, tm_mday = 1, tm_hour = s mod 86400 div 3600, tm_min = s mod 3600 div 60, tm_sec = s mod 60\<rparr>) now d)
     (LogDateImpl (\<lambda>s. \<lparr>tm_year = 70, tm_mon = 0, tm_mday = 1, tm_hour = s mod 86400 div 3600, tm_min = s mod 3600 div 60, tm_sec = s mod 60\<rparr>) 5) ([7] @ [90000009])
   = format_to_string (\<lambda>s. \<lparr>tm_year = 70, tm_mon = 0, tm_mday = 1, tm_hour = s mod 86400 div 3600, tm_min = s mod 3600 div 60, tm_sec = s mod 60\<rparr>) 90000009"
  by (rule log_date_same_day [THEN conjunct1]) (auto simp: utc_localtime_def kUSOneMin_def kMinOneDay_def)

text \<open>At the first change of the day the minutes since the epoch are formatted as if they were microseconds, and the day is
  remembered as 0, so that this happens again for every later line: from then on the date of a log line is that of a time in the first
  minutes of 1970, in every time zone and for all times from 1970-01-02 on until the year 4000.\<close>

theorem log_date_after_midnight:
  assumes "t0 div kUSOneMin div kMinOneDay \<noteq> time_day d" "\<forall>t \<in> set (t0 # ts). 86400000000 \<le> t \<and> t < 64000000000000000"
  shows "formatted (foldl (\<lambda>d now. update_date localtime_r now d) d (t0 # ts))
    = formatted (format_to_string localtime_r (last (t0 # ts) div 60000000))"
proof -
  have day: "0 < day_of t" "u32 (day_of t) = day_of t" "day_of (t div 60000000) = 0" if "86400000000 \<le> t" "t < 64000000000000000" for t
    using that by (auto simp: kUSOneMin_def kMinOneDay_def div_chain intro!: u32_id div_less less_mult_imp_div_less)
  have stuck: "update_date localtime_r t d = format_to_string localtime_r (t div 60000000)"
    if "86400000000 \<le> t" "t < 64000000000000000" "day_of t \<noteq> time_day d" for t d
    using that day(2) [OF that(1,2)] by (simp add: update_date_def Let_def) (simp add: kUSOneMin_def)
  have "foldl (\<lambda>d now. update_date localtime_r now d) d (t0 # ts) = format_to_string localtime_r (last (t0 # ts) div 60000000)"
    using assms(2)
  proof (induction ts rule: rev_induct)
    case Nil
    then show ?case using stuck [of t0 d] assms(1) by simp
  next
    case (snoc t ts)
    let ?l = "last (t0 # ts)"
    have "?l \<in> set (t0 # ts)" by (rule last_in_set) simp
    then have "86400000000 \<le> ?l" "?l < 64000000000000000" using snoc.prems by auto
    then have "time_day (format_to_string localtime_r (?l div 60000000)) = 0" using day(3) by (simp add: format_to_string_def u32_def)
    then have "update_date localtime_r t (format_to_string localtime_r (?l div 60000000)) = format_to_string localtime_r (t div 60000000)"
      using stuck [of t] day(1) [of t] snoc.prems by simp
    then show ?case using snoc by simp
  qed
  then show ?thesis by simp
qed

theorem log_date_after_midnight_witness:
  "formatted (foldl (\<lambda>d now. update_date (\<lambda>s. \<lparr>tm_year = 117, tm_mon = 0, tm_mday = 1, tm_hour = 0, tm_min = 0, tm_sec = 0\<rparr>) now d)
      \<lparr>time_day = 3, time_min = 0, time_us = 0, formatted = ''20170101-00:00:00:000000 ''\<rparr> [86400000000, 86400000001])
   = formatted (format_to_string (\<lambda>s. \<lparr>tm_year = 117, tm_mon = 0, tm_mday = 1, tm_hour = 0, tm_min = 0, tm_sec = 0\<rparr>) (86400000001 div 60000000))"
  using log_date_after_midnight [of 86400000000 "\<lparr>time_day = 3, time_min = 0, time_us = 0, formatted = ''20170101-00:00:00:000000 ''\<rparr>" "[86400000001]"]
  by (simp add: kUSOneMin_def kMinOneDay_def)

text \<open>Converting nanoseconds to a \<open>timespec\<close> and back gives them back, the nanosecond field is always below one second, and
  reading microseconds loses nothing but what is below one microsecond.\<close>

theorem timespec_roundtrip:
  assumes "ts < 2 ^ 64"
  shows "timespec_to_ns (ns_to_timespec ts) = ts \<and> tv_nsec (ns_to_timespec ts) < 1000000000
    \<and> timespec_to_us (ns_to_timespec ts) = ts div 1000"
proof -
  let ?s = "ts div 1000000000"
  have e: "1000000000 * ?s + ts mod 1000000000 = ts" by simp
  then have le: "1000000000 * ?s \<le> ts" by linarith
  have tp: "ns_to_timespec ts = \<lparr>tv_sec = ?s, tv_nsec = ts mod 1000000000\<rparr>"
    using assms le e by (simp add: ns_to_timespec_def Let_def u64_id sub64_id) (simp add: minus_mult_div_eq_mod)
  have "ts div 1000 = ?s * 1000000 + ts mod 1000000000 div 1000"
    using mod_div_swap [of ts 1000 1000000] div_mult_mod_eq [of "ts div 1000" 1000000] by (simp add: div_chain)
  moreover have "ts div 1000 < 2 ^ 64" using assms div_le_dividend [of ts 1000] by linarith
  ultimately show ?thesis using assms e by (simp add: tp timespec_to_ns_def timespec_to_us_def u64_id mult.commute)
qed

theorem timespec_roundtrip_witness: "timespec_to_ns (ns_to_timespec 1500000000123456789) = 1500000000123456789"
  using timespec_roundtrip [of 1500000000123456789] by simp

end
