(* ===== verification/Timer_Clock.thy ===== *)
theory Timer_Clock
  imports Timer_Service Log_Date
begin

text \<open>
  The timer service and the clock: \<open>TimerControl::add_timer_us\<close> of \<^verbatim>\<open>timer.h\<close> and \<open>add_timer\<close> with a \<open>timespec\<close>
  compute the time of a timer by the conversions of \<^verbatim>\<open>time.h\<close>, and the rounds of the timer thread compare it with later
  readings of the clock. The readings are arguments.
\<close>

subsection \<open>Readings of the clocks\<close>

text \<open>The three functions differ in the clock they read and in the unit.\<close>

definition clock_gettime_us :: "timespec \<Rightarrow> nat" where
  "clock_gettime_us tp = u64 (tv_sec tp * 1000000 + tv_nsec tp div 1000)"

definition clock_gettime_ns :: "timespec \<Rightarrow> nat" where
  "clock_gettime_ns tp = u64 (tv_sec tp * 1000000000 + tv_nsec tp)"

definition steady_clock_gettime_ns :: "timespec \<Rightarrow> nat" where
  "steady_clock_gettime_ns tp = u64 (tv_sec tp * 1000000000 + tv_nsec tp)"

lemma clock_units:
  assumes "tv_nsec tp < 1000000000" "tv_sec tp * 1000000000 + tv_nsec tp < 2 ^ 64"
  shows "clock_gettime_us tp = clock_gettime_ns tp div 1000"
proof -
  have "tv_sec tp * 1000000 + tv_nsec tp div 1000 = (tv_sec tp * 1000000000 + tv_nsec tp) div 1000"
    by (simp add: div_add1_eq [of "tv_sec tp * 1000000000"])
  then show ?thesis using assms by (simp add: clock_gettime_us_def clock_gettime_ns_def u64_id)
qed

subsection \<open>Adding timers\<close>

definition add_timer :: "nat \<Rightarrow> nat \<Rightarrow> nat \<Rightarrow> timespec \<Rightarrow> timer_service \<Rightarrow> (nat \<times> timer_service) option" where
  "add_timer c k f abstime sv = sv_add c k f (timespec_to_us abstime) sv"

definition add_timer_us :: "nat \<Rightarrow> nat \<Rightarrow> nat \<Rightarrow> nat \<times> nat \<Rightarrow> nat \<Rightarrow> timer_service \<Rightarrow> (nat \<times> timer_service) option" where
  "add_timer_us c k f tv delay_us sv =
     (let abstime = us_to_timespec (u64 (gettimeofday_us tv + delay_us)) in add_timer c k f abstime sv)"

text \<open>The time a timer gets: the sum, as long as it fits in 64 bits when counted in nanoseconds.\<close>

definition deadline :: "nat \<times> nat \<Rightarrow> nat \<Rightarrow> nat" where
  "deadline tv delay_us = timespec_to_us (us_to_timespec (u64 (gettimeofday_us tv + delay_us)))"

lemma add_timer_us_eq: "add_timer_us c k f tv d sv = sv_add c k f (deadline tv d) sv"
  by (simp add: add_timer_us_def add_timer_def deadline_def Let_def)

lemma timespec_us_ns:
  assumes "ts < 2 ^ 64"
  shows "timespec_to_us (ns_to_timespec ts) = ts div 1000"
proof -
  have le: "1000000000 * (ts div 1000000000) \<le> ts" by simp
  have tp: "ns_to_timespec ts = \<lparr>tv_sec = ts div 1000000000, tv_nsec = ts mod 1000000000\<rparr>"
    using assms le by (simp add: ns_to_timespec_def Let_def u64_id sub64_id) (simp add: minus_mult_div_eq_mod)
  have "(q * 1000000000 + r) div 1000 = q * 1000000 + r div 1000" for q r :: nat
    by (simp add: div_add1_eq [of "q * 1000000000"])
  from this [of "ts div 1000000000" "ts mod 1000000000"]
  have "ts div 1000000000 * 1000000 + ts mod 1000000000 div 1000 = ts div 1000" by (simp only: div_mult_mod_eq)
  moreover have "ts div 1000 < 2 ^ 64" using assms by (simp add: div_less_iff_less_mult)
  ultimately show ?thesis by (simp add: tp timespec_to_us_def u64_id)
qed

lemma deadline_exact:
  assumes "(gettimeofday_us tv + d) * 1000 < 2 ^ 64"
  shows "deadline tv d = gettimeofday_us tv + d"
proof -
  have "u64 (gettimeofday_us tv + d) = gettimeofday_us tv + d" "u64 ((gettimeofday_us tv + d) * 1000) = (gettimeofday_us tv + d) * 1000"
    using assms by (simp_all add: u64_id)
  then show ?thesis
    using timespec_us_ns [of "(gettimeofday_us tv + d) * 1000"] assms
    by (simp add: deadline_def us_to_timespec_def)
qed

text \<open>A delay that means "never", the largest number, makes the timer due at once: the sum wraps.\<close>

lemma deadline_wraps:
  "deadline (1500000000, 0) (2 ^ 64 - 1) < gettimeofday_us (1500000000, 0)"
  by (simp add: deadline_def us_to_timespec_def ns_to_timespec_def timespec_to_us_def gettimeofday_us_def u64_def sub64_def Let_def)

subsection \<open>Histories with deadlines\<close>

text \<open>\<open>D\<close> has the ids that \<open>add_timer_us\<close> returned, with the deadlines.\<close>

inductive timed_reach :: "timer_service \<Rightarrow> timer_service \<Rightarrow> (nat \<times> nat) list \<Rightarrow> nat list \<Rightarrow> bool" for sv0 where
  start: "timed_reach sv0 sv0 [] []"
| add: "timed_reach sv0 sv D C \<Longrightarrow> c < n_threads (sv_pool sv) \<Longrightarrow> arena_pool_room (sv_pool sv) \<Longrightarrow> version_room c sv
    \<Longrightarrow> add_timer_us c k f tv d sv = Some (tid, sv') \<Longrightarrow> timed_reach sv0 sv' ((tid, deadline tv d) # D) C"
| cancel: "timed_reach sv0 sv D C \<Longrightarrow> tid \<in> fst ` set D \<Longrightarrow> sv_cancel tid sv = (ret, sv')
    \<Longrightarrow> timed_reach sv0 sv' D (if ret = 0 then tid # C else C)"
| round: "timed_reach sv0 sv D C \<Longrightarrow> c < n_threads (sv_pool sv)
    \<Longrightarrow> run_round clock n (sv_thread sv) = Some (m, sl, th) \<Longrightarrow> can_release c (new_released (sv_thread sv) th) (sv_pool sv)
    \<Longrightarrow> sv_round c clock n sv = Some sv' \<Longrightarrow> timed_reach sv0 sv' D C"
| exit: "timed_reach sv0 sv D C \<Longrightarrow> c < n_threads (sv_pool sv) \<Longrightarrow> arena_pool_exit c (sv_pool sv) = Some p
    \<Longrightarrow> timed_reach sv0 (sv\<lparr>sv_pool := p\<rparr>) D C"

lemma timed_service: "timed_reach sv0 sv D C \<Longrightarrow> service_reach sv0 sv (map fst D) C"
proof (induction rule: timed_reach.induct)
  case (add sv D C c k f tv d tid sv')
  from service_reach.add [OF add.IH add(2-4) add(5) [unfolded add_timer_us_eq]] show ?case by simp
next
  case (cancel sv D C tid ret sv')
  from service_reach.cancel [OF cancel.IH _ cancel(3)] cancel(2) show ?case by simp
next
  case (round sv D C c clock n m sl th sv')
  from service_reach.round [OF round.IH round(2-5)] show ?case .
next
  case (exit sv D C c p)
  from service_reach.exit [OF exit.IH exit(2,3)] show ?case .
qed (simp add: service_reach.start)

definition dated :: "(nat \<times> nat) list \<Rightarrow> timer list \<Rightarrow> bool" where
  "dated D tms = (\<forall>tm \<in> set tms. (timer_id tm, run_time tm) \<in> set D)"

lemma dated_mset: "dated D tms \<Longrightarrow> set tms' \<subseteq> set tms \<Longrightarrow> dated D tms'"
  by (auto simp: dated_def)

lemma control_add_dated:
  assumes "control_add_timer k raw f t th = (tid, th')" "thread_ok th" "raw + 2 * version_step \<le> 2 ^ 64" "dated D (outstanding th)"
  shows "dated ((tid, t) # D) (outstanding th')"
proof -
  let ?tid = "raw + version_step"
  let ?tm = "init_timer ?tid t f \<lparr>run_time = 0, timer_id = 0, func = 0, version = 0\<rparr>"
  have small: "?tid < 2 ^ 64" using assms(3) by (simp add: version_step_def)
  then have eq: "tid = ?tid" "th' = thread_add_timer k ?tm th" using assms(1) by (auto simp: control_add_timer_def u64_def Let_def)
  have "version_of ?tid = ?tid div 2 ^ 32" using version_of_id(1) [of ?tid] assms(3) by (simp add: version_step_def)
  then have tm: "pending_ok ?tm" "timer_id ?tm = ?tid" "run_time ?tm = t"
    using assms(3) by (simp_all add: pending_ok_def init_timer_def version_step_def)
  have "set (queued th') = insert ?tm (set (queued th))"
    using thread_add_timer_ok [OF assms(2) tm(1), of k] eq(2) by (metis set_mset_add_mset_insert set_mset_mset)
  moreover have "tm_heap th' = tm_heap th" by (simp add: eq(2) thread_add_timer_def futex_wake_def Let_def split: prod.split)
  ultimately show ?thesis using assms(4) tm by (auto simp: dated_def outstanding_def eq(1))
qed

lemma round_outstanding:
  assumes "thread_ok th" "run_round clock n th = Some (m, sl, th')"
  shows "set (outstanding th') \<subseteq> set (outstanding th)"
proof -
  obtain j es ds where post: "round_post clock n th j th' es ds" using run_round_ok [OF assms(1), of clock n] assms(2) by auto
  have "queued th' = []" using post by (simp add: round_post_def queued_def TimerBucket_def)
  moreover have "set (tm_heap th') \<subseteq> set (outstanding th)"
    using post unfolding round_post_def outstanding_def
    by (metis mset_subset_eq_add_left set_mset_mono set_mset_mset add.assoc)
  ultimately show ?thesis by (simp add: outstanding_def)
qed

lemma timed_dated: "timed_reach (TimerControl mem slots buckets) sv D C \<Longrightarrow> dated D (outstanding (sv_thread sv))"
proof (induction rule: timed_reach.induct)
  case start
  then show ?case by (simp add: dated_def TimerControl_def TimerThread_def outstanding_def queued_def TimerBucket_def)
next
  case (add sv D C c k f tv d tid sv')
  obtain raw p th where acq: "arena_acquire_id c (sv_pool sv) = Some (raw, p)"
    and th: "control_add_timer k raw f (deadline tv d) (sv_thread sv) = (tid, th)" "sv' = sv\<lparr>sv_pool := p, sv_thread := th\<rparr>"
    using add(5) by (auto simp: add_timer_us_eq sv_add_def split: bind_splits prod.splits)
  have "raw + 2 * version_step \<le> 2 ^ 64" using add(4) acq by (simp add: version_room_def)
  moreover have "thread_ok (sv_thread sv)"
    using service_reach_inv(1) [OF timed_service [OF add(1)]] by (simp add: service_inv_def)
  ultimately show ?case using control_add_dated [OF th(1) _ _ add.IH] th(2) by simp
next
  case (cancel sv D C tid ret sv')
  have ok: "pending_ok x" if "x \<in> set (outstanding (sv_thread sv))" for x
    using service_reach_inv(1) [OF timed_service [OF cancel(1)]] that by (auto simp: service_inv_def thread_ok_def outstanding_def)
  have "timer_id (snd (cancel_timer (timer_id x) x)) = timer_id x \<and> run_time (snd (cancel_timer (timer_id x) x)) = run_time x"
    if "x \<in> set (outstanding (sv_thread sv))" for x
    using cancel_pending [OF ok [OF that]] by (cases "is_cancelled x") auto
  then show ?case using cancel(3) cancel.IH
    by (auto simp: sv_cancel_def dated_def map_timers_outstanding split: option.splits)
next
  case (round sv D C c clock n m sl th sv')
  have "thread_ok (sv_thread sv)"
    using service_reach_inv(1) [OF timed_service [OF round(1)]] by (simp add: service_inv_def)
  then have "set (outstanding th) \<subseteq> set (outstanding (sv_thread sv))" using round(3) by (rule round_outstanding)
  moreover have "sv_thread sv' = th" using round(3,5) by (auto simp: sv_round_def split: bind_splits)
  ultimately show ?case using dated_mset [OF round.IH] by simp
qed simp

text \<open>(C4) Timers that are added with a delay are called on time. In every state that calls of \<open>add_timer_us\<close> and \<open>cancel_timer\<close>, rounds
  of the timer thread and exits of threads reach, a round calls a timer only after it has read a clock that shows at least the
  deadline of the call that returned its id, and it calls every timer that waits uncancelled and whose deadline is not after
  any of its readings. The deadline is the reading of the clock at the call plus the delay, as long as this number of
  microseconds is one of nanoseconds in 64 bits.\<close>

theorem timers_on_time:
  assumes "timed_reach (TimerControl mem slots buckets) sv D C"
  shows "distinct (map fst D)
    \<and> (\<exists>m sl th es. run_round clock n (sv_thread sv) = Some (m, sl, th) \<and> called th = called (sv_thread sv) @ es
      \<and> (\<forall>tm \<in> set es. \<exists>t i. (timer_id tm, t) \<in> set D \<and> n \<le> i \<and> i < m \<and> t \<le> clock i)
      \<and> (\<forall>tid t. (tid, t) \<in> set D \<and> tid \<notin> set (released (sv_thread sv)) \<and> tid \<notin> set C \<and> (\<forall>i \<ge> n. t \<le> clock i)
          \<longrightarrow> tid \<in> set (ids_of es)))
    \<and> (\<forall>tv d. (gettimeofday_us tv + d) * 1000 < 2 ^ 64 \<longrightarrow> deadline tv d = gettimeofday_us tv + d)"
proof (intro conjI allI impI)
  let ?th = "sv_thread sv"
  note inv = service_reach_inv(1) [OF timed_service [OF assms]]
  have ok: "thread_ok ?th" using inv by (simp add: service_inv_def)
  have dated: "dated D (outstanding ?th)" by (rule timed_dated [OF assms])
  show dist: "distinct (map fst D)" using inv by (simp add: service_inv_def)
  obtain m sl th es ds where r: "run_round clock n ?th = Some (m, sl, th)" "called th = called ?th @ es"
      "mset (tm_heap ?th @ queued ?th) = mset (tm_heap th) + mset es + mset ds"
      "\<forall>tm \<in> set es. \<not> is_cancelled tm \<and> (\<exists>i. n \<le> i \<and> i < m \<and> run_time tm \<le> clock i)"
      "\<forall>tm \<in> set (tm_heap ?th @ queued ?th). \<not> is_cancelled tm \<longrightarrow> (\<forall>i \<ge> n. run_time tm \<le> clock i) \<longrightarrow> tm \<in> set es"
    using timer_round_ok [OF ok, of clock n] by metis
  have sub: "set es \<subseteq> set (outstanding ?th)"
    using r(3) unfolding outstanding_def by (metis mset_subset_eq_add_left mset_subset_eq_add_right set_mset_mono set_mset_mset subset_mset.trans)
  have "\<exists>t i. (timer_id tm, t) \<in> set D \<and> n \<le> i \<and> i < m \<and> t \<le> clock i" if "tm \<in> set es" for tm
    using that sub r(4) dated unfolding dated_def by blast
  moreover have "tid \<in> set (ids_of es)"
    if "(tid, t) \<in> set D" "tid \<notin> set (released ?th)" "tid \<notin> set C" "\<forall>i \<ge> n. t \<le> clock i" for tid t
  proof -
    have A: "set (map fst D) = set (released ?th) \<union> set (ids_of (outstanding ?th))"
      using inv unfolding service_inv_def by (metis set_mset_mset set_mset_union)
    have "tid \<in> set (map fst D)" using that(1) by force
    then have "tid \<in> set (ids_of (outstanding ?th))" using A that(2) by blast
    then obtain tm where tm: "tm \<in> set (outstanding ?th)" "timer_id tm = tid" by (auto simp: ids_of_def)
    have "run_time tm = t" using dated tm that(1) dist by (metis dated_def eq_key_imp_eq_value)
    moreover have "\<not> is_cancelled tm" using inv tm that(3) by (auto simp: service_inv_def)
    ultimately have "tm \<in> set es" using r(5) tm(1) that(4) by (simp add: outstanding_def)
    then show ?thesis using tm(2) by (auto simp: ids_of_def)
  qed
  ultimately show "\<exists>m sl th es. run_round clock n ?th = Some (m, sl, th) \<and> called th = called ?th @ es
      \<and> (\<forall>tm \<in> set es. \<exists>t i. (timer_id tm, t) \<in> set D \<and> n \<le> i \<and> i < m \<and> t \<le> clock i)
      \<and> (\<forall>tid t. (tid, t) \<in> set D \<and> tid \<notin> set (released ?th) \<and> tid \<notin> set C \<and> (\<forall>i \<ge> n. t \<le> clock i) \<longrightarrow> tid \<in> set (ids_of es))"
    using r(1,2) by blast
  show "deadline tv d = gettimeofday_us tv + d" if "(gettimeofday_us tv + d) * 1000 < 2 ^ 64" for tv d
    by (rule deadline_exact [OF that])
qed

theorem timers_on_time_witness:
  "\<exists>tid sv m sl th. add_timer_us 0 7 1 (1500000000, 0) 250 demo_service = Some (tid, sv)
    \<and> run_round (\<lambda>_. 1500000000000300) 0 (sv_thread sv) = Some (m, sl, th) \<and> tid \<in> set (ids_of (called th))"
proof -
  let ?t = "deadline (1500000000, 0) 250"
  obtain raw p where c: "0 < n_threads (sv_pool demo_service)" "arena_pool_room (sv_pool demo_service)" "version_room 0 demo_service"
    and acq: "arena_acquire_id 0 (sv_pool demo_service) = Some (raw, p)" "raw + 2 * version_step \<le> 2 ^ 64" by (rule demo_acquire)
  have "thread_ok (sv_thread demo_service)"
    using service_reach_inv(1) [OF service_reach.start, of "\<lambda>_. \<lparr>og_size = 7, og_items = (\<lambda>_. 0)\<rparr>" 2 4]
    by (simp add: service_inv_def demo_service_def)
  from control_add_ok [OF this acq(2)] obtain th where
    th: "control_add_timer 7 raw 1 ?t (sv_thread demo_service) = (raw + version_step, th)"
      "released th = released (sv_thread demo_service)" by metis
  let ?tid = "raw + version_step"
  define sv where "sv = demo_service\<lparr>sv_pool := p, sv_thread := th\<rparr>"
  have add: "add_timer_us 0 7 1 (1500000000, 0) 250 demo_service = Some (?tid, sv)"
    using acq(1) th(1) by (simp add: add_timer_us_eq sv_add_def sv_def)
  have reach: "timed_reach demo_service sv [(?tid, ?t)] []" by (rule timed_reach.add [OF timed_reach.start c add])
  note on_time = timers_on_time [OF reach [unfolded demo_service_def], where n = 0 and clock = "\<lambda>_. 1500000000000300"]
  have t: "?t = 1500000000000250"
    using on_time [THEN conjunct2, THEN conjunct2, rule_format, of "(1500000000, 0)" 250] by (simp add: gettimeofday_us_def u64_id)
  have new: "?tid \<notin> set (released (sv_thread sv))"
    using th(2) by (simp add: sv_def demo_service_def TimerControl_def TimerThread_def)
  obtain m sl th' es where r: "run_round (\<lambda>_. 1500000000000300) 0 (sv_thread sv) = Some (m, sl, th')"
    "called th' = called (sv_thread sv) @ es" and due: "\<forall>tid t. (tid, t) \<in> set [(?tid, ?t)] \<and> tid \<notin> set (released (sv_thread sv))
      \<and> tid \<notin> set [] \<and> (\<forall>i \<ge> 0 :: nat. t \<le> 1500000000000300) \<longrightarrow> tid \<in> set (ids_of es)"
    using on_time [THEN conjunct2, THEN conjunct1] by blast
  have "?tid \<in> set (ids_of es)" by (rule due [rule_format, of _ ?t]) (simp add: new t)
  then have "?tid \<in> set (ids_of (called th'))" by (simp add: r(2) ids_of_def)
  then show ?thesis using add r(1) by blast
qed

end
