(* ===== verification/Autovector.thy ===== *)
theory Autovector
  imports Prelude
begin

text \<open>
  \<open>autovector\<close> of \<^verbatim>\<open>autovector.h\<close>: a vector whose first \<open>kSize\<close> items live in an array inside the
  object and whose other items live in a \<^verbatim>\<open>std::vector\<close>, with its iterators. The template
  parameter \<open>kSize\<close> and the default value \<open>dflt\<close> of the element type are arguments. A failed
  assertion is \<^term>\<open>None\<close>.
\<close>

subsection \<open>The vector of the standard library\<close>

text \<open>\<open>grow c n\<close> is the capacity the library chooses when the capacity \<open>c\<close> is below \<open>n\<close>; the standard
  promises that it is at least \<open>n\<close>, which is the locale \<open>std_vector_growth\<close>.\<close>

record 'a std_vector =
  elems :: "'a list"
  capacity :: nat

type_synonym growth = "nat \<Rightarrow> nat \<Rightarrow> nat"

definition reserve :: "growth \<Rightarrow> nat \<Rightarrow> nat \<Rightarrow> nat" where
  "reserve grow c n = (if n \<le> c then c else grow c n)"

definition vec_set :: "growth \<Rightarrow> 'a list \<Rightarrow> 'a std_vector \<Rightarrow> 'a std_vector" where
  "vec_set grow xs v = \<lparr>elems = xs, capacity = reserve grow (capacity v) (length xs)\<rparr>"

definition vec_push_back :: "growth \<Rightarrow> 'a \<Rightarrow> 'a std_vector \<Rightarrow> 'a std_vector" where
  "vec_push_back grow x v = vec_set grow (elems v @ [x]) v"

definition vec_resize :: "growth \<Rightarrow> 'a \<Rightarrow> nat \<Rightarrow> 'a std_vector \<Rightarrow> 'a std_vector" where
  "vec_resize grow dflt n v = vec_set grow (take n (elems v) @ replicate (n - length (elems v)) dflt) v"

definition vec_pop_back :: "'a std_vector \<Rightarrow> 'a std_vector" where
  "vec_pop_back v = v\<lparr>elems := butlast (elems v)\<rparr>"

definition vec_clear :: "'a std_vector \<Rightarrow> 'a std_vector" where
  "vec_clear v = v\<lparr>elems := []\<rparr>"

subsection \<open>The class\<close>

record 'a autovector =
  num_stack_items :: nat
  av_values :: "'a list"
  vect :: "'a std_vector"

definition autovector :: "nat \<Rightarrow> 'a \<Rightarrow> 'a autovector" where
  "autovector kSize dflt =
     \<lparr>num_stack_items = 0, av_values = replicate kSize dflt, vect = \<lparr>elems = [], capacity = 0\<rparr>\<rparr>"

definition only_in_stack :: "'a autovector \<Rightarrow> bool" where
  "only_in_stack av = (capacity (vect av) = 0)"

definition av_size :: "'a autovector \<Rightarrow> nat" where
  "av_size av = num_stack_items av + length (elems (vect av))"

definition av_resize :: "growth \<Rightarrow> 'a \<Rightarrow> nat \<Rightarrow> nat \<Rightarrow> 'a autovector \<Rightarrow> 'a autovector" where
  "av_resize grow dflt kSize n av =
     (if kSize < n then av\<lparr>vect := vec_resize grow dflt (n - kSize) (vect av), num_stack_items := kSize\<rparr>
      else av\<lparr>vect := vec_clear (vect av), num_stack_items := n\<rparr>)"

definition av_empty :: "'a autovector \<Rightarrow> bool" where
  "av_empty av = (av_size av = 0)"

definition av_index :: "nat \<Rightarrow> nat \<Rightarrow> 'a autovector \<Rightarrow> 'a option" where
  "av_index kSize n av = do {
     check (n < av_size av);
     Some (if n < kSize then av_values av ! n else elems (vect av) ! (n - kSize))}"

definition av_at :: "nat \<Rightarrow> nat \<Rightarrow> 'a autovector \<Rightarrow> 'a option" where
  "av_at kSize n av = do {
     check (n < av_size av);
     av_index kSize n av}"

definition av_push_back :: "growth \<Rightarrow> nat \<Rightarrow> 'a \<Rightarrow> 'a autovector \<Rightarrow> 'a autovector" where
  "av_push_back grow kSize item av =
     (if num_stack_items av < kSize
      then av\<lparr>av_values := (av_values av)[num_stack_items av := item], num_stack_items := num_stack_items av + 1\<rparr>
      else av\<lparr>vect := vec_push_back grow item (vect av)\<rparr>)"

definition av_pop_back :: "'a autovector \<Rightarrow> 'a autovector option" where
  "av_pop_back av = do {
     check (\<not> av_empty av);
     Some (if elems (vect av) \<noteq> [] then av\<lparr>vect := vec_pop_back (vect av)\<rparr>
           else av\<lparr>num_stack_items := num_stack_items av - 1\<rparr>)}"

definition av_clear :: "'a autovector \<Rightarrow> 'a autovector" where
  "av_clear av = av\<lparr>num_stack_items := 0, vect := vec_clear (vect av)\<rparr>"

definition av_assign :: "growth \<Rightarrow> 'a autovector \<Rightarrow> 'a autovector \<Rightarrow> 'a autovector" where
  "av_assign grow other av =
     (let n = num_stack_items other in
      av\<lparr>vect := vec_set grow (elems (vect other)) (vect av), num_stack_items := n,
         av_values := take n (av_values other) @ drop n (av_values av)\<rparr>)"

subsection \<open>Iterators\<close>

text \<open>An iterator names its vector by an identity and holds an index of type \<open>size_t\<close>.\<close>

record av_iter =
  it_vect :: nat
  it_index :: nat

definition it_inc :: "av_iter \<Rightarrow> av_iter" where
  "it_inc it = it\<lparr>it_index := u64 (it_index it + 1)\<rparr>"

definition it_dec :: "av_iter \<Rightarrow> av_iter" where
  "it_dec it = it\<lparr>it_index := sub64 (it_index it) 1\<rparr>"

definition it_post_inc :: "av_iter \<Rightarrow> av_iter \<times> av_iter" where
  "it_post_inc it = (it, it_inc it)"

definition it_post_dec :: "av_iter \<Rightarrow> av_iter \<times> av_iter" where
  "it_post_dec it = (it, it_dec it)"

text \<open>Adding a \<open>difference_type\<close> converts it to \<open>size_t\<close>.\<close>

definition it_add :: "int \<Rightarrow> av_iter \<Rightarrow> av_iter" where
  "it_add len it = it\<lparr>it_index := nat ((int (it_index it) + len) mod 2 ^ 64)\<rparr>"

definition it_sub :: "int \<Rightarrow> av_iter \<Rightarrow> av_iter" where
  "it_sub len it = it\<lparr>it_index := nat ((int (it_index it) - len) mod 2 ^ 64)\<rparr>"

definition it_diff :: "av_iter \<Rightarrow> av_iter \<Rightarrow> int option" where
  "it_diff it other = do {
     check (it_vect it = it_vect other);
     Some (s64 (sub64 (it_index it) (it_index other)))}"

definition it_cmp :: "(nat \<Rightarrow> nat \<Rightarrow> bool) \<Rightarrow> av_iter \<Rightarrow> av_iter \<Rightarrow> bool option" where
  "it_cmp f it other = do {
     check (it_vect it = it_vect other);
     Some (f (it_index it) (it_index other))}"

definition it_deref :: "nat \<Rightarrow> 'a autovector \<Rightarrow> av_iter \<Rightarrow> 'a option" where
  "it_deref kSize av it = do {
     check (av_size av \<ge> it_index it);
     av_index kSize (it_index it) av}"

definition av_begin :: "nat \<Rightarrow> av_iter" where
  "av_begin self = \<lparr>it_vect = self, it_index = 0\<rparr>"

definition av_end :: "nat \<Rightarrow> 'a autovector \<Rightarrow> av_iter" where
  "av_end self av = \<lparr>it_vect = self, it_index = av_size av\<rparr>"

definition av_front :: "nat \<Rightarrow> nat \<Rightarrow> 'a autovector \<Rightarrow> 'a option" where
  "av_front kSize self av = do {
     check (\<not> av_empty av);
     it_deref kSize av (av_begin self)}"

definition av_back :: "nat \<Rightarrow> nat \<Rightarrow> 'a autovector \<Rightarrow> 'a option" where
  "av_back kSize self av = do {
     check (\<not> av_empty av);
     it_deref kSize av (it_sub 1 (av_end self av))}"

text \<open>The loops \<open>for (it = first; it != last; ++it)\<close> and the same over \<open>std::reverse_iterator\<close>, whose
  dereference is that of the decremented base; \<open>fuel\<close> bounds the number of iterations.\<close>

fun iterate :: "nat \<Rightarrow> nat \<Rightarrow> 'a autovector \<Rightarrow> av_iter \<Rightarrow> av_iter \<Rightarrow> 'a list option" where
  "iterate 0 kSize av first stop = None"
| "iterate (Suc fuel) kSize av first stop = do {
     same \<leftarrow> it_cmp (=) first stop;
     if same then Some []
     else do {
       x \<leftarrow> it_deref kSize av first;
       xs \<leftarrow> iterate fuel kSize av (it_inc first) stop;
       Some (x # xs)}}"

fun reverse_iterate :: "nat \<Rightarrow> nat \<Rightarrow> 'a autovector \<Rightarrow> av_iter \<Rightarrow> av_iter \<Rightarrow> 'a list option" where
  "reverse_iterate 0 kSize av rfirst rlast = None"
| "reverse_iterate (Suc fuel) kSize av rfirst rlast = do {
     same \<leftarrow> it_cmp (=) rfirst rlast;
     if same then Some []
     else do {
       x \<leftarrow> it_deref kSize av (it_dec rfirst);
       xs \<leftarrow> reverse_iterate fuel kSize av (it_dec rfirst) rlast;
       Some (x # xs)}}"

subsection \<open>Invariant and abstraction\<close>

definition av_ok :: "nat \<Rightarrow> 'a autovector \<Rightarrow> bool" where
  "av_ok kSize av = (length (av_values av) = kSize \<and> num_stack_items av \<le> kSize
     \<and> (elems (vect av) \<noteq> [] \<longrightarrow> num_stack_items av = kSize)
     \<and> length (elems (vect av)) \<le> capacity (vect av))"

definition av_abs :: "'a autovector \<Rightarrow> 'a list" where
  "av_abs av = take (num_stack_items av) (av_values av) @ elems (vect av)"

lemma av_new: "av_ok kSize (autovector kSize dflt)" "av_abs (autovector kSize dflt) = []"
  by (simp_all add: av_ok_def av_abs_def autovector_def)

lemma av_size_abs: "av_ok kSize av \<Longrightarrow> av_size av = length (av_abs av)"
  by (auto simp: av_ok_def av_size_def av_abs_def)

lemma av_index_abs:
  assumes "av_ok kSize av"
  shows "av_index kSize n av = (if n < length (av_abs av) then Some (av_abs av ! n) else None)"
proof -
  have "(if n < kSize then av_values av ! n else elems (vect av) ! (n - kSize)) = av_abs av ! n"
    if "n < length (av_abs av)"
    using assms that unfolding av_ok_def av_abs_def
    by (cases "elems (vect av) = []") (auto simp: nth_append)
  then show ?thesis using av_size_abs [OF assms] by (simp add: av_index_def check_def)
qed

lemma av_pop_ok:
  assumes "av_ok kSize av" "av_abs av \<noteq> []"
  shows "\<exists>av'. av_pop_back av = Some av' \<and> av_ok kSize av' \<and> av_abs av' = butlast (av_abs av)"
proof (cases "elems (vect av) = []")
  case True
  then have "take (num_stack_items av - 1) (av_values av) = butlast (take (num_stack_items av) (av_values av))"
    using assms(1) by (simp add: av_ok_def butlast_take)
  then show ?thesis using assms True
    by (auto simp: av_pop_back_def av_empty_def av_size_abs [OF assms(1)] av_ok_def av_abs_def)
next
  case False
  then show ?thesis using assms
    by (auto simp: av_pop_back_def av_empty_def av_size_def vec_pop_back_def av_ok_def av_abs_def
        butlast_append)
qed

lemma av_clear_ok: "av_ok kSize av \<Longrightarrow> av_ok kSize (av_clear av) \<and> av_abs (av_clear av) = []"
  by (simp add: av_clear_def av_ok_def av_abs_def vec_clear_def)

subsection \<open>Growing\<close>

locale std_vector_growth =
  fixes grow :: growth
  assumes grow_enough: "n \<le> grow c n"
begin

lemma reserve_ge: "n \<le> reserve grow c n"
  by (simp add: reserve_def grow_enough)

lemma push_ok:
  assumes "av_ok kSize av"
  shows "av_ok kSize (av_push_back grow kSize x av) \<and> av_abs (av_push_back grow kSize x av) = av_abs av @ [x]"
proof (cases "num_stack_items av < kSize")
  case True
  then show ?thesis using assms
    by (auto simp: av_push_back_def av_ok_def av_abs_def take_Suc_conv_app_nth)
next
  case False
  then show ?thesis using assms reserve_ge
    by (auto simp: av_push_back_def av_ok_def av_abs_def vec_push_back_def vec_set_def)
qed

lemma assign_ok:
  assumes "av_ok kSize av" "av_ok kSize other"
  shows "av_ok kSize (av_assign grow other av) \<and> av_abs (av_assign grow other av) = av_abs other"
  using assms reserve_ge by (auto simp: av_assign_def av_ok_def av_abs_def vec_set_def Let_def)

lemma resize_ok:
  assumes "av_ok kSize av"
  shows "av_ok kSize (av_resize grow dflt kSize n av) \<and> length (av_abs (av_resize grow dflt kSize n av)) = n
    \<and> take n (av_abs av) = take (length (av_abs av)) (av_abs (av_resize grow dflt kSize n av))"
proof (cases "kSize < n")
  case True
  let ?es = "take (n - kSize) (elems (vect av)) @ replicate (n - kSize - length (elems (vect av))) dflt"
  have "length ?es = n - kSize" by simp
  then have ok: "av_ok kSize (av_resize grow dflt kSize n av)"
    using assms True reserve_ge [of "n - kSize"]
    by (simp add: av_resize_def av_ok_def vec_resize_def vec_set_def)
  have abs: "av_abs (av_resize grow dflt kSize n av) = av_values av @ ?es"
    using True assms by (simp add: av_resize_def av_abs_def vec_resize_def vec_set_def av_ok_def)
  have "take (length (elems (vect av))) ?es = take (n - kSize) (elems (vect av))"
    by (cases "n - kSize \<le> length (elems (vect av))") auto
  then have "take n (av_abs av) = take (length (av_abs av)) (av_values av @ ?es)"
    using assms True unfolding av_ok_def av_abs_def
    by (cases "elems (vect av) = []") (simp_all add: take_append)
  then show ?thesis using ok abs True assms by (simp add: av_ok_def)
next
  case False
  have "take n (av_abs av) = take (length (av_abs av)) (take n (av_values av))"
    using assms False unfolding av_ok_def av_abs_def
    by (cases "elems (vect av) = []") (auto simp: take_append min_def)
  then show ?thesis using False assms
    by (auto simp: av_resize_def av_ok_def av_abs_def vec_clear_def)
qed

end

subsection \<open>Sequences of operations\<close>

datatype 'a av_op = APush 'a | APop | AClear | AResize nat | AAssign "'a autovector"

fun av_do :: "growth \<Rightarrow> 'a \<Rightarrow> nat \<Rightarrow> 'a av_op \<Rightarrow> 'a autovector \<Rightarrow> 'a autovector option" where
  "av_do grow dflt kSize (APush x) av = Some (av_push_back grow kSize x av)"
| "av_do grow dflt kSize APop av = av_pop_back av"
| "av_do grow dflt kSize AClear av = Some (av_clear av)"
| "av_do grow dflt kSize (AResize n) av = Some (av_resize grow dflt kSize n av)"
| "av_do grow dflt kSize (AAssign other) av = Some (av_assign grow other av)"

fun av_run :: "growth \<Rightarrow> 'a \<Rightarrow> nat \<Rightarrow> 'a av_op list \<Rightarrow> 'a autovector \<Rightarrow> 'a autovector option" where
  "av_run grow dflt kSize [] av = Some av"
| "av_run grow dflt kSize (op # ops) av = do {
     av1 \<leftarrow> av_do grow dflt kSize op av;
     av_run grow dflt kSize ops av1}"

text \<open>The same operations on a list; \<open>resize\<close> keeps what fits and leaves the new items open.\<close>

fun seq_op :: "'a av_op \<Rightarrow> 'a list \<Rightarrow> 'a list \<Rightarrow> bool" where
  "seq_op (APush x) xs ys = (ys = xs @ [x])"
| "seq_op APop xs ys = (xs \<noteq> [] \<and> ys = butlast xs)"
| "seq_op AClear xs ys = (ys = [])"
| "seq_op (AResize n) xs ys = (length ys = n \<and> take n xs = take (length xs) ys)"
| "seq_op (AAssign other) xs ys = (ys = av_abs other)"

fun seq_ops :: "'a av_op list \<Rightarrow> 'a list \<Rightarrow> 'a list \<Rightarrow> bool" where
  "seq_ops [] xs ys = (ys = xs)"
| "seq_ops (op # ops) xs ys = (\<exists>zs. seq_op op xs zs \<and> seq_ops ops zs ys)"

text \<open>Which sequences a caller may perform on a vector of \<open>n\<close> items.\<close>

fun av_can :: "nat \<Rightarrow> 'a av_op list \<Rightarrow> nat \<Rightarrow> bool" where
  "av_can kSize [] n = True"
| "av_can kSize (APush x # ops) n = av_can kSize ops (n + 1)"
| "av_can kSize (APop # ops) n = (0 < n \<and> av_can kSize ops (n - 1))"
| "av_can kSize (AClear # ops) n = av_can kSize ops 0"
| "av_can kSize (AResize k # ops) n = av_can kSize ops k"
| "av_can kSize (AAssign other # ops) n = (av_ok kSize other \<and> av_can kSize ops (av_size other))"

context std_vector_growth
begin

lemma do_ok:
  assumes "av_ok kSize av" "av_can kSize (op # ops) (length (av_abs av))"
  shows "\<exists>av'. av_do grow dflt kSize op av = Some av' \<and> av_ok kSize av' \<and> seq_op op (av_abs av) (av_abs av')
    \<and> av_can kSize ops (length (av_abs av'))"
proof (cases op)
  case (APush x)
  then show ?thesis using assms push_ok [OF assms(1), of x] by simp
next
  case APop
  then have "av_abs av \<noteq> []" using assms(2) by auto
  from av_pop_ok [OF assms(1) this] show ?thesis using assms(2) APop by auto
next
  case AClear
  then show ?thesis using assms(2) av_clear_ok [OF assms(1)] by simp
next
  case (AResize n)
  then show ?thesis using assms(2) resize_ok [OF assms(1), of dflt n] by simp
next
  case (AAssign other)
  then show ?thesis using assms av_size_abs [of kSize other] assign_ok [OF assms(1), of other] by simp
qed

lemma run_ok:
  "av_ok kSize av \<Longrightarrow> av_can kSize ops (length (av_abs av)) \<Longrightarrow>
   \<exists>av'. av_run grow dflt kSize ops av = Some av' \<and> av_ok kSize av' \<and> seq_ops ops (av_abs av) (av_abs av')"
proof (induction ops arbitrary: av)
  case Nil
  then show ?case by simp
next
  case (Cons op ops)
  from do_ok [OF Cons.prems, of dflt] obtain av1 where 1: "av_do grow dflt kSize op av = Some av1"
    "av_ok kSize av1" "seq_op op (av_abs av) (av_abs av1)" "av_can kSize ops (length (av_abs av1))" by blast
  from Cons.IH [OF 1(2,4)] 1(1,3) show ?case by auto
qed

end

text \<open>The growth of the usual implementations: at least twice the old capacity.\<close>

definition double :: growth where
  "double c n = max n (2 * c)"

interpretation dv: std_vector_growth double
  by unfold_locales (simp add: double_def)

text \<open>(C19) Any sequence of \<open>push_back\<close>, \<open>pop_back\<close> (of a non-empty vector), \<open>clear\<close>, \<open>resize\<close> and
  \<open>assign\<close> on an \<open>autovector\<close> of any inline size and any growth policy runs without a failed
  assertion and gives what the same operations give on a list: \<open>size\<close> is its length, \<open>at\<close> reads
  each position and fails behind the end, and \<open>only_in_stack\<close> is true only if no item is outside
  the inline array.\<close>

theorem autovector_refines_list:
  assumes "\<And>c n. n \<le> grow c n" "av_can kSize ops 0"
  shows "\<exists>av. av_run grow dflt kSize ops (autovector kSize dflt) = Some av \<and> seq_ops ops [] (av_abs av)
    \<and> av_size av = length (av_abs av) \<and> av_empty av = (av_abs av = [])
    \<and> (\<forall>i. av_at kSize i av = (if i < length (av_abs av) then Some (av_abs av ! i) else None))
    \<and> (only_in_stack av \<longrightarrow> length (av_abs av) \<le> kSize \<and> elems (vect av) = [])"
proof -
  have "std_vector_growth grow" by unfold_locales (rule assms(1))
  then obtain av where av: "av_run grow dflt kSize ops (autovector kSize dflt) = Some av" "av_ok kSize av"
    "seq_ops ops [] (av_abs av)"
    using std_vector_growth.run_ok [of grow kSize "autovector kSize dflt" ops dflt] av_new [of kSize dflt] assms(2)
    by auto
  have "av_at kSize i av = (if i < length (av_abs av) then Some (av_abs av ! i) else None)" for i
    using av_size_abs [OF av(2)] by (simp add: av_at_def av_index_abs [OF av(2)] check_def)
  moreover have "length (av_abs av) \<le> kSize \<and> elems (vect av) = []" if "only_in_stack av"
    using that av(2) by (simp add: only_in_stack_def av_ok_def av_abs_def)
  ultimately show ?thesis using av av_size_abs [OF av(2)] by (auto simp: av_empty_def)
qed

theorem autovector_refines_list_witness:
  "\<exists>av. av_run double 0 2 [APush (5 :: nat), APush 6, APush 7, APop, APush 8, AResize 2] (autovector 2 0) = Some av
    \<and> av_abs av = [5, 6]"
proof -
  have "n \<le> double c n" for c n by (simp add: double_def)
  from autovector_refines_list [where grow = double and kSize = 2 and dflt = 0
      and ops = "[APush (5 :: nat), APush 6, APush 7, APop, APush 8, AResize 2]", OF this]
  show ?thesis by auto
qed

lemma iterate_from:
  assumes ok: "av_ok kSize av" and small: "length (av_abs av) < 2 ^ 64"
  shows "i + k = length (av_abs av) \<Longrightarrow> k < fuel \<Longrightarrow>
    iterate fuel kSize av \<lparr>it_vect = self, it_index = i\<rparr> (av_end self av) = Some (drop i (av_abs av))"
proof (induction k arbitrary: i fuel)
  case 0
  then show ?case using ok by (cases fuel) (auto simp: it_cmp_def av_end_def av_size_abs)
next
  case (Suc k)
  then obtain f where f: "fuel = Suc f" "k < f" by (cases fuel) auto
  have "u64 (i + 1) = i + 1" using Suc.prems small by (simp add: u64_def)
  moreover have "drop i (av_abs av) = av_abs av ! i # drop (Suc i) (av_abs av)"
    using Suc.prems by (simp add: Cons_nth_drop_Suc)
  ultimately show ?case using Suc.IH [of "Suc i" f] Suc.prems f ok
    by (auto simp: it_cmp_def av_end_def av_size_abs it_deref_def av_index_abs it_inc_def)
qed

lemma reverse_iterate_from:
  assumes ok: "av_ok kSize av" and small: "length (av_abs av) < 2 ^ 64"
  shows "i \<le> length (av_abs av) \<Longrightarrow> i < fuel \<Longrightarrow>
    reverse_iterate fuel kSize av \<lparr>it_vect = self, it_index = i\<rparr> (av_begin self) = Some (rev (take i (av_abs av)))"
proof (induction i arbitrary: fuel)
  case 0
  then show ?case by (cases fuel) (auto simp: it_cmp_def av_begin_def)
next
  case (Suc i)
  then obtain f where f: "fuel = Suc f" "i < f" by (cases fuel) auto
  have "sub64 (Suc i) 1 = i" using Suc.prems small sub64_id [of 1 "Suc i"] by simp
  moreover have "take (Suc i) (av_abs av) = take i (av_abs av) @ [av_abs av ! i]"
    using Suc.prems by (simp add: take_Suc_conv_app_nth)
  ultimately show ?case using Suc.IH [of f] Suc.prems f ok
    by (auto simp: it_cmp_def av_begin_def av_size_abs it_deref_def av_index_abs it_dec_def)
qed

text \<open>The loops over the iterators end: forwards from \<open>begin()\<close> to \<open>end()\<close> they visit the items
  in order, backwards from \<open>rbegin()\<close> to \<open>rend()\<close> in reverse order; \<open>front()\<close> and \<open>back()\<close> are the
  first and the last item and fail on an empty vector; \<open>end() - begin()\<close> is the size.\<close>

theorem autovector_iteration:
  assumes "av_ok kSize av" "length (av_abs av) < 2 ^ 63" "length (av_abs av) < fuel"
  shows "iterate fuel kSize av (av_begin self) (av_end self av) = Some (av_abs av)
    \<and> reverse_iterate fuel kSize av (av_end self av) (av_begin self) = Some (rev (av_abs av))
    \<and> av_front kSize self av = (if av_abs av = [] then None else Some (hd (av_abs av)))
    \<and> av_back kSize self av = (if av_abs av = [] then None else Some (last (av_abs av)))
    \<and> it_diff (av_end self av) (av_begin self) = Some (int (length (av_abs av)))"
proof (intro conjI)
  have small: "length (av_abs av) < 2 ^ 64" using assms(2) by simp
  note size = av_size_abs [OF assms(1)]
  show "iterate fuel kSize av (av_begin self) (av_end self av) = Some (av_abs av)"
    using iterate_from [OF assms(1) small, of 0 "length (av_abs av)" fuel self] assms(3)
    by (simp add: av_begin_def)
  show "reverse_iterate fuel kSize av (av_end self av) (av_begin self) = Some (rev (av_abs av))"
    using reverse_iterate_from [OF assms(1) small, of "length (av_abs av)" fuel self] assms(3)
    by (simp add: av_end_def size)
  show "av_front kSize self av = (if av_abs av = [] then None else Some (hd (av_abs av)))"
    by (simp add: av_front_def av_empty_def size it_deref_def av_begin_def av_index_abs [OF assms(1)]
        hd_conv_nth check_def)
  have i: "nat ((int (length (av_abs av)) - 1) mod 18446744073709551616) = length (av_abs av) - 1"
    if "av_abs av \<noteq> []"
  proof -
    have "(int (length (av_abs av)) - 1) mod 2 ^ 64 = int (length (av_abs av)) - 1"
      using that small by (intro mod_pos_pos_trivial) (cases "av_abs av"; simp)+
    then show ?thesis by simp
  qed
  show "av_back kSize self av = (if av_abs av = [] then None else Some (last (av_abs av)))"
    using i by (simp add: av_back_def av_empty_def size it_deref_def av_end_def it_sub_def
        av_index_abs [OF assms(1)] last_conv_nth check_def)
  show "it_diff (av_end self av) (av_begin self) = Some (int (length (av_abs av)))"
    using assms(2) by (simp add: it_diff_def av_end_def av_begin_def size wrap_simps)
qed

theorem autovector_iteration_witness:
  "iterate 9 1 \<lparr>num_stack_items = 1, av_values = [4 :: nat], vect = \<lparr>elems = [5, 6], capacity = 2\<rparr>\<rparr> (av_begin 3)
     (av_end 3 \<lparr>num_stack_items = 1, av_values = [4 :: nat], vect = \<lparr>elems = [5, 6], capacity = 2\<rparr>\<rparr>) = Some [4, 5, 6]"
  using autovector_iteration [of 1 "\<lparr>num_stack_items = 1, av_values = [4 :: nat], vect = \<lparr>elems = [5, 6], capacity = 2\<rparr>\<rparr>" 9 3]
  by (simp add: av_ok_def av_abs_def)

end
