(* ===== verification/Rand.thy ===== *)
theory Rand
  imports Prelude
begin

text \<open>
  The random generator of \<^verbatim>\<open>src/rand.cpp\<close> (xoroshiro128+), on 64-bit words: one step, the jump
  function, and \<open>fast_rand(rand_max)\<close> with its rejection loop. The seed is an argument: the
  constructor takes it from the standard library.
\<close>

subsection \<open>The generator\<close>

definition rotl :: "64 word \<Rightarrow> nat \<Rightarrow> 64 word" where
  "rotl x k = push_bit k x OR drop_bit (64 - k) x"

text \<open>The state \<open>s[0]\<close>, \<open>s[1]\<close>.\<close>

type_synonym rand_state = "64 word \<times> 64 word"

text \<open>The constructor stores two outputs of \<^verbatim>\<open>mt19937\<close>, which have 32 bits.\<close>

definition FastRand :: "32 word \<Rightarrow> 32 word \<Rightarrow> rand_state" where
  "FastRand a b = (ucast a, ucast b)"

definition rand_next :: "rand_state \<Rightarrow> 64 word \<times> rand_state" where
  "rand_next s = (let (s0, s1) = s; res = s0 + s1; s1 = s1 XOR s0
     in (res, (rotl s0 55 XOR s1 XOR push_bit 14 s1, rotl s1 36)))"

definition JUMP :: "64 word list" where
  "JUMP = [0xbeac0467eba5facb, 0xd86b048b86aa9922]"

text \<open>The inner loop over the bits of a word from bit \<open>b\<close> on, then the loop over the words; the
  accumulator is the pair of the local variables \<open>s0\<close> and \<open>s1\<close>.\<close>

function jump_bits :: "64 word \<Rightarrow> nat \<Rightarrow> rand_state \<Rightarrow> rand_state \<Rightarrow> rand_state \<times> rand_state" where
  "jump_bits w b acc s =
     (if b < 64 then
        let acc1 = (if w AND push_bit b 1 \<noteq> 0 then (fst acc XOR fst s, snd acc XOR snd s) else acc)
        in jump_bits w (b + 1) acc1 (snd (rand_next s))
      else (acc, s))"
  by pat_completeness auto
termination
  by (relation "measure (\<lambda>(w, b, acc, s). 64 - b)") auto

declare jump_bits.simps [simp del]

fun jump_words :: "64 word list \<Rightarrow> rand_state \<Rightarrow> rand_state \<Rightarrow> rand_state \<times> rand_state" where
  "jump_words [] acc s = (acc, s)"
| "jump_words (w # ws) acc s = (let (acc1, s1) = jump_bits w 0 acc s in jump_words ws acc1 s1)"

definition jump :: "rand_state \<Rightarrow> rand_state" where
  "jump s = fst (jump_words JUMP (0, 0) s)"

text \<open>\<open>fast_rand(rand_max)\<close>; a loop that never accepts an output is \<^term>\<open>None\<close>.\<close>

definition uint64_max :: nat where
  "uint64_max = 2 ^ 64 - 1"

partial_function (option) fast_rand_loop :: "nat \<Rightarrow> nat \<Rightarrow> rand_state \<Rightarrow> (nat \<times> rand_state) option" where
  "fast_rand_loop rng rand_max s =
     (let (r, s1) = rand_next s; ret = unat r div rng
      in if ret \<ge> rand_max then fast_rand_loop rng rand_max s1 else Some (ret, s1))"

definition fast_rand :: "nat \<Rightarrow> rand_state \<Rightarrow> (nat \<times> rand_state) option" where
  "fast_rand rand_max s =
     (if rand_max \<noteq> 0 then fast_rand_loop (uint64_max div rand_max) rand_max s else Some (0, s))"

subsection \<open>The step is linear and invertible\<close>

definition step :: "rand_state \<Rightarrow> rand_state" where
  "step s = snd (rand_next s)"

definition xor2 :: "rand_state \<Rightarrow> rand_state \<Rightarrow> rand_state" where
  "xor2 a b = (fst a XOR fst b, snd a XOR snd b)"

text \<open>The constructor does not rule out the state zero, which the generator never leaves.\<close>

lemma zero_seed: "FastRand 0 0 = (0, 0)" "rand_next (0, 0) = (0, (0, 0))"
  by (simp_all add: FastRand_def rand_next_def rotl_def)

lemma xor2_0 [simp]: "xor2 (0, 0) a = a" "xor2 a (0, 0) = a"
  by (simp_all add: xor2_def)

lemma xor2_ac: "xor2 a b = xor2 b a" "xor2 (xor2 a b) c = xor2 a (xor2 b c)" "xor2 b (xor2 a c) = xor2 a (xor2 b c)"
  by (simp_all add: xor2_def ac_simps)

lemma bit_rotl: "k < 64 \<Longrightarrow> n < 64 \<Longrightarrow> bit (rotl x k) n = (if n < k then bit x (64 - k + n) else bit x (n - k))"
  by (auto simp: rotl_def bit_simps dest: bit_imp_le_length)

lemma rotl_xor: "rotl (x XOR y) k = rotl x k XOR rotl y k" if "k < 64"
  by (rule bit_word_eqI) (auto simp: bit_rotl that bit_simps)

lemma rotl_rotl: "rotl (rotl x k) (64 - k) = x" if "0 < k" "k < 64"
  by (rule bit_word_eqI) (use that in \<open>auto simp: bit_rotl\<close>)

lemma step_eq: "step (a, b) = (rotl a 55 XOR (b XOR a) XOR push_bit 14 (b XOR a), rotl (b XOR a) 36)"
  by (simp add: step_def rand_next_def Let_def)

lemma xor_undo: "(p XOR t XOR q) XOR t XOR q = p" "(p XOR t) XOR t = p" for p t q :: "64 word"
  by (rule bit_word_eqI, auto simp: bit_simps)+

lemma step_linear: "step (xor2 s t) = xor2 (step s) (step t)"
  by (cases s, cases t) (simp add: step_eq xor2_def rotl_xor push_bit_xor ac_simps)

definition unstep :: "rand_state \<Rightarrow> rand_state" where
  "unstep s = (let t = rotl (snd s) 28; a = rotl (fst s XOR t XOR push_bit 14 t) 9 in (a, t XOR a))"

lemma unstep_step: "unstep (step s) = s"
proof (cases s)
  case (Pair a b)
  have r: "rotl (rotl x 36) 28 = x" "rotl (rotl x 55) 9 = x" for x
    using rotl_rotl [of 36 x] rotl_rotl [of 55 x] by simp_all
  show ?thesis by (simp only: Pair step_eq unstep_def Let_def fst_conv snd_conv r xor_undo)
qed

lemma step_unstep: "step (unstep s) = s"
proof (cases s)
  case (Pair a b)
  have r: "rotl (rotl x 28) 36 = x" "rotl (rotl x 9) 55 = x" for x
    using rotl_rotl [of 28 x] rotl_rotl [of 9 x] by simp_all
  show ?thesis by (simp only: Pair unstep_def Let_def step_eq fst_conv snd_conv r xor_undo)
qed

subsection \<open>Jumping\<close>

definition xsum :: "rand_state list \<Rightarrow> rand_state" where
  "xsum xs = foldr xor2 xs (0, 0)"

lemma xsum_simps [simp]: "xsum [] = (0, 0)" "xsum (x # xs) = xor2 x (xsum xs)"
  by (simp_all add: xsum_def)

lemma xsum_append: "xsum (xs @ ys) = xor2 (xsum xs) (xsum ys)"
  by (induction xs) (simp_all add: xor2_ac)

lemma step_0 [simp]: "step (0, 0) = (0, 0)"
  by (simp add: step_eq rotl_def)

lemma step_xsum: "step (xsum xs) = xsum (map step xs)"
  by (induction xs) (simp_all add: step_linear)

text \<open>The states \<open>next\<close> reaches at the positions of the set bits of a word.\<close>

definition picked :: "64 word \<Rightarrow> nat \<Rightarrow> rand_state \<Rightarrow> rand_state list" where
  "picked w b s = map (\<lambda>i. (step ^^ (i - b)) s) (filter (bit w) [b..<64])"

lemma picked_rec:
  assumes "b < 64"
  shows "picked w b s = (if bit w b then [s] else []) @ picked w (Suc b) (step s)"
proof -
  have "(step ^^ (i - b)) s = (step ^^ (i - Suc b)) (step s)" if "i \<in> set (filter (bit w) [Suc b..<64])" for i
  proof -
    have "i - b = Suc (i - Suc b)" using that by auto
    then show ?thesis by (simp add: funpow_swap1)
  qed
  then have "map (\<lambda>i. (step ^^ (i - b)) s) (filter (bit w) [Suc b..<64]) = picked w (Suc b) (step s)"
    unfolding picked_def by (rule map_cong [OF refl])
  then show ?thesis using assms by (simp add: picked_def upt_conv_Cons)
qed

lemma jump_bits_eq:
  "b \<le> 64 \<Longrightarrow> jump_bits w b acc s = (xor2 acc (xsum (picked w b s)), (step ^^ (64 - b)) s)"
proof (induction "64 - b" arbitrary: b acc s)
  case 0
  then show ?case by (subst jump_bits.simps) (simp add: picked_def)
next
  case (Suc k)
  then have b: "b < 64" "k = 64 - Suc b" by simp_all
  have t: "(w AND push_bit b 1 \<noteq> 0) = bit w b" by (simp add: bit_iff_and_push_bit_not_eq_0)
  then have t': "(w AND 2 ^ b = 0) = (\<not> bit w b)" by auto
  have "(step ^^ (64 - b)) s = (step ^^ (64 - Suc b)) (step s)"
    using b Suc_diff_Suc [OF b(1)] by (metis funpow_Suc_right comp_apply)
  moreover note Suc.hyps(1) [OF b(2), of _ "step s"] picked_rec [OF b(1), of w s]
  ultimately show ?case using b(1)
    by (subst jump_bits.simps) (simp add: t t' Let_def xor2_def [symmetric] xor2_ac step_def [symmetric])
qed

text \<open>What \<open>jump\<close> computes: the sum over the field of two elements of the states \<open>next\<close> reaches at the
  positions of the set bits of the 128-bit constant.\<close>

definition jump_poly :: "rand_state \<Rightarrow> rand_state" where
  "jump_poly s = xsum (map (\<lambda>i. (step ^^ i) s) (filter (\<lambda>i. bit (JUMP ! (i div 64)) (i mod 64)) [0..<128]))"

lemma jump_split: "jump s = xor2 (xsum (picked (JUMP ! 0) 0 s)) (xsum (picked (JUMP ! 1) 0 ((step ^^ 64) s)))"
  by (simp add: jump_def JUMP_def jump_bits_eq)

lemma jump_eq_poly: "jump s = jump_poly s"
proof -
  let ?f = "\<lambda>i. (step ^^ i) s" and ?P = "\<lambda>i. bit (JUMP ! (i div 64)) (i mod 64)"
  have u: "[0..<128] = [0..<64] @ map (\<lambda>i. i + 64) [0..<64]"
    using upt_add_eq_append [of 0 64 64] map_add_upt [of 64 64] by simp
  have lo: "filter ?P [0..<64] = filter (bit (JUMP ! 0)) [0..<64]" by (rule filter_cong) simp_all
  have "(?P \<circ> (\<lambda>i. i + 64)) i = bit (JUMP ! 1) i" if "i \<in> set [0..<64]" for i
  proof -
    have "(i + 64) div 64 = 1" "(i + 64) mod 64 = i" using that by (simp_all add: div_add_self2)
    then show ?thesis by simp
  qed
  then have hi: "filter ?P (map (\<lambda>i. i + 64) [0..<64]) = map (\<lambda>i. i + 64) (filter (bit (JUMP ! 1)) [0..<64])"
    unfolding filter_map by (metis (no_types, lifting) filter_cong)
  have sh: "map ?f (map (\<lambda>i. i + 64) xs) = map (\<lambda>i. (step ^^ i) ((step ^^ 64) s)) xs" for xs
    by (simp add: funpow_add del: funpow.simps)
  show ?thesis
    unfolding jump_split jump_poly_def u filter_append map_append lo hi xsum_append picked_def sh by simp
qed

text \<open>The jump function is the linear combination of iterates of \<open>next\<close> that its constant
  describes, and it commutes with \<open>next\<close>: a generator that is advanced and then jumped is in the
  same state as one that is jumped and then advanced, so jumped generators run through the same
  sequence. \<open>next\<close> is a bijection of the states and keeps a nonzero state nonzero.\<close>

theorem jump_is_polynomial:
  "jump s = jump_poly s \<and> jump (step s) = step (jump s) \<and> bij step \<and> (step s = (0, 0) \<longleftrightarrow> s = (0, 0))"
proof (intro conjI)
  show "jump s = jump_poly s" by (rule jump_eq_poly)
  show "jump (step s) = step (jump s)"
    unfolding jump_eq_poly jump_poly_def step_xsum by (simp add: comp_def funpow_swap1)
  show "bij step" by (rule o_bij [of unstep]) (auto simp: unstep_step step_unstep)
  show "step s = (0, 0) \<longleftrightarrow> s = (0, 0)" using unstep_step [of s] unstep_step [of "(0, 0)"] by auto
qed

subsection \<open>Numbers below a bound\<close>

text \<open>The \<open>n\<close>-th output of the generator is accepted.\<close>

definition nth_output :: "rand_state \<Rightarrow> nat \<Rightarrow> nat" where
  "nth_output s n = unat (fst (rand_next ((step ^^ n) s)))"

lemma fast_rand_loop_first:
  "nth_output s n div rng < m \<Longrightarrow> (\<And>k. k < n \<Longrightarrow> m \<le> nth_output s k div rng) \<Longrightarrow>
   fast_rand_loop rng m s = Some (nth_output s n div rng, (step ^^ Suc n) s)"
proof (induction n arbitrary: s)
  case 0
  then show ?case by (subst fast_rand_loop.simps) (simp add: nth_output_def case_prod_beta' Let_def step_def)
next
  case (Suc n)
  have o: "nth_output (step s) k = nth_output s (Suc k)" for k by (simp add: nth_output_def funpow_swap1)
  have "fast_rand_loop rng m s = fast_rand_loop rng m (step s)"
    using Suc.prems(2) [of 0] by (subst fast_rand_loop.simps) (simp add: nth_output_def case_prod_beta' Let_def step_def)
  also have "\<dots> = Some (nth_output s (Suc n) div rng, (step ^^ Suc n) (step s))"
    using Suc.IH [of "step s"] Suc.prems by (simp add: o del: funpow.simps)
  finally show ?case by (simp add: funpow_swap1)
qed

lemma div_eq_range:
  assumes "0 < (d :: nat)"
  shows "{r. r div d = v} = {v * d..<v * d + d}"
proof (rule set_eqI)
  fix r
  have "r div d = v \<longleftrightarrow> v * d \<le> r \<and> r < Suc v * d"
    using less_eq_div_iff_mult_less_eq [OF assms, of v r] div_less_iff_less_mult [OF assms, of r "Suc v"] by linarith
  then show "r \<in> {r. r div d = v} \<longleftrightarrow> r \<in> {v * d..<v * d + d}" by (simp add: add.commute)
qed

lemma range_bound:
  assumes "0 < m" "m < 2 ^ 64"
  shows "0 < uint64_max div m" "m * (uint64_max div m) < 2 ^ 64" "2 ^ 63 \<le> m * (uint64_max div m)"
proof -
  have le: "m \<le> uint64_max" using assms by (simp add: uint64_max_def)
  then show pos: "0 < uint64_max div m" using assms by (simp add: div_greater_zero_iff)
  have "m * (uint64_max div m) \<le> uint64_max" by simp
  also have "\<dots> < 2 ^ 64" by (simp add: uint64_max_def)
  finally show "m * (uint64_max div m) < 2 ^ 64" .
  show "2 ^ 63 \<le> m * (uint64_max div m)"
  proof (cases "m \<le> 2 ^ 63")
    case True
    have "uint64_max < m * (uint64_max div m) + m" using assms(1) dividend_less_times_div [of m uint64_max] by simp
    then show ?thesis using True by (simp add: uint64_max_def)
  next
    case False
    have "m * 1 \<le> m * (uint64_max div m)" using pos by (intro mult_le_mono2) simp
    then show ?thesis using False by linarith
  qed
qed

text \<open>(C31) \<open>fast_rand(rand_max)\<close> for a positive bound: it returns as soon as the generator produces an
  acceptable output, and the result is below the bound. Of all 64-bit outputs the same number is
  mapped to each result, so the result is as uniform as the generator, and at least half of all outputs
  are acceptable.\<close>

theorem fast_rand_uniform:
  assumes "0 < rand_max" "rand_max < 2 ^ 64"
  shows "(\<forall>n. nth_output s n div (uint64_max div rand_max) < rand_max
        \<and> (\<forall>k < n. rand_max \<le> nth_output s k div (uint64_max div rand_max)) \<longrightarrow>
      fast_rand rand_max s = Some (nth_output s n div (uint64_max div rand_max), (step ^^ Suc n) s))
    \<and> (\<forall>v < rand_max. card {r. r < 2 ^ 64 \<and> r div (uint64_max div rand_max) = v} = uint64_max div rand_max)
    \<and> 2 ^ 63 \<le> card {r :: nat. r < 2 ^ 64 \<and> r div (uint64_max div rand_max) < rand_max}"
proof (intro conjI allI impI)
  let ?d = "uint64_max div rand_max"
  note b = range_bound [OF assms]
  show "fast_rand rand_max s = Some (nth_output s n div ?d, (step ^^ Suc n) s)"
    if "nth_output s n div ?d < rand_max \<and> (\<forall>k < n. rand_max \<le> nth_output s k div ?d)" for n
    using fast_rand_loop_first [of s n ?d rand_max] that assms(1) by (simp add: fast_rand_def del: funpow.simps)
  have all: "r < 2 ^ 64" if "r div ?d < rand_max" for r
  proof -
    have "r < rand_max * ?d" using that b(1) by (simp add: div_less_iff_less_mult)
    then show ?thesis using b(2) by simp
  qed
  show "card {r. r < 2 ^ 64 \<and> r div ?d = v} = ?d" if "v < rand_max" for v
  proof -
    have "{r. r < 2 ^ 64 \<and> r div ?d = v} = {r. r div ?d = v}" using all that by auto
    then show ?thesis using div_eq_range [OF b(1), of v] by simp
  qed
  have "{r. r < 2 ^ 64 \<and> r div ?d < rand_max} = {..<rand_max * ?d}"
    using all b(1) by (auto simp: div_less_iff_less_mult)
  then show "2 ^ 63 \<le> card {r :: nat. r < 2 ^ 64 \<and> r div ?d < rand_max}" using b(3) by simp
qed

theorem fast_rand_uniform_witness:
  "\<exists>s'. fast_rand 6 (1, 2) = Some (0, s') \<and> card {r. r < 2 ^ 64 \<and> r div (uint64_max div 6) = (5 :: nat)} = uint64_max div 6"
proof -
  have "nth_output (1, 2) 0 = 3" by (simp add: nth_output_def rand_next_def Let_def)
  then have "nth_output (1, 2) 0 div (uint64_max div 6) = 0" by (simp add: uint64_max_def)
  then have "fast_rand 6 (1, 2) = Some (0, (step ^^ Suc 0) (1, 2))"
    using fast_rand_uniform [THEN conjunct1, rule_format, of 6 "(1, 2)" 0] by simp
  moreover have "card {r. r < 2 ^ 64 \<and> r div (uint64_max div 6) = (5 :: nat)} = uint64_max div 6"
    by (rule fast_rand_uniform [THEN conjunct2, THEN conjunct1, rule_format]) simp_all
  ultimately show ?thesis by blast
qed

end
