(* ===== verification/Rand_Poly.thy ===== *)
theory Rand_Poly
  imports Rand
begin

text \<open>
  Polynomials over the field of two elements at a linear map of the states of \<^verbatim>\<open>src/rand.cpp\<close>, with squaring and
  multiplication modulo an equation of degree 128, for theorems about many steps of the generator.
\<close>

subsection \<open>Polynomials in a linear map\<close>

text \<open>The value of a polynomial, the list of its coefficients from the constant on, at a map.\<close>

fun evp :: "(rand_state \<Rightarrow> rand_state) \<Rightarrow> bool list \<Rightarrow> rand_state \<Rightarrow> rand_state" where
  "evp f [] s = (0, 0)"
| "evp f (b # bs) s = xor2 (if b then s else (0, 0)) (evp f bs (f s))"

fun bxor :: "bool list \<Rightarrow> bool list \<Rightarrow> bool list" where
  "bxor [] ys = ys"
| "bxor xs [] = xs"
| "bxor (x # xs) (y # ys) = (x \<noteq> y) # bxor xs ys"

fun spread :: "bool list \<Rightarrow> bool list" where
  "spread [] = []"
| "spread (b # bs) = b # False # spread bs"

lemma xor2_self [simp]: "xor2 a a = (0, 0)" "xor2 a (xor2 a b) = b"
  by (simp_all add: xor2_def)

lemma evp_bxor: "evp f (bxor p q) s = xor2 (evp f p s) (evp f q s)"
  by (induction p q arbitrary: s rule: bxor.induct) (auto simp: xor2_ac)

locale linear_map =
  fixes f :: "rand_state \<Rightarrow> rand_state"
  assumes linear: "f (xor2 s t) = xor2 (f s) (f t)"
begin

lemma zero [simp]: "f (0, 0) = (0, 0)"
  using linear [of "(0, 0)" "(0, 0)"] xor2_self(1) [of "f (0, 0)"] by simp

lemma pow_linear: "(f ^^ n) (xor2 s t) = xor2 ((f ^^ n) s) ((f ^^ n) t)"
  by (induction n) (simp_all add: linear)

lemma pow_zero [simp]: "(f ^^ n) (0, 0) = (0, 0)"
  by (induction n) simp_all

lemma evp_linear: "evp f p (xor2 s t) = xor2 (evp f p s) (evp f p t)"
  by (induction p arbitrary: s t) (auto simp: linear xor2_ac)

lemma evp_zero [simp]: "evp f p (0, 0) = (0, 0)"
  by (induction p) simp_all

lemma evp_pow: "evp f p ((f ^^ n) s) = (f ^^ n) (evp f p s)"
  by (induction p arbitrary: s) (simp_all add: pow_linear funpow_swap1)

lemma evp_f: "evp f p (f s) = f (evp f p s)"
  using evp_pow [of p 1 s] by simp

text \<open>Squaring a polynomial over the field of two elements spreads its coefficients.\<close>

lemma evp_square: "evp f p (evp f p s) = evp f (spread p) s"
proof (induction p arbitrary: s)
  case (Cons b p)
  have "evp f (b # p) (evp f (b # p) s)
      = xor2 (if b then s else (0, 0)) (evp f p (f (evp f p (f s))))"
    by (auto simp: evp_linear linear evp_f xor2_ac)
  also have "evp f p (f (evp f p (f s))) = evp f (spread p) (f (f s))"
    by (simp add: Cons.IH flip: evp_f)
  finally show ?case by simp
qed simp

text \<open>The states on which the map satisfies the equation \<open>f ^ n = p (f)\<close>.\<close>

definition solves :: "nat \<Rightarrow> bool list \<Rightarrow> rand_state \<Rightarrow> bool" where
  "solves n p s \<longleftrightarrow> (f ^^ n) s = evp f p s"

lemma solves_xor2: "solves n p s \<Longrightarrow> solves n p t \<Longrightarrow> solves n p (xor2 s t)"
  by (simp add: solves_def pow_linear evp_linear)

lemma solves_zero [simp]: "solves n p (0, 0)"
  by (simp add: solves_def)

lemma solves_f: "solves n p s \<Longrightarrow> solves n p (f s)"
  by (simp add: solves_def evp_f funpow_swap1 [symmetric])

lemma solves_evp: "solves n p s \<Longrightarrow> solves n p (evp f q s)"
  by (induction q arbitrary: s) (simp_all add: solves_xor2 solves_f)

lemma solves_xsum: "(\<And>s. s \<in> set ss \<Longrightarrow> solves n p s) \<Longrightarrow> solves n p (xsum ss)"
  by (induction ss) (simp_all add: solves_xor2)

lemma solves_back:
  assumes "inj f" "solves n p (f s)"
  shows "solves n p s"
proof -
  have "f ((f ^^ n) s) = f (evp f p s)"
    using assms(2) by (simp add: solves_def evp_f funpow_swap1)
  then show ?thesis using assms(1) by (simp add: solves_def inj_eq)
qed

end

subsection \<open>Four coefficients at a time\<close>

text \<open>Polynomials the simplifier computes with: lists of digits of four coefficients.\<close>

datatype quad = W bool bool bool bool

fun qbits :: "quad list \<Rightarrow> bool list" where
  "qbits [] = []"
| "qbits (W a b c d # qs) = a # b # c # d # qbits qs"

fun qx :: "quad \<Rightarrow> quad \<Rightarrow> quad" where
  "qx (W a b c d) (W e f g h) = W (a \<noteq> e) (b \<noteq> f) (c \<noteq> g) (d \<noteq> h)"

fun qxor :: "quad list \<Rightarrow> quad list \<Rightarrow> quad list" where
  "qxor (x # xs) (y # ys) = qx x y # qxor xs ys"
| "qxor [] ys = ys"
| "qxor xs [] = xs"

lemma qbits_Cons: "qbits (x # xs) = qbits [x] @ qbits xs"
  by (cases x) simp

lemma qbits_append: "qbits (p @ q) = qbits p @ qbits q"
  by (induction p rule: qbits.induct) simp_all

lemma length_qbits [simp]: "length (qbits p) = 4 * length p"
  by (induction p rule: qbits.induct) simp_all

lemma qbits_qxor: "qbits (qxor p q) = bxor (qbits p) (qbits q)"
proof (induction p q rule: qxor.induct)
  case (1 x xs y ys)
  then show ?case by (cases x; cases y) simp
next
  case (3 x xs)
  then show ?case by (cases x) simp
qed simp

lemma length_qxor [simp]: "length (qxor p q) = max (length p) (length q)"
  by (induction p q rule: qxor.induct) simp_all

text \<open>The digits of a number, its lowest bits first.\<close>

fun quads :: "nat \<Rightarrow> quad list" where
  "quads n = (if n = 0 then [] else W (bit n 0) (bit n 1) (bit n 2) (bit n 3) # quads (n div 16))"

declare quads.simps [simp del]

text \<open>Multiplication by the unknown: the shifted list and the coefficient that falls off, which stands for
  \<open>x ^ 128\<close> and is replaced by its remainder.\<close>

fun qshift :: "bool \<Rightarrow> quad list \<Rightarrow> quad list \<times> bool" where
  "qshift c [] = ([], c)"
| "qshift c (W a b d e # qs) = (let (r, k) = qshift e qs in (W c a b d # r, k))"

definition dg0 :: quad where "dg0 = W False False False False"

definition low :: "quad list" where
  "low = quads 0x653ced7f29f88a5fd66762f0e1c001 @ [dg0, dg0]"

definition qtimes :: "quad list \<Rightarrow> quad list" where
  "qtimes p = (let (q, k) = qshift False p in if k then qxor q low else q)"

text \<open>The remainder of \<open>x ^ (128 + 2 * n)\<close>.\<close>

definition tab :: "nat \<Rightarrow> quad list" where
  "tab n = ((\<lambda>p. qtimes (qtimes p)) ^^ n) low"

text \<open>The square of a polynomial: the low half is spread, the high half selects entries of the table.\<close>

fun qspread :: "quad list \<Rightarrow> quad list" where
  "qspread [] = []"
| "qspread (W a b c d # qs) = W a False b False # W c False d False # qspread qs"

definition qadd :: "bool \<Rightarrow> quad list \<Rightarrow> quad list \<Rightarrow> quad list" where
  "qadd b t acc = (if b then qxor t acc else acc)"

fun qsum :: "nat \<Rightarrow> quad list \<Rightarrow> quad list \<Rightarrow> quad list" where
  "qsum n [] acc = acc"
| "qsum n (W a b c d # qs) acc = qsum (n + 4) qs
     (qadd d (tab (n + 3)) (qadd c (tab (n + 2)) (qadd b (tab (n + 1)) (qadd a (tab n) acc))))"

definition qsquare :: "quad list \<Rightarrow> quad list" where
  "qsquare p = qsum 0 (drop 16 p) (qspread (take 16 p))"

text \<open>A digit times a polynomial, of which the first four multiples by powers of the unknown are given; four
  multiplications by the unknown; and the product of two polynomials, from the highest digit of the first on.\<close>

fun sel :: "quad \<Rightarrow> quad list \<Rightarrow> quad list \<Rightarrow> quad list \<Rightarrow> quad list \<Rightarrow> quad list" where
  "sel (W a b c d) r0 r1 r2 r3 = qadd d r3 (qadd c r2 (qadd b r1 (qadd a r0 [])))"

definition qtimes4 :: "quad list \<Rightarrow> quad list" where
  "qtimes4 p = qxor (sel (last p) low (qtimes low) (tab 1) (qtimes (tab 1))) (dg0 # butlast p)"

fun qhorner :: "quad list \<Rightarrow> quad list \<Rightarrow> quad list \<Rightarrow> quad list \<Rightarrow> quad list \<Rightarrow> quad list \<Rightarrow> quad list" where
  "qhorner r0 r1 r2 r3 [] acc = acc"
| "qhorner r0 r1 r2 r3 (d # ds) acc = qhorner r0 r1 r2 r3 ds (qxor (sel d r0 r1 r2 r3) (qtimes4 acc))"

definition qzero :: "quad list" where
  "qzero = replicate 32 dg0"

definition qmul :: "quad list \<Rightarrow> quad list \<Rightarrow> quad list" where
  "qmul p r = qhorner r (qtimes r) (qtimes (qtimes r)) (qtimes (qtimes (qtimes r))) (rev p) qzero"

subsection \<open>Arithmetic modulo the equation\<close>

lemma evp_append: "evp f (p @ q) s = xor2 (evp f p s) (evp f q ((f ^^ length p) s))"
  by (induction p arbitrary: s) (simp_all add: xor2_ac funpow_swap1)

lemma spread_append: "spread (p @ q) = spread p @ spread q"
  by (induction p) simp_all

lemma length_spread [simp]: "length (spread p) = 2 * length p"
  by (induction p) simp_all

lemma qbits_qspread: "qbits (qspread p) = spread (qbits p)"
  by (induction p rule: qbits.induct) simp_all

lemma evp_qadd: "evp f (qbits (qadd b t acc)) s = xor2 (if b then evp f (qbits t) s else (0, 0)) (evp f (qbits acc) s)"
  by (simp add: qadd_def qbits_qxor evp_bxor)

lemma length_qadd [simp]: "length (qadd b t acc) = (if b then max (length t) (length acc) else length acc)"
  by (simp add: qadd_def)

lemma length_qshift: "qshift c p = (q, k) \<Longrightarrow> length q = length p"
  by (induction c p arbitrary: q rule: qshift.induct) (auto split: prod.splits)

lemma evp_qshift:
  "qshift c p = (q, k) \<Longrightarrow>
   xor2 (if c then s else (0, 0)) (evp f (qbits p) (f s))
     = xor2 (evp f (qbits q) s) (if k then (f ^^ (4 * length p)) s else (0, 0))"
proof (induction c p arbitrary: q k s rule: qshift.induct)
  case (2 c a b d e p)
  obtain r where r: "qshift e p = (r, k)" "q = W c a b d # r"
    using "2.prems" by (auto split: prod.splits)
  have four: "(f ^^ (4 + n)) s = (f ^^ n) (f (f (f (f s))))" for n
    by (simp add: funpow_add funpow_swap1 eval_nat_numeral)
  show ?case using "2.IH" [OF r(1), of "f (f (f (f s)))"]
    by (simp add: r(2) four xor2_ac)
qed simp

declare split_paired_All [simp del]

locale recurrence = linear_map +
  assumes recurrence: "(f ^^ 128) s = evp f (qbits low) s"
begin

text \<open>The polynomial has the shape of a remainder and its value is a power of the map.\<close>

definition val :: "quad list \<Rightarrow> nat \<Rightarrow> bool" where
  "val p e \<longleftrightarrow> length p = 32 \<and> (\<forall>s. evp f (qbits p) s = (f ^^ e) s)"

lemma qtimes_ok:
  assumes "length p = 32"
  shows "length (qtimes p) = 32" "evp f (qbits (qtimes p)) s = evp f (qbits p) (f s)"
proof -
  obtain q k where q: "qshift False p = (q, k)" by fastforce
  have [simp]: "length q = 32" "length low = 32"
    using length_qshift [OF q] assms by (simp_all add: low_def quads.simps)
  show "length (qtimes p) = 32" by (simp add: qtimes_def q)
  show "evp f (qbits (qtimes p)) s = evp f (qbits p) (f s)"
    using evp_qshift [OF q, of s f] assms
    by (simp add: qtimes_def q qbits_qxor evp_bxor recurrence)
qed

lemma val_low: "val low 128"
  by (simp add: val_def low_def recurrence quads.simps)

lemma val_qtimes: "val p e \<Longrightarrow> val (qtimes p) (Suc e)"
  by (simp add: val_def qtimes_ok funpow_swap1)

lemma val_tab: "val (tab n) (128 + 2 * n)"
proof (induction n)
  case 0
  then show ?case by (simp add: tab_def val_low)
next
  case (Suc n)
  then show ?case using val_qtimes [OF val_qtimes [OF Suc]] by (simp add: tab_def)
qed

lemma evp_qsum:
  "evp f (qbits (qsum n p acc)) s
     = xor2 (evp f (qbits acc) s) (evp f (spread (qbits p)) ((f ^^ (128 + 2 * n)) s))"
proof (induction n p acc rule: qsum.induct)
  case (2 n a b c d p acc)
  let ?s = "(f ^^ (128 + 2 * n)) s"
  have p: "(f ^^ (128 + 2 * (n + k))) s = (f ^^ (2 * k)) ?s" for k
    by (simp add: funpow_add [symmetric, THEN fun_cong, simplified] algebra_simps)
  show ?case
    by (simp only: qsum.simps 2 evp_qadd val_tab [unfolded val_def] p)
      (simp add: eval_nat_numeral xor2_ac funpow_swap1)
qed simp

lemma length_qsum: "length acc = 32 \<Longrightarrow> length (qsum n p acc) = 32"
  using val_tab by (induction n p acc rule: qsum.induct) (simp_all add: val_def)

lemma length_qspread: "length (qspread p) = 2 * length p"
  by (induction p rule: qspread.induct) simp_all

lemma val_qsquare:
  assumes "val p e"
  shows "val (qsquare p) (2 * e)"
proof -
  have len: "length p = 32" using assms by (simp add: val_def)
  have "spread (qbits p) = spread (qbits (take 16 p)) @ spread (qbits (drop 16 p))"
    by (simp flip: qbits_append spread_append)
  then have "evp f (qbits (qsquare p)) s = evp f (qbits p) (evp f (qbits p) s)" for s
    by (simp add: evp_square qsquare_def evp_qsum qbits_qspread evp_append len)
  moreover have "length (qsquare p) = 32"
    unfolding qsquare_def by (rule length_qsum) (simp add: length_qspread len)
  ultimately show ?thesis
    using assms unfolding val_def mult_2 funpow_add comp_apply by metis
qed

lemma val_power: "val p e \<Longrightarrow> val ((qsquare ^^ k) p) (2 ^ k * e)"
  by (induction k) (use val_qsquare in \<open>fastforce simp: mult.assoc\<close>)+

lemma evp_sel:
  assumes "\<And>s. evp f (qbits r1) s = f (evp f (qbits r0) s)" "\<And>s. evp f (qbits r2) s = f (f (evp f (qbits r0) s))"
    "\<And>s. evp f (qbits r3) s = f (f (f (evp f (qbits r0) s)))"
  shows "evp f (qbits (sel d r0 r1 r2 r3)) s = evp f (qbits [d]) (evp f (qbits r0) s)"
  using assms by (cases d) (auto simp: evp_qadd xor2_ac)

lemma length_sel: "length r0 = 32 \<Longrightarrow> length r1 = 32 \<Longrightarrow> length r2 = 32 \<Longrightarrow> length r3 = 32 \<Longrightarrow> length (sel d r0 r1 r2 r3) \<le> 32"
  by (cases d) simp

lemma evp_dg0: "evp f (qbits (dg0 # p)) s = evp f (qbits p) ((f ^^ 4) s)"
  by (simp add: dg0_def eval_nat_numeral)

lemma qtimes4_ok:
  assumes "length p = 32"
  shows "length (qtimes4 p) = 32" "evp f (qbits (qtimes4 p)) s = (f ^^ 4) (evp f (qbits p) s)"
proof -
  note v = val_low val_qtimes [OF val_low] val_tab [of 1] val_qtimes [OF val_tab [of 1]]
  have lows: "length low = 32" "length (qtimes low) = 32" "length (tab 1) = 32" "length (qtimes (tab 1)) = 32"
    using v by (simp_all add: val_def)
  show "length (qtimes4 p) = 32"
    using length_sel [OF lows] assms by (simp add: qtimes4_def)
  have p: "p = butlast p @ [last p]" using assms by (cases p rule: rev_cases) auto
  have "evp f (qbits (sel (last p) low (qtimes low) (tab 1) (qtimes (tab 1)))) s = evp f (qbits [last p]) (evp f (qbits low) s)"
  proof (rule evp_sel)
    show "evp f (qbits (qtimes low)) s = f (evp f (qbits low) s)" "evp f (qbits (tab 1)) s = f (f (evp f (qbits low) s))"
      "evp f (qbits (qtimes (tab 1))) s = f (f (f (evp f (qbits low) s)))" for s
      using v by (simp_all add: val_def eval_nat_numeral)
  qed
  then have sel: "evp f (qbits (sel (last p) low (qtimes low) (tab 1) (qtimes (tab 1)))) s = evp f (qbits [last p]) ((f ^^ 128) s)"
    by (simp add: recurrence)
  have "(f ^^ 4) (evp f (qbits p) s) = evp f (qbits p) ((f ^^ 4) s)" by (rule evp_pow [symmetric])
  also have "\<dots> = xor2 (evp f (qbits (butlast p)) ((f ^^ 4) s)) (evp f (qbits [last p]) ((f ^^ 124) ((f ^^ 4) s)))"
    using assms by (subst p) (simp only: qbits_append evp_append length_qbits length_butlast, simp)
  also have "(f ^^ 124) ((f ^^ 4) s) = (f ^^ 128) s"
    using funpow_add [of 124 4 f] by simp
  finally show "evp f (qbits (qtimes4 p)) s = (f ^^ 4) (evp f (qbits p) s)"
    by (simp add: qtimes4_def qbits_qxor evp_bxor sel [unfolded One_nat_def] evp_dg0 xor2_ac)
qed

lemma qhorner_ok:
  assumes "length r0 = 32" "length acc = 32"
  shows "length (qhorner r0 (qtimes r0) (qtimes (qtimes r0)) (qtimes (qtimes (qtimes r0))) ds acc) = 32
    \<and> (\<forall>s. evp f (qbits (qhorner r0 (qtimes r0) (qtimes (qtimes r0)) (qtimes (qtimes (qtimes r0))) ds acc)) s
      = xor2 (evp f (qbits (rev ds)) (evp f (qbits r0) s)) ((f ^^ (4 * length ds)) (evp f (qbits acc) s)))"
  using assms(2)
proof (induction ds arbitrary: acc)
  case (Cons d ds)
  note r = assms(1) qtimes_ok(1) [OF assms(1)] qtimes_ok(1) [OF qtimes_ok(1) [OF assms(1)]]
    qtimes_ok(1) [OF qtimes_ok(1) [OF qtimes_ok(1) [OF assms(1)]]]
  let ?d = "sel d r0 (qtimes r0) (qtimes (qtimes r0)) (qtimes (qtimes (qtimes r0)))"
  have acc: "length (qxor ?d (qtimes4 acc)) = 32"
    using length_sel [OF r] qtimes4_ok(1) [OF Cons.prems] by simp
  have d: "evp f (qbits ?d) s = evp f (qbits [d]) (evp f (qbits r0) s)" for s
    by (rule evp_sel) (simp_all add: qtimes_ok r evp_f)
  have "(f ^^ (4 * length ds)) ((f ^^ 4) t) = (f ^^ (4 * length (d # ds))) t" for t
    by (simp add: funpow_add [symmetric, THEN fun_cong, simplified] add.commute)
  then show ?case
    using Cons.IH [OF acc] qtimes4_ok(2) [OF Cons.prems]
    by (simp add: qbits_qxor evp_bxor d pow_linear qbits_append evp_append evp_pow xor2_ac)
qed simp

lemma qmul_ok:
  assumes "length r = 32"
  shows "length (qmul p r) = 32" "evp f (qbits (qmul p r)) s = evp f (qbits p) (evp f (qbits r) s)"
proof -
  have "evp f (qbits (replicate n dg0)) s = (0, 0)" for n s
    by (induction n arbitrary: s) (simp_all add: evp_dg0)
  then have "evp f (qbits qzero) s = (0, 0)" "length qzero = 32" for s
    by (simp_all add: qzero_def)
  then show "length (qmul p r) = 32" "evp f (qbits (qmul p r)) s = evp f (qbits p) (evp f (qbits r) s)"
    using qhorner_ok [OF assms, of qzero "rev p"] by (simp_all add: qmul_def)
qed

lemma val_qmul: "val p e \<Longrightarrow> val r d \<Longrightarrow> val (qmul p r) (e + d)"
  by (simp add: val_def qmul_ok funpow_add)

end

subsection \<open>Evaluation\<close>

definition dg1 :: quad where "dg1 = W True False False False"
definition dg2 :: quad where "dg2 = W False True False False"
definition dg3 :: quad where "dg3 = W True True False False"
definition dg4 :: quad where "dg4 = W False False True False"
definition dg5 :: quad where "dg5 = W True False True False"
definition dg6 :: quad where "dg6 = W False True True False"
definition dg7 :: quad where "dg7 = W True True True False"
definition dg8 :: quad where "dg8 = W False False False True"
definition dg9 :: quad where "dg9 = W True False False True"
definition dg10 :: quad where "dg10 = W False True False True"
definition dg11 :: quad where "dg11 = W True True False True"
definition dg12 :: quad where "dg12 = W False False True True"
definition dg13 :: quad where "dg13 = W True False True True"
definition dg14 :: quad where "dg14 = W False True True True"
definition dg15 :: quad where "dg15 = W True True True True"

lemmas digit_defs = dg0_def dg1_def dg2_def dg3_def dg4_def dg5_def dg6_def dg7_def dg8_def dg9_def dg10_def dg11_def dg12_def dg13_def dg14_def dg15_def

lemma qx_digits:
  "map (qx dg0) [dg0, dg1, dg2, dg3, dg4, dg5, dg6, dg7, dg8, dg9, dg10, dg11, dg12, dg13, dg14, dg15] =
    [dg0, dg1, dg2, dg3, dg4, dg5, dg6, dg7, dg8, dg9, dg10, dg11, dg12, dg13, dg14, dg15]"
  "map (qx dg1) [dg0, dg1, dg2, dg3, dg4, dg5, dg6, dg7, dg8, dg9, dg10, dg11, dg12, dg13, dg14, dg15] =
    [dg1, dg0, dg3, dg2, dg5, dg4, dg7, dg6, dg9, dg8, dg11, dg10, dg13, dg12, dg15, dg14]"
  "map (qx dg2) [dg0, dg1, dg2, dg3, dg4, dg5, dg6, dg7, dg8, dg9, dg10, dg11, dg12, dg13, dg14, dg15] =
    [dg2, dg3, dg0, dg1, dg6, dg7, dg4, dg5, dg10, dg11, dg8, dg9, dg14, dg15, dg12, dg13]"
  "map (qx dg3) [dg0, dg1, dg2, dg3, dg4, dg5, dg6, dg7, dg8, dg9, dg10, dg11, dg12, dg13, dg14, dg15] =
    [dg3, dg2, dg1, dg0, dg7, dg6, dg5, dg4, dg11, dg10, dg9, dg8, dg15, dg14, dg13, dg12]"
  "map (qx dg4) [dg0, dg1, dg2, dg3, dg4, dg5, dg6, dg7, dg8, dg9, dg10, dg11, dg12, dg13, dg14, dg15] =
    [dg4, dg5, dg6, dg7, dg0, dg1, dg2, dg3, dg12, dg13, dg14, dg15, dg8, dg9, dg10, dg11]"
  "map (qx dg5) [dg0, dg1, dg2, dg3, dg4, dg5, dg6, dg7, dg8, dg9, dg10, dg11, dg12, dg13, dg14, dg15] =
    [dg5, dg4, dg7, dg6, dg1, dg0, dg3, dg2, dg13, dg12, dg15, dg14, dg9, dg8, dg11, dg10]"
  "map (qx dg6) [dg0, dg1, dg2, dg3, dg4, dg5, dg6, dg7, dg8, dg9, dg10, dg11, dg12, dg13, dg14, dg15] =
    [dg6, dg7, dg4, dg5, dg2, dg3, dg0, dg1, dg14, dg15, dg12, dg13, dg10, dg11, dg8, dg9]"
  "map (qx dg7) [dg0, dg1, dg2, dg3, dg4, dg5, dg6, dg7, dg8, dg9, dg10, dg11, dg12, dg13, dg14, dg15] =
    [dg7, dg6, dg5, dg4, dg3, dg2, dg1, dg0, dg15, dg14, dg13, dg12, dg11, dg10, dg9, dg8]"
  "map (qx dg8) [dg0, dg1, dg2, dg3, dg4, dg5, dg6, dg7, dg8, dg9, dg10, dg11, dg12, dg13, dg14, dg15] =
    [dg8, dg9, dg10, dg11, dg12, dg13, dg14, dg15, dg0, dg1, dg2, dg3, dg4, dg5, dg6, dg7]"
  "map (qx dg9) [dg0, dg1, dg2, dg3, dg4, dg5, dg6, dg7, dg8, dg9, dg10, dg11, dg12, dg13, dg14, dg15] =
    [dg9, dg8, dg11, dg10, dg13, dg12, dg15, dg14, dg1, dg0, dg3, dg2, dg5, dg4, dg7, dg6]"
  "map (qx dg10) [dg0, dg1, dg2, dg3, dg4, dg5, dg6, dg7, dg8, dg9, dg10, dg11, dg12, dg13, dg14, dg15] =
    [dg10, dg11, dg8, dg9, dg14, dg15, dg12, dg13, dg2, dg3, dg0, dg1, dg6, dg7, dg4, dg5]"
  "map (qx dg11) [dg0, dg1, dg2, dg3, dg4, dg5, dg6, dg7, dg8, dg9, dg10, dg11, dg12, dg13, dg14, dg15] =
    [dg11, dg10, dg9, dg8, dg15, dg14, dg13, dg12, dg3, dg2, dg1, dg0, dg7, dg6, dg5, dg4]"
  "map (qx dg12) [dg0, dg1, dg2, dg3, dg4, dg5, dg6, dg7, dg8, dg9, dg10, dg11, dg12, dg13, dg14, dg15] =
    [dg12, dg13, dg14, dg15, dg8, dg9, dg10, dg11, dg4, dg5, dg6, dg7, dg0, dg1, dg2, dg3]"
  "map (qx dg13) [dg0, dg1, dg2, dg3, dg4, dg5, dg6, dg7, dg8, dg9, dg10, dg11, dg12, dg13, dg14, dg15] =
    [dg13, dg12, dg15, dg14, dg9, dg8, dg11, dg10, dg5, dg4, dg7, dg6, dg1, dg0, dg3, dg2]"
  "map (qx dg14) [dg0, dg1, dg2, dg3, dg4, dg5, dg6, dg7, dg8, dg9, dg10, dg11, dg12, dg13, dg14, dg15] =
    [dg14, dg15, dg12, dg13, dg10, dg11, dg8, dg9, dg6, dg7, dg4, dg5, dg2, dg3, dg0, dg1]"
  "map (qx dg15) [dg0, dg1, dg2, dg3, dg4, dg5, dg6, dg7, dg8, dg9, dg10, dg11, dg12, dg13, dg14, dg15] =
    [dg15, dg14, dg13, dg12, dg11, dg10, dg9, dg8, dg7, dg6, dg5, dg4, dg3, dg2, dg1, dg0]"
  by (simp_all add: digit_defs)

lemmas qx_eval = qx_digits [simplified]

lemma bit_one_simps: "bit (Suc 0) 0" "\<not> bit (Suc 0) (numeral k)"
  by (simp_all add: bit_0 bit_Suc_0_iff)

lemma quads_rec:
  "quads 0 = []"
  "quads (Suc 0) = [W True False False False]"
  "quads (numeral k) = W (bit (numeral k :: nat) 0) (bit (numeral k :: nat) 1) (bit (numeral k :: nat) 2) (bit (numeral k :: nat) 3)
     # quads (drop_bit 4 (numeral k))"
  by (simp_all add: quads.simps [of 0] quads.simps [of "Suc 0"] quads.simps [of "numeral k"] drop_bit_eq_div bit_one_simps)

lemma quads_eval:
  "quads 0 = []" "quads (Suc 0) = [dg1]"
  "quads 2 = [dg2]" "quads 3 = [dg3]" "quads 4 = [dg4]" "quads 5 = [dg5]" "quads 6 = [dg6]" "quads 7 = [dg7]" "quads 8 = [dg8]"
  "quads 9 = [dg9]" "quads 10 = [dg10]" "quads 11 = [dg11]" "quads 12 = [dg12]" "quads 13 = [dg13]" "quads 14 = [dg14]" "quads 15 = [dg15]"
  "quads (numeral (Num.Bit0 (Num.Bit0 (Num.Bit0 (Num.Bit0 k))))) = dg0 # quads (numeral k)"
  "quads (numeral (Num.Bit1 (Num.Bit0 (Num.Bit0 (Num.Bit0 k))))) = dg1 # quads (numeral k)"
  "quads (numeral (Num.Bit0 (Num.Bit1 (Num.Bit0 (Num.Bit0 k))))) = dg2 # quads (numeral k)"
  "quads (numeral (Num.Bit1 (Num.Bit1 (Num.Bit0 (Num.Bit0 k))))) = dg3 # quads (numeral k)"
  "quads (numeral (Num.Bit0 (Num.Bit0 (Num.Bit1 (Num.Bit0 k))))) = dg4 # quads (numeral k)"
  "quads (numeral (Num.Bit1 (Num.Bit0 (Num.Bit1 (Num.Bit0 k))))) = dg5 # quads (numeral k)"
  "quads (numeral (Num.Bit0 (Num.Bit1 (Num.Bit1 (Num.Bit0 k))))) = dg6 # quads (numeral k)"
  "quads (numeral (Num.Bit1 (Num.Bit1 (Num.Bit1 (Num.Bit0 k))))) = dg7 # quads (numeral k)"
  "quads (numeral (Num.Bit0 (Num.Bit0 (Num.Bit0 (Num.Bit1 k))))) = dg8 # quads (numeral k)"
  "quads (numeral (Num.Bit1 (Num.Bit0 (Num.Bit0 (Num.Bit1 k))))) = dg9 # quads (numeral k)"
  "quads (numeral (Num.Bit0 (Num.Bit1 (Num.Bit0 (Num.Bit1 k))))) = dg10 # quads (numeral k)"
  "quads (numeral (Num.Bit1 (Num.Bit1 (Num.Bit0 (Num.Bit1 k))))) = dg11 # quads (numeral k)"
  "quads (numeral (Num.Bit0 (Num.Bit0 (Num.Bit1 (Num.Bit1 k))))) = dg12 # quads (numeral k)"
  "quads (numeral (Num.Bit1 (Num.Bit0 (Num.Bit1 (Num.Bit1 k))))) = dg13 # quads (numeral k)"
  "quads (numeral (Num.Bit0 (Num.Bit1 (Num.Bit1 (Num.Bit1 k))))) = dg14 # quads (numeral k)"
  "quads (numeral (Num.Bit1 (Num.Bit1 (Num.Bit1 (Num.Bit1 k))))) = dg15 # quads (numeral k)"
  by (simp_all add: quads_rec digit_defs bit_one_simps)

lemma qspread_eval:
  "qspread (dg0 # qs) = dg0 # dg0 # qspread qs"
  "qspread (dg1 # qs) = dg1 # dg0 # qspread qs"
  "qspread (dg2 # qs) = dg4 # dg0 # qspread qs"
  "qspread (dg3 # qs) = dg5 # dg0 # qspread qs"
  "qspread (dg4 # qs) = dg0 # dg1 # qspread qs"
  "qspread (dg5 # qs) = dg1 # dg1 # qspread qs"
  "qspread (dg6 # qs) = dg4 # dg1 # qspread qs"
  "qspread (dg7 # qs) = dg5 # dg1 # qspread qs"
  "qspread (dg8 # qs) = dg0 # dg4 # qspread qs"
  "qspread (dg9 # qs) = dg1 # dg4 # qspread qs"
  "qspread (dg10 # qs) = dg4 # dg4 # qspread qs"
  "qspread (dg11 # qs) = dg5 # dg4 # qspread qs"
  "qspread (dg12 # qs) = dg0 # dg5 # qspread qs"
  "qspread (dg13 # qs) = dg1 # dg5 # qspread qs"
  "qspread (dg14 # qs) = dg4 # dg5 # qspread qs"
  "qspread (dg15 # qs) = dg5 # dg5 # qspread qs"
  by (simp_all add: digit_defs)

lemma qshift_eval:
  "qshift False (dg0 # qs) = (let (r, k) = qshift False qs in (dg0 # r, k))"
  "qshift False (dg1 # qs) = (let (r, k) = qshift False qs in (dg2 # r, k))"
  "qshift False (dg2 # qs) = (let (r, k) = qshift False qs in (dg4 # r, k))"
  "qshift False (dg3 # qs) = (let (r, k) = qshift False qs in (dg6 # r, k))"
  "qshift False (dg4 # qs) = (let (r, k) = qshift False qs in (dg8 # r, k))"
  "qshift False (dg5 # qs) = (let (r, k) = qshift False qs in (dg10 # r, k))"
  "qshift False (dg6 # qs) = (let (r, k) = qshift False qs in (dg12 # r, k))"
  "qshift False (dg7 # qs) = (let (r, k) = qshift False qs in (dg14 # r, k))"
  "qshift False (dg8 # qs) = (let (r, k) = qshift True qs in (dg0 # r, k))"
  "qshift False (dg9 # qs) = (let (r, k) = qshift True qs in (dg2 # r, k))"
  "qshift False (dg10 # qs) = (let (r, k) = qshift True qs in (dg4 # r, k))"
  "qshift False (dg11 # qs) = (let (r, k) = qshift True qs in (dg6 # r, k))"
  "qshift False (dg12 # qs) = (let (r, k) = qshift True qs in (dg8 # r, k))"
  "qshift False (dg13 # qs) = (let (r, k) = qshift True qs in (dg10 # r, k))"
  "qshift False (dg14 # qs) = (let (r, k) = qshift True qs in (dg12 # r, k))"
  "qshift False (dg15 # qs) = (let (r, k) = qshift True qs in (dg14 # r, k))"
  "qshift True (dg0 # qs) = (let (r, k) = qshift False qs in (dg1 # r, k))"
  "qshift True (dg1 # qs) = (let (r, k) = qshift False qs in (dg3 # r, k))"
  "qshift True (dg2 # qs) = (let (r, k) = qshift False qs in (dg5 # r, k))"
  "qshift True (dg3 # qs) = (let (r, k) = qshift False qs in (dg7 # r, k))"
  "qshift True (dg4 # qs) = (let (r, k) = qshift False qs in (dg9 # r, k))"
  "qshift True (dg5 # qs) = (let (r, k) = qshift False qs in (dg11 # r, k))"
  "qshift True (dg6 # qs) = (let (r, k) = qshift False qs in (dg13 # r, k))"
  "qshift True (dg7 # qs) = (let (r, k) = qshift False qs in (dg15 # r, k))"
  "qshift True (dg8 # qs) = (let (r, k) = qshift True qs in (dg1 # r, k))"
  "qshift True (dg9 # qs) = (let (r, k) = qshift True qs in (dg3 # r, k))"
  "qshift True (dg10 # qs) = (let (r, k) = qshift True qs in (dg5 # r, k))"
  "qshift True (dg11 # qs) = (let (r, k) = qshift True qs in (dg7 # r, k))"
  "qshift True (dg12 # qs) = (let (r, k) = qshift True qs in (dg9 # r, k))"
  "qshift True (dg13 # qs) = (let (r, k) = qshift True qs in (dg11 # r, k))"
  "qshift True (dg14 # qs) = (let (r, k) = qshift True qs in (dg13 # r, k))"
  "qshift True (dg15 # qs) = (let (r, k) = qshift True qs in (dg15 # r, k))"
  by (simp_all add: digit_defs)

lemma qsum_eval:
  "qsum n (dg0 # qs) acc = qsum (n + 4) qs acc"
  "qsum n (dg1 # qs) acc = qsum (n + 4) qs (qxor (tab n) acc)"
  "qsum n (dg2 # qs) acc = qsum (n + 4) qs (qxor (tab (n + 1)) acc)"
  "qsum n (dg3 # qs) acc = qsum (n + 4) qs (qxor (tab (n + 1)) (qxor (tab n) acc))"
  "qsum n (dg4 # qs) acc = qsum (n + 4) qs (qxor (tab (n + 2)) acc)"
  "qsum n (dg5 # qs) acc = qsum (n + 4) qs (qxor (tab (n + 2)) (qxor (tab n) acc))"
  "qsum n (dg6 # qs) acc = qsum (n + 4) qs (qxor (tab (n + 2)) (qxor (tab (n + 1)) acc))"
  "qsum n (dg7 # qs) acc = qsum (n + 4) qs (qxor (tab (n + 2)) (qxor (tab (n + 1)) (qxor (tab n) acc)))"
  "qsum n (dg8 # qs) acc = qsum (n + 4) qs (qxor (tab (n + 3)) acc)"
  "qsum n (dg9 # qs) acc = qsum (n + 4) qs (qxor (tab (n + 3)) (qxor (tab n) acc))"
  "qsum n (dg10 # qs) acc = qsum (n + 4) qs (qxor (tab (n + 3)) (qxor (tab (n + 1)) acc))"
  "qsum n (dg11 # qs) acc = qsum (n + 4) qs (qxor (tab (n + 3)) (qxor (tab (n + 1)) (qxor (tab n) acc)))"
  "qsum n (dg12 # qs) acc = qsum (n + 4) qs (qxor (tab (n + 3)) (qxor (tab (n + 2)) acc))"
  "qsum n (dg13 # qs) acc = qsum (n + 4) qs (qxor (tab (n + 3)) (qxor (tab (n + 2)) (qxor (tab n) acc)))"
  "qsum n (dg14 # qs) acc = qsum (n + 4) qs (qxor (tab (n + 3)) (qxor (tab (n + 2)) (qxor (tab (n + 1)) acc)))"
  "qsum n (dg15 # qs) acc = qsum (n + 4) qs (qxor (tab (n + 3)) (qxor (tab (n + 2)) (qxor (tab (n + 1)) (qxor (tab n) acc))))"
  by (simp_all add: digit_defs qadd_def numeral_2_eq_2)

lemma sel_eval:
  "sel dg0 r0 r1 r2 r3 = []"
  "sel dg1 r0 r1 r2 r3 = (qxor r0 [])"
  "sel dg2 r0 r1 r2 r3 = (qxor r1 [])"
  "sel dg3 r0 r1 r2 r3 = (qxor r1 (qxor r0 []))"
  "sel dg4 r0 r1 r2 r3 = (qxor r2 [])"
  "sel dg5 r0 r1 r2 r3 = (qxor r2 (qxor r0 []))"
  "sel dg6 r0 r1 r2 r3 = (qxor r2 (qxor r1 []))"
  "sel dg7 r0 r1 r2 r3 = (qxor r2 (qxor r1 (qxor r0 [])))"
  "sel dg8 r0 r1 r2 r3 = (qxor r3 [])"
  "sel dg9 r0 r1 r2 r3 = (qxor r3 (qxor r0 []))"
  "sel dg10 r0 r1 r2 r3 = (qxor r3 (qxor r1 []))"
  "sel dg11 r0 r1 r2 r3 = (qxor r3 (qxor r1 (qxor r0 [])))"
  "sel dg12 r0 r1 r2 r3 = (qxor r3 (qxor r2 []))"
  "sel dg13 r0 r1 r2 r3 = (qxor r3 (qxor r2 (qxor r0 [])))"
  "sel dg14 r0 r1 r2 r3 = (qxor r3 (qxor r2 (qxor r1 [])))"
  "sel dg15 r0 r1 r2 r3 = (qxor r3 (qxor r2 (qxor r1 (qxor r0 []))))"
  by (simp_all add: digit_defs qadd_def)

lemmas digit_eval = qx_eval quads_eval qspread_eval qshift_eval qsum_eval sel_eval

lemmas low_eval = low_def [simplified digit_eval append.simps]

text \<open>The table, by repeated multiplication.\<close>

fun tabs :: "unit list \<Rightarrow> quad list \<Rightarrow> quad list list" where
  "tabs [] p = []"
| "tabs (u # n) p = p # tabs n (qtimes (qtimes p))"

lemma tabs_tab: "tabs us (tab n) = map tab [n..<n + length us]"
proof (induction us arbitrary: n)
  case (Cons u us)
  have "qtimes (qtimes (tab n)) = tab (Suc n)" by (simp add: tab_def)
  then show ?case using Cons [of "Suc n"] by (simp add: upt_conv_Cons del: upt_Suc)
qed simp

lemma tab_list:
  "map tab [0..<64] =
    [quads 0x653ced7f29f88a5fd66762f0e1c001 @ [dg0, dg0],
     quads 0x194f3b5fca7e2297f599d8bc3870004 @ [dg0],
     quads 0x653ced7f29f88a5fd66762f0e1c0010 @ [dg0],
     quads 0x194f3b5fca7e2297f599d8bc38700040,
     quads 0x653ced7f29f88a5fd66762f0e1c00100,
     quads 0x94968911d8cbd1f5064beca177e1c401,
     quads 0x52905d9d9d7cb6c0a6837c403e449006,
     quads 0x4a244a9b0adb2388c5db966209f38019,
     quads 0x28f41681544576a948b83eead72fc065,
     quads 0xa3d05a055115daa522e0fbab5cbf0194,
     quads 0x8f8b11cfba049b80342f2068933f8652,
     quads 0x3ee63ee416419f146f104f67ad3d994a,
     quads 0xfb98fb9059067c51bc413d9eb4f66528,
     quads 0xeeccab76e563f8d8117e5fddc2fbd4a3,
     quads 0xbb9de8ec14f5eafea583d6d01acd128f,
     quads 0xeebdda6aad845aee29a395858af7ca3e,
     quads 0xba582c9d376b622646f4ffb13afd68fb,
     quads 0xe9aacbae23fe798da47f30010a3623ee,
     quads 0xa6046b8f0e83efa8718669a339facfbb,
     quads 0x98dbd7e6c45c4fb579b568490628beee,
     quads 0x63a52641ef22cfc159796fe1f9617bba,
     quads 0x8ef1a5eac3a2c78f3a33d8e515642ee9,
     quads 0x3b0cee71f0d8ef285763ad51b4533ba6,
     quads 0xec33b9c7c363bca15d8eb546d14cee98,
     quads 0xb061a2288cf4fb1b96407cbc5411fa63,
     quads 0xc14cf178cd801d7ae6ad3c34b184698e,
     quads 0x59c80d4b77a7c757ace5975d733e63b @ [dg0],
     quads 0x16720352dde9f1d5eb3965d75ccf98ec,
     quads 0x59c80d4b77a7c757ace5975d733e63b0,
     quads 0x674509c0a1b6e5d4ec403a173c184ec1,
     quads 0x9d711beff9f26fd9eed68f3e0080fb05,
     quads 0x750e1665199a4e7304f6f23de3c06c16,
     quads 0xd45d65791940c1464c0daf957fe07059,
     quads 0x51dad0d3e4790c87d04c17f2eea38167,
     quads 0x470e7fa2eecdca951ee638a94a6fc59d,
     quads 0x1c5cc266c41ed2de244e85c7d95ed675,
     quads 0x7173099b107b4b78913a171f657b59d4,
     quads 0xc5a91a813ec4d5681b3e3b1f650ca751,
     quads 0x160b2f337a695c3e8c8245da8510dd47,
     quads 0x582cbccde9a570fa3209176a1443751c,
     quads 0x60d7cfdad9bc3b6297f23acaa1ec1471,
     quads 0x833a038619d91500001e8c48775191c5,
     quads 0xc2277c29937a514bfd6ffe43c85c716 @ [dg0],
     quads 0x3089df0a64de9452ff5bff90f2171c58,
     quads 0xc2277c29937a514bfd6ffe43c85c7160,
     quads 0x832b591cc934cb115c550a830538583 @ [dg0],
     quads 0x20cad647324d32c4571542a0c14e160c,
     quads 0x832b591cc934cb115c550a8305385830,
     quads 0xc671da9da80dd51cef8e4c9f522e0c2 @ [dg0],
     quads 0x319c76a76a0375473be39327d48b8308,
     quads 0xc671da9da80dd51cef8e4c9f522e0c20,
     quads 0x19682f41214d5ded5e439bda599a7083,
     quads 0x65a0bd04853577b5790e6f696669c20c,
     quads 0x96e7c8ff6bfc265fbbefdac76946c831,
     quads 0x5b555a2751a3686a5013a5d844d8a0c6,
     quads 0x6d30547039a459231f98f003e3834319,
     quads 0xb4a46d2d99b89c0621b5a76d7eeccc65,
     quads 0xd25bcd6c98b1810c397a53701a70b196,
     quads 0x49c07085e3bc0dae0593e46778e0865b,
     quads 0x2764fefaf1d9ce324999f6ff1363d96d,
     quads 0x9d93fbebc76738c92667dbfc4d8f65b4,
     quads 0x76859675e3cf12302633a134d7fe16d2,
     quads 0xda73653af015b04ac718e3b1af199b49,
     quads 0x6962d1dc412cc8b5fc192761ad442d27]"
proof -
  have "length [(), (), (), (), (), (), (), (), (), (), (), (), (), (), (), (), (), (), (), (), (), (), (), (), (), (), (), (), (), (), (), (), (),
    (), (), (), (), (), (), (), (), (), (), (), (), (), (), (), (), (), (), (), (), (), (), (), (), (), (), (), (), (), (), ()] = 64"
    by (simp only: list.size)
  then have eq: "map tab [0..<64] = tabs [(), (), (), (), (), (), (), (), (), (), (), (), (), (), (), (), (), (), (), (), (), (), (), (), (), (), (),
    (), (), (), (), (), (), (), (), (), (), (), (), (), (), (), (), (), (), (), (), (), (), (), (), (), (), (), (), (), (), (), (), (), (), (), (),
    ()] low"
    using tabs_tab [of "[(), (), (), (), (), (), (), (), (), (), (), (), (), (), (), (), (), (), (), (), (), (), (), (), (), (), (), (), (), (), (),
    (), (), (), (), (), (), (), (), (), (), (), (), (), (), (), (), (), (), (), (), (), (), (), (), (), (), (), (), (), (), (), (), ()]" 0] by (simp
    only: tab_def funpow.simps id_apply add_0)
  show ?thesis by (simp only: eq) (simp add: low_eval qtimes_def digit_eval)
qed

lemma upt_64: "[0..<64] = [0, 1, 2, 3, 4, 5, 6, 7, 8, 9, 10, 11, 12, 13, 14, 15, 16, 17, 18, 19, 20, 21, 22, 23, 24, 25, 26, 27, 28, 29, 30, 31, 32,
    33, 34, 35, 36, 37, 38, 39, 40, 41, 42, 43, 44, 45, 46, 47, 48, 49, 50, 51, 52, 53, 54, 55, 56, 57, 58, 59, 60, 61, 62, 63]"
  by (simp add: upt_rec)

lemmas tab_eval = tab_list [unfolded upt_64, simplified digit_eval list.map append.simps list.inject One_nat_def]

lemma qtimes_low: "qtimes low = quads 0xca79dafe53f114bfaccec5e1c38002 @ [dg0, dg0]"
  by (simp add: low_eval qtimes_def digit_eval)

lemma qtimes_tab_1: "qtimes (tab (Suc 0)) = quads 0x329e76bf94fc452feb33b17870e0008 @ [dg0]"
  by (simp add: tab_eval qtimes_def low_eval digit_eval)

lemma qzero_eval: "qzero = [dg0, dg0, dg0, dg0, dg0, dg0, dg0, dg0, dg0, dg0, dg0, dg0, dg0, dg0, dg0, dg0, dg0, dg0, dg0, dg0, dg0, dg0, dg0, dg0, dg0, dg0, dg0, dg0, dg0, dg0, dg0, dg0]"
  by (simp add: qzero_def eval_nat_numeral)

lemmas poly_eval = digit_eval tab_eval low_eval qtimes_low qtimes_tab_1 qzero_eval
  qtimes_def qtimes4_def qsquare_def qmul_def numeral_2_eq_2 [symmetric]

end
