(* ===== verification/Rand_Jump.thy ===== *)
theory Rand_Jump
  imports Rand_Poly
begin

text \<open>
  The comment on \<open>jump\<close> in \<^verbatim>\<open>src/rand.cpp\<close>: one call is as good as \<open>2 ^ 64\<close> calls of \<open>next\<close>. The step
  is a linear map over the field of two elements; it satisfies a polynomial of degree 128, and the
  constant of the code is the remainder of the power \<open>2 ^ 64\<close> of the unknown by that polynomial, which 64
  squarings compute.
\<close>

interpretation st: linear_map step
  by unfold_locales (rule step_linear)

lemma inj_step: "inj step"
  by (rule inj_on_inverseI [of _ unstep]) (rule unstep_step)

subsection \<open>The step on lists of bits\<close>

type_synonym bits2 = "bool list \<times> bool list"

definition bl :: "64 word \<Rightarrow> bool list" where
  "bl w = map (bit w) [0..<64]"

definition blp :: "rand_state \<Rightarrow> bits2" where
  "blp s = (bl (fst s), bl (snd s))"

lemma bl_nth: "i < 64 \<Longrightarrow> bl w ! i = bit w i" and length_bl [simp]: "length (bl w) = 64"
  by (simp_all add: bl_def del: upt_Suc)

lemma bl_inj: "bl v = bl w \<longleftrightarrow> v = w"
  by (auto simp: bl_def intro!: bit_word_eqI)

lemma blp_inj: "blp s = blp t \<longleftrightarrow> s = t"
  by (auto simp: blp_def bl_inj prod_eq_iff)

lemma bxor_nth:
  "length xs = length ys \<Longrightarrow> length (bxor xs ys) = length ys \<and> (\<forall>i < length ys. bxor xs ys ! i = (xs ! i \<noteq> ys ! i))"
  by (induction xs ys rule: list_induct2) (auto simp: nth_Cons split: nat.splits)

lemma bl_xor: "bl (v XOR w) = bxor (bl v) (bl w)"
  by (rule nth_equalityI) (simp_all add: bxor_nth bl_nth bit_simps)

lemma bl_rotl: "0 < k \<Longrightarrow> k < 64 \<Longrightarrow> bl (rotl w k) = drop (64 - k) (bl w) @ take (64 - k) (bl w)"
  by (rule nth_equalityI) (auto simp: bl_nth bit_rotl nth_append ac_simps)

lemma bl_push: "k \<le> 64 \<Longrightarrow> bl (push_bit k w) = replicate k False @ take (64 - k) (bl w)"
  by (rule nth_equalityI) (auto simp: bl_nth bit_simps nth_append)

definition bstep :: "bits2 \<Rightarrow> bits2" where
  "bstep s = (let t = bxor (snd s) (fst s)
     in (bxor (bxor (drop 9 (fst s) @ take 9 (fst s)) t) (replicate 14 False @ take 50 t), drop 28 t @ take 28 t))"

definition bxor2 :: "bits2 \<Rightarrow> bits2 \<Rightarrow> bits2" where
  "bxor2 s t = (bxor (fst s) (fst t), bxor (snd s) (snd t))"

lemma blp_step: "blp (step s) = bstep (blp s)"
proof (cases s)
  case (Pair a b)
  have "drop 9 (bl w) @ take 9 (bl w) = bl (rotl w 55)" "drop 28 (bl w) @ take 28 (bl w) = bl (rotl w 36)"
    "replicate 14 False @ take 50 (bl w) = bl (push_bit 14 w)" for w
    by (simp_all add: bl_rotl bl_push)
  then show ?thesis
    by (simp only: Pair blp_def bstep_def step_eq Let_def fst_conv snd_conv bl_xor [symmetric] xor.assoc)
qed

lemma blp_xor2: "blp (xor2 s t) = bxor2 (blp s) (blp t)"
  by (simp add: blp_def bxor2_def xor2_def bl_xor)

text \<open>Several polynomials at once: numbers whose bits are the coefficients, each with its sum so far.\<close>

definition adv :: "bits2 \<Rightarrow> nat \<times> bits2 \<Rightarrow> nat \<times> bits2" where
  "adv s p = (fst p div 2, if odd (fst p) then bxor2 (snd p) s else snd p)"

fun combine :: "unit list \<Rightarrow> bits2 \<Rightarrow> (nat \<times> bits2) list \<Rightarrow> bits2 \<times> bits2 list" where
  "combine [] s ps = (s, map snd ps)"
| "combine (u # us) s ps = combine us (bstep s) (map (adv s) ps)"

definition coeffs :: "nat \<Rightarrow> nat \<Rightarrow> bool list" where
  "coeffs n q = map (bit q) [0..<n]"

lemma coeffs_Suc: "coeffs (Suc n) q = odd q # coeffs n (q div 2)"
  by (simp add: coeffs_def upt_conv_Cons map_Suc_upt [symmetric] bit_0 bit_Suc comp_def del: upt_Suc)

lemma combine_ok:
  "combine us (blp s) (map (\<lambda>(q, a). (q, blp a)) ps)
     = (blp ((step ^^ length us) s), map (\<lambda>(q, a). blp (xor2 a (evp step (coeffs (length us) q) s))) ps)"
proof (induction us arbitrary: s ps)
  case Nil
  then show ?case by (simp add: coeffs_def case_prod_beta')
next
  case (Cons u us)
  let ?ps = "map (\<lambda>(q, a). (q div 2, if odd q then xor2 a s else a)) ps"
  have "map (adv (blp s)) (map (\<lambda>(q, a). (q, blp a)) ps) = map (\<lambda>(q, a). (q, blp a)) ?ps"
    by (auto simp: adv_def blp_xor2)
  then have "combine (u # us) (blp s) (map (\<lambda>(q, a). (q, blp a)) ps)
      = combine us (blp (step s)) (map (\<lambda>(q, a). (q, blp a)) ?ps)"
    by (simp only: combine.simps blp_step)
  then show ?case
    by (simp only: Cons.IH) (auto simp: funpow_swap1 coeffs_Suc xor2_ac)
qed

definition one2 :: bits2 where "one2 = blp (1, 0)"
definition zero2 :: bits2 where "zero2 = blp (0, 0)"

definition unit2 :: "nat \<Rightarrow> bits2" where
  "unit2 i = (map (\<lambda>k. k = i) [0..<64], map (\<lambda>k. False) [0..<64 :: nat])"

lemma unit2: "i < 64 \<Longrightarrow> blp (push_bit i 1, 0) = unit2 i"
  by (auto simp: blp_def bl_def unit2_def bit_simps)

definition ticks :: "unit list" where
  "ticks = [(), (), (), (), (), (), (), (), (), (), (), (), (), (), (), (), (), (), (), (), (), (), (), (), (), (), (), (), (), (), (), (), (), (),
    (), (), (), (), (), (), (), (), (), (), (), (), (), (), (), (), (), (), (), (), (), (), (), (), (), (), (), (), (), (), (), (), (), (), (), (),
    (), (), (), (), (), (), (), (), (), (), (), (), (), (), (), (), (), (), (), (), (), (), (), (), (), (), (), (), (), (), (), (), (), (), (), (),
    (), (), (), (), (), (), (), (), (), (), (), (), (), (), (), (), (), (), (), (), (), ()]"

lemma length_ticks: "length ticks = 128"
  by (simp only: ticks_def list.size)

lemma combine_units:
  assumes "snd (combine ticks one2 (map (\<lambda>q. (q, zero2)) qs)) = map unit2 [m..<n]" "i \<in> {m..<n}" "n \<le> 64"
  shows "\<exists>q. evp step q (1, 0) = (push_bit i 1, 0)"
proof -
  have "map (\<lambda>q. (q, zero2)) qs = map (\<lambda>(q, a). (q, blp a)) (map (\<lambda>q. (q, (0, 0))) qs)"
    by (simp add: zero2_def)
  then have "snd (combine ticks one2 (map (\<lambda>q. (q, zero2)) qs)) = map (\<lambda>q. blp (evp step (coeffs 128 q) (1, 0))) qs"
    unfolding one2_def by (simp only: combine_ok) (simp add: length_ticks comp_def)
  then have eq: "map (\<lambda>q. blp (evp step (coeffs 128 q) (1, 0))) qs = map unit2 [m..<n]"
    using assms(1) by simp
  then have len: "length qs = n - m" by (metis length_map length_upt)
  let ?j = "i - m"
  have j: "?j < length qs" "m + ?j = i" using assms(2) len by auto
  have "blp (evp step (coeffs 128 (qs ! ?j)) (1, 0)) = unit2 i"
    using arg_cong [OF eq, of "\<lambda>xs. xs ! ?j"] j assms(2) by simp
  then have "blp (evp step (coeffs 128 (qs ! ?j)) (1, 0)) = blp (push_bit i 1, 0)"
    using unit2 [of i] assms(2,3) by simp
  then show ?thesis by (auto simp: blp_inj)
qed

subsection \<open>The equation of the step\<close>

text \<open>Every state with one bit in its first word is a polynomial in the step applied to the first of them.\<close>

lemma adv_simps:
  "adv s (0, a) = (0, a)"
  "adv s (Suc 0, a) = (0, bxor2 a s)"
  "adv s (numeral (Num.Bit0 k), a) = (numeral k, a)"
  "adv s (numeral (Num.Bit1 k), a) = (numeral k, bxor2 a s)"
  by (simp_all add: adv_def)

lemma bxor_simps:
  "bxor (True # xs) (True # ys) = False # bxor xs ys"
  "bxor (True # xs) (False # ys) = True # bxor xs ys"
  "bxor (False # xs) (y # ys) = y # bxor xs ys"
  by simp_all

lemma replicate_14: "replicate 14 False = [False, False, False, False, False, False, False, False, False, False, False, False, False, False]"
  by (simp add: eval_nat_numeral)

lemma one2_bits: "one2 = unit2 0"
  using unit2 [of 0] by (simp add: one2_def)

lemma zero2_bits: "zero2 = (map (\<lambda>k. False) [0..<64 :: nat], map (\<lambda>k. False) [0..<64 :: nat])"
  by (simp add: zero2_def blp_def bl_def)

lemma upt_16: "[0..<16] = [0, 1, 2, 3, 4, 5, 6, 7, 8, 9, 10, 11, 12, 13, 14, 15]"
  by (simp add: upt_rec)

lemmas bits_eval = ticks_def one2_bits zero2_bits unit2_def bstep_def bxor2_def adv_simps bxor_simps replicate_14 upt_16 upt_64

lemma units_0: "snd (combine ticks one2 (map (\<lambda>q. (q, zero2))
   [0x1,
    0x582cddd6c2e2fc1e7aef2116af128531,
    0xc834f1ab6b3acbfed78eda48b091174f,
    0x8403b9e0ab28324701f00977d58dff97,
    0x90fc55044c0c374127274b37d7f5fb2e,
    0x5de710ce0e689936807138067a450a1c,
    0x624ce87c6d98788e1029b193540bec3d,
    0xa2812ac345f908791c07034fa907bdb4,
    0x5405e637b7f7e689ddaa9dc01dfd649,
    0x71d6c347184410c4eec27c136f673b72,
    0x1ab1b412004c968d2246d4ab0cb37f33,
    0x1fd2a8327936fc1dd68dd6d72ea24c37,
    0xfc0f61c07fd1eea8b17a977961727855,
    0xe480f5b9fbdc9a5055917b7f33476dff,
    0x25c23e69de337bfb3c7b0eccf579d5ce,
    0x9eaab3ac57c3bbf8613030e1e56a9ba2])) = map unit2 [0..<16]"
  by (simp add: bits_eval del: bxor.simps(3))

lemma units_1: "snd (combine ticks one2 (map (\<lambda>q. (q, zero2))
   [0x36cded7716ab9d4962f5f89d31cf15a7,
    0xa2098ac40205d4da50f7f9ecb7d412e,
    0xc47f492bbf72b5e5c5fa6e0d9e359925,
    0xf3fd3cdc79a32cde1d5986407cef43df,
    0x39b3e87432915994229c51f6c7ce0e00,
    0x4066c2c2455c97a22fe69dd1a14efdb5,
    0x6a9eb6041bb49374f0791a6136f0bfc8,
    0x15e8f064c68ca06d71fe074dcd6805e1,
    0x1af3052dbef3e6ca1e586c85a5df1fe0,
    0x9868e8459c439a59f85ac31fdb471288,
    0x42743f896183ae4c5610ef08e68cc033,
    0xc045479df871241c408cfda25b8013a8,
    0xff6f16926f3aaa4c7ecf31c5dbf8e32b,
    0x3906ee99917b0bc879b423e26089a2bd,
    0x2b32295a5deacef0b1f70c4a74304467,
    0xe18e9e6e4a0f9a0fc00636420d8ee3bd])) = map unit2 [16..<32]"
  by (simp add: bits_eval del: bxor.simps(3))

lemma units_2: "snd (combine ticks one2 (map (\<lambda>q. (q, zero2))
   [0xdcada49293f03208c3f5f641b98ad8c1,
    0xf1e509d0ba372a1e431be0d999b35130,
    0x391b65ce07508fd4900a60408d08555f,
    0x422d71f98ad6df062c22c1fb847cada7,
    0x99a054a25a10f122fcb25dcb051277e4,
    0x57c23ca22739e435e343b0c4cbde3170,
    0x2a899e005e12f5f2e49c399f567cdece,
    0x1dbaf834f6ca54022ab0b0aff1eded9f,
    0xc958ba2aac3708a91ee228692cb4aceb,
    0x9bd27a3f38f7ce9c9665de0f3bd4e133,
    0x1c3bc173b45c5aae1e721636f6a2935c,
    0x45d8782d1c14c094dc4830e06c41b6fc,
    0x19500cdf8936a9c1dc94958a729547a0,
    0xcb439ffcc348e9b13ce1ad9dfe487384,
    0x46ec1a9c6f585359f3dde80c7af7033c,
    0x656f2eb8532b2f78260c7ee1b30ebef9])) = map unit2 [32..<48]"
  by (simp add: bits_eval del: bxor.simps(3))

lemma units_3: "snd (combine ticks one2 (map (\<lambda>q. (q, zero2))
   [0x4cecfaa8f101813ce10a5370e0f06195,
    0x99c3f3dd2ebe3d3666547bf3c77728f3,
    0x115e78f20e8a47cdeeac6205bad07fc,
    0xf6cd0e45a1a06a939a22af2a908d6bc9,
    0xf0090816ade5011864ca1ed2b9461c44,
    0xf6076f96358b57515c8755f8689c5556,
    0x843e4fba54ae70b0a29f89e87b76b11f,
    0xdc40c905781b18d7e08f2dd6ddababfd,
    0xde98fc4abfd4f28c1dce484d4a0fb414,
    0xd8cdb45dfdf6b593b21deaf90ed503e7,
    0xe501c8fa5da3c31a569065ff68fae3a,
    0x4cb3e1a122eb2d47224fd4ce44c96963,
    0x60623b8ea581ac5845bed8d46d4130a8,
    0xfbaf956b6d7e1fa72d19651901a90183,
    0x7ee7d5d654560c98ef9fcc12f812873b,
    0xdd2a7ef465fc2bcab37826c3fc4b3460])) = map unit2 [48..<64]"
  by (simp add: bits_eval del: bxor.simps(3))

lemma low_coeffs: "qbits low = coeffs 128 0x653ced7f29f88a5fd66762f0e1c001"
  by (simp add: low_eval digit_defs coeffs_def upt_rec bit_one_simps)

lemma low_solves_one: "snd (combine ticks one2 [(0x653ced7f29f88a5fd66762f0e1c001, zero2)])
    = [fst (combine ticks one2 [(0x653ced7f29f88a5fd66762f0e1c001, zero2)])]"
  by (simp add: bits_eval del: bxor.simps(3))

lemma solves_one: "st.solves 128 (qbits low) (1, 0)"
proof -
  let ?q = "0x653ced7f29f88a5fd66762f0e1c001 :: nat"
  have "combine ticks one2 [(?q, zero2)] = (blp ((step ^^ 128) (1, 0)), [blp (evp step (coeffs 128 ?q) (1, 0))])"
    using combine_ok [of ticks "(1, 0)" "[(?q, (0, 0))]"] by (simp add: one2_def zero2_def length_ticks)
  then have "blp ((step ^^ 128) (1, 0)) = blp (evp step (coeffs 128 ?q) (1, 0))"
    using low_solves_one by simp
  then show ?thesis by (simp only: blp_inj st.solves_def low_coeffs)
qed

lemma solves_bit:
  assumes "i < 64"
  shows "st.solves 128 (qbits low) (push_bit i 1, 0)"
proof -
  have "i \<in> {0..<16} \<or> i \<in> {16..<32} \<or> i \<in> {32..<48} \<or> i \<in> {48..<64}" using assms by auto
  then have "\<exists>q. evp step q (1, 0) = (push_bit i 1, 0)"
    using combine_units [OF units_0, where i = i] combine_units [OF units_1, where i = i]
      combine_units [OF units_2, where i = i] combine_units [OF units_3, where i = i]
    by (elim disjE) simp_all
  then obtain q where "evp step q (1, 0) = (push_bit i 1, 0)" ..
  then show ?thesis using st.solves_evp [OF solves_one, of q] by simp
qed

lemma solves_first: "st.solves 128 (qbits low) (a, 0)"
proof -
  have "n \<le> 64 \<Longrightarrow> st.solves 128 (qbits low) (take_bit n a, 0)" for n
  proof (induction n)
    case (Suc n)
    have "take_bit (Suc n) a = take_bit n a XOR (if bit a n then push_bit n 1 else 0)"
      by (rule bit_word_eqI) (auto simp: bit_simps less_Suc_eq)
    then have "(take_bit (Suc n) a, 0) = xor2 (take_bit n a, 0) (if bit a n then push_bit n 1 else 0, 0)"
      by (simp add: xor2_def)
    moreover have "st.solves 128 (qbits low) (if bit a n then push_bit n 1 else 0, 0)"
      using solves_bit [of n] Suc.prems by simp
    ultimately show ?case using st.solves_xor2 Suc by simp
  qed simp
  from this [of 64] show ?thesis by (simp add: take_bit_word_eq_self)
qed

lemma solves_all: "st.solves 128 (qbits low) (a, b)"
proof -
  let ?x = "rotl b 28"
  have "rotl ?x 36 = b" using rotl_rotl [of 28 b] by simp
  then obtain w where w: "step (?x, 0) = (w, b)" by (simp add: step_eq)
  have "(a, b) = xor2 (xor2 a' b') c" if "a' = (a, 0)" "b' = (w, 0)" "c = (w, b)" for a' b' c :: rand_state
    using that by (simp add: xor2_def xor_undo)
  then show ?thesis
    using st.solves_xor2 st.solves_f [OF solves_first [of ?x]] solves_first w by metis
qed

interpretation re: recurrence step
  by unfold_locales (use solves_all in \<open>auto simp: st.solves_def\<close>)

subsection \<open>A jump is \<open>2 ^ 64\<close> steps\<close>

text \<open>The unknown, and the remainders of its powers \<open>2 ^ 16\<close>, \<open>2 ^ 32\<close>, \<open>2 ^ 48\<close> and \<open>2 ^ 64\<close>.\<close>

definition lin :: "quad list" where
  "lin = dg2 # replicate 31 dg0"

lemma lin_eval: "lin = [dg2, dg0, dg0, dg0, dg0, dg0, dg0, dg0, dg0, dg0, dg0, dg0, dg0, dg0, dg0, dg0, dg0, dg0, dg0, dg0, dg0, dg0, dg0, dg0, dg0, dg0, dg0, dg0, dg0, dg0, dg0, dg0]"
  by (simp add: lin_def eval_nat_numeral)

lemma val_lin: "re.val lin 1"
  by (simp add: re.val_def lin_eval digit_defs)

lemma pow16: "(g ^^ 16) x = g (g (g (g (g (g (g (g (g (g (g (g (g (g (g (g x)))))))))))))))"
  by (simp add: eval_nat_numeral)

lemma power_16: "(qsquare ^^ 16) lin = quads 0x2dcb073daf1ce6601e7aadfc624d3a05"
  by (simp add: pow16 lin_eval poly_eval)

lemma power_32: "(qsquare ^^ 16) (quads 0x2dcb073daf1ce6601e7aadfc624d3a05) = quads 0x1a5037803d7c09bb6d5c8d1a4b1a701e"
  by (simp add: pow16 lin_eval poly_eval)

lemma power_48: "(qsquare ^^ 16) (quads 0x1a5037803d7c09bb6d5c8d1a4b1a701e) = quads 0x5a01777ce2fb65b136f191bfb7ba6a97"
  by (simp add: pow16 lin_eval poly_eval)

lemma power_64: "(qsquare ^^ 16) (quads 0x5a01777ce2fb65b136f191bfb7ba6a97) = quads 0xd86b048b86aa9922beac0467eba5facb"
  by (simp add: pow16 lin_eval poly_eval)

lemma val_64: "re.val (quads 0xd86b048b86aa9922beac0467eba5facb) (2 ^ 64)"
  using re.val_power [OF re.val_power [OF re.val_power [OF re.val_power [OF val_lin, of 16], of 16], of 16], of 16]
  by (simp only: power_16 power_32 power_48 power_64) simp

lemma evp_filter: "evp f (map p [0..<n]) s = xsum (map (\<lambda>i. (f ^^ i) s) (filter p [0..<n]))"
  by (induction n) (auto simp: evp_append xsum_append)

lemma upt_128: "[0..<128] = [0, 1, 2, 3, 4, 5, 6, 7, 8, 9, 10, 11, 12, 13, 14, 15, 16, 17, 18, 19, 20, 21, 22, 23, 24, 25, 26, 27, 28, 29, 30, 31, 32,
    33, 34, 35, 36, 37, 38, 39, 40, 41, 42, 43, 44, 45, 46, 47, 48, 49, 50, 51, 52, 53, 54, 55, 56, 57, 58, 59, 60, 61, 62, 63, 64, 65, 66, 67, 68,
    69, 70, 71, 72, 73, 74, 75, 76, 77, 78, 79, 80, 81, 82, 83, 84, 85, 86, 87, 88, 89, 90, 91, 92, 93, 94, 95, 96, 97, 98, 99, 100, 101, 102, 103,
    104, 105, 106, 107, 108, 109, 110, 111, 112, 113, 114, 115, 116, 117, 118, 119, 120, 121, 122, 123, 124, 125, 126, 127]"
  by (simp add: upt_rec)

lemma jump_coeffs: "map (\<lambda>i. bit (JUMP ! (i div 64)) (i mod 64)) [0..<128] = qbits (quads 0xd86b048b86aa9922beac0467eba5facb)"
  by (simp add: JUMP_def upt_128 quads_eval digit_defs)

lemma jump_power: "jump s = (step ^^ (2 ^ 64)) s"
  using val_64 by (simp only: re.val_def jump_eq_poly jump_poly_def jump_coeffs [symmetric] evp_filter)

lemma funpow_iterate: "f = g ^^ m \<Longrightarrow> (f ^^ k) s = (g ^^ (k * m)) s" for f g :: "rand_state \<Rightarrow> rand_state"
  by (simp add: funpow_mult mult.commute)

lemma jump_iterate: "(jump ^^ k) s = (step ^^ (k * 2 ^ 64)) s"
proof -
  have "jump = step ^^ (2 ^ 64)" using jump_power by blast
  then show ?thesis by (rule funpow_iterate)
qed

lemma nth_output_shift: "nth_output ((step ^^ m) s) n = nth_output s (m + n)"
  by (simp add: nth_output_def funpow_add add.commute [of m])

text \<open>(C20) One call of \<open>jump\<close> is equivalent to \<open>2 ^ 64\<close> calls of \<open>next\<close>, as its comment promises: the state
  is the one they reach, so a generator jumped \<open>k\<close> times produces the outputs of the original one from
  the position \<open>k * 2 ^ 64\<close> on, without running through those before.\<close>

theorem jump_is_2_64_steps:
  "jump s = (step ^^ (2 ^ 64)) s \<and> nth_output ((jump ^^ k) s) n = nth_output s (k * 2 ^ 64 + n)"
proof
  show "jump s = (step ^^ (2 ^ 64)) s" by (rule jump_power)
  show "nth_output ((jump ^^ k) s) n = nth_output s (k * 2 ^ 64 + n)" by (simp only: jump_iterate nth_output_shift)
qed

end
