(* ===== verification/Rand_Period.thy ===== *)
theory Rand_Period
  imports Rand_Jump
begin

text \<open>
  The full period of the generator of \<^verbatim>\<open>src/rand.cpp\<close>: from any state but zero, \<open>next\<close> runs through all
  \<open>2 ^ 128 - 1\<close> of them before it returns, so that jumped generators do not overlap. The number
  of steps is a product of nine primes, and no state is fixed by the quotient by any of them.
\<close>

subsection \<open>Periods\<close>

definition period :: "('a \<Rightarrow> 'a) \<Rightarrow> 'a \<Rightarrow> nat \<Rightarrow> bool" where
  "period f s D \<longleftrightarrow> 0 < D \<and> (f ^^ D) s = s \<and> (\<forall>d. 0 < d \<and> d < D \<longrightarrow> (f ^^ d) s \<noteq> s)"

lemma periodI: "0 < D \<Longrightarrow> (f ^^ D) s = s \<Longrightarrow> (\<And>d. 0 < d \<Longrightarrow> d < D \<Longrightarrow> (f ^^ d) s \<noteq> s) \<Longrightarrow> period f s D"
  by (simp add: period_def)

lemma periodD: "period f s D \<Longrightarrow> 0 < D" "period f s D \<Longrightarrow> (f ^^ D) s = s"
    "period f s D \<Longrightarrow> (f ^^ d) s = s \<Longrightarrow> d < D \<Longrightarrow> d = 0"
  by (auto simp: period_def)

lemma funpow_multiple: "(f ^^ D) s = s \<Longrightarrow> (f ^^ (D * k)) s = s" for f :: "'a \<Rightarrow> 'a"
  by (induction k) (simp_all add: funpow_add)

lemma period_dvd:
  assumes "period f s D"
  shows "(f ^^ n) s = s \<longleftrightarrow> D dvd n"
proof
  assume n: "(f ^^ n) s = s"
  have "(f ^^ (n mod D + D * (n div D))) s = s" using n by simp
  then have "(f ^^ (n mod D)) ((f ^^ (D * (n div D))) s) = s" by (simp only: funpow_add comp_apply)
  then have "(f ^^ (n mod D)) s = s"
    using assms funpow_multiple [of D f s "n div D"] by (simp only: period_def)
  moreover have "n mod D < D" using assms by (simp add: period_def)
  ultimately have "n mod D = 0" by (rule periodD(3) [OF assms])
  then show "D dvd n" by (simp add: dvd_eq_mod_eq_0)
qed (use funpow_multiple [OF periodD(2) [OF assms]] in \<open>auto elim!: dvdE\<close>)

lemma period_exists:
  assumes "0 < n" "(f ^^ n) s = s"
  obtains D where "period f s D" "D dvd n"
proof -
  define D where "D = (LEAST d. 0 < d \<and> (f ^^ d) s = s)"
  have D: "0 < D \<and> (f ^^ D) s = s" unfolding D_def by (rule LeastI [of _ n]) (use assms in simp)
  have "(f ^^ d) s \<noteq> s" if "0 < d" "d < D" for d
    using not_less_Least [OF that(2) [unfolded D_def]] that(1) by simp
  with D have P: "period f s D" by (intro periodI) simp_all
  show ?thesis by (rule that [OF P]) (simp add: period_dvd [OF P, symmetric] assms(2))
qed

lemma period_distinct:
  assumes "period f s D" "i < j" "j < i + D"
  shows "(f ^^ i) s \<noteq> (f ^^ j) s"
proof
  assume eq: "(f ^^ i) s = (f ^^ j) s"
  have D: "0 < D" using assms(1) by (simp add: period_def)
  then have le: "i \<le> D * i" by (cases D) simp_all
  let ?k = "D * i - i"
  have "(f ^^ (?k + i)) s = (f ^^ (?k + j)) s" using eq by (simp add: funpow_add)
  moreover have "(f ^^ (?k + i)) s = s" using le funpow_multiple [of D f s i] assms(1) by (simp add: period_def)
  ultimately have "D dvd ?k + j" using period_dvd [OF assms(1)] by metis
  then have "D dvd D * i + (j - i)" using assms(2) le by (simp add: algebra_simps)
  then have "D dvd j - i" using dvd_add_right_iff [of D "D * i" "j - i"] by simp
  then show False using assms(2,3) by (auto dest: dvd_imp_le)
qed

subsection \<open>Primes\<close>

definition indivisible :: "nat \<Rightarrow> bool" where
  "indivisible p \<longleftrightarrow> 1 < p \<and> (\<forall>d. d dvd p \<longrightarrow> d = 1 \<or> d = p)"

lemma indivisible_divisor:
  assumes "1 < n"
  obtains q where "indivisible q" "q dvd n"
proof -
  let ?q = "LEAST d. 1 < d \<and> d dvd n"
  have q: "1 < ?q \<and> ?q dvd n" by (rule LeastI [of _ n]) (use assms in simp)
  have "d = 1 \<or> d = ?q" if "d dvd ?q" for d
  proof (rule ccontr)
    assume "\<not> (d = 1 \<or> d = ?q)"
    moreover have "0 < ?q" using q by linarith
    then have "0 < d" "d \<le> ?q" using that by (blast intro: dvd_pos_nat, blast intro: dvd_imp_le)
    ultimately have d: "1 < d" "d < ?q" by linarith+
    then have "\<not> (1 < d \<and> d dvd n)" using not_less_Least by blast
    then show False using d that q by (blast intro: dvd_trans)
  qed
  then show ?thesis using that q by (auto simp: indivisible_def)
qed

lemma indivisible_mult:
  assumes "indivisible q" "q dvd a * b"
  shows "q dvd a \<or> q dvd b"
proof -
  have "gcd q a = 1 \<or> gcd q a = q" using assms(1) by (simp add: indivisible_def)
  then show ?thesis
  proof
    assume "gcd q a = 1"
    then have "coprime q a" by (simp add: coprime_iff_gcd_eq_1)
    then show ?thesis using assms(2) by (simp add: coprime_dvd_mult_right_iff)
  next
    assume "gcd q a = q"
    then show ?thesis by (metis gcd_dvd2)
  qed
qed

lemma indivisible_prod_list:
  "indivisible q \<Longrightarrow> q dvd prod_list ps \<Longrightarrow> \<exists>p \<in> set ps. q dvd p"
  by (induction ps) (use indivisible_mult in \<open>auto simp: indivisible_def\<close>)

text \<open>Trial division.\<close>

lemma small_divisor:
  assumes "1 < m" "\<not> indivisible m"
  obtains q where "indivisible q" "q dvd m" "q * q \<le> m"
proof -
  obtain d where d: "d dvd m" "d \<noteq> 1" "d \<noteq> m" using assms by (auto simp: indivisible_def)
  then obtain e where m: "m = d * e" by (auto elim: dvdE)
  then have "d \<noteq> 0" "e \<noteq> 0" "e \<noteq> 1" using d(3) assms(1) by (metis mult_0 not_one_less_zero, metis mult_0_right not_one_less_zero, auto)
  then have de: "1 < d" "1 < e" using d(2) by linarith+
  obtain c where c: "1 < c" "c dvd m" "c * c \<le> m"
  proof (cases "d \<le> e")
    case True
    then show ?thesis using that [of d] m de by simp
  next
    case False
    then show ?thesis using that [of e] m de by simp
  qed
  obtain q where q: "indivisible q" "q dvd c" using indivisible_divisor c(1) .
  then have "q \<le> c" using c(1) by (simp add: dvd_imp_le)
  then have "q * q \<le> m" using c(3) mult_le_mono [of q c q c] by simp
  then show ?thesis using that q c(2) by (blast intro: dvd_trans)
qed

function undivided :: "nat \<Rightarrow> nat \<Rightarrow> nat \<Rightarrow> bool" where
  "undivided m a k = (if k \<le> a then True else if m mod a = 0 then False else undivided m (a + 2) k)"
  by pat_completeness auto
termination
  by (relation "measure (\<lambda>(m, a, k). k - a)") auto

declare undivided.simps [simp del]

lemma undivided: "undivided m a k \<Longrightarrow> odd a \<Longrightarrow> odd d \<Longrightarrow> a \<le> d \<Longrightarrow> d < k \<Longrightarrow> m mod d \<noteq> 0"
proof (induction m a k rule: undivided.induct)
  case (1 m a k)
  have "d = a \<or> a + 2 \<le> d" using "1.prems"(2,3,4) by presburger
  then show ?case using 1 by (auto simp: undivided.simps [of m a k] split: if_splits)
qed

lemma trial_division:
  assumes "1 < m" "odd m" "undivided m 3 k" "m < k * k"
  shows "indivisible m"
proof (rule ccontr)
  assume "\<not> indivisible m"
  with assms(1) obtain q where q: "indivisible q" "q dvd m" "q * q \<le> m" by (rule small_divisor)
  then have "q < k" using assms(4) by (metis le_less_trans mult_le_mono not_le)
  moreover have "odd q" using q(2) assms(2) by (meson dvd_trans)
  moreover have "q \<noteq> 1" "q \<noteq> 0" using q(1) by (auto simp: indivisible_def)
  then have "3 \<le> q" using \<open>odd q\<close> by presburger
  ultimately have "m mod q \<noteq> 0" using undivided [OF assms(3)] by simp
  then show False using q(2) by simp
qed

lemma full_period:
  assumes "(f ^^ N) s = s" "0 < N" "N = prod_list ps"
    and ps: "\<And>p. p \<in> set ps \<Longrightarrow> indivisible p \<and> (f ^^ (N div p)) s \<noteq> s"
  shows "period f s N"
proof -
  obtain D where D: "period f s D" "D dvd N" using period_exists assms(1,2) by metis
  have "D = N"
  proof (rule ccontr)
    assume "D \<noteq> N"
    obtain k where k: "N = D * k" using D(2) by (auto elim: dvdE)
    then have "1 < k" using \<open>D \<noteq> N\<close> assms(2) by (cases k) auto
    then obtain q where q: "indivisible q" "q dvd k" by (rule indivisible_divisor)
    then have "q dvd prod_list ps" using k assms(3) by (metis dvd_mult)
    then obtain p where p: "p \<in> set ps" "q dvd p" using indivisible_prod_list q(1) by blast
    then have "q = p" using ps [of p] q(1) by (auto simp: indivisible_def)
    moreover have "D dvd N div q" using q k by (auto simp: indivisible_def elim!: dvdE)
    ultimately show False using ps [OF p(1)] period_dvd [OF D(1)] by simp
  qed
  then show ?thesis using D(1) by simp
qed

text \<open>Orders modulo a prime: a prime factor of the exponent that cannot be taken out divides the order.\<close>

lemma order_divisor:
  assumes D: "period f s D" and n: "(f ^^ n) s = s" "r dvd n" and r: "indivisible r" "(f ^^ (n div r)) s \<noteq> s"
  shows "r dvd D"
proof -
  obtain k where k: "n = D * k" using n(1) period_dvd [OF D] by (auto elim: dvdE)
  have "\<not> r dvd k"
  proof
    assume "r dvd k"
    then have "D dvd n div r" using r(1) by (auto simp: k indivisible_def elim!: dvdE)
    then show False using r(2) by (simp add: period_dvd [OF D])
  qed
  then show ?thesis using indivisible_mult [OF r(1)] n(2) k by blast
qed

lemma funpow_power_mod: "((\<lambda>x. a * x mod q) ^^ n) (1 mod q) = a ^ n mod q" for a q :: nat
  by (induction n) (simp_all add: mod_mult_right_eq)

lemma order_bound:
  fixes a q :: nat
  assumes "1 < q" "coprime a q" "period (\<lambda>x. a * x mod q) (1 mod q) D"
  shows "D < q"
proof -
  let ?f = "\<lambda>i. ((\<lambda>x. a * x mod q) ^^ i) (1 mod q)"
  have "inj_on ?f {..<D}"
  proof (rule linorder_inj_onI)
    show "?f i \<noteq> ?f j" if "i < j" "i \<in> {..<D}" "j \<in> {..<D}" for i j
      using period_distinct [OF assms(3) that(1)] that by simp
  qed auto
  moreover have "?f ` {..<D} \<subseteq> {1..<q}"
  proof -
    have "?f i \<in> {1..<q}" for i
    proof -
      have "a ^ i mod q \<noteq> 0"
      proof
        assume "a ^ i mod q = 0"
        then have "q dvd a ^ i" by (simp add: dvd_eq_mod_eq_0)
        moreover have "coprime (a ^ i) q" using assms(2) by simp
        ultimately show False using assms(1) by (metis coprime_absorb_right nat_dvd_1_iff_1 nat_neq_iff)
      qed
      then show ?thesis using assms(1) by (simp only: funpow_power_mod) simp
    qed
    then show ?thesis by blast
  qed
  ultimately have "card {..<D} \<le> card {1..<q}" by (intro card_inj_on_le) auto
  then show ?thesis using assms(1) by simp
qed

text \<open>The power of a number modulo another.\<close>

definition pow_mod :: "nat \<Rightarrow> nat \<Rightarrow> nat \<Rightarrow> nat" where
  "pow_mod m a n = a ^ n mod m"

text \<open>A number is prime when the order of some \<open>a\<close> modulo each of its divisors is more than its root.\<close>

lemma prime_by_order:
  fixes a m :: nat
  assumes "1 < m" "pow_mod m a (m - 1) = 1" and r: "indivisible r1" "indivisible r2" "r1 \<noteq> r2" "r1 dvd m - 1" "r2 dvd m - 1"
    and c: "pow_mod m a ((m - 1) div r1) = c1" "pow_mod m a ((m - 1) div r2) = c2"
    and u: "u1 * (c1 + (m - 1)) mod m = 1" "u2 * (c2 + (m - 1)) mod m = 1"
    and big: "m < r1 * r2 * (r1 * r2)"
  shows "indivisible m"
proof (rule ccontr)
  assume "\<not> indivisible m"
  with assms(1) obtain q where q: "indivisible q" "q dvd m" "q * q \<le> m" by (rule small_divisor)
  then have q1: "1 < q" by (simp add: indivisible_def)
  let ?f = "\<lambda>x. a * x mod q"
  have modq: "x mod m = y \<Longrightarrow> x mod q = y mod q" for x y using q(2) by (metis mod_mod_cancel)
  have one: "a ^ (m - 1) mod q = 1" using modq [OF assms(2) [unfolded pow_mod_def]] q1 by simp
  have "gcd a q dvd 1"
  proof -
    have "gcd a q dvd a ^ (m - 1)" using assms(1) by (metis dvd_power dvd_trans gcd_dvd1 zero_less_diff)
    then have "gcd a q dvd a ^ (m - 1) mod q" by (simp add: dvd_mod)
    then show ?thesis using one by simp
  qed
  then have cop: "coprime a q" by (simp add: coprime_iff_gcd_eq_1)
  have "(?f ^^ (m - 1)) (1 mod q) = a ^ (m - 1) mod q" by (rule funpow_power_mod)
  also have "\<dots> = 1 mod q" using one q1 by simp
  finally have fixed: "(?f ^^ (m - 1)) (1 mod q) = 1 mod q" .
  have "0 < m - 1" using assms(1) by simp
  then obtain D where D: "period ?f (1 mod q) D" using fixed by (rule period_exists)
  have "r dvd D" if "indivisible r" "r dvd m - 1" "u * (pow_mod m a ((m - 1) div r) + (m - 1)) mod m = 1" for r u
  proof (rule order_divisor [OF D fixed that(2,1)])
    show "(?f ^^ ((m - 1) div r)) (1 mod q) \<noteq> 1 mod q"
    proof
      let ?x = "a ^ ((m - 1) div r)"
      assume "(?f ^^ ((m - 1) div r)) (1 mod q) = 1 mod q"
      moreover have "(?f ^^ ((m - 1) div r)) (1 mod q) = ?x mod q" by (rule funpow_power_mod)
      ultimately have x: "?x mod q = 1" using q1 by simp
      have "(?x mod m) mod q = 1" using x q(2) by (simp add: mod_mod_cancel)
      then have "(?x mod m + (m - 1)) mod q = (1 + (m - 1)) mod q" using q1 by (metis mod_add_left_eq mod_less)
      also have "\<dots> = 0" using assms(1) q(2) by simp
      finally have "(u * (?x mod m + (m - 1))) mod q = 0" by (metis mod_mult_right_eq mult_0_right mod_0)
      then show False using modq [OF that(3) [unfolded pow_mod_def]] q1 by simp
    qed
  qed
  then have "r1 dvd D" "r2 dvd D" using r u c by blast+
  moreover have "coprime r1 r2"
  proof -
    have "gcd r1 r2 = 1 \<or> gcd r1 r2 = r1" "gcd r1 r2 = 1 \<or> gcd r1 r2 = r2" using r(1,2) by (simp_all add: indivisible_def)
    then show ?thesis using r(3) by (auto simp: coprime_iff_gcd_eq_1)
  qed
  ultimately have "r1 * r2 dvd D" by (simp add: divides_mult)
  then have "r1 * r2 \<le> D" using periodD(1) [OF D] by (simp add: dvd_imp_le)
  then have "r1 * r2 < q" using order_bound [OF q1 cop D] by simp
  then have "r1 * r2 * (r1 * r2) < q * q" by (intro mult_strict_mono) auto
  then show False using big q(3) by simp
qed

text \<open>Powers by repeated squaring.\<close>

definition sq_mod :: "nat \<Rightarrow> nat \<Rightarrow> nat" where
  "sq_mod m x = x * x mod m"

lemma pow_mod_eval:
  "pow_mod m a (Suc 0) = a mod m"
  "pow_mod m a (numeral Num.One) = a mod m"
  "pow_mod m a (numeral (Num.Bit0 k)) = sq_mod m (pow_mod m a (numeral k))"
  "pow_mod m a (numeral (Num.Bit1 k)) = a * sq_mod m (pow_mod m a (numeral k)) mod m"
proof -
  have p: "a ^ numeral (Num.Bit0 k) = a ^ numeral k * a ^ numeral k" "a ^ numeral (Num.Bit1 k) = a * (a ^ numeral k * a ^ numeral k)"
    by (simp_all only: numeral_Bit0 numeral_Bit1 power_add power_one_right mult.commute [of a])
  show "pow_mod m a (Suc 0) = a mod m" "pow_mod m a (numeral Num.One) = a mod m" by (simp_all add: pow_mod_def)
  show "pow_mod m a (numeral (Num.Bit0 k)) = sq_mod m (pow_mod m a (numeral k))"
    unfolding pow_mod_def sq_mod_def p by (simp only: mod_mult_eq)
  have "a * (x * x) mod m = a * ((x mod m) * (x mod m) mod m) mod m" for x
    by (metis mod_mult_eq mod_mult_right_eq)
  then show "pow_mod m a (numeral (Num.Bit1 k)) = a * sq_mod m (pow_mod m a (numeral k)) mod m"
    unfolding pow_mod_def sq_mod_def p .
qed

lemmas mod_eval = pow_mod_eval sq_mod_def

lemma primes_small: "indivisible 3" "indivisible 5" "indivisible 17" "indivisible 257" "indivisible 641" "indivisible 17449"
  using trial_division [of 3 2] trial_division [of 5 3] trial_division [of 17 5] trial_division [of 257 17]
    trial_division [of 641 26] trial_division [of 17449 133]
  by (simp_all add: undivided.simps)

lemma prime_65537: "indivisible 65537"
  by (rule trial_division [where k = 257]) (simp_all add: undivided.simps)

lemma prime_274177: "indivisible 274177"
  by (rule trial_division [where k = 524]) (simp_all add: undivided.simps)

lemma prime_166571: "indivisible 166571"
  by (rule trial_division [where k = 409]) (simp_all add: undivided.simps)

lemma power_mod_6700417:
  "pow_mod 6700417 5 6700416 = 1" "pow_mod 6700417 5 384 = 1909498" "pow_mod 6700417 5 2233472 = 660974"
  by (simp_all add: mod_eval)

lemma prime_6700417: "indivisible 6700417"
  by (rule prime_by_order [where a = 5 and ?r1.0 = 17449 and ?r2.0 = 3 and ?c1.0 = 1909498 and ?c2.0 = 660974 and ?u1.0 = 1950542 and ?u2.0 = 2013147])
    (simp_all add: power_mod_6700417 primes_small)

lemma power_mod_2998279:
  "pow_mod 2998279 2 2998278 = 1" "pow_mod 2998279 2 18 = 262144" "pow_mod 2998279 2 999426 = 284254"
  by (simp_all add: mod_eval)

lemma prime_2998279: "indivisible 2998279"
  by (rule prime_by_order [where a = 2 and ?r1.0 = 166571 and ?r2.0 = 3 and ?c1.0 = 262144 and ?c2.0 = 284254 and ?u1.0 = 426873 and ?u2.0 = 2903527])
    (simp_all add: power_mod_2998279 primes_small prime_166571)

lemma power_mod_67280421310721:
  "pow_mod 67280421310721 3 67280421310720 = 1" "pow_mod 67280421310721 3 22439680 = 61150258807256" "pow_mod 67280421310721 3 13456084262144 = 8348471219631"
  by (simp_all add: mod_eval)

lemma prime_67280421310721: "indivisible 67280421310721"
  by (rule prime_by_order [where a = 3 and ?r1.0 = 2998279 and ?r2.0 = 5 and ?c1.0 = 61150258807256 and ?c2.0 = 8348471219631 and ?u1.0 =
    47000331560307 and ?u2.0 = 17361421745283])
    (simp_all add: power_mod_67280421310721 primes_small prime_2998279)

subsection \<open>No state but zero has a shorter period\<close>

definition qone :: "quad list" where
  "qone = dg1 # replicate 31 dg0"

lemma qone_eval: "qone = [dg1, dg0, dg0, dg0, dg0, dg0, dg0, dg0, dg0, dg0, dg0, dg0, dg0, dg0, dg0, dg0, dg0, dg0, dg0, dg0, dg0, dg0, dg0, dg0, dg0,
    dg0, dg0, dg0, dg0, dg0, dg0, dg0]"
  by (simp add: qone_def eval_nat_numeral)

text \<open>When the difference of two powers has an inverse, no state but zero has the difference of the exponents
  as a number of steps after which it returns.\<close>

lemma not_fixed:
  assumes p: "re.val p e" and q: "re.val ((qsquare ^^ k) p) (2 ^ k * e)" and inverse: "qmul u (qxor p ((qsquare ^^ k) p)) = qone"
    and s: "s \<noteq> (0, 0)"
  shows "(step ^^ ((2 ^ k - 1) * e)) s \<noteq> s"
proof
  assume fixed: "(step ^^ ((2 ^ k - 1) * e)) s = s"
  let ?q = "(qsquare ^^ k) p"
  have "2 ^ k * e = e + (2 ^ k - 1) * e" by (simp add: diff_mult_distrib)
  then have "(step ^^ (2 ^ k * e)) s = (step ^^ e) s" using fixed by (simp only: funpow_add comp_apply)
  then have "evp step (qbits (qxor p ?q)) s = (0, 0)"
    using p q by (simp add: re.val_def qbits_qxor evp_bxor)
  moreover have "length (qxor p ?q) = 32" using p q by (simp add: re.val_def)
  ultimately have "evp step (qbits (qmul u (qxor p ?q))) s = (0, 0)" by (simp add: re.qmul_ok)
  moreover have "evp step (qbits qone) s = s" by (simp add: qone_eval digit_defs)
  ultimately show False using s inverse by simp
qed

text \<open>Powers by squaring and multiplying, the highest bit of the exponent first.\<close>

fun qexp :: "bool list \<Rightarrow> quad list \<Rightarrow> quad list" where
  "qexp [] r = r"
| "qexp (b # bs) r = qexp bs (if b then qtimes (qsquare r) else qsquare r)"

lemma val_qexp: "re.val r e \<Longrightarrow> re.val (qexp bs r) (fold (\<lambda>b e. 2 * e + of_bool b) bs e)"
proof (induction bs arbitrary: r e)
  case (Cons b bs)
  then show ?case using re.val_qsquare re.val_qtimes by (cases b) fastforce+
qed simp

lemma pow_parts:
  "(g ^^ 2) x = g (g x)" "(g ^^ 3) x = g (g (g x))" "(g ^^ 4) x = g (g (g (g x)))" "(g ^^ 7) x = g (g (g (g (g (g (g x))))))"
  "(g ^^ 8) x = g (g (g (g (g (g (g (g x)))))))" "(g ^^ 32) x = (g ^^ 16) ((g ^^ 16) x)"
  "(g ^^ 64) x = (g ^^ 16) ((g ^^ 16) ((g ^^ 16) ((g ^^ 16) x)))"
  for g :: "'a \<Rightarrow> 'a"
proof -
  have s: "(g ^^ (a + b)) x = (g ^^ a) ((g ^^ b) x)" for a b x by (simp add: funpow_add)
  show "(g ^^ 2) x = g (g x)" "(g ^^ 3) x = g (g (g x))" "(g ^^ 4) x = g (g (g (g x)))" "(g ^^ 7) x = g (g (g (g (g (g (g x))))))"
    "(g ^^ 8) x = g (g (g (g (g (g (g (g x)))))))" by (simp_all add: eval_nat_numeral)
  show "(g ^^ 32) x = (g ^^ 16) ((g ^^ 16) x)" "(g ^^ 64) x = (g ^^ 16) ((g ^^ 16) ((g ^^ 16) ((g ^^ 16) x)))"
    by (simp_all flip: s)
qed

text \<open>The exponents are products of the other primes.\<close>

lemma a_power: "qexp [False, False, False, False, True, False, True, True, True, True, False, False, False, False, False, False, False, True] lin
    = quads 0x5aa4c034faf8129627020397df5037e7"
  by (simp add: lin_eval poly_eval)

lemma b_power: "qexp [True, True, True, False, True, False, False, True, True, False, False, False, False, True, True, True, True, False, False,
    False, True, True, False, False, True, True, True, False, False, True, True, False, True, False, False, False, True, False, False, False, False,
    False, False, False, True] lin
    = quads 0x878f41f363ced71e991f57c1bf2f79db"
  by (simp add: lin_eval poly_eval)

lemma a_val: "re.val (quads 0x5aa4c034faf8129627020397df5037e7) 274177"
  using val_qexp [OF val_lin, of "[False, False, False, False, True, False, True, True, True, True, False, False, False, False, False, False, False,
    True]"] by (simp only: a_power) simp

lemma a_frob: "(qsquare ^^ 64) (quads 0x5aa4c034faf8129627020397df5037e7)
    = quads 0xb6fa43e9bdc560c0d4d452a08126800 @ [dg0]"
  by (simp add: pow_parts pow16 poly_eval)

lemma a_inverse: "qmul (quads 0x5f7d293461476abdfd584119d92208b0) (qxor (quads 0x5aa4c034faf8129627020397df5037e7)
    (quads 0xb6fa43e9bdc560c0d4d452a08126800 @ [dg0])) = qone"
  by (simp add: qone_eval poly_eval)

lemma a_fixed: "s \<noteq> (0, 0) \<Longrightarrow> (step ^^ ((2 ^ 128 - 1) div 67280421310721)) s \<noteq> s"
  using not_fixed [OF a_val re.val_power [OF a_val, of 64]] a_inverse
  by (simp only: a_frob) simp

lemma b_val: "re.val (quads 0x878f41f363ced71e991f57c1bf2f79db) 67280421310721"
  using val_qexp [OF val_lin, of "[True, True, True, False, True, False, False, True, True, False, False, False, False, True, True, True, True, False,
    False, False, True, True, False, False, True, True, True, False, False, True, True, False, True, False, False, False, True, False, False, False,
    False, False, False, False, True]"] by (simp only: b_power) simp

lemma b_frob: "(qsquare ^^ 64) (quads 0x878f41f363ced71e991f57c1bf2f79db)
    = quads 0x61ad196e10b610f6bc410cbf317497a0"
  by (simp add: pow_parts pow16 poly_eval)

lemma b_inverse: "qmul (quads 0x48f20fff2a14f9c5195328e0575ece12) (qxor (quads 0x878f41f363ced71e991f57c1bf2f79db)
    (quads 0x61ad196e10b610f6bc410cbf317497a0)) = qone"
  by (simp add: qone_eval poly_eval)

lemma b_fixed: "s \<noteq> (0, 0) \<Longrightarrow> (step ^^ ((2 ^ 128 - 1) div 274177)) s \<noteq> s"
  using not_fixed [OF b_val re.val_power [OF b_val, of 64]] b_inverse
  by (simp only: b_frob) simp

lemma w1_power: "qtimes (quads 0xd86b048b86aa9922beac0467eba5facb) = quads 0xb0b335fa727ccacf228e6fad27aa3597"
  by (simp add: poly_eval)

lemma w1_val: "re.val (quads 0xb0b335fa727ccacf228e6fad27aa3597) 18446744073709551617"
  using re.val_qtimes [OF val_64] by (simp only: w1_power) simp

lemma c1_power: "qmul ((qsquare ^^ 2) (quads 0xb0b335fa727ccacf228e6fad27aa3597))
    (quads 0xb0b335fa727ccacf228e6fad27aa3597) = quads 0x9c4e5dde6333b0f77787a532132ba7fc"
  by (simp add: pow_parts pow16 poly_eval)

lemma c1_val: "re.val (quads 0x9c4e5dde6333b0f77787a532132ba7fc) 92233720368547758085"
  using re.val_qmul [OF re.val_power [OF w1_val, of 2] w1_val] by (simp only: c1_power) simp

lemma c_power: "qmul ((qsquare ^^ 7) (quads 0x9c4e5dde6333b0f77787a532132ba7fc))
    (quads 0xb0b335fa727ccacf228e6fad27aa3597) = quads 0x8d3a58c5cd209e5b556e7d30fb64238 @ [dg0]"
  by (simp add: pow_parts pow16 poly_eval)

lemma c_val: "re.val (quads 0x8d3a58c5cd209e5b556e7d30fb64238 @ [dg0]) 11824362951247822586497"
  using re.val_qmul [OF re.val_power [OF c1_val, of 7] w1_val] by (simp only: c_power) simp

lemma c_frob: "(qsquare ^^ 32) (quads 0x8d3a58c5cd209e5b556e7d30fb64238 @ [dg0])
    = quads 0x5bc40717420c125fbe790e2f036e1d38"
  by (simp add: pow_parts pow16 poly_eval)

lemma c_inverse: "qmul (quads 0x92de85556cb96c31e7de485a6ee0e856) (qxor (quads 0x8d3a58c5cd209e5b556e7d30fb64238 @ [dg0])
    (quads 0x5bc40717420c125fbe790e2f036e1d38)) = qone"
  by (simp add: qone_eval poly_eval)

lemma c_fixed: "s \<noteq> (0, 0) \<Longrightarrow> (step ^^ ((2 ^ 128 - 1) div 6700417)) s \<noteq> s"
  using not_fixed [OF c_val re.val_power [OF c_val, of 32]] c_inverse
  by (simp only: c_frob) simp

lemma d1_power: "qmul ((qsquare ^^ Suc 0) (quads 0xb0b335fa727ccacf228e6fad27aa3597))
    (quads 0xb0b335fa727ccacf228e6fad27aa3597) = quads 0x1079fbd5c9c4191811b8578937282d75"
  by (simp add: pow_parts pow16 poly_eval)

lemma d1_val: "re.val (quads 0x1079fbd5c9c4191811b8578937282d75) 55340232221128654851"
  using re.val_qmul [OF re.val_power [OF w1_val, of "Suc 0"] w1_val] by (simp only: d1_power) simp

lemma d2_power: "qmul ((qsquare ^^ 2) (quads 0x1079fbd5c9c4191811b8578937282d75))
    (quads 0x1079fbd5c9c4191811b8578937282d75) = quads 0xb4d69b3d29252e5bf29603d6e845d13e"
  by (simp add: pow_parts pow16 poly_eval)

lemma d2_val: "re.val (quads 0xb4d69b3d29252e5bf29603d6e845d13e) 276701161105643274255"
  using re.val_qmul [OF re.val_power [OF d1_val, of 2] d1_val] by (simp only: d2_power) simp

lemma d3_power: "qmul ((qsquare ^^ 4) (quads 0x1079fbd5c9c4191811b8578937282d75))
    (quads 0x1079fbd5c9c4191811b8578937282d75) = quads 0x5a65f50d11d24a2e1faa5df01fcf69c3"
  by (simp add: pow_parts pow16 poly_eval)

lemma d3_val: "re.val (quads 0x5a65f50d11d24a2e1faa5df01fcf69c3) 940783947759187132467"
  using re.val_qmul [OF re.val_power [OF d1_val, of 4] d1_val] by (simp only: d3_power) simp

lemma d4_power: "qmul ((qsquare ^^ 7) (quads 0x5a65f50d11d24a2e1faa5df01fcf69c3))
    (quads 0xb4d69b3d29252e5bf29603d6e845d13e) = quads 0xcaf97d1debceb7ce584da490319d90dd"
  by (simp add: pow_parts pow16 poly_eval)

lemma d4_val: "re.val (quads 0xcaf97d1debceb7ce584da490319d90dd) 120697046474281596230031"
  using re.val_qmul [OF re.val_power [OF d3_val, of 7] d2_val] by (simp only: d4_power) simp

lemma d5_power: "qmul ((qsquare ^^ 3) (quads 0xcaf97d1debceb7ce584da490319d90dd))
    (quads 0x1079fbd5c9c4191811b8578937282d75) = quads 0x71eccf80a2f82941f8c8432771cdbb9d"
  by (simp add: pow_parts pow16 poly_eval)

lemma d5_val: "re.val (quads 0x71eccf80a2f82941f8c8432771cdbb9d) 965631712026473898495099"
  using re.val_qmul [OF re.val_power [OF d4_val, of 3] d1_val] by (simp only: d5_power) simp

lemma d_power: "qmul ((qsquare ^^ 7) (quads 0x71eccf80a2f82941f8c8432771cdbb9d))
    (quads 0xb0b335fa727ccacf228e6fad27aa3597) = quads 0x21c42540b39dbe9ac36524ee3d351b30"
  by (simp add: pow_parts pow16 poly_eval)

lemma d_val: "re.val (quads 0x21c42540b39dbe9ac36524ee3d351b30) 123600877586132732716924289"
  using re.val_qmul [OF re.val_power [OF d5_val, of 7] w1_val] by (simp only: d_power) simp

lemma d_frob: "(qsquare ^^ 32) (quads 0x21c42540b39dbe9ac36524ee3d351b30)
    = quads 0x3da93227c800c393865620c44f867580"
  by (simp add: pow_parts pow16 poly_eval)

lemma d_inverse: "qmul (quads 0xde6f6388962478c8a7c3ba83f09ca39f) (qxor (quads 0x21c42540b39dbe9ac36524ee3d351b30)
    (quads 0x3da93227c800c393865620c44f867580)) = qone"
  by (simp add: qone_eval poly_eval)

lemma d_fixed: "s \<noteq> (0, 0) \<Longrightarrow> (step ^^ ((2 ^ 128 - 1) div 641)) s \<noteq> s"
  using not_fixed [OF d_val re.val_power [OF d_val, of 32]] d_inverse
  by (simp only: d_frob) simp

lemma w2_power: "qmul ((qsquare ^^ 32) (quads 0xb0b335fa727ccacf228e6fad27aa3597))
    (quads 0xb0b335fa727ccacf228e6fad27aa3597) = quads 0x735fc0a9f6a2fc5d03650e32a7b373c5"
  by (simp add: pow_parts pow16 poly_eval)

lemma w2_val: "re.val (quads 0x735fc0a9f6a2fc5d03650e32a7b373c5) 79228162532711081671548469249"
  using re.val_qmul [OF re.val_power [OF w1_val, of 32] w1_val] by (simp only: w2_power) simp

lemma w2_frob: "(qsquare ^^ 16) (quads 0x735fc0a9f6a2fc5d03650e32a7b373c5)
    = quads 0xce3553baa3630cceb4cee663809e1b12"
  by (simp add: pow_parts pow16 poly_eval)

lemma w2_inverse: "qmul (quads 0xcca8b89a953f2fe2f294d5d082efc95 @ [dg0]) (qxor (quads 0x735fc0a9f6a2fc5d03650e32a7b373c5)
    (quads 0xce3553baa3630cceb4cee663809e1b12)) = qone"
  by (simp add: qone_eval poly_eval)

lemma w2_fixed: "s \<noteq> (0, 0) \<Longrightarrow> (step ^^ ((2 ^ 128 - 1) div 65537)) s \<noteq> s"
  using not_fixed [OF w2_val re.val_power [OF w2_val, of 16]] w2_inverse
  by (simp only: w2_frob) simp

lemma w3_power: "qmul ((qsquare ^^ 16) (quads 0x735fc0a9f6a2fc5d03650e32a7b373c5))
    (quads 0x735fc0a9f6a2fc5d03650e32a7b373c5) = quads 0x93e25ba23b00d143bfcf44af13674cbe"
  by (simp add: pow_parts pow16 poly_eval)

lemma w3_val: "re.val (quads 0x93e25ba23b00d143bfcf44af13674cbe) 5192376087906286159508272029171713"
  using re.val_qmul [OF re.val_power [OF w2_val, of 16] w2_val] by (simp only: w3_power) simp

lemma w3_frob: "(qsquare ^^ 8) (quads 0x93e25ba23b00d143bfcf44af13674cbe)
    = quads 0xc6ad491bdae8ad4afd6e1546988788c4"
  by (simp add: pow_parts pow16 poly_eval)

lemma w3_inverse: "qmul (quads 0x2fdae04ad8460bb102168d960ff79f11) (qxor (quads 0x93e25ba23b00d143bfcf44af13674cbe)
    (quads 0xc6ad491bdae8ad4afd6e1546988788c4)) = qone"
  by (simp add: qone_eval poly_eval)

lemma w3_fixed: "s \<noteq> (0, 0) \<Longrightarrow> (step ^^ ((2 ^ 128 - 1) div 257)) s \<noteq> s"
  using not_fixed [OF w3_val re.val_power [OF w3_val, of 8]] w3_inverse
  by (simp only: w3_frob) simp

lemma w4_power: "qmul ((qsquare ^^ 8) (quads 0x93e25ba23b00d143bfcf44af13674cbe))
    (quads 0x93e25ba23b00d143bfcf44af13674cbe) = quads 0x294e6d4e1a2384c0c34aaed3de299568"
  by (simp add: pow_parts pow16 poly_eval)

lemma w4_val: "re.val (quads 0x294e6d4e1a2384c0c34aaed3de299568) 1334440654591915542993625911497130241"
  using re.val_qmul [OF re.val_power [OF w3_val, of 8] w3_val] by (simp only: w4_power) simp

lemma w4_frob: "(qsquare ^^ 4) (quads 0x294e6d4e1a2384c0c34aaed3de299568)
    = quads 0x3f5480e5b95d6eff548f64e289ccf412"
  by (simp add: pow_parts pow16 poly_eval)

lemma w4_inverse: "qmul (quads 0xbbf889f289af1da6a33478c3a480606b) (qxor (quads 0x294e6d4e1a2384c0c34aaed3de299568)
    (quads 0x3f5480e5b95d6eff548f64e289ccf412)) = qone"
  by (simp add: qone_eval poly_eval)

lemma w4_fixed: "s \<noteq> (0, 0) \<Longrightarrow> (step ^^ ((2 ^ 128 - 1) div 17)) s \<noteq> s"
  using not_fixed [OF w4_val re.val_power [OF w4_val, of 4]] w4_inverse
  by (simp only: w4_frob) simp

lemma w5_power: "qmul ((qsquare ^^ 4) (quads 0x294e6d4e1a2384c0c34aaed3de299568))
    (quads 0x294e6d4e1a2384c0c34aaed3de299568) = quads 0xade264592ad1f79934f1b2f2f3650111"
  by (simp add: pow_parts pow16 poly_eval)

lemma w5_val: "re.val (quads 0xade264592ad1f79934f1b2f2f3650111) 22685491128062564230891640495451214097"
  using re.val_qmul [OF re.val_power [OF w4_val, of 4] w4_val] by (simp only: w5_power) simp

lemma w5_frob: "(qsquare ^^ 2) (quads 0xade264592ad1f79934f1b2f2f3650111)
    = quads 0x526e8bee42977eca673bbdfd15f89bd0"
  by (simp add: pow_parts pow16 poly_eval)

lemma w5_inverse: "qmul (quads 0xff8cefb76846895353ca0f0fe69d9ac0) (qxor (quads 0xade264592ad1f79934f1b2f2f3650111)
    (quads 0x526e8bee42977eca673bbdfd15f89bd0)) = qone"
  by (simp add: qone_eval poly_eval)

lemma w5_fixed: "s \<noteq> (0, 0) \<Longrightarrow> (step ^^ ((2 ^ 128 - 1) div 5)) s \<noteq> s"
  using not_fixed [OF w5_val re.val_power [OF w5_val, of 2]] w5_inverse
  by (simp only: w5_frob) simp

lemma w6_power: "qmul ((qsquare ^^ 2) (quads 0xade264592ad1f79934f1b2f2f3650111))
    (quads 0xade264592ad1f79934f1b2f2f3650111) = quads 0xff8cefb76846895353ca0f0fe69d9ac1"
  by (simp add: pow_parts pow16 poly_eval)

lemma w6_val: "re.val (quads 0xff8cefb76846895353ca0f0fe69d9ac1) 113427455640312821154458202477256070485"
  using re.val_qmul [OF re.val_power [OF w5_val, of 2] w5_val] by (simp only: w6_power) simp

lemma w6_frob: "(qsquare ^^ Suc 0) (quads 0xff8cefb76846895353ca0f0fe69d9ac1)
    = quads 0xff8cefb76846895353ca0f0fe69d9ac0"
  by (simp add: poly_eval)

lemma w6_inverse: "qmul (quads 0x1 @ [dg0, dg0, dg0, dg0, dg0, dg0, dg0, dg0, dg0, dg0, dg0, dg0, dg0, dg0, dg0, dg0, dg0, dg0, dg0, dg0, dg0, dg0,
    dg0, dg0, dg0, dg0, dg0, dg0, dg0, dg0, dg0]) (qxor (quads 0xff8cefb76846895353ca0f0fe69d9ac1)
    (quads 0xff8cefb76846895353ca0f0fe69d9ac0)) = qone"
  by (simp add: qone_eval poly_eval)

lemma w6_fixed: "s \<noteq> (0, 0) \<Longrightarrow> (step ^^ ((2 ^ 128 - 1) div 3)) s \<noteq> s"
  using not_fixed [OF w6_val re.val_power [OF w6_val, of "Suc 0"]] w6_inverse
  by (simp only: w6_frob) simp

subsection \<open>All states but zero are one cycle\<close>

lemma period_full:
  assumes "s \<noteq> (0, 0)"
  shows "period step s (2 ^ 128 - 1)"
proof (rule full_period [where ps = "[3, 5, 17, 257, 641, 65537, 274177, 6700417, 67280421310721]"])
  have "(qsquare ^^ 64) (quads 0xd86b048b86aa9922beac0467eba5facb) = lin"
    by (simp add: pow_parts pow16 lin_eval poly_eval)
  then have "re.val lin (2 ^ 64 * 2 ^ 64)" using re.val_power [OF val_64, of 64] by (simp only:)
  then have "(step ^^ (2 ^ 64 * 2 ^ 64)) s = (step ^^ 1) s"
    using val_lin unfolding re.val_def by metis
  moreover have "(2 :: nat) ^ 64 * 2 ^ 64 = Suc (2 ^ 128 - 1)" by simp
  ultimately have "(step ^^ Suc (2 ^ 128 - 1)) s = (step ^^ Suc 0) s" by (simp only: One_nat_def)
  then have "step ((step ^^ (2 ^ 128 - 1)) s) = step s" by (simp only: funpow.simps comp_apply id_apply)
  then show "(step ^^ (2 ^ 128 - 1)) s = s" using inj_step by (simp only: inj_eq)
  show "indivisible p \<and> (step ^^ ((2 ^ 128 - 1) div p)) s \<noteq> s"
    if "p \<in> set [3, 5, 17, 257, 641, 65537, 274177, 6700417, 67280421310721]" for p
  proof -
    have "indivisible p" using that primes_small prime_65537 prime_274177 prime_6700417 prime_67280421310721 by auto
    moreover have "(step ^^ ((2 ^ 128 - 1) div p)) s \<noteq> s"
      using that a_fixed b_fixed c_fixed d_fixed w2_fixed w3_fixed w4_fixed w5_fixed w6_fixed assms
      unfolding list.set insert_iff empty_iff by blast
    ultimately show ?thesis ..
  qed
qed simp_all

lemma steps_distinct:
  "s \<noteq> (0, 0) \<Longrightarrow> i < j \<Longrightarrow> j < 2 ^ 128 - 1 \<Longrightarrow> (step ^^ i) s \<noteq> (step ^^ j) s"
  by (rule period_distinct [OF period_full]) simp_all

lemma steps_nonzero: "s \<noteq> (0, 0) \<Longrightarrow> (step ^^ i) s \<noteq> (0, 0)"
proof (induction i)
  case (Suc i)
  then show ?case using unstep_step [of "(step ^^ i) s"] unstep_step [of "(0, 0)"] by auto
qed simp

lemma steps_reach:
  assumes "s \<noteq> (0, 0)" "t \<noteq> (0, 0)"
  shows "\<exists>i < 2 ^ 128 - 1. (step ^^ i) s = t"
proof -
  let ?f = "\<lambda>i. (step ^^ i) s" and ?I = "{i :: nat. i < 2 ^ 128 - 1}"
  have "inj_on ?f ?I"
    by (rule linorder_inj_onI) (use steps_distinct [OF assms(1)] in auto)
  then have "card (?f ` ?I) = 2 ^ 128 - 1" by (simp add: card_image)
  moreover have "card (UNIV - {(0, 0)} :: rand_state set) = 2 ^ 128 - 1"
    by (simp add: card_Diff_singleton card_word)
  moreover have "?f ` ?I \<subseteq> UNIV - {(0, 0)}" by (simp add: image_subset_iff steps_nonzero [OF assms(1)])
  ultimately have "?f ` ?I = UNIV - {(0, 0)}" by (intro card_subset_eq) simp_all
  then have "t \<in> ?f ` ?I" using assms(2) by simp
  then obtain i where "t = (step ^^ i) s" "i \<in> ?I" by (rule imageE)
  then show ?thesis by auto
qed

text \<open>(C21) The generator has the full period: from any state but zero, \<open>next\<close> reaches every other state but zero and
  returns to the first one after exactly \<open>2 ^ 128 - 1\<close> calls. So generators jumped different numbers of times below
  \<open>2 ^ 64 - 1\<close> have no state in common in their first \<open>2 ^ 64\<close> calls, while the last of the \<open>2 ^ 64\<close> subsequences the
  comment on \<open>jump\<close> promises ends in the state the first one starts in.\<close>

theorem jumped_generators_disjoint:
  assumes "s \<noteq> (0, 0)"
  shows "(step ^^ (2 ^ 128 - 1)) s = s
    \<and> (\<forall>t. t \<noteq> (0, 0) \<longrightarrow> (\<exists>i < 2 ^ 128 - 1. (step ^^ i) s = t))
    \<and> (\<forall>k l i j. k < l \<and> l < 2 ^ 64 - 1 \<and> i < 2 ^ 64 \<and> j < 2 ^ 64
        \<longrightarrow> (step ^^ i) ((jump ^^ k) s) \<noteq> (step ^^ j) ((jump ^^ l) s))
    \<and> (step ^^ (2 ^ 64 - 1)) ((jump ^^ (2 ^ 64 - 1)) s) = s"
proof (intro conjI allI impI)
  show full: "(step ^^ (2 ^ 128 - 1)) s = s" using period_full [OF assms] by (rule periodD(2))
  show "\<exists>i < 2 ^ 128 - 1. (step ^^ i) s = t" if "t \<noteq> (0, 0)" for t by (rule steps_reach [OF assms that])
  have jumped: "(step ^^ i) ((jump ^^ k) s) = (step ^^ (i + k * 2 ^ 64)) s" for i k
    unfolding jump_iterate by (simp only: funpow_add comp_apply)
  show "(step ^^ i) ((jump ^^ k) s) \<noteq> (step ^^ j) ((jump ^^ l) s)"
    if "k < l \<and> l < 2 ^ 64 - 1 \<and> i < 2 ^ 64 \<and> j < 2 ^ 64" for k l i j
  proof -
    have "k * 2 ^ 64 + 2 ^ 64 \<le> l * (2 ^ 64 :: nat)" "l * 2 ^ 64 + 2 ^ 64 \<le> (2 ^ 64 - 1) * (2 ^ 64 :: nat)"
      using that mult_le_mono1 [of "Suc k" l "2 ^ 64"] mult_le_mono1 [of "Suc l" "2 ^ 64 - 1" "2 ^ 64"] by simp_all
    moreover have "(2 ^ 64 - 1) * 2 ^ 64 < (2 ^ 128 - 1 :: nat)" by simp
    ultimately have "i + k * 2 ^ 64 < j + l * 2 ^ 64" "j + l * 2 ^ 64 < 2 ^ 128 - 1" using that by linarith+
    then show ?thesis unfolding jumped by (rule steps_distinct [OF assms])
  qed
  have "2 ^ 64 - 1 + (2 ^ 64 - 1) * 2 ^ 64 = (2 ^ 128 - 1 :: nat)" by simp
  then show "(step ^^ (2 ^ 64 - 1)) ((jump ^^ (2 ^ 64 - 1)) s) = s" unfolding jumped by (simp only: full)
qed

theorem jumped_generators_disjoint_witness:
  "(step ^^ 7) ((jump ^^ 2) (1, 2)) \<noteq> (step ^^ 5) ((jump ^^ 3) (1, 2))"
  using jumped_generators_disjoint [of "(1, 2)", THEN conjunct2, THEN conjunct2, THEN conjunct1, rule_format, of 2 3 7 5]
  by simp


end
