(* ===== verification/Log_Stream.thy ===== *)
theory Log_Stream
  imports Convert
begin

text \<open>
  \<open>LogStream\<close> and \<open>LogMessage\<close> of \<^verbatim>\<open>logger.h\<close> and \<^verbatim>\<open>src/logger.cpp\<close>: a log statement writes its
  header, its arguments and its place in the source into the thread's buffer and hands the line over.
  The date, the thread's name and the text that \<^verbatim>\<open>vsnprintf\<close> produces are arguments. A write
  outside the buffer is \<^term>\<open>None\<close>.
\<close>

subsection \<open>The stream\<close>

record source_file =
  file_name :: string
  file_line :: int

definition SourceFile :: "string \<Rightarrow> int \<Rightarrow> source_file" where
  "SourceFile path line = \<lparr>file_name = rev (takeWhile (\<lambda>c. c \<noteq> CHR ''/'') (rev path)), file_line = line\<rparr>"

text \<open>\<open>ls_cap\<close> is the size of the allocated buffer, \<open>ls_data\<close> the bytes from \<open>buffer_\<close> to \<open>cur_\<close>.\<close>

record log_stream =
  ls_cap :: "nat option"
  ls_data :: "char list"
  auto_flush :: bool
  log_level :: nat
  source :: source_file

definition avial :: "log_stream \<Rightarrow> int" where
  "avial s = (case ls_cap s of None \<Rightarrow> 0 | Some c \<Rightarrow> int c - int (length (ls_data s)))"

text \<open>Writing \<open>bs\<close> at \<open>cur_\<close> and moving \<open>cur_\<close> by \<open>n\<close>.\<close>

definition put :: "char list \<Rightarrow> nat \<Rightarrow> log_stream \<Rightarrow> log_stream option" where
  "put bs n s = do {
     check (int (length bs) \<le> avial s);
     Some (s\<lparr>ls_data := ls_data s @ take n bs\<rparr>)}"

definition just_append :: "char list \<Rightarrow> log_stream \<Rightarrow> log_stream option" where
  "just_append buf s = put buf (length buf) s"

definition ls_append :: "char list \<Rightarrow> log_stream \<Rightarrow> log_stream option" where
  "ls_append buf s = (let len = min (int (length buf)) (avial s)
     in if len \<le> 0 then Some s else just_append (take (nat len) buf) s)"

definition append_char :: "char \<Rightarrow> log_stream \<Rightarrow> log_stream option" where
  "append_char ch s = (if avial s > 0 then put [ch] 1 s else Some s)"

text \<open>\<^verbatim>\<open>vsnprintf(cur_, n + 1, ...)\<close> writes at most \<open>n\<close> characters of the text and a terminator.\<close>

definition appendf :: "string \<Rightarrow> log_stream \<Rightarrow> log_stream option" where
  "appendf txt s = (let n = avial s
     in if n \<le> 0 then Some s else put (take (nat n) txt @ [CHR 0x00]) (min (length txt) (nat n)) s)"

definition AppendInteger :: "int \<Rightarrow> log_stream \<Rightarrow> log_stream option" where
  "AppendInteger v s =
     (if avial s \<ge> int kMaxNumericSize then put (snd (ConvertInteger v)) (fst (ConvertInteger v)) s else Some s)"

definition HexLogger :: "int \<Rightarrow> log_stream \<Rightarrow> log_stream option" where
  "HexLogger v s =
     (if avial s \<ge> int kMaxNumericSize then put (snd (ConvertHexInteger v)) (fst (ConvertHexInteger v)) s else Some s)"

definition kMaxPointerSize :: nat where
  "kMaxPointerSize = 2 * 8 + 2"

definition append_pointer :: "nat \<Rightarrow> log_stream \<Rightarrow> log_stream option" where
  "append_pointer v s =
     (if avial s \<ge> int kMaxPointerSize then do {
        s1 \<leftarrow> put ''0'' 1 s;
        s2 \<leftarrow> put ''x'' 1 s1;
        put (snd (ConvertPointer v)) (fst (ConvertPointer v)) s2}
      else Some s)"

definition append_typed_pointer :: "nat \<Rightarrow> log_stream \<Rightarrow> log_stream option" where
  "append_typed_pointer v s =
     (if avial s \<ge> int kMaxPointerSize then put (snd (ConvertPointer v)) (fst (ConvertPointer v)) s else Some s)"

text \<open>The overloads of \<open>operator<<\<close>: integers of all types, hexadecimal numbers, floating point numbers (with
  the text of their format), C strings (possibly null), strings and data with a length, pointers,
  pointers to other types, booleans, characters, and \<open>noflush\<close>.\<close>

datatype log_arg =
    LInt int
  | LHex int
  | LFloat string
  | LCstr "string option"
  | LString string
  | LPtr nat
  | LTptr nat
  | LBool bool
  | LChar char
  | LNoflush

fun shl :: "log_arg \<Rightarrow> log_stream \<Rightarrow> log_stream option" where
  "shl (LInt v) s = AppendInteger v s"
| "shl (LHex v) s = HexLogger v s"
| "shl (LFloat txt) s = appendf txt s"
| "shl (LCstr str) s = ls_append (case str of Some cs \<Rightarrow> cs | None \<Rightarrow> ''null'') s"
| "shl (LString str) s = ls_append str s"
| "shl (LPtr v) s = append_pointer v s"
| "shl (LTptr v) s = append_typed_pointer v s"
| "shl (LBool v) s = append_char (if v then CHR ''1'' else CHR ''0'') s"
| "shl (LChar v) s = append_char v s"
| "shl LNoflush s = Some (s\<lparr>auto_flush := False\<rparr>)"

fun shl_all :: "log_arg list \<Rightarrow> log_stream \<Rightarrow> log_stream option" where
  "shl_all [] s = Some s"
| "shl_all (a # as) s = do {
     s1 \<leftarrow> shl a s;
     shl_all as s1}"

subsection \<open>Lines\<close>

definition LogLevelName :: "string list" where
  "LogLevelName = ['' TRACE '', '' DEBUG '', ''  INFO '', ''  WARN '', '' ERROR '', '' FATAL '']"

definition check_buffer :: "nat \<Rightarrow> log_stream \<Rightarrow> bool \<times> log_stream" where
  "check_buffer g_max_length_per_log s =
     (let s1 = (if ls_cap s = None then s\<lparr>ls_cap := Some g_max_length_per_log, ls_data := []\<rparr> else s)
      in (ls_data s1 = [], s1))"

definition start_line :: "nat \<Rightarrow> string \<Rightarrow> string \<Rightarrow> nat \<Rightarrow> source_file \<Rightarrow> log_stream \<Rightarrow> log_stream option" where
  "start_line g_max date thread_name level src s =
     (let (fresh, s1) = check_buffer g_max (s\<lparr>log_level := level\<rparr>)
      in if fresh then do {
           s2 \<leftarrow> just_append date s1;
           s3 \<leftarrow> just_append thread_name s2;
           s4 \<leftarrow> just_append (LogLevelName ! log_level s3) s3;
           Some (s4\<lparr>source := src\<rparr>)}
         else Some s1)"

text \<open>\<open>Sink\<close>: what goes to the error output, what goes to the sink thread, and the stream.\<close>

definition append_place :: "log_stream \<Rightarrow> log_stream option" where
  "append_place s =
     (if avial s \<ge> int (length (file_name (source s))) + 32 then do {
        s1 \<leftarrow> just_append '' - '' s;
        s2 \<leftarrow> just_append (file_name (source s1)) s1;
        s3 \<leftarrow> put '':'' 1 s2;
        put (snd (ConvertInteger (file_line (source s3)))) (fst (ConvertInteger (file_line (source s3)))) s3}
      else Some s)"

definition Sink :: "nat \<Rightarrow> log_stream \<Rightarrow> (string option \<times> string option \<times> log_stream) option" where
  "Sink g_ef_log_level s =
     (if auto_flush s then do {
        s1 \<leftarrow> append_place s;
        s2 \<leftarrow> put [CHR 0x0A] 1 s1;
        Some (if log_level s2 \<ge> g_ef_log_level then Some (ls_data s2) else None, Some (ls_data s2),
          s2\<lparr>ls_data := [], auto_flush := True\<rparr>)}
      else Some (None, None, s\<lparr>auto_flush := True\<rparr>))"

text \<open>A log statement: \<open>LogMessage().log_stream(level, file) << ...;\<close>\<close>

definition log_statement ::
  "nat \<Rightarrow> nat \<Rightarrow> string \<Rightarrow> string \<Rightarrow> nat \<Rightarrow> source_file \<Rightarrow> log_arg list \<Rightarrow> log_stream
     \<Rightarrow> (string option \<times> string option \<times> log_stream) option" where
  "log_statement g_max g_ef date thread_name level src args s = do {
     s1 \<leftarrow> start_line g_max date thread_name level src s;
     s2 \<leftarrow> shl_all args s1;
     Sink g_ef s2}"

subsection \<open>What an argument adds\<close>

fun arg_text :: "log_arg \<Rightarrow> string" where
  "arg_text (LInt v) = butlast (snd (ConvertInteger v))"
| "arg_text (LHex v) = butlast (snd (ConvertHexInteger v))"
| "arg_text (LFloat txt) = txt"
| "arg_text (LCstr str) = (case str of Some cs \<Rightarrow> cs | None \<Rightarrow> ''null'')"
| "arg_text (LString str) = str"
| "arg_text (LPtr v) = ''0x'' @ butlast (snd (ConvertPointer v))"
| "arg_text (LTptr v) = butlast (snd (ConvertPointer v))"
| "arg_text (LBool v) = (if v then ''1'' else ''0'')"
| "arg_text (LChar v) = [v]"
| "arg_text LNoflush = []"

text \<open>Numbers are values of types of up to 64 bits.\<close>

fun arg_ok :: "log_arg \<Rightarrow> bool" where
  "arg_ok (LInt v) = (- (2 ^ 63) \<le> v \<and> v < 2 ^ 64)"
| "arg_ok (LPtr v) = (v < 2 ^ 64)"
| "arg_ok (LTptr v) = (v < 2 ^ 64)"
| "arg_ok _ = True"

lemma put_ok: "int (length bs) \<le> avial s \<Longrightarrow> put bs n s = Some (s\<lparr>ls_data := ls_data s @ take n bs\<rparr>)"
  by (simp add: put_def)

lemma avial_data:
  "ls_cap s \<noteq> None \<Longrightarrow> avial (s\<lparr>ls_data := ls_data s @ xs\<rparr>) = avial s - int (length xs)"
  by (auto simp: avial_def)

lemma avial_cong [simp]: "avial (s\<lparr>auto_flush := b\<rparr>) = avial s" "avial (s\<lparr>source := f\<rparr>) = avial s" "avial (s\<lparr>log_level := l\<rparr>) = avial s"
  by (simp_all add: avial_def split: option.split)

text \<open>With more than 24 bytes of room left behind it, an argument is added in full.\<close>

lemma shl_adds:
  assumes "ls_cap s \<noteq> None" "arg_ok a" "int (length (arg_text a)) + int kMaxNumericSize \<le> avial s"
  shows "shl a s = Some (s\<lparr>ls_data := ls_data s @ arg_text a, auto_flush := auto_flush s \<and> a \<noteq> LNoflush\<rparr>)"
proof -
  have str: "ls_append xs s = Some (s\<lparr>ls_data := ls_data s @ xs, auto_flush := auto_flush s\<rparr>)"
    if "int (length xs) + int kMaxNumericSize \<le> avial s" for xs
    using that by (auto simp: ls_append_def just_append_def put_ok Let_def)
  show ?thesis
  proof (cases a)
    case (LInt v)
    then obtain ds where "ConvertInteger v = (length ds, ds @ [CHR 0x00])" "length ds \<le> 21"
      using ConvertInteger_fits assms(2) by auto
    then show ?thesis using assms(3) LInt by (simp add: AppendInteger_def put_ok kMaxNumericSize_def)
  next
    case (LHex v)
    obtain ds where "ConvertHexInteger v = (length ds, ds @ [CHR 0x00])" "length ds \<le> 18"
      using ConvertHexInteger_fits by blast
    then show ?thesis using assms(3) LHex by (simp add: HexLogger_def put_ok kMaxNumericSize_def)
  next
    case (LFloat cs)
    then show ?thesis using assms(3) by (simp add: appendf_def put_ok kMaxNumericSize_def Let_def)
  next
    case (LPtr v)
    then obtain ds where ds: "ConvertPointer v = (length ds, ds @ [CHR 0x00])" "length ds \<le> 16"
      using ConvertPointer_fits [of v 16] assms(2) by auto
    show ?thesis using assms(1,3) LPtr ds
      by (simp add: append_pointer_def put_ok kMaxNumericSize_def kMaxPointerSize_def avial_data [OF assms(1)] avial_def split: option.splits)
  next
    case (LTptr v)
    then obtain ds where ds: "ConvertPointer v = (length ds, ds @ [CHR 0x00])" "length ds \<le> 16"
      using ConvertPointer_fits [of v 16] assms(2) by auto
    then show ?thesis using assms(3) LTptr by (simp add: append_typed_pointer_def put_ok kMaxNumericSize_def kMaxPointerSize_def)
  qed (use assms(3) str in \<open>auto simp: append_char_def put_ok kMaxNumericSize_def split: option.splits\<close>)
qed

definition texts :: "log_arg list \<Rightarrow> string" where
  "texts args = concat (map arg_text args)"

lemma shl_all_adds:
  "ls_cap s \<noteq> None \<Longrightarrow> list_all arg_ok args \<Longrightarrow> int (length (texts args)) + int kMaxNumericSize \<le> avial s \<Longrightarrow>
   shl_all args s = Some (s\<lparr>ls_data := ls_data s @ texts args, auto_flush := auto_flush s \<and> LNoflush \<notin> set args\<rparr>)"
proof (induction args arbitrary: s)
  case Nil
  then show ?case by (simp add: texts_def)
next
  case (Cons a args)
  let ?s = "s\<lparr>ls_data := ls_data s @ arg_text a, auto_flush := auto_flush s \<and> a \<noteq> LNoflush\<rparr>"
  have t: "texts (a # args) = arg_text a @ texts args" by (simp add: texts_def)
  have 1: "shl a s = Some ?s" using Cons.prems by (intro shl_adds) (simp_all add: t)
  have a: "avial ?s = avial s - int (length (arg_text a))" using avial_data [OF Cons.prems(1)] by simp
  have "shl_all args ?s = Some (?s\<lparr>ls_data := ls_data ?s @ texts args, auto_flush := auto_flush ?s \<and> LNoflush \<notin> set args\<rparr>)"
    using Cons.prems a by (intro Cons.IH) (simp_all add: t)
  then show ?case using 1 by (simp add: t eq_commute [of LNoflush a])
qed

text \<open>The place in the source, if there is room for it.\<close>

definition place :: "nat \<Rightarrow> source_file \<Rightarrow> string" where
  "place left src =
     (if left \<ge> length (file_name src) + 32
      then '' - '' @ file_name src @ '':'' @ butlast (snd (ConvertInteger (file_line src))) else [])"

lemma append_place_eq:
  assumes "ls_cap s = Some c" "length (ls_data s) \<le> c" "- (2 ^ 63) \<le> file_line (source s)" "file_line (source s) < 2 ^ 64"
  shows "append_place s = Some (s\<lparr>ls_data := ls_data s @ place (c - length (ls_data s)) (source s)\<rparr>)"
    "length (place (c - length (ls_data s)) (source s)) < c - length (ls_data s) \<or> place (c - length (ls_data s)) (source s) = []"
proof -
  obtain ds where ds: "ConvertInteger (file_line (source s)) = (length ds, ds @ [CHR 0x00])" "length ds \<le> 21"
    using ConvertInteger_fits [OF assms(3,4)] by blast
  have a: "avial (s\<lparr>ls_data := xs\<rparr>) = int c - int (length xs)" for xs using assms(1) by (simp add: avial_def)
  have a0: "avial s = int c - int (length (ls_data s))" using assms(1) by (simp add: avial_def)
  show "append_place s = Some (s\<lparr>ls_data := ls_data s @ place (c - length (ls_data s)) (source s)\<rparr>)"
    using assms(2) ds by (auto simp: append_place_def just_append_def put_def a a0 place_def)
  show "length (place (c - length (ls_data s)) (source s)) < c - length (ls_data s) \<or> place (c - length (ls_data s)) (source s) = []"
    using ds by (auto simp: place_def)
qed

lemma Sink_flushes:
  assumes "auto_flush s" "ls_cap s = Some c" "length (ls_data s) < c"
    "- (2 ^ 63) \<le> file_line (source s)" "file_line (source s) < 2 ^ 64"
  shows "Sink ef s = (let line = ls_data s @ place (c - length (ls_data s)) (source s) @ [CHR 0x0A]
    in Some (if ef \<le> log_level s then Some line else None, Some line, s\<lparr>ls_data := []\<rparr>))"
proof -
  note p = append_place_eq [OF assms(2) less_imp_le [OF assms(3)] assms(4,5)]
  let ?s = "s\<lparr>ls_data := ls_data s @ place (c - length (ls_data s)) (source s)\<rparr>"
  have "1 \<le> avial ?s" using p(2) assms(2,3) by (auto simp: avial_def)
  moreover have "s\<lparr>ls_data := [], auto_flush := True\<rparr> = s\<lparr>ls_data := []\<rparr>" using assms(1) by (cases s) simp
  ultimately show ?thesis using assms(1) p(1) by (simp add: Sink_def put_def Let_def)
qed

subsection \<open>Properties\<close>

definition header :: "string \<Rightarrow> string \<Rightarrow> nat \<Rightarrow> string" where
  "header date thread_name level = date @ thread_name @ LogLevelName ! level"

lemma start_line_eq:
  assumes "ls_cap s = Some c \<or> ls_cap s = None \<and> g_max = c \<and> ls_data s = []" "length (header date thread_name level) \<le> c"
  shows "start_line g_max date thread_name level src s =
    Some (if ls_data s = [] then s\<lparr>ls_cap := Some c, ls_data := header date thread_name level, log_level := level, source := src\<rparr>
      else s\<lparr>log_level := level\<rparr>)"
  using assms by (cases s)
    (auto simp: start_line_def check_buffer_def just_append_def put_def avial_def header_def Let_def)

lemma log_statement_ok:
  assumes "ls_cap s = Some c \<or> ls_cap s = None \<and> g_max = c \<and> ls_data s = []" "auto_flush s" "list_all arg_ok args"
    and "txt = (if ls_data s = [] then header date thread_name level else ls_data s) @ texts args"
    and "place_of = (if ls_data s = [] then src else source s)"
    and "length txt + kMaxNumericSize \<le> c" "- (2 ^ 63) \<le> file_line place_of" "file_line place_of < 2 ^ 64"
  shows "\<exists>s'. ls_cap s' = Some c \<and> auto_flush s' \<and> source s' = place_of
    \<and> (if LNoflush \<in> set args
       then log_statement g_max g_ef date thread_name level src args s = Some (None, None, s') \<and> ls_data s' = txt
       else let line = txt @ place (c - length txt) place_of @ [CHR 0x0A]
         in log_statement g_max g_ef date thread_name level src args s
              = Some (if g_ef \<le> level then Some line else None, Some line, s') \<and> ls_data s' = [])"
proof -
  define s1 where "s1 = (if ls_data s = [] then s\<lparr>ls_cap := Some c, ls_data := header date thread_name level, log_level := level, source := src\<rparr>
      else s\<lparr>log_level := level\<rparr>)"
  let ?h = "if ls_data s = [] then header date thread_name level else ls_data s"
  have h: "ls_data s1 = ?h" "ls_cap s1 = Some c" "source s1 = place_of" "log_level s1 = level" "auto_flush s1"
    using assms(1,2,5) by (auto simp: s1_def)
  have "length (header date thread_name level) \<le> c \<or> ls_data s \<noteq> []" using assms(4,6) by auto
  then have start: "start_line g_max date thread_name level src s = Some s1"
    using start_line_eq [OF assms(1)] assms(1) unfolding s1_def
    by (auto simp: start_line_def check_buffer_def)
  let ?s2 = "s1\<lparr>ls_data := txt, auto_flush := LNoflush \<notin> set args\<rparr>"
  have av: "int (length (texts args)) + int kMaxNumericSize \<le> avial s1"
    using assms(4,6) h(1,2) by (auto simp: avial_def)
  have all: "shl_all args s1 = Some ?s2"
    using shl_all_adds [OF _ assms(3) av] h assms(4) by simp
  show ?thesis
  proof (cases "LNoflush \<in> set args")
    case True
    then have "log_statement g_max g_ef date thread_name level src args s = Some (None, None, ?s2\<lparr>auto_flush := True\<rparr>)"
      using start all by (simp add: log_statement_def Sink_def)
    then show ?thesis using True h by (intro exI [of _ "?s2\<lparr>auto_flush := True\<rparr>"]) simp
  next
    case False
    have "length txt < c" using assms(6) by (simp add: kMaxNumericSize_def)
    then have "Sink g_ef ?s2 = (let line = txt @ place (c - length txt) place_of @ [CHR 0x0A]
        in Some (if g_ef \<le> level then Some line else None, Some line, ?s2\<lparr>ls_data := []\<rparr>))"
      using Sink_flushes [of ?s2 c g_ef] False h assms(7,8) by simp
    then show ?thesis using start all False h
      by (intro exI [of _ "?s2\<lparr>ls_data := []\<rparr>"]) (simp add: log_statement_def Let_def)
  qed
qed

text \<open>A log statement that fits, with 24 bytes to spare: it writes nothing outside the buffer; the
  line is what an earlier statement left with \<open>noflush\<close>, or the header of the statement, then the text of
  every argument in order, then the place in the source if there is room, then a newline; it goes
  to the sink, and to the error output if the level asks for it, and the buffer is empty again. With \<open>noflush\<close>
  nothing goes out and the text stays for the next statement.\<close>

theorem log_statement_line:
  assumes "ls_cap s = Some c \<or> ls_cap s = None \<and> g_max = c \<and> ls_data s = []" "auto_flush s" "list_all arg_ok args"
    and "txt = (if ls_data s = [] then header date thread_name level else ls_data s) @ texts args"
    and "place_of = (if ls_data s = [] then src else source s)"
    and "length txt + kMaxNumericSize \<le> c" "- (2 ^ 63) \<le> file_line place_of" "file_line place_of < 2 ^ 64"
  shows "\<exists>s'. ls_cap s' = Some c \<and> auto_flush s' \<and> source s' = place_of
    \<and> (if LNoflush \<in> set args
       then log_statement g_max g_ef date thread_name level src args s = Some (None, None, s') \<and> ls_data s' = txt
       else let line = txt @ place (c - length txt) place_of @ [CHR 0x0A]
         in log_statement g_max g_ef date thread_name level src args s
              = Some (if g_ef \<le> level then Some line else None, Some line, s') \<and> ls_data s' = [])"
  by (rule log_statement_ok [OF assms])

definition quiet_stream :: log_stream where
  "quiet_stream = \<lparr>ls_cap = None, ls_data = [], auto_flush = True, log_level = 0, source = SourceFile ''logger.h'' 18\<rparr>"

theorem log_statement_line_witness:
  "\<exists>s'. log_statement 2048 4 ''20160912-13:34:59.000000Z'' ''T00042'' 2 (SourceFile ''src/t.cpp'' 7) [LCstr (Some ''hi''), LBool True] quiet_stream
    = Some (None, Some (''20160912-13:34:59.000000ZT00042  INFO hi1 - t.cpp:7'' @ [CHR 0x0A]), s')"
proof -
  have 1: "ls_cap quiet_stream = Some 2048 \<or> ls_cap quiet_stream = None \<and> 2048 = (2048 :: nat) \<and> ls_data quiet_stream = []"
    "auto_flush quiet_stream" "list_all arg_ok [LCstr (Some ''hi''), LBool True]"
    by (simp_all add: quiet_stream_def)
  have 2: "ConvertInteger 7 = (1, ''7'' @ [CHR 0x00])"
    by (simp add: ConvertInteger_def integer_loop.simps s_zero_def s_digits_def Let_def)
  have 3: "''20160912-13:34:59.000000ZT00042  INFO hi1'' = (if ls_data quiet_stream = [] then header ''20160912-13:34:59.000000Z'' ''T00042'' 2
      else ls_data quiet_stream) @ texts [LCstr (Some ''hi''), LBool True]"
    by (simp add: quiet_stream_def header_def LogLevelName_def texts_def)
  have 4: "SourceFile ''src/t.cpp'' 7 = (if ls_data quiet_stream = [] then SourceFile ''src/t.cpp'' 7 else source quiet_stream)"
    by (simp add: quiet_stream_def)
  from log_statement_line [OF 1 3 4, of 4] show ?thesis
    by (auto simp: kMaxNumericSize_def SourceFile_def place_def 2)
qed

text \<open>A string argument that is at least as long as the room that is left is cut off at the end of the
  buffer without an overflow, but the newline that \<open>Sink\<close> then adds is written one byte behind the
  buffer.\<close>

theorem log_line_overflow:
  assumes "ls_cap s = Some c" "length (ls_data s) < c" "c \<le> length (ls_data s) + length cs" "auto_flush s"
  shows "shl (LString cs) s = Some (s\<lparr>ls_data := ls_data s @ take (c - length (ls_data s)) cs\<rparr>)
    \<and> Sink g_ef (s\<lparr>ls_data := ls_data s @ take (c - length (ls_data s)) cs\<rparr>) = None"
proof
  let ?s = "s\<lparr>ls_data := ls_data s @ take (c - length (ls_data s)) cs\<rparr>"
  have a: "avial s = int (c - length (ls_data s))" using assms(1,2) by (simp add: avial_def)
  have n: "min (int (length cs)) (int (c - length (ls_data s))) = int (c - length (ls_data s))" using assms(2,3) by simp
  show "shl (LString cs) s = Some ?s"
    unfolding shl.simps ls_append_def a n Let_def nat_int
    using assms(2,3) a by (simp add: just_append_def put_def)
  have "avial ?s = 0" using assms(1-3) by (simp add: avial_def)
  then show "Sink g_ef ?s = None" using assms(4) by (simp add: Sink_def append_place_def put_def check_def)
qed

theorem log_line_overflow_witness:
  "\<exists>s :: log_stream. shl (LString (replicate 2048 CHR ''x'')) (quiet_stream\<lparr>ls_cap := Some 2048\<rparr>) = Some s \<and> Sink 4 s = None"
  using log_line_overflow [of "quiet_stream\<lparr>ls_cap := Some 2048\<rparr>" 2048 "replicate 2048 CHR ''x''" 4]
  by (auto simp: quiet_stream_def)

end
