(* ===== verification/Log_Sink.thy ===== *)
theory Log_Sink
  imports Prelude
begin

text \<open>
  \<open>LogSinkThread\<close> of \<^verbatim>\<open>src/logger.cpp\<close>: threads append messages to the current buffer; the
  background thread takes over what is in it and writes it out. Buffers are named in the order of
  their allocation and their memory is explicit, because the references in \<open>ref_list_\<close> are read
  only when they are written out. An access outside a buffer is \<^term>\<open>None\<close>. The steps are those between which the
  code holds no mutex: an append is one, and the background thread takes the bytes at the front, takes the next
  reference, and writes it out in one step each, so that appends fall anywhere between them. The clock of the wait is not
  modelled.
\<close>

subsection \<open>State and operations\<close>

definition kFlushBufferSize :: nat where
  "kFlushBufferSize = 32 * 1024"

text \<open>A reference to the first bytes of a buffer; length 0 returns the buffer to the free list.
  \<open>ptr_\<close> is always the beginning of the current buffer, so \<open>s_cur_ptr\<close> is an offset.\<close>

record buffer_ref =
  r_buf :: nat
  r_length :: nat

text \<open>Where the background thread is in the loop of \<open>work\<close>: waiting, at the lock of \<open>flush\<close>, or in the output function.\<close>

datatype sink_pc = Waiting | Flushing | Printing buffer_ref

record log_sink =
  s_mem :: "nat \<Rightarrow> char list"
  s_allocated :: nat
  free_buffer_list :: "nat list"
  ref_list :: "buffer_ref list"
  cur_buffer :: "nat option"
  s_cur_ptr :: nat
  s_out :: "char list"
  s_pc :: sink_pc

definition LogSinkThread :: log_sink where
  "LogSinkThread = \<lparr>s_mem = (\<lambda>_. []), s_allocated = 0, free_buffer_list = [], ref_list = [],
     cur_buffer = None, s_cur_ptr = 0, s_out = [], s_pc = Waiting\<rparr>"

text \<open>\<open>malloc\<close> gives a buffer with arbitrary contents \<open>junk\<close>.\<close>

definition new_buffer :: "char list \<Rightarrow> log_sink \<Rightarrow> log_sink" where
  "new_buffer junk s =
     (let s1 = (case cur_buffer s of
                  Some b \<Rightarrow> s\<lparr>ref_list := ref_list s @ (if 0 < s_cur_ptr s then [\<lparr>r_buf = b, r_length = s_cur_ptr s\<rparr>] else [])
                      @ [\<lparr>r_buf = b, r_length = 0\<rparr>]\<rparr>
                | None \<Rightarrow> s);
          s2 = (case free_buffer_list s1 of
                  [] \<Rightarrow> s1\<lparr>cur_buffer := Some (s_allocated s1), s_mem := (s_mem s1)(s_allocated s1 := junk),
                      s_allocated := s_allocated s1 + 1\<rparr>
                | b # bs \<Rightarrow> s1\<lparr>cur_buffer := Some b, free_buffer_list := bs\<rparr>)
      in s2\<lparr>s_cur_ptr := 0\<rparr>)"

definition append_buf :: "char list \<Rightarrow> char list \<Rightarrow> log_sink \<Rightarrow> log_sink option" where
  "append_buf junk p s = do {
     let s1 = (if cur_buffer s = None then new_buffer junk s else s);
     let s2 = (if s_cur_ptr s1 + length p > kFlushBufferSize then new_buffer junk s1 else s1);
     b \<leftarrow> cur_buffer s2;
     check (s_cur_ptr s2 + length p \<le> kFlushBufferSize);
     let m = s_mem s2 b;
     Some (s2\<lparr>s_mem := (s_mem s2)(b := take (s_cur_ptr s2) m @ p @ drop (s_cur_ptr s2 + length p) m),
       s_cur_ptr := s_cur_ptr s2 + length p\<rparr>)}"

definition sync_with_front :: "log_sink \<Rightarrow> log_sink" where
  "sync_with_front s =
     (case cur_buffer s of
        Some b \<Rightarrow>
          if 0 < s_cur_ptr s
          then s\<lparr>ref_list := ref_list s @ [\<lparr>r_buf = b, r_length = s_cur_ptr s\<rparr>], s_cur_ptr := 0\<rparr>
          else s
      | None \<Rightarrow> s)"

text \<open>The inner loop of \<open>flush\<close>, under its mutex: buffers that are returned go to the free list, up to the first
  reference to data.\<close>

fun take_ref :: "buffer_ref list \<Rightarrow> nat list \<Rightarrow> buffer_ref option \<times> buffer_ref list \<times> nat list" where
  "take_ref [] fs = (None, [], fs)"
| "take_ref (r # rs) fs = (if r_length r = 0 then take_ref rs (fs @ [r_buf r]) else (Some r, rs, fs))"

text \<open>A step of the background thread: \<open>sync_with_front\<close>, a round of \<open>flush\<close> up to the output, or the output.\<close>

definition sink_tick :: "log_sink \<Rightarrow> log_sink" where
  "sink_tick s = (case s_pc s of
       Waiting \<Rightarrow> (sync_with_front s)\<lparr>s_pc := Flushing\<rparr>
     | Flushing \<Rightarrow> (let (r, rs, fs) = take_ref (ref_list s) (free_buffer_list s)
         in s\<lparr>ref_list := rs, free_buffer_list := fs, s_pc := (case r of None \<Rightarrow> Waiting | Some r \<Rightarrow> Printing r)\<rparr>)
     | Printing r \<Rightarrow> s\<lparr>s_out := s_out s @ take (r_length r) (s_mem s (r_buf r)), s_pc := Flushing\<rparr>)"

text \<open>\<open>flush\<close> without interruption: references in order, until the list is empty.\<close>

fun flush_refs :: "buffer_ref list \<Rightarrow> log_sink \<Rightarrow> log_sink" where
  "flush_refs [] s = s"
| "flush_refs (r # rs) s = flush_refs rs
     (if r_length r = 0 then s\<lparr>free_buffer_list := free_buffer_list s @ [r_buf r]\<rparr>
      else s\<lparr>s_out := s_out s @ take (r_length r) (s_mem s (r_buf r))\<rparr>)"

definition flush :: "log_sink \<Rightarrow> log_sink" where
  "flush s = flush_refs (ref_list s) (s\<lparr>ref_list := []\<rparr>)"

text \<open>What follows the loop of \<open>work\<close>.\<close>

definition work_end :: "char list \<Rightarrow> char list \<Rightarrow> log_sink \<Rightarrow> log_sink option" where
  "work_end junk msg s = do {
     s1 \<leftarrow> append_buf junk msg s;
     Some (flush (new_buffer junk s1))}"

subsection \<open>Invariant\<close>

definition released_bufs :: "buffer_ref list \<Rightarrow> nat list" where
  "released_bufs rs = map r_buf (filter (\<lambda>r. r_length r = 0) rs)"

text \<open>The references that are not written yet, the one in the output function first.\<close>

definition in_flight :: "log_sink \<Rightarrow> buffer_ref list" where
  "in_flight s = (case s_pc s of Printing r \<Rightarrow> [r] | _ \<Rightarrow> [])"

definition pending :: "log_sink \<Rightarrow> buffer_ref list" where
  "pending s = in_flight s @ ref_list s"

text \<open>Every reference to data comes before the return of its buffer, or its buffer is the current one.\<close>

fun refs_ok :: "nat option \<Rightarrow> buffer_ref list \<Rightarrow> bool" where
  "refs_ok c [] = True"
| "refs_ok c (r # rs) = ((0 < r_length r \<longrightarrow> r_buf r \<in> set (released_bufs rs) \<or> c = Some (r_buf r)) \<and> refs_ok c rs)"

text \<open>No bytes of the current buffer wait to be written: an append cannot overwrite them.\<close>

definition quiet :: "log_sink \<Rightarrow> bool" where
  "quiet s = (\<forall>r \<in> set (pending s). cur_buffer s \<noteq> Some (r_buf r))"

definition in_use :: "log_sink \<Rightarrow> nat list" where
  "in_use s = released_bufs (ref_list s) @ free_buffer_list s @ (case cur_buffer s of None \<Rightarrow> [] | Some b \<Rightarrow> [b])"

definition sink_ok :: "log_sink \<Rightarrow> bool" where
  "sink_ok s = (refs_ok (cur_buffer s) (pending s) \<and> distinct (in_use s)
     \<and> (\<forall>b \<in> set (in_use s). b < s_allocated s \<and> length (s_mem s b) = kFlushBufferSize)
     \<and> s_cur_ptr s \<le> kFlushBufferSize \<and> (cur_buffer s = None \<longrightarrow> s_cur_ptr s = 0)
     \<and> (\<forall>r \<in> set (pending s). r_length r \<le> kFlushBufferSize) \<and> (\<forall>r \<in> set (in_flight s). 0 < r_length r)
     \<and> (s_pc s = Waiting \<longrightarrow> quiet s))"

definition ref_data :: "(nat \<Rightarrow> char list) \<Rightarrow> buffer_ref \<Rightarrow> char list" where
  "ref_data m r = take (r_length r) (m (r_buf r))"

definition current :: "log_sink \<Rightarrow> char list" where
  "current s = (case cur_buffer s of None \<Rightarrow> [] | Some b \<Rightarrow> take (s_cur_ptr s) (s_mem s b))"

text \<open>What was appended and is not written yet.\<close>

definition unwritten :: "log_sink \<Rightarrow> char list" where
  "unwritten s = concat (map (ref_data (s_mem s)) (pending s)) @ current s"

lemma pending_updates [simp]:
  "pending (s\<lparr>cur_buffer := c\<rparr>) = pending s" "pending (s\<lparr>free_buffer_list := fs\<rparr>) = pending s" "pending (s\<lparr>s_mem := m\<rparr>) = pending s"
  "pending (s\<lparr>s_allocated := n\<rparr>) = pending s" "pending (s\<lparr>s_cur_ptr := n\<rparr>) = pending s" "pending (s\<lparr>s_out := out\<rparr>) = pending s"
  "in_flight (s\<lparr>cur_buffer := c\<rparr>) = in_flight s" "in_flight (s\<lparr>free_buffer_list := fs\<rparr>) = in_flight s" "in_flight (s\<lparr>s_mem := m\<rparr>) = in_flight s"
  "in_flight (s\<lparr>s_allocated := n\<rparr>) = in_flight s" "in_flight (s\<lparr>s_cur_ptr := n\<rparr>) = in_flight s" "in_flight (s\<lparr>ref_list := rs\<rparr>) = in_flight s"
  "in_flight (s\<lparr>s_out := out\<rparr>) = in_flight s"
  by (simp_all add: pending_def in_flight_def)

lemma released_append [simp]: "released_bufs (rs @ rs') = released_bufs rs @ released_bufs rs'"
  by (simp add: released_bufs_def)

lemma released_Cons [simp]:
  "released_bufs [] = []" "released_bufs (r # rs) = (if r_length r = 0 then [r_buf r] else []) @ released_bufs rs"
  by (simp_all add: released_bufs_def)

lemma refs_ok_None: "refs_ok None rs \<Longrightarrow> refs_ok c rs"
  by (induction rs) auto

lemma refs_ok_retire: "refs_ok c rs \<Longrightarrow> \<forall>b. c = Some b \<longrightarrow> b \<in> set (released_bufs rs') \<Longrightarrow> refs_ok None rs' \<Longrightarrow> refs_ok None (rs @ rs')"
  by (induction rs) auto

lemma refs_ok_append: "refs_ok c rs \<Longrightarrow> refs_ok c rs' \<Longrightarrow> refs_ok c (rs @ rs')"
  by (induction rs) auto

lemma refs_ok_drop: "refs_ok c (ps @ rs) \<Longrightarrow> refs_ok c rs"
  by (induction ps) auto

lemma refs_bufs: "refs_ok c rs \<Longrightarrow> r \<in> set rs \<Longrightarrow> r_buf r \<in> set (released_bufs rs) \<or> c = Some (r_buf r)"
  by (induction rs) (auto split: if_splits)

lemma released_pending: "sink_ok s \<Longrightarrow> released_bufs (pending s) = released_bufs (ref_list s)"
  by (auto simp: sink_ok_def pending_def in_flight_def split: sink_pc.splits)

lemma pending_in_use: "sink_ok s \<Longrightarrow> r \<in> set (pending s) \<Longrightarrow> r_buf r \<in> set (in_use s)"
  using refs_bufs [of "cur_buffer s" "pending s" r] released_pending [of s] by (auto simp: sink_ok_def in_use_def)

lemma LogSinkThread_ok: "sink_ok LogSinkThread" "unwritten LogSinkThread = []"
  by (simp_all add: sink_ok_def LogSinkThread_def in_use_def unwritten_def current_def kFlushBufferSize_def pending_def
      in_flight_def quiet_def)

text \<open>Taking the current buffer out of use, and putting another in its place.\<close>

definition retired :: "log_sink \<Rightarrow> log_sink" where
  "retired s = (case cur_buffer s of
      Some b \<Rightarrow> s\<lparr>ref_list := ref_list s @ (if 0 < s_cur_ptr s then [\<lparr>r_buf = b, r_length = s_cur_ptr s\<rparr>] else [])
          @ [\<lparr>r_buf = b, r_length = 0\<rparr>], cur_buffer := None, s_cur_ptr := 0\<rparr>
    | None \<Rightarrow> s\<lparr>s_cur_ptr := 0\<rparr>)"

lemma retired_simps:
  "cur_buffer (retired s) = None" "s_cur_ptr (retired s) = 0" "s_out (retired s) = s_out s" "s_mem (retired s) = s_mem s"
  "free_buffer_list (retired s) = free_buffer_list s" "s_allocated (retired s) = s_allocated s" "s_pc (retired s) = s_pc s"
  by (simp_all add: retired_def split: option.split)

lemma retired_ok:
  assumes ok: "sink_ok s"
  shows "sink_ok (retired s)" "unwritten (retired s) = unwritten s"
proof -
  have "sink_ok (retired s) \<and> unwritten (retired s) = unwritten s"
  proof (cases "cur_buffer s")
    case None
    then show ?thesis using ok
      by (simp add: retired_def sink_ok_def in_use_def pending_def in_flight_def quiet_def unwritten_def current_def)
  next
    case (Some b)
    let ?qs = "(if 0 < s_cur_ptr s then [\<lparr>r_buf = b, r_length = s_cur_ptr s\<rparr>] else []) @ [\<lparr>r_buf = b, r_length = 0\<rparr>]"
    have r: "retired s = s\<lparr>ref_list := ref_list s @ ?qs, cur_buffer := None, s_cur_ptr := 0\<rparr>" using Some by (simp add: retired_def)
    have "refs_ok None (pending s @ ?qs)" using ok Some by (intro refs_ok_retire [of "Some b"]) (simp_all add: sink_ok_def)
    moreover have p: "pending (retired s) = pending s @ ?qs" "in_flight (retired s) = in_flight s"
      by (simp_all add: r pending_def in_flight_def)
    ultimately have "sink_ok (retired s)"
      using ok Some unfolding sink_ok_def p by (auto simp: r in_use_def quiet_def)
    moreover have "unwritten (retired s) = unwritten s"
      unfolding unwritten_def p by (simp add: r current_def Some ref_data_def)
    ultimately show ?thesis by simp
  qed
  then show "sink_ok (retired s)" "unwritten (retired s) = unwritten s" by simp_all
qed

lemma new_buffer_retired: "new_buffer junk s = (case free_buffer_list (retired s) of
      [] \<Rightarrow> (retired s)\<lparr>cur_buffer := Some (s_allocated (retired s)), s_mem := (s_mem (retired s))(s_allocated (retired s) := junk),
        s_allocated := s_allocated (retired s) + 1\<rparr>
    | b # bs \<Rightarrow> (retired s)\<lparr>cur_buffer := Some b, free_buffer_list := bs\<rparr>)"
  by (cases s) (auto simp: new_buffer_def retired_def Let_def split: option.split list.split)

lemma new_buffer_ok:
  assumes ok: "sink_ok s" and junk: "length junk = kFlushBufferSize"
  shows "sink_ok (new_buffer junk s)" "unwritten (new_buffer junk s) = unwritten s" "s_out (new_buffer junk s) = s_out s"
    "s_cur_ptr (new_buffer junk s) = 0" "cur_buffer (new_buffer junk s) \<noteq> None" "quiet (new_buffer junk s)"
    "s_pc (new_buffer junk s) = s_pc s"
proof -
  let ?s = "retired s" and ?n = "new_buffer junk s"
  note r = retired_ok [OF ok] and rs = retired_simps [of s]
  have p: "pending ?n = pending ?s" "in_flight ?n = in_flight ?s"
    by (simp_all add: new_buffer_retired pending_def in_flight_def split: list.split)
  have fresh: "s_allocated ?s \<notin> set (in_use ?s)" using r(1) unfolding sink_ok_def by blast
  have used: "r_buf q \<in> set (released_bufs (ref_list ?s))" if "q \<in> set (pending ?s)" for q
    using refs_bufs [OF _ that, of None] released_pending [OF r(1)] r(1) rs(1) by (simp add: sink_ok_def)
  have old: "r_buf q \<noteq> s_allocated ?s" if "q \<in> set (pending ?s)" for q
    using pending_in_use [OF r(1) that] fresh by auto
  show q: "quiet ?n" unfolding quiet_def p using old used r(1) rs(1)
    by (cases "free_buffer_list ?s") (fastforce simp: new_buffer_retired sink_ok_def in_use_def)+
  show "sink_ok ?n" using r(1) fresh rs(1,2) junk q refs_ok_None unfolding sink_ok_def p new_buffer_retired
    by (cases "free_buffer_list ?s") (auto simp: in_use_def less_Suc_eq)
  have m: "map (ref_data ((s_mem ?s)(s_allocated ?s := junk))) (pending ?s) = map (ref_data (s_mem ?s)) (pending ?s)"
    using old by (simp add: ref_data_def)
  have "unwritten ?n = unwritten ?s" unfolding unwritten_def p using rs(1,2) m
    by (cases "free_buffer_list ?s") (simp_all add: new_buffer_retired current_def del: map_eq_conv)
  then show "unwritten ?n = unwritten s" using r(2) by simp
  show "s_out ?n = s_out s" "s_cur_ptr ?n = 0" "cur_buffer ?n \<noteq> None" "s_pc ?n = s_pc s"
    unfolding new_buffer_retired using rs by (simp_all split: list.split)
qed

lemma append_buf_ok:
  assumes ok: "sink_ok s" "quiet s" and junk: "length junk = kFlushBufferSize" and small: "length p \<le> kFlushBufferSize"
  shows "\<exists>s'. append_buf junk p s = Some s' \<and> sink_ok s' \<and> unwritten s' = unwritten s @ p \<and> s_out s' = s_out s
    \<and> cur_buffer s' \<noteq> None \<and> s_pc s' = s_pc s \<and> quiet s'"
proof -
  note new = new_buffer_ok [OF _ junk]
  define s1 where "s1 = (if cur_buffer s = None then new_buffer junk s else s)"
  have 1: "sink_ok s1" "unwritten s1 = unwritten s" "s_out s1 = s_out s" "cur_buffer s1 \<noteq> None" "quiet s1" "s_pc s1 = s_pc s"
    using new [OF ok(1)] ok by (simp_all add: s1_def)
  define s2 where "s2 = (if s_cur_ptr s1 + length p > kFlushBufferSize then new_buffer junk s1 else s1)"
  have 2: "sink_ok s2" "unwritten s2 = unwritten s" "s_out s2 = s_out s" "cur_buffer s2 \<noteq> None"
    "s_cur_ptr s2 + length p \<le> kFlushBufferSize" "quiet s2" "s_pc s2 = s_pc s"
    using new [OF 1(1)] 1 small by (simp_all add: s2_def)
  then obtain b where b: "cur_buffer s2 = Some b" by blast
  let ?m = "s_mem s2 b" and ?c = "s_cur_ptr s2"
  let ?s = "s2\<lparr>s_mem := (s_mem s2)(b := take ?c ?m @ p @ drop (?c + length p) ?m), s_cur_ptr := ?c + length p\<rparr>"
  have run: "append_buf junk p s = Some ?s"
    using b 2(5) by (simp add: append_buf_def Let_def s1_def [symmetric] s2_def [symmetric])
  have len: "length ?m = kFlushBufferSize" using 2(1) b by (simp add: sink_ok_def in_use_def)
  have other: "r_buf r \<noteq> b" if "r \<in> set (pending s2)" for r
    using 2(6) b that by (auto simp: quiet_def)
  have ok': "sink_ok ?s" "quiet ?s" using 2(1,5,6) b len by (simp_all add: sink_ok_def in_use_def quiet_def)
  have "map (ref_data (s_mem ?s)) (pending s2) = map (ref_data (s_mem s2)) (pending s2)"
    using other by (simp add: ref_data_def)
  moreover have "take (?c + length p) (take ?c ?m @ p @ drop (?c + length p) ?m) = take ?c ?m @ p"
    using len 2(5) by (cases p) (auto simp: min_def)
  ultimately have "unwritten ?s = unwritten s2 @ p"
    using b by (simp add: unwritten_def current_def del: map_eq_conv)
  then show ?thesis using run ok' 2(2,3,7) b by (intro exI [of _ ?s]) simp
qed

subsection \<open>Steps of the background thread\<close>

lemma take_ref_split:
  "take_ref rs fs = (ro, rs', fs') \<Longrightarrow> \<exists>ps. (\<forall>q \<in> set ps. r_length q = 0) \<and> fs' = fs @ map r_buf ps
     \<and> rs = ps @ (case ro of None \<Rightarrow> [] | Some r \<Rightarrow> [r]) @ rs' \<and> (ro = None \<longrightarrow> rs' = []) \<and> (\<forall>r. ro = Some r \<longrightarrow> 0 < r_length r)"
proof (induction rs fs rule: take_ref.induct)
  case (2 r rs fs)
  show ?case
  proof (cases "r_length r = 0")
    case True
    from 2(1) [OF True] 2(2) True obtain ps where "(\<forall>q \<in> set ps. r_length q = 0) \<and> fs' = (fs @ [r_buf r]) @ map r_buf ps
       \<and> rs = ps @ (case ro of None \<Rightarrow> [] | Some r \<Rightarrow> [r]) @ rs' \<and> (ro = None \<longrightarrow> rs' = []) \<and> (\<forall>r. ro = Some r \<longrightarrow> 0 < r_length r)" by auto
    then show ?thesis using True by (intro exI [of _ "r # ps"]) simp
  next
    case False
    then show ?thesis using 2(2) by (intro exI [of _ "[]"]) auto
  qed
qed simp

lemma no_data: "\<forall>q \<in> set ps. r_length q = 0 \<Longrightarrow> released_bufs ps = map r_buf ps \<and> concat (map (ref_data m) ps) = []"
  by (induction ps) (simp_all add: ref_data_def)

lemma sink_tick_ok:
  assumes ok: "sink_ok s"
  shows "sink_ok (sink_tick s)" "s_out (sink_tick s) @ unwritten (sink_tick s) = s_out s @ unwritten s"
proof -
  have "sink_ok (sink_tick s) \<and> s_out (sink_tick s) @ unwritten (sink_tick s) = s_out s @ unwritten s"
  proof (cases "s_pc s")
    case Waiting
    then have p: "pending s = ref_list s" "in_flight s = []" by (simp_all add: pending_def in_flight_def)
    show ?thesis
    proof (cases "cur_buffer s")
      case None
      then have t: "sink_tick s = s\<lparr>s_pc := Flushing\<rparr>" using Waiting by (simp add: sink_tick_def sync_with_front_def)
      show ?thesis using ok p None unfolding t
        by (simp add: sink_ok_def in_use_def pending_def in_flight_def unwritten_def current_def)
    next
      case (Some b)
      let ?q = "if 0 < s_cur_ptr s then [\<lparr>r_buf = b, r_length = s_cur_ptr s\<rparr>] else []"
      have t: "sink_tick s = s\<lparr>ref_list := ref_list s @ ?q, s_cur_ptr := 0, s_pc := Flushing\<rparr>"
        using Waiting Some by (cases s) (simp add: sink_tick_def sync_with_front_def)
      have "refs_ok (Some b) (ref_list s @ ?q)" using ok Some p by (intro refs_ok_append) (simp_all add: sink_ok_def)
      then show ?thesis using ok p Some unfolding t
        by (auto simp: sink_ok_def in_use_def pending_def in_flight_def unwritten_def current_def ref_data_def)
    qed
  next
    case Flushing
    then have p: "pending s = ref_list s" "in_flight s = []" by (simp_all add: pending_def in_flight_def)
    obtain ro rs' fs' where tr: "take_ref (ref_list s) (free_buffer_list s) = (ro, rs', fs')" by (metis prod_cases3)
    let ?pc = "case ro of None \<Rightarrow> Waiting | Some r \<Rightarrow> Printing r" and ?r = "case ro of None \<Rightarrow> [] | Some r \<Rightarrow> [r]"
    let ?t = "s\<lparr>ref_list := rs', free_buffer_list := fs', s_pc := ?pc\<rparr>"
    have t: "sink_tick s = ?t" using Flushing tr by (simp add: sink_tick_def)
    obtain ps where ps: "\<forall>q \<in> set ps. r_length q = 0" "fs' = free_buffer_list s @ map r_buf ps"
      "ref_list s = ps @ ?r @ rs'" "ro = None \<longrightarrow> rs' = []" "\<forall>r. ro = Some r \<longrightarrow> 0 < r_length r"
      using take_ref_split [OF tr] by blast
    have q: "in_flight ?t = ?r" "pending ?t = ?r @ rs'" by (simp_all add: in_flight_def pending_def split: option.split)
    have rel: "released_bufs (ref_list s) = map r_buf ps @ released_bufs rs'"
      using no_data [OF ps(1)] ps(3,5) by (cases ro) simp_all
    have use: "mset (in_use ?t) = mset (in_use s)" by (simp add: in_use_def rel ps(2))
    then have use': "distinct (in_use ?t)" "set (in_use ?t) = set (in_use s)"
      using ok by (metis sink_ok_def mset_eq_imp_distinct_iff) (metis use set_mset_mset)
    have "refs_ok (cur_buffer s) (?r @ rs')" using ok refs_ok_drop [of "cur_buffer s" ps "?r @ rs'"] p(1) ps(3) by (simp add: sink_ok_def)
    then have "sink_ok ?t" using ok ps(3,4,5) use' p(1) unfolding sink_ok_def q
      by (auto simp: quiet_def pending_def in_flight_def split: option.splits)
    moreover have "unwritten ?t = unwritten s"
      unfolding unwritten_def q p(1) ps(3) using no_data [OF ps(1)] by (simp add: current_def cong: option.case_cong)
    ultimately show ?thesis unfolding t by simp
  next
    case (Printing r)
    then have t: "sink_tick s = s\<lparr>s_out := s_out s @ take (r_length r) (s_mem s (r_buf r)), s_pc := Flushing\<rparr>"
      by (simp add: sink_tick_def)
    show ?thesis using ok Printing unfolding t
      by (simp add: sink_ok_def in_use_def pending_def in_flight_def unwritten_def current_def ref_data_def cong: option.case_cong)
  qed
  then show "sink_ok (sink_tick s)" "s_out (sink_tick s) @ unwritten (sink_tick s) = s_out s @ unwritten s" by simp_all
qed

lemma sink_ticks_ok:
  "sink_ok s \<Longrightarrow> sink_ok ((sink_tick ^^ k) s) \<and> s_out ((sink_tick ^^ k) s) @ unwritten ((sink_tick ^^ k) s) = s_out s @ unwritten s"
  by (induction k) (simp_all add: sink_tick_ok)

lemma flush_refs_eq:
  "flush_refs rs s = s\<lparr>free_buffer_list := free_buffer_list s @ released_bufs rs,
     s_out := s_out s @ concat (map (ref_data (s_mem s)) rs)\<rparr>"
  by (induction rs arbitrary: s) (simp_all add: ref_data_def)

lemma flush_eq:
  "flush s = s\<lparr>ref_list := [], free_buffer_list := free_buffer_list s @ released_bufs (ref_list s),
     s_out := s_out s @ concat (map (ref_data (s_mem s)) (ref_list s))\<rparr>"
  by (simp add: flush_def flush_refs_eq)

text \<open>Left alone, the steps from the lock of \<open>flush\<close> on are \<open>flush\<close>, and they come to its end.\<close>

lemma flush_ticks:
  "s_pc s = Flushing \<Longrightarrow> \<exists>k. (sink_tick ^^ k) s = (flush s)\<lparr>s_pc := Waiting\<rparr>"
proof (induction "length (ref_list s)" arbitrary: s rule: less_induct)
  case less
  obtain ro rs' fs' where tr: "take_ref (ref_list s) (free_buffer_list s) = (ro, rs', fs')" by (metis prod_cases3)
  obtain ps where ps: "\<forall>q \<in> set ps. r_length q = 0" "fs' = free_buffer_list s @ map r_buf ps"
    "ref_list s = ps @ (case ro of None \<Rightarrow> [] | Some r \<Rightarrow> [r]) @ rs'" "ro = None \<longrightarrow> rs' = []" "\<forall>r. ro = Some r \<longrightarrow> 0 < r_length r"
    using take_ref_split [OF tr] by blast
  note nd = no_data [OF ps(1), of "s_mem s"]
  have t: "sink_tick s = s\<lparr>ref_list := rs', free_buffer_list := fs', s_pc := (case ro of None \<Rightarrow> Waiting | Some r \<Rightarrow> Printing r)\<rparr>"
    using less.prems tr by (simp add: sink_tick_def)
  show ?case
  proof (cases ro)
    case None
    then have "(sink_tick ^^ 1) s = (flush s)\<lparr>s_pc := Waiting\<rparr>" using ps nd by (simp add: t flush_eq)
    then show ?thesis by blast
  next
    case (Some r)
    let ?s = "s\<lparr>ref_list := rs', free_buffer_list := fs', s_out := s_out s @ take (r_length r) (s_mem s (r_buf r)), s_pc := Flushing\<rparr>"
    have "sink_tick (sink_tick s) = ?s" unfolding t using Some by (simp add: sink_tick_def)
    then have two: "(sink_tick ^^ 2) s = ?s" by (simp add: numeral_2_eq_2)
    have "length (ref_list ?s) < length (ref_list s)" using ps(3) Some by simp
    from less.hyps [OF this] obtain k where "(sink_tick ^^ k) ?s = (flush ?s)\<lparr>s_pc := Waiting\<rparr>" by auto
    moreover have "(flush ?s)\<lparr>s_pc := Waiting\<rparr> = (flush s)\<lparr>s_pc := Waiting\<rparr>"
      using ps Some nd by (simp add: flush_eq ref_data_def)
    ultimately have "(sink_tick ^^ (k + 2)) s = (flush s)\<lparr>s_pc := Waiting\<rparr>" unfolding funpow_add comp_apply two by simp
    then show ?thesis by blast
  qed
qed

text \<open>From any position the thread comes back to its wait with everything written.\<close>

lemma drain:
  assumes ok: "sink_ok s"
  shows "\<exists>k. s_pc ((sink_tick ^^ k) s) = Waiting \<and> s_out ((sink_tick ^^ k) s) = s_out s @ unwritten s"
proof -
  have arrive: "\<exists>k. s_pc ((sink_tick ^^ k) s) = Waiting" if "sink_ok s" for s
  proof (cases "s_pc s")
    case Waiting
    then show ?thesis by (intro exI [of _ 0]) simp
  next
    case Flushing
    then show ?thesis using flush_ticks [OF Flushing] by (metis log_sink.select_convs(8) log_sink.surjective log_sink.update_convs(8))
  next
    case (Printing r)
    then have "s_pc (sink_tick s) = Flushing" by (simp add: sink_tick_def)
    from flush_ticks [OF this] obtain k where "(sink_tick ^^ k) (sink_tick s) = (flush (sink_tick s))\<lparr>s_pc := Waiting\<rparr>" by blast
    then have "s_pc ((sink_tick ^^ Suc k) s) = Waiting" by (simp add: funpow_swap1)
    then show ?thesis by blast
  qed
  obtain k where k: "s_pc ((sink_tick ^^ k) s) = Waiting" using arrive [OF ok] by blast
  let ?s = "(sink_tick ^^ k) s"
  have 1: "sink_ok ?s" "s_out ?s @ unwritten ?s = s_out s @ unwritten s" using sink_ticks_ok [OF ok] by blast+
  let ?t = "sink_tick ?s"
  have t: "s_pc ?t = Flushing" "current ?t = []"
    using k 1(1) by (auto simp: sink_tick_def sync_with_front_def current_def sink_ok_def split: option.split)
  have 2: "sink_ok ?t" "s_out ?t @ unwritten ?t = s_out s @ unwritten s" using sink_tick_ok [OF 1(1)] 1(2) by simp_all
  obtain j where j: "(sink_tick ^^ j) ?t = (flush ?t)\<lparr>s_pc := Waiting\<rparr>" using flush_ticks [OF t(1)] by blast
  have "s_out (flush ?t) = s_out ?t @ unwritten ?t" using t by (simp add: flush_eq unwritten_def pending_def in_flight_def)
  moreover have "(sink_tick ^^ (j + Suc k)) s = (flush ?t)\<lparr>s_pc := Waiting\<rparr>" unfolding funpow_add comp_apply funpow.simps using j by simp
  ultimately show ?thesis using 2(2) by (intro exI [of _ "j + Suc k"]) simp
qed

text \<open>The end of the thread, which leaves its loop where it would wait again.\<close>

lemma last_flush:
  assumes "sink_ok s" "s_pc s = Waiting" "length junk = kFlushBufferSize"
  shows "s_out (flush (new_buffer junk s)) = s_out s @ unwritten s" "unwritten (flush (new_buffer junk s)) = []"
proof -
  note n = new_buffer_ok [OF assms(1,3)]
  let ?n = "new_buffer junk s"
  have c: "current ?n = []" using n(4) by (simp add: current_def split: option.split)
  have p: "pending ?n = ref_list ?n" using n(7) assms(2) by (simp add: pending_def in_flight_def)
  then show "s_out (flush ?n) = s_out s @ unwritten s" using c n(2,3) by (simp add: flush_eq unwritten_def flip: n(2))
  show "unwritten (flush ?n) = []" using c n(7) assms(2)
    by (simp add: flush_eq unwritten_def pending_def in_flight_def current_def cong: option.case_cong)
qed

lemma waiting_quiet: "sink_ok s \<Longrightarrow> s_pc s = Waiting \<Longrightarrow> quiet s"
  by (simp add: sink_ok_def)

subsection \<open>Properties\<close>

datatype sink_event = Append "char list" | Tick

fun sink_run :: "char list \<Rightarrow> sink_event list \<Rightarrow> log_sink \<Rightarrow> log_sink option" where
  "sink_run junk [] s = Some s"
| "sink_run junk (Append p # es) s = do {
     s1 \<leftarrow> append_buf junk p s;
     sink_run junk es s1}"
| "sink_run junk (Tick # es) s = sink_run junk es (sink_tick s)"

fun appended :: "sink_event list \<Rightarrow> char list" where
  "appended [] = []"
| "appended (Append p # es) = p @ appended es"
| "appended (Tick # es) = appended es"

text \<open>The appends that are allowed: of at most 32768 bytes, and while no bytes of the current buffer wait to be written.\<close>

fun sink_allowed :: "char list \<Rightarrow> sink_event list \<Rightarrow> log_sink \<Rightarrow> bool" where
  "sink_allowed junk [] s = True"
| "sink_allowed junk (Append p # es) s = (length p \<le> kFlushBufferSize \<and> quiet s
     \<and> (case append_buf junk p s of None \<Rightarrow> True | Some s1 \<Rightarrow> sink_allowed junk es s1))"
| "sink_allowed junk (Tick # es) s = sink_allowed junk es (sink_tick s)"

lemma sink_run_ok:
  assumes junk: "length junk = kFlushBufferSize"
  shows "sink_ok s \<Longrightarrow> sink_allowed junk es s \<Longrightarrow>
    \<exists>s'. sink_run junk es s = Some s' \<and> sink_ok s' \<and> s_out s' @ unwritten s' = s_out s @ unwritten s @ appended es"
proof (induction es arbitrary: s rule: appended.induct)
  case (2 p es)
  then obtain s1 where 1: "append_buf junk p s = Some s1" "sink_ok s1" "unwritten s1 = unwritten s @ p" "s_out s1 = s_out s"
    using append_buf_ok [OF 2(2) _ junk, of p] by auto
  with 2(1) [of s1] 2(3) show ?case by auto
next
  case (3 es)
  from 3(1) [OF sink_tick_ok(1) [OF 3(2)]] 3(3) sink_tick_ok(2) [OF 3(2)] show ?case by (metis append_assoc appended.simps(3) sink_allowed.simps(3) sink_run.simps(3))
qed simp

text \<open>(C13) Messages of at most 32768 bytes are written out once and in order, whatever the memory of new buffers holds,
  in every interleaving of appends with the steps of the background thread (taking the bytes at the front, taking a
  reference, writing it out) in which no append falls while bytes of the current buffer that \<open>sync_with_front\<close> has
  queued wait to be written (theorem \<open>log_sink_overwrites\<close> shows what happens then): at every moment the output is
  the beginning of what was appended, without the messages that are still queued or in the current buffer; the
  background thread left alone comes back to its wait with everything written; and when it ends there, with its
  last message \<open>msg\<close>, nothing is left unwritten.\<close>

theorem log_sink_in_order:
  assumes "length junk = kFlushBufferSize" "sink_allowed junk es LogSinkThread" "length msg \<le> kFlushBufferSize"
  shows "\<exists>s. sink_run junk es LogSinkThread = Some s \<and> s_out s @ unwritten s = appended es
    \<and> (\<exists>k. s_pc ((sink_tick ^^ k) s) = Waiting \<and> s_out ((sink_tick ^^ k) s) = appended es)
    \<and> (s_pc s = Waiting \<longrightarrow> (\<exists>s'. work_end junk msg s = Some s' \<and> s_out s' = appended es @ msg \<and> unwritten s' = []))"
proof -
  obtain s where s: "sink_run junk es LogSinkThread = Some s" "sink_ok s" "s_out s @ unwritten s = appended es"
    using sink_run_ok [OF assms(1) LogSinkThread_ok(1) assms(2)] LogSinkThread_ok(2) by (auto simp: LogSinkThread_def)
  have "\<exists>s'. work_end junk msg s = Some s' \<and> s_out s' = appended es @ msg \<and> unwritten s' = []" if w: "s_pc s = Waiting"
  proof -
    obtain s1 where s1: "append_buf junk msg s = Some s1" "sink_ok s1" "unwritten s1 = unwritten s @ msg" "s_out s1 = s_out s"
      "s_pc s1 = Waiting" using append_buf_ok [OF s(2) waiting_quiet [OF s(2) w] assms(1,3)] w by auto
    have "s_out s1 @ unwritten s1 = appended es @ msg" using s1(3,4) s(3) by (simp flip: s(3))
    then show ?thesis using s1(1) last_flush [OF s1(2,5) assms(1)] by (simp add: work_end_def)
  qed
  then show ?thesis using s drain [OF s(2)] by auto
qed

text \<open>An append between two steps of \<open>flush\<close>.\<close>

theorem log_sink_in_order_witness:
  "\<exists>s. sink_run (replicate kFlushBufferSize CHR ''x'') [Append ''ab'', Tick, Tick, Tick, Append ''c'', Tick] LogSinkThread = Some s
    \<and> s_pc s = Waiting \<and> s_out s = ''ab'' \<and> unwritten s = ''c''
    \<and> (\<exists>s'. work_end (replicate kFlushBufferSize CHR ''x'') ''!'' s = Some s' \<and> s_out s' = ''abc!'')"
proof -
  let ?junk = "replicate kFlushBufferSize CHR ''x''" and ?es = "[Append ''ab'', Tick, Tick, Tick, Append ''c'', Tick]"
  note defs = LogSinkThread_def append_buf_def new_buffer_def sink_tick_def sync_with_front_def quiet_def pending_def in_flight_def
    check_def kFlushBufferSize_def Let_def
  have all: "sink_allowed ?junk ?es LogSinkThread" by (simp add: defs)
  have run: "\<exists>s. sink_run ?junk ?es LogSinkThread = Some s \<and> s_pc s = Waiting \<and> s_out s = ''ab''" by (simp add: defs)
  have "length ?junk = kFlushBufferSize" "length ''!'' \<le> kFlushBufferSize" by (simp_all add: kFlushBufferSize_def)
  from log_sink_in_order [OF this(1) all this(2)] run show ?thesis by fastforce
qed

text \<open>An append between \<open>sync_with_front\<close> and \<open>flush\<close> overwrites the bytes that are about to be
  written: \<open>sync_with_front\<close> moves \<open>cur_ptr_\<close> back to \<open>ptr_\<close> instead of moving \<open>ptr_\<close> on. A message
  \<open>b\<close> that is as long as the pending bytes \<open>a\<close> takes their place in the output; it is written again
  later, and \<open>a\<close> is lost.\<close>

theorem log_sink_overwrites:
  assumes "sink_ok s" "s_pc s = Waiting" "ref_list s = []" "current s = a" "a \<noteq> []" "length b = length a"
  shows "\<exists>s' k. append_buf junk b (sink_tick s) = Some s' \<and> s_pc ((sink_tick ^^ k) s') = Waiting
    \<and> s_out ((sink_tick ^^ k) s') = s_out s @ b \<and> unwritten ((sink_tick ^^ k) s') = b"
proof -
  obtain i where i: "cur_buffer s = Some i" using assms(4,5) by (auto simp: current_def split: option.splits)
  then have m: "length (s_mem s i) = kFlushBufferSize" "s_cur_ptr s \<le> kFlushBufferSize" using assms(1) by (simp_all add: sink_ok_def in_use_def)
  have c: "length b = s_cur_ptr s" "0 < s_cur_ptr s" using assms(4-6) i m by (auto simp: current_def)
  let ?s = "sink_tick s"
  let ?s' = "?s\<lparr>s_mem := (s_mem s)(i := b @ drop (length b) (s_mem s i)), s_cur_ptr := length b\<rparr>"
  have s: "?s = s\<lparr>ref_list := [\<lparr>r_buf = i, r_length = length b\<rparr>], s_cur_ptr := 0, s_pc := Flushing\<rparr>"
    using i c assms(2,3) by (simp add: sink_tick_def sync_with_front_def)
  have "append_buf junk b ?s = Some ?s'" using i c m by (simp add: append_buf_def s Let_def)
  moreover have "s_pc ?s' = Flushing" by (simp add: s)
  from flush_ticks [OF this] obtain k where "(sink_tick ^^ k) ?s' = (flush ?s')\<lparr>s_pc := Waiting\<rparr>" by blast
  moreover have "s_out (flush ?s') = s_out s @ b" "unwritten ((flush ?s')\<lparr>s_pc := Waiting\<rparr>) = b"
    using i c by (simp_all add: s flush_eq ref_data_def unwritten_def pending_def in_flight_def current_def)
  ultimately show ?thesis by (intro exI [of _ ?s'] exI [of _ k]) simp
qed

lemma sink_with_ab: "sink_ok \<lparr>s_mem = (\<lambda>_. ''ab'' @ replicate 32766 CHR ''x''), s_allocated = 1, free_buffer_list = [],
    ref_list = [], cur_buffer = Some 0, s_cur_ptr = 2, s_out = [], s_pc = Waiting\<rparr>"
  by (simp add: sink_ok_def in_use_def kFlushBufferSize_def pending_def in_flight_def quiet_def)

theorem log_sink_overwrites_witness:
  "\<exists>s s' k. sink_ok s \<and> current s = ''ab'' \<and> append_buf [] ''cd'' (sink_tick s) = Some s' \<and> s_out ((sink_tick ^^ k) s') = ''cd''"
proof -
  let ?s = "\<lparr>s_mem = (\<lambda>_. ''ab'' @ replicate 32766 CHR ''x''), s_allocated = 1, free_buffer_list = [],
    ref_list = [], cur_buffer = Some 0, s_cur_ptr = 2, s_out = [], s_pc = Waiting\<rparr>"
  have c: "current ?s = ''ab''" by (simp add: current_def)
  obtain s' k where "append_buf [] ''cd'' (sink_tick ?s) = Some s'" "s_out ((sink_tick ^^ k) s') = ''cd''"
    using log_sink_overwrites [OF sink_with_ab _ _ c, of "''cd''" "[]"] by auto
  then show ?thesis using sink_with_ab c by blast
qed

text \<open>A message that does not fit in an empty buffer is written past its end.\<close>

lemma append_buf_too_long:
  assumes "sink_ok s" "length junk = kFlushBufferSize" "kFlushBufferSize < length p"
  shows "append_buf junk p s = None"
  using assms by (simp add: append_buf_def Let_def check_def new_buffer_ok(4) split: bind_splits)

end
