(* ===== verification/Log_System.thy ===== *)
theory Log_System
  imports Log_Stream Log_Sink
begin

text \<open>
  Logging as a whole: the configuration of \<^verbatim>\<open>logging.h\<close>, the macros that compare a statement's level with it, the buffers of the
  threads (\<open>Log_Stream\<close>), the error output and the background thread (\<open>Log_Sink\<close>). Statements, setters and the steps of the
  background thread are executed in any order. The date that starts a line is an argument of the statement.
\<close>

subsection \<open>Configuration\<close>

text \<open>The values of \<open>LogLevel\<close>, in order.\<close>

datatype LogLevel = kTrace | kDebug | kInfo | kWarn | kError | kFatal | kLogLevelCount

fun level_num :: "LogLevel \<Rightarrow> nat" where
  "level_num kTrace = 0"
| "level_num kDebug = 1"
| "level_num kInfo = 2"
| "level_num kWarn = 3"
| "level_num kError = 4"
| "level_num kFatal = 5"
| "level_num kLogLevelCount = 6"

record log_config =
  g_log_level :: nat
  g_ef_log_level :: nat
  g_max_length_per_log :: nat

definition default_config :: log_config where
  "default_config = \<lparr>g_log_level = level_num kInfo, g_ef_log_level = level_num kError, g_max_length_per_log = 2 * 1024\<rparr>"

definition set_log_level :: "nat \<Rightarrow> log_config \<Rightarrow> bool \<times> log_config" where
  "set_log_level log_min_level cfg =
     (if log_min_level > level_num kLogLevelCount then (False, cfg) else (True, cfg\<lparr>g_log_level := log_min_level\<rparr>))"

definition set_ef_log_level :: "nat \<Rightarrow> log_config \<Rightarrow> bool \<times> log_config" where
  "set_ef_log_level ef_log_min_level cfg =
     (if ef_log_min_level > level_num kLogLevelCount then (False, cfg) else (True, cfg\<lparr>g_ef_log_level := ef_log_min_level\<rparr>))"

definition set_max_length_per_log :: "nat \<Rightarrow> log_config \<Rightarrow> bool \<times> log_config" where
  "set_max_length_per_log max_len cfg =
     (if max_len < 1024 \<or> max_len > 16 * 1024 * 1024 then (False, cfg) else (True, cfg\<lparr>g_max_length_per_log := max_len\<rparr>))"

text \<open>Whether the macro of a level executes its statement: those of the three lowest levels ask the configuration.\<close>

fun log_macro :: "LogLevel \<Rightarrow> log_config \<Rightarrow> bool" where
  "log_macro kTrace cfg = (g_log_level cfg \<le> level_num kTrace)"
| "log_macro kDebug cfg = (g_log_level cfg \<le> level_num kDebug)"
| "log_macro kInfo cfg = (g_log_level cfg \<le> level_num kInfo)"
| "log_macro kWarn cfg = True"
| "log_macro kError cfg = True"
| "log_macro kFatal cfg = True"
| "log_macro kLogLevelCount cfg = False"

text \<open>A setter either refuses and changes nothing, or sets its own value; the values stay in the ranges it checks.\<close>

definition config_ok :: "log_config \<Rightarrow> bool" where
  "config_ok cfg = (g_log_level cfg \<le> 6 \<and> g_ef_log_level cfg \<le> 6 \<and> 1024 \<le> g_max_length_per_log cfg \<and> g_max_length_per_log cfg \<le> 16777216)"

lemma setters_keep_range:
  assumes "config_ok cfg" "(ok, cfg') \<in> {set_log_level n cfg, set_ef_log_level n cfg, set_max_length_per_log n cfg}"
  shows "config_ok cfg'" "\<not> ok \<Longrightarrow> cfg' = cfg"
  using assms by (auto simp: config_ok_def set_log_level_def set_ef_log_level_def set_max_length_per_log_def split: if_splits)

text \<open>\<open>ThisThread\<close>: the array of 24 bytes and the length that counts all but the last character.\<close>

definition thread_name :: "nat \<Rightarrow> string" where
  "thread_name thread_id = take 23 (''T'' @ zero_pad 5 thread_id @ '' '')"

definition thread_name_len :: "nat \<Rightarrow> nat" where
  "thread_name_len thread_id = length (''T'' @ zero_pad 5 thread_id @ '' '') - 1"

subsection \<open>The system\<close>

record log_system =
  l_config :: log_config
  l_streams :: "nat \<Rightarrow> log_stream"
  l_sink :: log_sink
  l_ef_out :: "char list"

definition LogStream :: log_stream where
  "LogStream = \<lparr>ls_cap = None, ls_data = [], auto_flush = True, log_level = 0, source = SourceFile ''logger.h'' 18\<rparr>"

definition log_init :: log_system where
  "log_init = \<lparr>l_config = default_config, l_streams = (\<lambda>_. LogStream), l_sink = LogSinkThread, l_ef_out = []\<rparr>"

datatype log_event =
    Log nat string LogLevel source_file "log_arg list"
  | Tick_of_sink
  | Set_log_level nat
  | Set_ef_log_level nat
  | Set_max_length nat

fun log_exec :: "char list \<Rightarrow> log_event \<Rightarrow> log_system \<Rightarrow> log_system option" where
  "log_exec junk (Log t date level src args) st =
     (if log_macro level (l_config st) then do {
        (ef, line, s') \<leftarrow> log_statement (g_max_length_per_log (l_config st)) (g_ef_log_level (l_config st)) date
          (take (thread_name_len t) (thread_name t)) (level_num level) src args (l_streams st t);
        let st1 = st\<lparr>l_streams := (l_streams st)(t := s'), l_ef_out := l_ef_out st @ (case ef of None \<Rightarrow> [] | Some l \<Rightarrow> l)\<rparr>;
        case line of
          None \<Rightarrow> Some st1
        | Some l \<Rightarrow> do {
            sink \<leftarrow> append_buf junk l (l_sink st1);
            Some (st1\<lparr>l_sink := sink\<rparr>)}}
      else Some st)"
| "log_exec junk Tick_of_sink st = Some (st\<lparr>l_sink := sink_tick (l_sink st)\<rparr>)"
| "log_exec junk (Set_log_level l) st = Some (st\<lparr>l_config := snd (set_log_level l (l_config st))\<rparr>)"
| "log_exec junk (Set_ef_log_level l) st = Some (st\<lparr>l_config := snd (set_ef_log_level l (l_config st))\<rparr>)"
| "log_exec junk (Set_max_length n) st = Some (st\<lparr>l_config := snd (set_max_length_per_log n (l_config st))\<rparr>)"

fun log_run :: "char list \<Rightarrow> log_event list \<Rightarrow> log_system \<Rightarrow> log_system option" where
  "log_run junk [] st = Some st"
| "log_run junk (e # es) st = do {
     st1 \<leftarrow> log_exec junk e st;
     log_run junk es st1}"

text \<open>The background thread \<open>w\<close> leaves its loop where it would wait again, when the other threads have stopped logging: its own last statement, the current buffer, the last flush.\<close>

definition log_stop :: "char list \<Rightarrow> nat \<Rightarrow> string \<Rightarrow> source_file \<Rightarrow> log_system \<Rightarrow> log_system option" where
  "log_stop junk w date src st = do {
     st1 \<leftarrow> log_exec junk (Log w date kFatal src [LCstr (Some ''Stop Logging Success.'')]) st;
     Some (st1\<lparr>l_sink := flush (new_buffer junk (l_sink st1))\<rparr>)}"

subsection \<open>What the outputs should be\<close>

text \<open>For every thread the text that waits for the next statement, the place it came from, and the size of the thread's buffer, which
  is fixed by its first statement.\<close>

record log_spec =
  sp_config :: log_config
  sp_text :: "nat \<Rightarrow> string"
  sp_source :: "nat \<Rightarrow> source_file"
  sp_cap :: "nat \<Rightarrow> nat option"

definition spec_cap :: "nat \<Rightarrow> log_spec \<Rightarrow> nat" where
  "spec_cap t sp = (case sp_cap sp t of None \<Rightarrow> g_max_length_per_log (sp_config sp) | Some c \<Rightarrow> c)"

definition spec_text :: "nat \<Rightarrow> string \<Rightarrow> LogLevel \<Rightarrow> log_arg list \<Rightarrow> log_spec \<Rightarrow> string" where
  "spec_text t date level args sp = (if sp_text sp t = []
     then header date (''T'' @ zero_pad 5 t) (level_num level) else sp_text sp t) @ texts args"

definition spec_source :: "nat \<Rightarrow> source_file \<Rightarrow> log_spec \<Rightarrow> source_file" where
  "spec_source t src sp = (if sp_text sp t = [] then src else sp_source sp t)"

definition spec_line :: "nat \<Rightarrow> string \<Rightarrow> LogLevel \<Rightarrow> source_file \<Rightarrow> log_arg list \<Rightarrow> log_spec \<Rightarrow> string" where
  "spec_line t date level src args sp = (let txt = spec_text t date level args sp
     in txt @ place (spec_cap t sp - length txt) (spec_source t src sp) @ [CHR 0x0A])"

text \<open>A statement is written from level 3 (\<open>kWarn\<close>) on, and below it from the level that was set.\<close>

definition written :: "LogLevel \<Rightarrow> log_config \<Rightarrow> bool" where
  "written level cfg = (level \<noteq> kLogLevelCount \<and> min 3 (g_log_level cfg) \<le> level_num level)"

text \<open>The lines for the output and for the error output, and the new state.\<close>

fun spec_exec :: "log_event \<Rightarrow> log_spec \<Rightarrow> string \<times> string \<times> log_spec" where
  "spec_exec (Log t date level src args) sp =
     (if written level (sp_config sp) then
        let txt = spec_text t date level args sp;
            sp1 = sp\<lparr>sp_source := (sp_source sp)(t := spec_source t src sp), sp_cap := (sp_cap sp)(t \<mapsto> spec_cap t sp)\<rparr>
        in if LNoflush \<in> set args then ([], [], sp1\<lparr>sp_text := (sp_text sp)(t := txt)\<rparr>)
           else let line = spec_line t date level src args sp
             in (line, if g_ef_log_level (sp_config sp) \<le> level_num level then line else [], sp1\<lparr>sp_text := (sp_text sp)(t := [])\<rparr>)
      else ([], [], sp))"
| "spec_exec Tick_of_sink sp = ([], [], sp)"
| "spec_exec (Set_log_level l) sp = ([], [], if l \<le> 6 then sp\<lparr>sp_config := sp_config sp\<lparr>g_log_level := l\<rparr>\<rparr> else sp)"
| "spec_exec (Set_ef_log_level l) sp = ([], [], if l \<le> 6 then sp\<lparr>sp_config := sp_config sp\<lparr>g_ef_log_level := l\<rparr>\<rparr> else sp)"
| "spec_exec (Set_max_length n) sp = ([], [], if 2 ^ 10 \<le> n \<and> n \<le> 2 ^ 24
     then sp\<lparr>sp_config := sp_config sp\<lparr>g_max_length_per_log := n\<rparr>\<rparr> else sp)"

fun spec_run :: "log_event list \<Rightarrow> log_spec \<Rightarrow> string \<times> string \<times> log_spec" where
  "spec_run [] sp = ([], [], sp)"
| "spec_run (e # es) sp = (let (out, ef, sp1) = spec_exec e sp; (outs, efs, sp2) = spec_run es sp1 in (out @ outs, ef @ efs, sp2))"

definition spec_init :: log_spec where
  "spec_init = \<lparr>sp_config = default_config, sp_text = (\<lambda>_. []), sp_source = (\<lambda>_. SourceFile ''logger.h'' 18), sp_cap = (\<lambda>_. None)\<rparr>"

text \<open>Statements that are executed fit the thread's buffer with room for a number, and that buffer is no larger than the one
  of the background thread.\<close>

fun log_allowed :: "log_event \<Rightarrow> log_spec \<Rightarrow> bool" where
  "log_allowed (Log t date level src args) sp = (written level (sp_config sp) \<longrightarrow> list_all arg_ok args \<and> t < 2 ^ 31
     \<and> length (spec_text t date level args sp) + kMaxNumericSize \<le> spec_cap t sp \<and> spec_cap t sp \<le> kFlushBufferSize
     \<and> - (2 ^ 63) \<le> file_line (spec_source t src sp) \<and> file_line (spec_source t src sp) < 2 ^ 64)"
| "log_allowed e sp = True"

fun log_allowed_all :: "log_event list \<Rightarrow> log_spec \<Rightarrow> bool" where
  "log_allowed_all [] sp = True"
| "log_allowed_all (e # es) sp = (log_allowed e sp \<and> log_allowed_all es (snd (snd (spec_exec e sp))))"

text \<open>No statement hands over a line while bytes of the current buffer, queued by \<open>sync_with_front\<close>, wait to be written.\<close>

fun log_quiet :: "char list \<Rightarrow> log_event list \<Rightarrow> log_system \<Rightarrow> bool" where
  "log_quiet junk [] st = True"
| "log_quiet junk (e # es) st = ((case e of
       Log t date level src args \<Rightarrow> log_macro level (l_config st) \<and> LNoflush \<notin> set args \<longrightarrow> quiet (l_sink st)
     | _ \<Rightarrow> True)
     \<and> (case log_exec junk e st of None \<Rightarrow> True | Some st1 \<Rightarrow> log_quiet junk es st1))"

subsection \<open>Names of threads\<close>

lemma print_u_length: "n < 10 ^ Suc k \<Longrightarrow> length (print_u n) \<le> Suc k"
proof (induction k arbitrary: n)
  case 0
  then show ?case by (subst print_u_step) simp
next
  case (Suc k)
  have "length (print_u (n div 10)) \<le> Suc k" using Suc.prems by (intro Suc.IH) (simp add: less_mult_imp_div_less)
  then show ?case by (subst print_u_step) simp
qed

lemma thread_name_fits:
  assumes "t < 2 ^ 31"
  shows "take (thread_name_len t) (thread_name t) = ''T'' @ zero_pad 5 t" "length (''T'' @ zero_pad 5 t) < 24"
proof -
  have "length (print_u t) \<le> 10" using print_u_length [of t 9] assms by simp
  then have l: "length (zero_pad 5 t) \<le> 10" by (simp add: zero_pad_def)
  then show "length (''T'' @ zero_pad 5 t) < 24" by simp
  have "thread_name t = (''T'' @ zero_pad 5 t) @ '' ''" using l by (simp add: thread_name_def)
  moreover have "thread_name_len t = length (''T'' @ zero_pad 5 t)" by (simp add: thread_name_len_def)
  ultimately show "take (thread_name_len t) (thread_name t) = ''T'' @ zero_pad 5 t" by simp
qed

subsection \<open>Simulation\<close>

lemma log_macro_written: "log_macro level cfg = written level cfg"
  by (cases level) (auto simp: written_def)

definition log_rel :: "log_spec \<Rightarrow> log_system \<Rightarrow> string \<Rightarrow> string \<Rightarrow> bool" where
  "log_rel sp st out ef = (l_config st = sp_config sp
     \<and> (\<forall>t. auto_flush (l_streams st t) \<and> ls_cap (l_streams st t) = sp_cap sp t \<and> ls_data (l_streams st t) = sp_text sp t
          \<and> (sp_text sp t \<noteq> [] \<longrightarrow> source (l_streams st t) = sp_source sp t) \<and> (sp_cap sp t = None \<longrightarrow> sp_text sp t = []))
     \<and> sink_ok (l_sink st) \<and> s_out (l_sink st) @ unwritten (l_sink st) = out \<and> l_ef_out st = ef)"

lemma log_rel_init: "log_rel spec_init log_init [] []"
  using LogSinkThread_ok by (simp add: log_rel_def spec_init_def log_init_def LogStream_def) (simp add: LogSinkThread_def)

lemma place_short: "length txt < c \<Longrightarrow> - (2 ^ 63) \<le> file_line src \<Longrightarrow> file_line src < 2 ^ 64
    \<Longrightarrow> length (txt @ place (c - length txt) src @ [CHR 0x0A]) \<le> c"
  using append_place_eq(2) [of "\<lparr>ls_cap = Some c, ls_data = txt, auto_flush = True, log_level = 0, source = src\<rparr>" c] by auto

lemma exec_statement:
  assumes rel: "log_rel sp st out ef" and junk: "length junk = kFlushBufferSize"
    and all: "log_allowed (Log t date level src args) sp" and on: "written level (sp_config sp)"
    and quiet: "LNoflush \<notin> set args \<longrightarrow> quiet (l_sink st)"
  shows "\<exists>st'. log_exec junk (Log t date level src args) st = Some st'
    \<and> (let (o1, e1, sp1) = spec_exec (Log t date level src args) sp in log_rel sp1 st' (out @ o1) (ef @ e1))"
proof -
  let ?s = "l_streams st t" and ?c = "spec_cap t sp" and ?txt = "spec_text t date level args sp" and ?place = "spec_source t src sp"
  let ?name = "''T'' @ zero_pad 5 t" and ?g = "g_max_length_per_log (sp_config sp)" and ?ef = "g_ef_log_level (sp_config sp)"
  have cfg: "l_config st = sp_config sp" and stream: "auto_flush ?s" "ls_cap ?s = sp_cap sp t" "ls_data ?s = sp_text sp t"
    "sp_text sp t \<noteq> [] \<longrightarrow> source ?s = sp_source sp t" "sp_cap sp t = None \<longrightarrow> sp_text sp t = []"
    using rel by (simp_all add: log_rel_def)
  have name: "take (thread_name_len t) (thread_name t) = ?name" using thread_name_fits(1) [of t] all on by simp
  have cap: "ls_cap ?s = Some ?c \<or> ls_cap ?s = None \<and> ?g = ?c \<and> ls_data ?s = []"
    using stream(2,3,5) by (auto simp: spec_cap_def split: option.splits)
  have txt_eq: "?txt = (if ls_data ?s = [] then header date ?name (level_num level) else ls_data ?s) @ texts args"
    using stream(3) by (simp add: spec_text_def)
  have pl: "?place = (if ls_data ?s = [] then src else source ?s)" using stream(3,4) by (simp add: spec_source_def)
  have fits: "list_all arg_ok args" "length ?txt + kMaxNumericSize \<le> ?c" "?c \<le> kFlushBufferSize"
    "- (2 ^ 63) \<le> file_line ?place" "file_line ?place < 2 ^ 64" using all on by simp_all
  let ?run = "log_statement ?g ?ef date ?name (level_num level) src args ?s"
  let ?line = "spec_line t date level src args sp"
  from log_statement_ok [OF cap stream(1) fits(1) txt_eq pl fits(2,4,5), of ?ef]
  obtain s' where s': "ls_cap s' = Some ?c" "auto_flush s'" "source s' = ?place"
    "if LNoflush \<in> set args then ?run = Some (None, None, s') \<and> ls_data s' = ?txt
     else ?run = Some (if ?ef \<le> level_num level then Some ?line else None, Some ?line, s') \<and> ls_data s' = []"
    unfolding spec_line_def Let_def by blast
  show ?thesis
  proof (cases "LNoflush \<in> set args")
    case True
    then have "log_exec junk (Log t date level src args) st = Some (st\<lparr>l_streams := (l_streams st)(t := s'), l_ef_out := l_ef_out st\<rparr>)"
      using on name s'(4) by (simp add: cfg Let_def log_macro_written)
    then show ?thesis using rel True on s' by (simp add: log_rel_def Let_def)
  next
    case False
    have "length ?txt < ?c" using fits(2) by (simp add: kMaxNumericSize_def)
    then have "length ?line \<le> kFlushBufferSize"
      using place_short [of ?txt ?c ?place] fits(3-5) by (simp add: spec_line_def Let_def)
    moreover have sink: "sink_ok (l_sink st)" using rel by (simp add: log_rel_def)
    ultimately obtain k where k: "append_buf junk ?line (l_sink st) = Some k" "sink_ok k" "unwritten k = unwritten (l_sink st) @ ?line"
      "s_out k = s_out (l_sink st)" using append_buf_ok [OF _ _ junk] quiet False by blast
    let ?st = "st\<lparr>l_streams := (l_streams st)(t := s'), l_ef_out := l_ef_out st @ (if ?ef \<le> level_num level then ?line else []), l_sink := k\<rparr>"
    have "log_exec junk (Log t date level src args) st = Some ?st"
      using False on name s'(4) k(1) by (simp add: cfg Let_def log_macro_written)
    then show ?thesis using rel False on s' k by (auto simp: log_rel_def Let_def)
  qed
qed

text \<open>A statement does not move the background thread.\<close>

lemma append_buf_pc: "append_buf junk p s = Some s' \<Longrightarrow> s_pc s' = s_pc s"
  by (auto simp: append_buf_def new_buffer_def Let_def split: bind_splits option.splits list.splits if_splits)

lemma exec_log_pc: "log_exec junk (Log t date level src args) st = Some st' \<Longrightarrow> s_pc (l_sink st') = s_pc (l_sink st)"
  by (auto simp: Let_def dest: append_buf_pc split: bind_splits if_splits option.splits prod.splits)

lemma exec_rel:
  assumes rel: "log_rel sp st out ef" and junk: "length junk = kFlushBufferSize" and all: "log_allowed e sp"
    and quiet: "log_quiet junk [e] st"
  shows "\<exists>st'. log_exec junk e st = Some st' \<and> (let (o1, e1, sp1) = spec_exec e sp in log_rel sp1 st' (out @ o1) (ef @ e1))"
proof (cases e)
  case (Log t date level src args)
  show ?thesis
  proof (cases "written level (sp_config sp)")
    case True
    moreover have "LNoflush \<notin> set args \<longrightarrow> quiet (l_sink st)"
      using quiet True rel Log by (simp add: log_macro_written log_rel_def)
    ultimately show ?thesis using exec_statement [OF rel junk] all Log by blast
  next
    case False
    then show ?thesis using rel Log by (simp add: log_rel_def log_macro_written)
  qed
next
  case Tick_of_sink
  have "sink_ok (l_sink st)" using rel by (simp add: log_rel_def)
  from sink_tick_ok [OF this] show ?thesis using rel Tick_of_sink by (simp add: log_rel_def)
qed (use rel in \<open>simp_all add: log_rel_def set_log_level_def set_ef_log_level_def set_max_length_per_log_def\<close>)

lemma run_rel:
  assumes junk: "length junk = kFlushBufferSize"
  shows "log_rel sp st out ef \<Longrightarrow> log_allowed_all es sp \<Longrightarrow> log_quiet junk es st \<Longrightarrow>
    \<exists>st'. log_run junk es st = Some st' \<and> (let (o1, e1, sp1) = spec_run es sp in log_rel sp1 st' (out @ o1) (ef @ e1))"
proof (induction es arbitrary: sp st out ef)
  case (Cons e es)
  obtain o1 e1 sp1 where sp: "spec_exec e sp = (o1, e1, sp1)" by (cases "spec_exec e sp")
  obtain st1 where st1: "log_exec junk e st = Some st1" "log_rel sp1 st1 (out @ o1) (ef @ e1)"
    using exec_rel [OF Cons.prems(1) junk, of e] Cons.prems(2,3) sp by (auto split: option.splits)
  moreover have "log_allowed_all es sp1" "log_quiet junk es st1" using Cons.prems(2,3) sp st1(1) by simp_all
  ultimately show ?case using Cons.IH [of sp1 st1 "out @ o1" "ef @ e1"] sp by (auto simp: Let_def split: prod.splits)
qed simp

subsection \<open>What logging promises\<close>

text \<open>(C12) Logging, from the statement to the outputs, over any interleaving of statements of any threads, steps of the background
  thread and calls of the setters in which the statements fit their buffers and no statement hands over a line while bytes of
  the current buffer, queued by \<open>sync_with_front\<close>, wait to be written. Nothing is written outside a buffer; the lines are those of
  the statements whose macro lets them through at the level set at that moment; at every moment the output is the beginning of
  them, without what is still queued, and the error output has those of them that reach its level; setters that refuse a value
  change nothing. The background thread always comes back to its wait, and when it leaves its loop there, the other threads
  having stopped logging, the output has exactly the lines, in order and ended by the thread's last message.\<close>

theorem logging_end_to_end:
  assumes "length junk = kFlushBufferSize" "spec_run es spec_init = (out, ef, sp)" "log_allowed_all es spec_init"
    and "log_quiet junk es log_init"
    and "fin = Log w date kFatal src [LCstr (Some ''Stop Logging Success.'')]" "log_allowed fin sp"
  shows "\<exists>st. log_run junk es log_init = Some st \<and> s_out (l_sink st) @ unwritten (l_sink st) = out \<and> l_ef_out st = ef
    \<and> (\<exists>k. s_pc ((sink_tick ^^ k) (l_sink st)) = Waiting)
    \<and> (s_pc (l_sink st) = Waiting \<longrightarrow> (\<exists>st'. log_stop junk w date src st = Some st'
        \<and> s_out (l_sink st') = out @ fst (spec_exec fin sp) \<and> l_ef_out st' = ef @ fst (snd (spec_exec fin sp))
        \<and> unwritten (l_sink st') = []))"
proof -
  obtain st where st: "log_run junk es log_init = Some st" "log_rel sp st out ef"
    using run_rel [OF assms(1) log_rel_init assms(3,4)] assms(2) by auto
  have sink: "sink_ok (l_sink st)" "s_out (l_sink st) @ unwritten (l_sink st) = out" "l_ef_out st = ef"
    using st(2) by (simp_all add: log_rel_def)
  have "\<exists>st'. log_stop junk w date src st = Some st' \<and> s_out (l_sink st') = out @ fst (spec_exec fin sp)
      \<and> l_ef_out st' = ef @ fst (snd (spec_exec fin sp)) \<and> unwritten (l_sink st') = []" if w: "s_pc (l_sink st) = Waiting"
  proof -
    obtain o1 e1 sp1 where sp: "spec_exec fin sp = (o1, e1, sp1)" by (cases "spec_exec fin sp")
    have "log_quiet junk [fin] st" using waiting_quiet [OF sink(1) w] assms(5) by (simp split: option.split)
    then obtain st1 where st1: "log_exec junk fin st = Some st1" "log_rel sp1 st1 (out @ o1) (ef @ e1)"
      using exec_rel [OF st(2) assms(1,6)] sp by auto
    have ok: "sink_ok (l_sink st1)" "s_out (l_sink st1) @ unwritten (l_sink st1) = out @ o1" "l_ef_out st1 = ef @ e1"
      using st1(2) by (simp_all add: log_rel_def)
    have "s_pc (l_sink st1) = Waiting" using exec_log_pc [OF st1(1) [unfolded assms(5)]] w by simp
    note last = last_flush [OF ok(1) this assms(1)]
    have "log_stop junk w date src st = Some (st1\<lparr>l_sink := flush (new_buffer junk (l_sink st1))\<rparr>)"
      using st1(1) unfolding log_stop_def assms(5) by simp
    then show ?thesis using last ok(2,3) sp by simp
  qed
  note stop = this
  obtain k where "s_pc ((sink_tick ^^ k) (l_sink st)) = Waiting" using drain [OF sink(1)] by blast
  then have wait: "\<exists>k. s_pc ((sink_tick ^^ k) (l_sink st)) = Waiting" by (rule exI)
  show ?thesis by (intro exI [of _ st] conjI impI st(1) sink(2,3) wait stop)
qed

text \<open>Two threads, a level that is lowered in between, and a statement that waits for the next one; the background thread is
  between \<open>sync_with_front\<close> and the end of \<open>flush\<close> while they log.\<close>

definition demo_log :: "log_event list" where
  "demo_log = [Tick_of_sink, Log 7 ''D1'' kDebug (SourceFile ''a.cpp'' 1) [LCstr (Some ''no'')],
     Set_log_level 1, Log 7 ''D2'' kDebug (SourceFile ''a.cpp'' 2) [LCstr (Some ''x''), LNoflush],
     Log 8 ''D3'' kError (SourceFile ''b.cpp'' 3) [LChar CHR ''e''], Set_log_level 9,
     Log 7 ''D4'' kWarn (SourceFile ''a.cpp'' 4) [LBool True]]"

lemma ticks_only:
  "log_run junk (es @ replicate k Tick_of_sink) st
     = map_option (\<lambda>st. st\<lparr>l_sink := (sink_tick ^^ k) (l_sink st)\<rparr>) (log_run junk es st)"
  "spec_run (es @ replicate k Tick_of_sink) sp = spec_run es sp"
  "log_allowed_all (es @ replicate k Tick_of_sink) sp = log_allowed_all es sp"
  "log_quiet junk (es @ replicate k Tick_of_sink) st = log_quiet junk es st"
proof -
  have r: "log_run junk (replicate k Tick_of_sink) st = Some (st\<lparr>l_sink := (sink_tick ^^ k) (l_sink st)\<rparr>)" for st
    by (induction k arbitrary: st) (simp_all add: funpow_swap1)
  have s: "spec_run (replicate k Tick_of_sink) sp = ([], [], sp)" "log_allowed_all (replicate k Tick_of_sink) sp"
    "log_quiet junk (replicate k Tick_of_sink) st" for sp st
    by (induction k arbitrary: sp st) simp_all
  show "log_run junk (es @ replicate k Tick_of_sink) st
     = map_option (\<lambda>st. st\<lparr>l_sink := (sink_tick ^^ k) (l_sink st)\<rparr>) (log_run junk es st)"
  proof (induction es arbitrary: st)
    case (Cons e es)
    then show ?case by (cases "log_exec junk e st") simp_all
  qed (simp add: r)
  show "spec_run (es @ replicate k Tick_of_sink) sp = spec_run es sp"
    by (induction es arbitrary: sp) (simp_all add: s case_prod_beta')
  show "log_allowed_all (es @ replicate k Tick_of_sink) sp = log_allowed_all es sp"
    by (induction es arbitrary: sp) (simp_all add: s)
  show "log_quiet junk (es @ replicate k Tick_of_sink) st = log_quiet junk es st"
    by (induction es arbitrary: st) (simp_all add: s cong: option.case_cong)
qed

lemma append_buf_quiet:
  assumes "length junk = kFlushBufferSize" "append_buf junk p s = Some s'" "sink_ok s" "quiet s"
  shows "sink_ok s' \<and> quiet s'"
proof -
  have "length p \<le> kFlushBufferSize" using append_buf_too_long [OF assms(3,1), of p] assms(2) by force
  from append_buf_ok [OF assms(3,4,1) this] assms(2) show ?thesis by auto
qed

lemma log_quiet_events:
  assumes junk: "length junk = kFlushBufferSize"
  shows "\<forall>e \<in> set es. e \<noteq> Tick_of_sink \<Longrightarrow> sink_ok (l_sink st) \<Longrightarrow> quiet (l_sink st) \<Longrightarrow> log_quiet junk es st"
proof (induction es arbitrary: st)
  case (Cons e es)
  have "sink_ok (l_sink st1) \<and> quiet (l_sink st1)" if "log_exec junk e st = Some st1" for st1
    using that Cons.prems append_buf_quiet [OF junk, of _ "l_sink st"]
    by (cases e) (auto simp: Let_def split: bind_splits if_splits option.splits prod.splits)
  then show ?case using Cons by (auto split: log_event.split option.split)
qed simp

lemma logging_end_to_end_witness:
  "\<exists>k st st'. log_run (replicate kFlushBufferSize CHR ''?'') (demo_log @ replicate k Tick_of_sink) log_init = Some st
    \<and> log_stop (replicate kFlushBufferSize CHR ''?'') 9 ''D5'' (SourceFile ''logger.cpp'' 230) st = Some st'
    \<and> s_out (l_sink st') = ''D3T00008 ERROR e - b.cpp:3'' @ [CHR 0x0A] @ ''D2T00007 DEBUG x1 - a.cpp:2'' @ [CHR 0x0A]
        @ ''D5T00009 FATAL Stop Logging Success. - logger.cpp:230'' @ [CHR 0x0A]
    \<and> l_ef_out st' = ''D3T00008 ERROR e - b.cpp:3'' @ [CHR 0x0A] @ ''D5T00009 FATAL Stop Logging Success. - logger.cpp:230'' @ [CHR 0x0A]"
proof -
  let ?last = "Log 9 ''D5'' kFatal (SourceFile ''logger.cpp'' 230) [LCstr (Some ''Stop Logging Success.'')]"
  have int: "ConvertInteger 2 = (1, ''2'' @ [CHR 0x00])" "ConvertInteger 3 = (1, ''3'' @ [CHR 0x00])" "ConvertInteger 230 = (3, ''230'' @ [CHR 0x00])"
    by (simp_all add: ConvertInteger_def integer_loop.simps s_zero_def s_digits_def Let_def)
  have four: "replicate 4 CHR ''0'' = ''0000''" by (simp add: numeral_eq_Suc)
  have pad: "zero_pad 5 7 = ''00007''" "zero_pad 5 8 = ''00008''" "zero_pad 5 9 = ''00009''"
    using four by (simp_all add: zero_pad_def print_u_step decimal_def s_digits_def)
  note defs = demo_log_def spec_init_def default_config_def spec_text_def spec_line_def spec_cap_def spec_source_def header_def
    LogLevelName_def texts_def written_def pad int place_def SourceFile_def kMaxNumericSize_def kFlushBufferSize_def
  obtain out ef sp where run: "spec_run demo_log spec_init = (out, ef, sp)" by (cases "spec_run demo_log spec_init")
  have f: "out = ''D3T00008 ERROR e - b.cpp:3'' @ [CHR 0x0A] @ ''D2T00007 DEBUG x1 - a.cpp:2'' @ [CHR 0x0A]"
    "ef = ''D3T00008 ERROR e - b.cpp:3'' @ [CHR 0x0A]" "log_allowed_all demo_log spec_init" "log_allowed ?last sp"
    "fst (spec_exec ?last sp) = ''D5T00009 FATAL Stop Logging Success. - logger.cpp:230'' @ [CHR 0x0A]"
    "fst (snd (spec_exec ?last sp)) = ''D5T00009 FATAL Stop Logging Success. - logger.cpp:230'' @ [CHR 0x0A]"
    using run by (auto simp: defs Let_def)
  let ?junk = "replicate kFlushBufferSize CHR ''?''"
  have junk: "length ?junk = kFlushBufferSize" by simp
  have "log_quiet ?junk (tl demo_log) (log_init\<lparr>l_sink := sink_tick LogSinkThread\<rparr>)"
    using sink_tick_ok(1) [OF LogSinkThread_ok(1)]
    by (intro log_quiet_events [OF junk]) (auto simp: demo_log_def LogSinkThread_def sink_tick_def sync_with_front_def quiet_def pending_def in_flight_def)
  then have quiet: "log_quiet ?junk demo_log log_init" by (simp add: demo_log_def log_init_def)
  obtain st k where st: "log_run ?junk demo_log log_init = Some st" "s_pc ((sink_tick ^^ k) (l_sink st)) = Waiting"
    using logging_end_to_end [OF junk run f(3) quiet refl f(4)] by blast
  let ?es = "demo_log @ replicate k Tick_of_sink"
  have es: "spec_run ?es spec_init = (out, ef, sp)" "log_allowed_all ?es spec_init" "log_quiet ?junk ?es log_init"
    using run f(3) quiet by (simp_all add: ticks_only)
  have "log_run ?junk ?es log_init = Some (st\<lparr>l_sink := (sink_tick ^^ k) (l_sink st)\<rparr>)" using st(1) by (simp add: ticks_only)
  with logging_end_to_end [OF junk es refl f(4)] st(2) show ?thesis unfolding f(1,2,5,6) append_assoc by auto
qed

end
