(* ===== verification/Endpoint.thy ===== *)
theory Endpoint
  imports Convert
begin

text \<open>
  \<open>EndPoint\<close> of \<^verbatim>\<open>endpoint.h\<close> and \<^verbatim>\<open>src/endpoint.cpp\<close>: an IPv4 address with a port, its text form and
  the parser of \<^verbatim>\<open>host:port\<close>. The resolver (\<^verbatim>\<open>gethostbyname\<close>) and the printer of addresses
  (\<^verbatim>\<open>inet_ntop\<close>) are arguments. C strings are character lists without the terminator; reading
  or writing outside a buffer is \<^term>\<open>None\<close>.
\<close>

subsection \<open>The class\<close>

definition INADDR_NONE :: nat where
  "INADDR_NONE = 0xFFFFFFFF"

definition INADDR_ANY :: nat where
  "INADDR_ANY = 0"

text \<open>The union of \<open>node_\<close> with the address, the port and two bytes of padding, which no constructor but
  the one from a node writes.\<close>

record endpoint =
  ep_ip :: nat
  ep_port :: nat
  ep_pad :: nat

definition node_of :: "endpoint \<Rightarrow> nat" where
  "node_of ep = ep_ip ep + 2 ^ 32 * ep_port ep + 2 ^ 48 * ep_pad ep"

definition EndPoint_node :: "nat \<Rightarrow> endpoint" where
  "EndPoint_node nd = \<lparr>ep_ip = nd mod 2 ^ 32, ep_port = nd div 2 ^ 32 mod 2 ^ 16, ep_pad = nd div 2 ^ 48 mod 2 ^ 16\<rparr>"

definition EndPoint_ip :: "nat \<Rightarrow> nat \<Rightarrow> nat \<Rightarrow> endpoint" where
  "EndPoint_ip junk ip port = \<lparr>ep_ip = ip, ep_port = port, ep_pad = junk\<rparr>"

definition ep_valid :: "endpoint \<Rightarrow> bool" where
  "ep_valid ep = (ep_ip ep \<noteq> INADDR_NONE)"

definition ep_less :: "endpoint \<Rightarrow> endpoint \<Rightarrow> bool" where
  "ep_less ep rl = (node_of ep < node_of rl)"

definition set_port :: "nat \<Rightarrow> endpoint \<Rightarrow> endpoint" where
  "set_port port ep = ep\<lparr>ep_port := port\<rparr>"

text \<open>From a \<open>sockaddr_in\<close>: \<^verbatim>\<open>ntohs\<close> swaps the two bytes of the port.\<close>

definition ntohs :: "nat \<Rightarrow> nat" where
  "ntohs x = x mod 256 * 256 + x div 256 mod 256"

definition EndPoint_sockaddr :: "nat \<Rightarrow> nat \<Rightarrow> nat \<Rightarrow> endpoint" where
  "EndPoint_sockaddr junk s_addr sin_port = \<lparr>ep_ip = s_addr, ep_port = ntohs sin_port, ep_pad = junk\<rparr>"

subsection \<open>Text\<close>

definition isspace :: "char \<Rightarrow> bool" where
  "isspace c = (c = CHR '' '' \<or> c \<in> {CHR 0x09, CHR 0x0A, CHR 0x0B, CHR 0x0C, CHR 0x0D})"

definition isdigit :: "char \<Rightarrow> bool" where
  "isdigit c = (c \<in> set decimal)"

text \<open>\<^verbatim>\<open>strtol(str, &endptr, 10)\<close>: the value and the rest of the string; without digits the rest is the
  whole string. (Values outside \<^verbatim>\<open>long\<close> are not cut off here; the caller rejects them either way.)\<close>

definition strtol :: "string \<Rightarrow> int \<times> string" where
  "strtol str =
     (let t = dropWhile isspace str;
          neg = (case t of c # _ \<Rightarrow> c = CHR ''-'' | [] \<Rightarrow> False);
          u = (case t of c # r \<Rightarrow> if c = CHR ''-'' \<or> c = CHR ''+'' then r else t | [] \<Rightarrow> []);
          ds = takeWhile isdigit u;
          v = int (read_radix 10 decimal ds)
      in if ds = [] then (0, str) else (if neg then - v else v, dropWhile isdigit u))"

definition hostname2ip :: "(string \<Rightarrow> nat option) \<Rightarrow> string \<Rightarrow> nat" where
  "hostname2ip gethostbyname hostname =
     (case gethostbyname (dropWhile isspace hostname) of Some ip \<Rightarrow> ip | None \<Rightarrow> INADDR_NONE)"

definition str2ip :: "(string \<Rightarrow> nat option) \<Rightarrow> string \<Rightarrow> nat" where
  "str2ip inet_pton ip_str =
     (case inet_pton (dropWhile isspace ip_str) of Some ip \<Rightarrow> ip | None \<Rightarrow> INADDR_NONE)"

text \<open>\<open>EndPoint(const char* ip, short port)\<close>: a null pointer stands for the local address.\<close>

definition EndPoint_host :: "(string \<Rightarrow> nat option) \<Rightarrow> nat \<Rightarrow> nat \<Rightarrow> string option \<Rightarrow> nat \<Rightarrow> endpoint" where
  "EndPoint_host gethostbyname s_local_ip junk ip port =
     \<lparr>ep_ip = (case ip of Some h \<Rightarrow> hostname2ip gethostbyname h | None \<Rightarrow> s_local_ip), ep_port = port, ep_pad = junk\<rparr>"

text \<open>The part of the constructor behind the colon: the port, or \<^term>\<open>None\<close> where the code breaks out of the
  loop. One character behind the digits is skipped whatever it is.\<close>

definition parse_port :: "string \<Rightarrow> nat option" where
  "parse_port port_str =
     (let (port, rest) = strtol port_str
      in if rest = port_str then None
         else if rest \<noteq> [] \<and> dropWhile isspace (tl rest) \<noteq> [] then None
         else if port < 0 \<or> port > 65535 then None
         else Some (nat port))"

text \<open>\<open>EndPoint(const char* ip_port)\<close>: the host is copied to a buffer of 512 bytes up to the first colon;
  then, if there is a colon, it is resolved and the port is read.\<close>

definition EndPoint_finish :: "(string \<Rightarrow> nat option) \<Rightarrow> nat \<Rightarrow> string \<Rightarrow> string \<Rightarrow> endpoint" where
  "EndPoint_finish gethostbyname junk host rest =
     (let bad = \<lparr>ep_ip = INADDR_NONE, ep_port = 0, ep_pad = junk\<rparr>;
          ip = (if host \<noteq> [] then hostname2ip gethostbyname host else INADDR_ANY)
      in if rest = [] then bad
         else if host \<noteq> [] \<and> ip = INADDR_NONE then bad
         else case parse_port (tl rest) of
             Some port \<Rightarrow> \<lparr>ep_ip = ip, ep_port = port, ep_pad = junk\<rparr>
           | None \<Rightarrow> bad)"

definition EndPoint_parse :: "(string \<Rightarrow> nat option) \<Rightarrow> nat \<Rightarrow> string \<Rightarrow> endpoint option" where
  "EndPoint_parse gethostbyname junk ip_port = do {
     let s = dropWhile isspace ip_port;
     let host = takeWhile (\<lambda>c. c \<noteq> CHR '':'') s;
     let rest = dropWhile (\<lambda>c. c \<noteq> CHR '':'') s;
     check (length host \<le> (if rest = [] then 512 else 511));
     Some (EndPoint_finish gethostbyname junk host rest)}"

text \<open>Printing; \<^verbatim>\<open>inet_ntop\<close> fails only for a buffer that is too small.\<close>

definition ip_str :: "(nat \<Rightarrow> string) \<Rightarrow> endpoint \<Rightarrow> string" where
  "ip_str inet_ntop ep = inet_ntop (ep_ip ep)"

definition endpoint_str :: "(nat \<Rightarrow> string) \<Rightarrow> endpoint \<Rightarrow> nat \<times> string" where
  "endpoint_str inet_ntop ep =
     (let s = ip_str inet_ntop ep @ '':'' @ print_u (ep_port ep) in (length s, s))"

subsection \<open>Properties\<close>

lemma digits_not_space: "isdigit c \<Longrightarrow> \<not> isspace c \<and> c \<noteq> CHR ''-'' \<and> c \<noteq> CHR ''+''"
  by (auto simp: isdigit_def decimal_def s_digits_def isspace_def)

lemma print_u_digits: "print_u n \<noteq> []" "list_all isdigit (print_u n)" "read_radix 10 decimal (print_u n) = n"
proof -
  have "(!) decimal ` {..<10} \<subseteq> set decimal"
    by (intro image_subsetI nth_mem) (simp add: decimal_def s_digits_def)
  then have "set (radix_loop 10 decimal n) \<subseteq> set decimal" using dec.digits_in_table unfolding decimal_def by blast
  then show "list_all isdigit (print_u n)" by (auto simp: print_u_def list_all_iff isdigit_def)
  show "print_u n \<noteq> []" unfolding print_u_def decimal_def by simp
  show "read_radix 10 decimal (print_u n) = n" unfolding print_u_def decimal_def by (rule dec.read_back)
qed

lemma strtol_digits:
  assumes "ds \<noteq> []" "list_all isdigit ds" "rest = [] \<or> \<not> isdigit (hd rest)"
  shows "strtol (ds @ rest) = (int (read_radix 10 decimal ds), rest)"
proof -
  obtain c r where c: "ds = c # r" "isdigit c" using assms(1,2) by (cases ds) auto
  have "dropWhile isspace (ds @ rest) = ds @ rest" using c digits_not_space by simp
  moreover have "takeWhile isdigit (ds @ rest) = ds" "dropWhile isdigit (ds @ rest) = rest"
    using assms(2,3) by (cases rest; auto simp: takeWhile_append dropWhile_append list_all_iff)+
  ultimately show ?thesis using c digits_not_space by (auto simp: strtol_def Let_def)
qed

lemma parse_print_port: "p < 65536 \<Longrightarrow> parse_port (print_u p) = Some p"
  using strtol_digits [of "print_u p" "[]"] print_u_digits [of p] by (auto simp: parse_port_def)

lemma endpoint_print_parse:
  assumes "ep_ip ep \<noteq> INADDR_NONE" "ep_port ep < 65536" "gethostbyname (inet_ntop (ep_ip ep)) = Some (ep_ip ep)"
    and "inet_ntop (ep_ip ep) \<noteq> []" "length (inet_ntop (ep_ip ep)) < 16"
    and "\<forall>c \<in> set (inet_ntop (ep_ip ep)). c \<noteq> CHR '':'' \<and> \<not> isspace c"
  shows "\<exists>n str. endpoint_str inet_ntop ep = (n, str) \<and> n = length str \<and> n \<le> 21
    \<and> EndPoint_parse gethostbyname junk str = Some (ep\<lparr>ep_pad := junk\<rparr>)"
proof -
  let ?h = "inet_ntop (ep_ip ep)" and ?p = "print_u (ep_port ep)"
  have "length (radix_loop 10 decimal (ep_port ep)) \<le> 5"
    unfolding decimal_def by (rule dec.length_bound) (use assms(2) in simp_all)
  then have "length (?h @ '':'' @ ?p) \<le> 21" using assms(5) by (simp add: print_u_def)
  moreover have host: "dropWhile isspace (?h @ '':'' @ ?p) = ?h @ '':'' @ ?p" "dropWhile isspace ?h = ?h"
    using assms(4,6) by (cases ?h; simp)+
  moreover have "takeWhile (\<lambda>c. c \<noteq> CHR '':'') (?h @ '':'' @ ?p) = ?h"
    "dropWhile (\<lambda>c. c \<noteq> CHR '':'') (?h @ '':'' @ ?p) = '':'' @ ?p"
    using assms(6) by (auto simp: takeWhile_append dropWhile_append)
  ultimately have "EndPoint_parse gethostbyname junk (?h @ '':'' @ ?p) = Some (ep\<lparr>ep_pad := junk\<rparr>)"
    using assms parse_print_port [OF assms(2)]
    by (cases ep) (simp add: EndPoint_parse_def EndPoint_finish_def hostname2ip_def Let_def)
  then show ?thesis using \<open>length (?h @ '':'' @ ?p) \<le> 21\<close>
    by (simp add: endpoint_str_def ip_str_def Let_def)
qed

text \<open>(C24) Parsing what \<open>endpoint_str\<close> prints gives the address and the port back, for every port and every
  address that the printer and the resolver agree on.\<close>

theorem endpoint_roundtrip:
  assumes "ep_ip ep \<noteq> INADDR_NONE" "ep_port ep < 65536" "gethostbyname (inet_ntop (ep_ip ep)) = Some (ep_ip ep)"
    and "inet_ntop (ep_ip ep) \<noteq> []" "length (inet_ntop (ep_ip ep)) < 16"
    and "\<forall>c \<in> set (inet_ntop (ep_ip ep)). c \<noteq> CHR '':'' \<and> \<not> isspace c"
  shows "\<exists>n str. endpoint_str inet_ntop ep = (n, str) \<and> n = length str \<and> n \<le> 21
    \<and> EndPoint_parse gethostbyname junk str = Some (ep\<lparr>ep_pad := junk\<rparr>)"
  using assms by (rule endpoint_print_parse)

theorem endpoint_roundtrip_witness:
  "\<exists>n str. endpoint_str (\<lambda>_. ''10.0.0.1'') \<lparr>ep_ip = 16777226, ep_port = 8080, ep_pad = 0\<rparr> = (n, str)
    \<and> EndPoint_parse (\<lambda>h. if h = ''10.0.0.1'' then Some 16777226 else None) 0 str = Some \<lparr>ep_ip = 16777226, ep_port = 8080, ep_pad = 0\<rparr>"
  using endpoint_roundtrip [of "\<lparr>ep_ip = 16777226, ep_port = 8080, ep_pad = 0\<rparr>"
      "\<lambda>h. if h = ''10.0.0.1'' then Some 16777226 else None" "\<lambda>_. ''10.0.0.1''" 0]
  by (auto simp: INADDR_NONE_def isspace_def)

text \<open>A port as the parser takes it: space, a sign, decimal digits, and at most one further character with space behind it.\<close>

definition port_text :: "string \<Rightarrow> nat \<Rightarrow> bool" where
  "port_text str port = (\<exists>sp sg ds tail. str = sp @ sg @ ds @ tail \<and> list_all isspace sp \<and> sg \<in> {[], ''+'', ''-''}
     \<and> ds \<noteq> [] \<and> list_all isdigit ds \<and> (tail = [] \<or> \<not> isdigit (hd tail) \<and> list_all isspace (tl tail))
     \<and> port = read_radix 10 decimal ds \<and> port \<le> 65535 \<and> (sg = ''-'' \<longrightarrow> port = 0))"

text \<open>The texts of an address and a port: space, a host without a colon, a colon, and the port. An empty host stands for the
  wildcard, another one for what the resolver gives.\<close>

definition endpoint_text :: "(string \<Rightarrow> nat option) \<Rightarrow> string \<Rightarrow> nat \<Rightarrow> nat \<Rightarrow> bool" where
  "endpoint_text gethostbyname str ip port = (\<exists>sp host port_str. str = sp @ host @ '':'' @ port_str \<and> list_all isspace sp
     \<and> CHR '':'' \<notin> set host \<and> port_text port_str port \<and> ip \<noteq> INADDR_NONE
     \<and> (if host = [] then ip = INADDR_ANY else \<not> isspace (hd host) \<and> gethostbyname host = Some ip))"

lemma drop_space: "list_all isspace sp \<Longrightarrow> xs = [] \<or> \<not> isspace (hd xs) \<Longrightarrow> dropWhile isspace (sp @ xs) = xs"
  by (induction sp) (cases xs; auto)+

lemma strtol_text:
  assumes "list_all isspace sp" "sg \<in> {[], ''+'', ''-''}" "ds \<noteq> []" "list_all isdigit ds" "tail = [] \<or> \<not> isdigit (hd tail)"
  shows "strtol (sp @ sg @ ds @ tail)
    = ((if sg = ''-'' then - int (read_radix 10 decimal ds) else int (read_radix 10 decimal ds)), tail)"
proof -
  obtain c r where c: "ds = c # r" "isdigit c" using assms(3,4) by (cases ds) auto
  have "\<not> isspace (hd (sg @ ds @ tail))" using assms(2) c digits_not_space by (auto simp: isspace_def)
  then have t: "dropWhile isspace (sp @ sg @ ds @ tail) = sg @ ds @ tail" using drop_space [OF assms(1)] by blast
  have d: "takeWhile isdigit (ds @ tail) = ds" "dropWhile isdigit (ds @ tail) = tail"
    using assms(4,5) by (cases tail; auto simp: takeWhile_append dropWhile_append list_all_iff)+
  show ?thesis using assms(2,3) c digits_not_space d unfolding strtol_def t Let_def by auto
qed

lemma strtol_cases:
  obtains (none) "strtol str = (0, str)"
  | (digits) sp sg ds tail where "str = sp @ sg @ ds @ tail" "list_all isspace sp" "sg \<in> {[], ''+'', ''-''}" "ds \<noteq> []"
      "list_all isdigit ds" "tail = [] \<or> \<not> isdigit (hd tail)"
proof -
  define t where "t = dropWhile isspace str"
  define sg where "sg = (if t \<noteq> [] \<and> (hd t = CHR ''-'' \<or> hd t = CHR ''+'') then [hd t] else [])"
  define u where "u = (case t of c # r \<Rightarrow> if c = CHR ''-'' \<or> c = CHR ''+'' then r else t | [] \<Rightarrow> [])"
  have tu: "t = sg @ u" by (cases t) (auto simp: sg_def u_def)
  have str: "str = takeWhile isspace str @ sg @ takeWhile isdigit u @ dropWhile isdigit u"
    using tu takeWhile_dropWhile_id [of isspace str] unfolding t_def by (metis takeWhile_dropWhile_id)
  have sg: "sg \<in> {[], ''+'', ''-''}" by (auto simp: sg_def)
  have sp: "list_all isspace (takeWhile isspace str)" "list_all isdigit (takeWhile isdigit u)"
    by (auto simp: list_all_iff dest: set_takeWhileD)
  have tail: "dropWhile isdigit u = [] \<or> \<not> isdigit (hd (dropWhile isdigit u))" using hd_dropWhile by blast
  show thesis
  proof (cases "takeWhile isdigit u = []")
    case True
    then have "strtol str = (0, str)" unfolding strtol_def t_def [symmetric] u_def [symmetric] Let_def by simp
    then show ?thesis by (rule none)
  next
    case False
    show ?thesis by (rule digits [OF str sp(1) sg False sp(2) tail])
  qed
qed

lemma parse_port_iff: "parse_port str = Some port \<longleftrightarrow> port_text str port"
proof -
  have space: "dropWhile isspace xs = [] \<longleftrightarrow> list_all isspace xs" for xs by (simp add: list_all_iff)
  have "port_text str port" if some: "parse_port str = Some port"
  proof (cases rule: strtol_cases [of str])
    case none
    then show ?thesis using some by (simp add: parse_port_def)
  next
    case (digits sp sg ds tail)
    have "strtol str = ((if sg = ''-'' then - int (read_radix 10 decimal ds) else int (read_radix 10 decimal ds)), tail)"
      unfolding digits(1) by (rule strtol_text [OF digits(2-6)])
    then have "(tail = [] \<or> list_all isspace (tl tail)) \<and> port = read_radix 10 decimal ds \<and> port \<le> 65535 \<and> (sg = ''-'' \<longrightarrow> port = 0)"
      using some unfolding parse_port_def space by (auto split: if_splits)
    then have "port = read_radix 10 decimal ds" "port \<le> 65535" "sg = ''-'' \<longrightarrow> port = 0"
      "tail = [] \<or> \<not> isdigit (hd tail) \<and> list_all isspace (tl tail)" using digits(6) by blast+
    then show ?thesis unfolding port_text_def using digits by blast
  qed
  moreover have "parse_port str = Some port" if pt: "port_text str port"
  proof -
    obtain sp sg ds tail where d: "str = sp @ sg @ ds @ tail" "list_all isspace sp" "sg \<in> {[], ''+'', ''-''}" "ds \<noteq> []"
      "list_all isdigit ds" "tail = [] \<or> \<not> isdigit (hd tail) \<and> list_all isspace (tl tail)"
      "port = read_radix 10 decimal ds" "port \<le> 65535" "sg = ''-'' \<longrightarrow> port = 0"
      using pt unfolding port_text_def by blast
    have "strtol str = ((if sg = ''-'' then - int port else int port), tail)"
      unfolding d(1,7) by (rule strtol_text) (use d in auto)
    moreover have "tail \<noteq> str" using d(1,4) by auto
    moreover have "tail = [] \<or> dropWhile isspace (tl tail) = []" using d(6) space by blast
    ultimately show ?thesis using d(8,9) by (auto simp: parse_port_def)
  qed
  ultimately show ?thesis by blast
qed

lemma EndPoint_finish_iff:
  assumes "host = [] \<or> \<not> isspace (hd host)"
  shows "EndPoint_finish gethostbyname junk host rest = \<lparr>ep_ip = ip, ep_port = port, ep_pad = junk\<rparr> \<and> ip \<noteq> INADDR_NONE
    \<longleftrightarrow> rest \<noteq> [] \<and> port_text (tl rest) port \<and> ip \<noteq> INADDR_NONE
      \<and> (if host = [] then ip = INADDR_ANY else gethostbyname host = Some ip)"
proof -
  have "dropWhile isspace host = host" using assms by (cases host) auto
  then show ?thesis
    unfolding parse_port_iff [symmetric]
    by (auto simp: EndPoint_finish_def hostname2ip_def INADDR_ANY_def INADDR_NONE_def Let_def split: option.splits)
qed

text \<open>(C23) What the parser accepts, exactly: for a host of fewer than 512 characters it does not overrun the buffer, and it
  gives a valid endpoint with an address and a port if and only if the text is space, a host without a colon that the
  resolver knows (or no host, for the wildcard), a colon, and a decimal number of at most 65535 behind optional space and
  sign, with at most one further character and space behind it. Every other text gives an invalid endpoint with port 0.\<close>

theorem endpoint_parse_sound:
  assumes "length (takeWhile (\<lambda>c. c \<noteq> CHR '':'') (dropWhile isspace str)) < 512"
  shows "\<exists>ep. EndPoint_parse gethostbyname junk str = Some ep
    \<and> (\<forall>ip port. ep = \<lparr>ep_ip = ip, ep_port = port, ep_pad = junk\<rparr> \<and> ep_valid ep \<longleftrightarrow> endpoint_text gethostbyname str ip port)
    \<and> (\<not> ep_valid ep \<longrightarrow> ep = \<lparr>ep_ip = INADDR_NONE, ep_port = 0, ep_pad = junk\<rparr>)"
proof -
  define s where "s = dropWhile isspace str"
  define host where "host = takeWhile (\<lambda>c. c \<noteq> CHR '':'') s"
  define rest where "rest = dropWhile (\<lambda>c. c \<noteq> CHR '':'') s"
  let ?ep = "EndPoint_finish gethostbyname junk host rest"
  have len: "length host \<le> (if rest = [] then 512 else 511)" using assms by (simp add: host_def s_def)
  have run: "EndPoint_parse gethostbyname junk str = Some ?ep"
    using len unfolding EndPoint_parse_def s_def [symmetric] Let_def host_def [symmetric] rest_def [symmetric]
    by (simp only: check_True bind_check_Some if_True) simp
  have s: "s = host @ rest" by (simp add: host_def rest_def)
  have str: "str = takeWhile isspace str @ host @ rest" using s takeWhile_dropWhile_id [of isspace str] unfolding s_def by metis
  have sp: "list_all isspace (takeWhile isspace str)" by (auto simp: list_all_iff dest: set_takeWhileD)
  have colon: "CHR '':'' \<notin> set host" unfolding host_def by (auto dest: set_takeWhileD)
  have r: "rest = '':'' @ tl rest" if "rest \<noteq> []"
    using that hd_dropWhile [of "\<lambda>c. c \<noteq> CHR '':''" s] unfolding rest_def by (cases "dropWhile (\<lambda>c. c \<noteq> CHR '':'') s") auto
  have first: "host = [] \<or> \<not> isspace (hd host)"
    using s s_def hd_dropWhile [of isspace str] by (cases host) auto
  have "endpoint_text gethostbyname str ip port \<longleftrightarrow> rest \<noteq> [] \<and> port_text (tl rest) port \<and> ip \<noteq> INADDR_NONE
      \<and> (if host = [] then ip = INADDR_ANY else gethostbyname host = Some ip)" (is "_ = ?R") for ip port
  proof
    assume "endpoint_text gethostbyname str ip port"
    then obtain sp h p where h: "str = sp @ h @ '':'' @ p" "list_all isspace sp" "CHR '':'' \<notin> set h" "port_text p port" "ip \<noteq> INADDR_NONE"
      "if h = [] then ip = INADDR_ANY else \<not> isspace (hd h) \<and> gethostbyname h = Some ip" unfolding endpoint_text_def by blast
    have "\<not> isspace (hd (h @ '':'' @ p))" using h(6) by (cases h) (auto simp: isspace_def)
    then have "s = h @ '':'' @ p" unfolding s_def h(1) using drop_space [OF h(2)] by blast
    moreover from this have "host = h" "rest = '':'' @ p"
      using h(3) unfolding host_def rest_def by (auto simp: takeWhile_append dropWhile_append)
    ultimately show ?R using h(4-6) by (simp split: if_splits)
  next
    assume R: ?R
    then show "endpoint_text gethostbyname str ip port"
      unfolding endpoint_text_def using str sp colon r first
      by (intro exI [of _ "takeWhile isspace str"] exI [of _ host] exI [of _ "tl rest"]) (auto split: if_splits)
  qed
  then have iff: "?ep = \<lparr>ep_ip = ip, ep_port = port, ep_pad = junk\<rparr> \<and> ep_valid ?ep \<longleftrightarrow> endpoint_text gethostbyname str ip port" for ip port
    using EndPoint_finish_iff [OF first, of gethostbyname junk rest ip port] by (auto simp: ep_valid_def)
  have "\<not> ep_valid ?ep \<longrightarrow> ?ep = \<lparr>ep_ip = INADDR_NONE, ep_port = 0, ep_pad = junk\<rparr>"
    by (auto simp: EndPoint_finish_def ep_valid_def INADDR_ANY_def INADDR_NONE_def Let_def split: option.split)
  then show ?thesis using run iff by blast
qed

text \<open>The resolver knows one name; the port has space and a sign before it and a character behind it.\<close>

theorem endpoint_parse_sound_witness:
  "EndPoint_parse (\<lambda>h. if h = ''db'' then Some 7 else None) 0 '' db: +80/'' = Some \<lparr>ep_ip = 7, ep_port = 80, ep_pad = 0\<rparr>
    \<and> (\<exists>ep. EndPoint_parse (\<lambda>h. if h = ''db'' then Some 7 else None) 0 ''no:80'' = Some ep \<and> \<not> ep_valid ep)"
proof -
  let ?g = "\<lambda>h. if h = ''db'' then Some 7 else None :: nat option"
  have "read_radix 10 decimal ''80'' = 80" by (simp add: read_radix_def decimal_def s_digits_def digit_of_def)
  then have "port_text '' +80/'' 80" unfolding port_text_def
    by (intro exI [of _ "'' ''"] exI [of _ "''+''"] exI [of _ "''80''"] exI [of _ "''/''"]) (simp add: isspace_def isdigit_def decimal_def s_digits_def)
  then have et: "endpoint_text ?g '' db: +80/'' 7 80" unfolding endpoint_text_def
    by (intro exI [of _ "'' ''"] exI [of _ "''db''"] exI [of _ "'' +80/''"]) (simp add: isspace_def INADDR_NONE_def)
  have len: "length (takeWhile (\<lambda>c. c \<noteq> CHR '':'') (dropWhile isspace '' db: +80/'')) < 512" by (simp add: isspace_def)
  have "EndPoint_parse ?g 0 '' db: +80/'' = Some \<lparr>ep_ip = 7, ep_port = 80, ep_pad = 0\<rparr>"
  proof -
    obtain ep where ep: "EndPoint_parse ?g 0 '' db: +80/'' = Some ep"
      "\<forall>ip port. ep = \<lparr>ep_ip = ip, ep_port = port, ep_pad = 0\<rparr> \<and> ep_valid ep \<longleftrightarrow> endpoint_text ?g '' db: +80/'' ip port"
      using endpoint_parse_sound [OF len, of ?g 0] by (elim exE conjE)
    have "ep = \<lparr>ep_ip = 7, ep_port = 80, ep_pad = 0\<rparr>" using ep(2) [THEN spec, THEN spec, THEN iffD2, OF et] by (rule conjunct1)
    then show ?thesis using ep(1) by simp
  qed
  moreover have "\<not> ep_valid (EndPoint_finish ?g 0 ''no'' '':80'')"
    by (simp add: EndPoint_finish_def hostname2ip_def isspace_def ep_valid_def)
  then have "\<exists>ep. EndPoint_parse ?g 0 ''no:80'' = Some ep \<and> \<not> ep_valid ep"
    by (simp add: EndPoint_parse_def isspace_def check_def Let_def)
  ultimately show ?thesis by blast
qed

end
