(* ===== verification/Log_Args.thy ===== *)
theory Log_Args
  imports Log_Stream Endpoint
begin

text \<open>
  What a log statement can be given beside the types of the overloads of \<open>operator<<\<close>: objects with a function \<open>Logger\<close>
  (\<^verbatim>\<open>logger.h\<close> 246-282) and endpoints (\<^verbatim>\<open>endpoint.h\<close> 81-87).
\<close>

subsection \<open>Objects that log themselves\<close>

definition do_noflush :: "log_stream \<Rightarrow> log_stream" where
  "do_noflush s = s\<lparr>auto_flush := False\<rparr>"

text \<open>\<open>HexUint32\<close> takes signed numbers too; the conversion to its field makes them unsigned.\<close>

definition HexUint32_of_int :: "int \<Rightarrow> nat" where
  "HexUint32_of_int v = nat (v mod 2 ^ 32)"

datatype loggable = Noflush | HexUint64 nat | HexUint32 nat

fun Logger :: "loggable \<Rightarrow> log_stream \<Rightarrow> log_stream option" where
  "Logger Noflush s = Some (do_noflush s)"
| "Logger (HexUint64 v) s = HexLogger (int v) s"
| "Logger (HexUint32 v) s = HexLogger (int v) s"

text \<open>The overload for any object calls its function.\<close>

definition shl_object :: "loggable \<Rightarrow> log_stream \<Rightarrow> log_stream option" where
  "shl_object t s = Logger t s"

lemma shl_object_args:
  "shl_object Noflush = shl LNoflush" "shl_object (HexUint64 v) = shl (LHex (int v))" "shl_object (HexUint32 v) = shl (LHex (int v))"
  by (auto simp: shl_object_def do_noflush_def)

subsection \<open>Endpoints\<close>

definition shl_data :: "string \<Rightarrow> log_stream \<Rightarrow> log_stream option" where
  "shl_data str s = ls_append str s"

text \<open>The buffer has 32 bytes.\<close>

definition shl_endpoint :: "(nat \<Rightarrow> string) \<Rightarrow> endpoint \<Rightarrow> log_stream \<Rightarrow> log_stream option" where
  "shl_endpoint inet_ntop ep s = do {
     let (len, str) = endpoint_str inet_ntop ep;
     check (len < 32);
     shl_data str s}"

text \<open>What a line shows for an endpoint can be read back: the text is appended whole when the line has room for it, and
  parsing it gives the endpoint.\<close>

theorem endpoint_logged:
  assumes ep: "ep_ip ep \<noteq> INADDR_NONE" "ep_port ep < 65536" "gethostbyname (inet_ntop (ep_ip ep)) = Some (ep_ip ep)"
    and shown: "inet_ntop (ep_ip ep) \<noteq> []" "length (inet_ntop (ep_ip ep)) < 16"
      "\<forall>c \<in> set (inet_ntop (ep_ip ep)). c \<noteq> CHR '':'' \<and> \<not> isspace c"
    and room: "21 \<le> avial s"
  shows "\<exists>str. shl_endpoint inet_ntop ep s = Some (s\<lparr>ls_data := ls_data s @ str\<rparr>)
    \<and> EndPoint_parse gethostbyname junk str = Some (ep\<lparr>ep_pad := junk\<rparr>)"
proof -
  obtain str where str: "endpoint_str inet_ntop ep = (length str, str)" "length str \<le> 21"
    "EndPoint_parse gethostbyname junk str = Some (ep\<lparr>ep_pad := junk\<rparr>)"
    using endpoint_print_parse [where ep = ep and inet_ntop = inet_ntop and gethostbyname = gethostbyname and junk = junk] ep shown
    by auto
  have "shl_endpoint inet_ntop ep s = Some (s\<lparr>ls_data := ls_data s @ str\<rparr>)"
    using str(1,2) room by (auto simp: shl_endpoint_def shl_data_def ls_append_def just_append_def put_ok Let_def)
  then show ?thesis using str(3) by blast
qed

end
