(* ===== verification/Socket_Fd.thy ===== *)
theory Socket_Fd
  imports Endpoint
begin

text \<open>
  \<open>SocketFd\<close> of \<^verbatim>\<open>socket.h\<close> and \<^verbatim>\<open>src/socket.cpp\<close>, and \<open>fd_guard\<close> of \<^verbatim>\<open>fd_guard.h\<close>: objects that own a file
  descriptor. What the system calls answer is an argument of an operation; the operation returns its result, the new value
  of \<open>fd_\<close> and the calls it made, in order, with their answers. Ownership is then stated over the calls.
\<close>

subsection \<open>System calls\<close>

datatype call =
    Socket int
  | Accept4 int int
  | Close int
  | Fcntl_get_fl int int
  | Fcntl_set_fl int int
  | Fcntl_get_fd int int
  | Fcntl_set_fd int int
  | Connect_to int endpoint int
  | Bind int endpoint int
  | Listen_on int int
  | Setsockopt int int int int
  | Shutdown_rdwr int int

text \<open>Numbers of Linux.\<close>

abbreviation "EINTR \<equiv> 4 :: int"
abbreviation "EAGAIN \<equiv> 11 :: int"
abbreviation "EADDRINUSE \<equiv> 98 :: int"
abbreviation "EADDRNOTAVAIL \<equiv> 99 :: int"
abbreviation "ENETUNREACH \<equiv> 101 :: int"
abbreviation "EISCONN \<equiv> 106 :: int"
abbreviation "ECONNREFUSED \<equiv> 111 :: int"
abbreviation "EINPROGRESS \<equiv> 115 :: int"
abbreviation "O_NONBLOCK \<equiv> 2048 :: int"
abbreviation "FD_CLOEXEC \<equiv> 1 :: int"

text \<open>What the calls of an operation answer; an error of \<^verbatim>\<open>connect\<close>, \<^verbatim>\<open>bind\<close> or \<^verbatim>\<open>listen\<close> is the value of \<^verbatim>\<open>errno\<close>,
  0 for none.\<close>

record answers =
  ans_fd :: int
  ans_errno :: int
  ans_getfl :: int
  ans_setfl :: int
  ans_getfd :: int
  ans_setfd :: int
  ans_connect :: int
  ans_bind :: int
  ans_listen :: int

subsection \<open>Owning a descriptor\<close>




definition Shutdown :: "int \<Rightarrow> int \<Rightarrow> int \<times> int \<times> call list" where
  "Shutdown err own = (if err = 0 then (0, - 1, [Shutdown_rdwr own err]) else (err, own, [Shutdown_rdwr own err]))"




subsection \<open>Options\<close>

definition set_non_block :: "answers \<Rightarrow> int \<Rightarrow> int \<times> call list" where
  "set_non_block e own =
     (let flags = ans_getfl e
      in if flags > 0 then (ans_setfl e, [Fcntl_get_fl own flags, Fcntl_set_fl own (flags OR O_NONBLOCK)])
         else (flags, [Fcntl_get_fl own flags]))"

definition set_close_on_exec :: "answers \<Rightarrow> int \<Rightarrow> int \<times> call list" where
  "set_close_on_exec e own =
     (let flags = ans_getfd e
      in if flags > 0 then (ans_setfd e, [Fcntl_get_fd own flags, Fcntl_set_fd own (flags OR FD_CLOEXEC)])
         else (flags, [Fcntl_get_fd own flags]))"

definition set_no_delay :: "int \<Rightarrow> call list" where
  "set_no_delay own = [Setsockopt own 6 1 1]"

definition set_reuse_addr :: "int \<Rightarrow> call list" where
  "set_reuse_addr own = [Setsockopt own 1 2 1]"

definition set_reuse_port :: "int \<Rightarrow> call list" where
  "set_reuse_port own = [Setsockopt own 1 15 1]"

definition set_defer_accpet :: "int \<Rightarrow> call list" where
  "set_defer_accpet own = [Setsockopt own 6 9 1]"

definition set_fast_open :: "int \<Rightarrow> call list" where
  "set_fast_open own = [Setsockopt own 6 23 5]"

text \<open>The pending error of the socket, or the error of \<^verbatim>\<open>getsockopt\<close> itself.\<close>

definition GetSocketErr :: "int \<Rightarrow> int \<Rightarrow> int \<Rightarrow> int" where
  "GetSocketErr ret err opt = (if ret < 0 then err else opt)"

subsection \<open>Connecting, listening, accepting\<close>



text \<open>A failing \<^verbatim>\<open>bind\<close> returns \<^verbatim>\<open>false\<close>, which is 0.\<close>

definition Listen :: "answers \<Rightarrow> endpoint \<Rightarrow> int \<Rightarrow> int \<times> int \<times> call list" where
  "Listen e ep own =
     (let own = ans_fd e
      in if own < 0 then (ans_errno e, own, [Socket own])
         else if ans_bind e \<noteq> 0 then (0, own, [Socket own, Bind own ep (ans_bind e)])
         else let (_, c1) = set_non_block e own;
                  (_, c2) = set_close_on_exec e own;
                  c3 = set_defer_accpet own;
                  calls = [Socket own, Bind own ep 0] @ c1 @ c2 @ c3 @ [Listen_on own (ans_listen e)]
              in if ans_listen e \<noteq> 0 then (ans_listen e, own, calls) else (0, own, calls))"


subsection \<open>The descriptors of a process\<close>

definition open_after :: "call \<Rightarrow> int set \<Rightarrow> int set" where
  "open_after c fds =
     (case c of
        Socket fd \<Rightarrow> if fd \<ge> 0 then insert fd fds else fds
      | Accept4 _ fd \<Rightarrow> if fd \<ge> 0 then insert fd fds else fds
      | Close fd \<Rightarrow> fds - {fd}
      | _ \<Rightarrow> fds)"

text \<open>The kernel gives out descriptors that are not open; the process closes and uses only open ones.\<close>

definition answer_ok :: "call \<Rightarrow> int set \<Rightarrow> bool" where
  "answer_ok c fds = (case c of Socket fd \<Rightarrow> fd \<notin> fds | Accept4 _ fd \<Rightarrow> fd \<notin> fds | _ \<Rightarrow> True)"

definition use_ok :: "call \<Rightarrow> int set \<Rightarrow> bool" where
  "use_ok c fds =
     (case c of
        Close fd \<Rightarrow> fd \<in> fds | Fcntl_get_fl fd _ \<Rightarrow> fd \<in> fds | Fcntl_set_fl fd _ \<Rightarrow> fd \<in> fds
      | Fcntl_get_fd fd _ \<Rightarrow> fd \<in> fds | Fcntl_set_fd fd _ \<Rightarrow> fd \<in> fds | Connect_to fd _ _ \<Rightarrow> fd \<in> fds
      | Bind fd _ _ \<Rightarrow> fd \<in> fds | Listen_on fd _ \<Rightarrow> fd \<in> fds | Setsockopt fd _ _ _ \<Rightarrow> fd \<in> fds
      | _ \<Rightarrow> True)"

fun run_calls :: "call list \<Rightarrow> int set \<Rightarrow> int set" where
  "run_calls [] fds = fds"
| "run_calls (c # cs) fds = run_calls cs (open_after c fds)"

fun answers_ok :: "call list \<Rightarrow> int set \<Rightarrow> bool" where
  "answers_ok [] fds = True"
| "answers_ok (c # cs) fds = (answer_ok c fds \<and> answers_ok cs (open_after c fds))"

fun uses_ok :: "call list \<Rightarrow> int set \<Rightarrow> bool" where
  "uses_ok [] fds = True"
| "uses_ok (c # cs) fds = (use_ok c fds \<and> uses_ok cs (open_after c fds))"



text \<open>Every open descriptor has one owner among the objects, or is in \<open>held\<close>, which here stands for all that no object owns.\<close>

definition owned :: "(nat \<rightharpoonup> int) \<Rightarrow> int set" where
  "owned objs = {fd. 0 \<le> fd \<and> (\<exists>i. objs i = Some fd)}"

definition fd_inv :: "(nat \<rightharpoonup> int) \<Rightarrow> int set \<Rightarrow> int set \<Rightarrow> bool" where
  "fd_inv objs held fds =
     (fds = owned objs \<union> held \<and> owned objs \<inter> held = {} \<and> held \<subseteq> {0..}
      \<and> (\<forall>i j fd. objs i = Some fd \<and> objs j = Some fd \<and> 0 \<le> fd \<longrightarrow> i = j))"

lemma owned_None:
  assumes "fd_inv objs held fds" "objs i = Some own"
  shows "owned (objs(i := None)) = owned objs - {fd. fd = own \<and> 0 \<le> fd}"
proof -
  have "j = i" if "objs j = Some own" "0 \<le> own" for j using assms that by (auto simp: fd_inv_def)
  then show ?thesis using assms(2) unfolding owned_def fun_upd_apply by (auto; metis option.inject)
qed


lemma owned_negative: "fd < 0 \<Longrightarrow> owned (objs(i \<mapsto> fd)) = owned (objs(i := None))"
  unfolding owned_def fun_upd_apply by (auto; metis not_le)




lemma run_calls_append [simp]: "run_calls (cs @ ds) fds = run_calls ds (run_calls cs fds)"
  by (induction cs arbitrary: fds) auto

lemma answers_ok_append [simp]: "answers_ok (cs @ ds) fds = (answers_ok cs fds \<and> answers_ok ds (run_calls cs fds))"
  by (induction cs arbitrary: fds) auto

lemma uses_ok_append [simp]: "uses_ok (cs @ ds) fds = (uses_ok cs fds \<and> uses_ok ds (run_calls cs fds))"
  by (induction cs arbitrary: fds) auto

text \<open>Calls that use one descriptor and change no table.\<close>

definition on_fd :: "int \<Rightarrow> call \<Rightarrow> bool" where
  "on_fd fd c = (\<forall>fds. open_after c fds = fds \<and> (fd \<in> fds \<longrightarrow> use_ok c fds))"

lemma run_on_fd:
  assumes "list_all (on_fd fd) cs"
  shows "run_calls cs fds = fds" "fd \<in> fds \<Longrightarrow> uses_ok cs fds"
  using assms by (induction cs) (auto simp: on_fd_def)

lemma on_fd_calls [simp]:
  "on_fd fd (Fcntl_get_fl fd x)" "on_fd fd (Fcntl_set_fl fd x)" "on_fd fd (Fcntl_get_fd fd x)" "on_fd fd (Fcntl_set_fd fd x)"
  "on_fd fd (Connect_to fd ep x)" "on_fd fd (Bind fd ep x)" "on_fd fd (Listen_on fd x)" "on_fd fd (Setsockopt fd x y z)"
  by (simp_all add: on_fd_def open_after_def use_ok_def)

lemma on_fd_options:
  "list_all (on_fd fd) (snd (set_non_block e fd))" "list_all (on_fd fd) (snd (set_close_on_exec e fd))"
  "list_all (on_fd fd) (set_defer_accpet fd)"
  by (simp_all add: set_non_block_def set_close_on_exec_def set_defer_accpet_def Let_def)


lemma Listen_calls:
  assumes "Listen e ep own = (ret, own', calls)"
  obtains cs where "calls = Socket own' # cs" "list_all (on_fd own') cs" "own' < 0 \<Longrightarrow> cs = []"
proof (cases "ans_fd e < 0 \<or> ans_bind e \<noteq> 0")
  case True
  then show thesis using assms
    by (intro that [of "if ans_fd e < 0 then [] else [Bind (ans_fd e) ep (ans_bind e)]"]) (auto simp: Listen_def Let_def split: if_splits)
next
  case False
  let ?cs = "[Bind (ans_fd e) ep 0] @ snd (set_non_block e (ans_fd e)) @ snd (set_close_on_exec e (ans_fd e))
    @ set_defer_accpet (ans_fd e) @ [Listen_on (ans_fd e) (ans_listen e)]"
  note opts = on_fd_options(1) [of "ans_fd e" e] on_fd_options(2) [of "ans_fd e" e] on_fd_options(3) [of "ans_fd e"]
  show thesis using assms False opts by (intro that [of ?cs]) (auto simp: Listen_def Let_def split: prod.splits if_splits)
qed












subsection \<open>Properties\<close>



text \<open>A new socket has no descriptor flags, so \<open>set_close_on_exec\<close>, which asks for positive flags, never sets the flag on
  one that \<open>Connect\<close> or \<open>Listen\<close> made.\<close>

lemma close_on_exec_skipped: "ans_getfd e = 0 \<Longrightarrow> set_close_on_exec e own = (0, [Fcntl_get_fd own 0])"
  by (simp add: set_close_on_exec_def)

text \<open>\<open>Listen\<close> on an object that owns a descriptor forgets it, and \<open>Shutdown\<close> forgets its own: both leave it open without an
  owner. A failing \<^verbatim>\<open>bind\<close> is reported as success.\<close>

lemma listen_leaks:
  assumes "fd_inv objs held fds" "objs i = Some own" "0 \<le> own" "Listen e ep own = (ret, own', calls)" "answers_ok calls fds"
  shows "own \<in> run_calls calls fds \<and> own \<notin> owned (objs(i \<mapsto> own')) \<union> held"
proof -
  obtain cs where cs: "calls = Socket own' # cs" "list_all (on_fd own') cs" using Listen_calls [OF assms(4)] by blast
  have "own \<in> fds" using assms(1-3) by (auto simp: fd_inv_def owned_def)
  then have "own \<noteq> own'" "own \<in> run_calls calls fds"
    using assms(5) run_on_fd(1) [OF cs(2)] by (auto simp: cs(1) answer_ok_def open_after_def)
  moreover have "owned (objs(i \<mapsto> own')) \<subseteq> owned (objs(i := None)) \<union> {own'}" by (auto simp: owned_def split: if_splits)
  ultimately show ?thesis using assms(1-3) owned_None [OF assms(1,2)] by (auto simp: fd_inv_def owned_def)
qed

lemma shutdown_leaks:
  assumes "fd_inv objs held fds" "objs i = Some own" "0 \<le> own" "Shutdown 0 own = (ret, own', calls)"
  shows "own \<in> run_calls calls fds \<and> own \<notin> owned (objs(i \<mapsto> own')) \<union> held"
  using assms owned_None [OF assms(1,2)] by (auto simp: Shutdown_def open_after_def owned_negative fd_inv_def owned_def)

lemma bind_failure_reported_as_success: "ans_fd e \<ge> 0 \<Longrightarrow> ans_bind e \<noteq> 0 \<Longrightarrow> fst (Listen e ep own) = 0"
  by (simp add: Listen_def Let_def)

end
