(* ===== verification/Arena.thy ===== *)
theory Arena
  imports Prelude
begin

text \<open>
  \<open>Arena\<close> of \<^verbatim>\<open>arena.h\<close> and \<^verbatim>\<open>src/arena.cpp\<close>: allocation by advancing a pointer through blocks of 4 KB, with large
  requests in blocks of their own. Addresses are naturals; the address that \<^verbatim>\<open>malloc\<close> returns, should the
  operation call it, is an argument. A failing assertion is \<^term>\<open>None\<close>.
\<close>

subsection \<open>Operations\<close>

definition kBlockSize :: nat where
  "kBlockSize = 4096"

record arena =
  alloc_ptr :: nat
  alloc_bytes_remaining :: nat
  blocks :: "nat list"
  memory_usage :: nat

definition Arena :: arena where
  "Arena = \<lparr>alloc_ptr = 0, alloc_bytes_remaining = 0, blocks = [], memory_usage = 0\<rparr>"

definition AllocateNewBlock :: "nat \<Rightarrow> nat \<Rightarrow> arena \<Rightarrow> nat \<times> arena" where
  "AllocateNewBlock malloc block_bytes a =
     (malloc, a\<lparr>blocks := blocks a @ [malloc], memory_usage := u64 (memory_usage a + block_bytes + 8)\<rparr>)"

text \<open>\<open>alloc_ptr_ += n; alloc_bytes_remaining_ -= n\<close>\<close>

definition bump :: "nat \<Rightarrow> arena \<Rightarrow> arena" where
  "bump n a = a\<lparr>alloc_ptr := u64 (alloc_ptr a + n), alloc_bytes_remaining := sub64 (alloc_bytes_remaining a) n\<rparr>"

definition AllocateFallback :: "nat \<Rightarrow> nat \<Rightarrow> arena \<Rightarrow> nat \<times> arena" where
  "AllocateFallback malloc bytes a =
     (if bytes > kBlockSize div 4 then AllocateNewBlock malloc bytes a
      else let (ptr, a) = AllocateNewBlock malloc kBlockSize a;
               a = a\<lparr>alloc_ptr := ptr, alloc_bytes_remaining := kBlockSize\<rparr>
           in (alloc_ptr a, bump bytes a))"

definition Allocate :: "nat \<Rightarrow> nat \<Rightarrow> arena \<Rightarrow> (nat \<times> arena) option" where
  "Allocate malloc bytes a = do {
     check (bytes > 0);
     if bytes \<le> alloc_bytes_remaining a then Some (alloc_ptr a, bump bytes a)
     else Some (AllocateFallback malloc bytes a)}"

definition slop_of :: "nat \<Rightarrow> nat" where
  "slop_of ptr = (let current_mod = ptr AND 7 in if current_mod = 0 then 0 else 8 - current_mod)"

definition AllocateAligned :: "nat \<Rightarrow> nat \<Rightarrow> arena \<Rightarrow> (nat \<times> arena) option" where
  "AllocateAligned malloc bytes a = do {
     let slop = slop_of (alloc_ptr a);
     let needed = u64 (bytes + slop);
     let (result, a) =
       (if needed \<le> alloc_bytes_remaining a then (u64 (alloc_ptr a + slop), bump needed a)
        else AllocateFallback malloc bytes a);
     check (result AND 7 = 0);
     Some (result, a)}"

definition MemoryUsage :: "arena \<Rightarrow> nat" where
  "MemoryUsage a = memory_usage a"

text \<open>The destructor: the blocks it frees, in order.\<close>

definition destroy_arena :: "arena \<Rightarrow> nat list" where
  "destroy_arena a = blocks a"

definition arena_call :: "bool \<Rightarrow> nat \<Rightarrow> nat \<Rightarrow> arena \<Rightarrow> (nat \<times> arena) option" where
  "arena_call aligned = (if aligned then AllocateAligned else Allocate)"

subsection \<open>Use of an arena\<close>

text \<open>The bytes of an allocation, the size of the block that a request may need, and what \<^verbatim>\<open>malloc\<close> promises for a
  new block beside the live ones: it is aligned, does not wrap and is disjoint from them.\<close>

abbreviation extent :: "nat \<times> nat \<Rightarrow> nat set" where
  "extent r \<equiv> {fst r..<fst r + snd r}"

definition block_bytes :: "nat \<Rightarrow> nat" where
  "block_bytes bytes = (if bytes > kBlockSize div 4 then bytes else kBlockSize)"

definition malloc_fresh :: "(nat \<times> nat) list \<Rightarrow> nat \<Rightarrow> nat \<Rightarrow> bool" where
  "malloc_fresh lives m n = (m mod 8 = 0 \<and> m + n < 2 ^ 64 \<and> list_all (\<lambda>b. extent (m, n) \<inter> extent b = {}) lives)"

text \<open>The states after any sequence of requests: the arena, the blocks it has from \<^verbatim>\<open>malloc\<close> with their sizes, and
  the allocations it has given out.\<close>

inductive arena_reach :: "arena \<Rightarrow> (nat \<times> nat) list \<Rightarrow> (nat \<times> nat) list \<Rightarrow> bool" where
  init: "arena_reach Arena [] []"
| reuse: "arena_reach a lives given \<Longrightarrow> 0 < bytes \<Longrightarrow> bytes < 2 ^ 64 - 8 \<Longrightarrow> arena_call aligned m bytes a = Some (r, a')
    \<Longrightarrow> blocks a' = blocks a \<Longrightarrow> arena_reach a' lives (given @ [(r, bytes)])"
| grow: "arena_reach a lives given \<Longrightarrow> 0 < bytes \<Longrightarrow> bytes < 2 ^ 64 - 8 \<Longrightarrow> arena_call aligned m bytes a = Some (r, a')
    \<Longrightarrow> blocks a' \<noteq> blocks a \<Longrightarrow> malloc_fresh lives m (block_bytes bytes)
    \<Longrightarrow> arena_reach a' (lives @ [(m, block_bytes bytes)]) (given @ [(r, bytes)])"

definition arena_inv :: "arena \<Rightarrow> (nat \<times> nat) list \<Rightarrow> (nat \<times> nat) list \<Rightarrow> bool" where
  "arena_inv a lives given =
     (blocks a = map fst lives \<and> memory_usage a = u64 (sum_list (map (\<lambda>b. snd b + 8) lives))
      \<and> list_all (\<lambda>b. fst b mod 8 = 0 \<and> fst b + snd b < 2 ^ 64) lives
      \<and> sorted_wrt (\<lambda>b c. extent b \<inter> extent c = {}) lives
      \<and> (alloc_bytes_remaining a = 0 \<or> (\<exists>b \<in> set lives. extent (alloc_ptr a, alloc_bytes_remaining a) \<subseteq> extent b))
      \<and> alloc_ptr a + alloc_bytes_remaining a < 2 ^ 64
      \<and> list_all (\<lambda>g. (\<exists>b \<in> set lives. extent g \<subseteq> extent b) \<and> extent g \<inter> extent (alloc_ptr a, alloc_bytes_remaining a) = {}) given
      \<and> sorted_wrt (\<lambda>g h. extent g \<inter> extent h = {}) given)"

subsection \<open>The invariant\<close>

lemma inv_init: "arena_inv Arena [] []"
  by (simp add: arena_inv_def Arena_def u64_def)

lemma inv_bump:
  assumes "arena_inv a lives given" "0 < bytes" "slop + bytes \<le> alloc_bytes_remaining a"
  shows "arena_inv (bump (slop + bytes) a) lives (given @ [(alloc_ptr a + slop, bytes)])"
proof -
  let ?p = "alloc_ptr a" and ?n = "alloc_bytes_remaining a"
  obtain b where b: "b \<in> set lives" "extent (?p, ?n) \<subseteq> extent b" using assms by (auto simp: arena_inv_def)
  have "?p + ?n < 18446744073709551616" using assms(1) by (simp add: arena_inv_def)
  then have bump: "bump (slop + bytes) a = a\<lparr>alloc_ptr := ?p + (slop + bytes), alloc_bytes_remaining := ?n - (slop + bytes)\<rparr>"
    using assms(3) by (simp add: bump_def u64_id sub64_id)
  have new: "extent (?p + slop, bytes) \<subseteq> extent (?p, ?n)" using assms(3) by auto
  have rest: "extent (?p + (slop + bytes), ?n - (slop + bytes)) \<subseteq> extent (?p, ?n)" using assms(3) by auto
  have "list_all (\<lambda>g. (\<exists>b \<in> set lives. extent g \<subseteq> extent b) \<and> extent g \<inter> extent (?p + (slop + bytes), ?n - (slop + bytes)) = {}) given"
    using assms(1) rest unfolding arena_inv_def list_all_iff by blast
  moreover have "\<forall>g \<in> set given. extent g \<inter> extent (?p + slop, bytes) = {}"
    using assms(1) new unfolding arena_inv_def list_all_iff by blast
  moreover have "(\<exists>b \<in> set lives. extent (?p + slop, bytes) \<subseteq> extent b)"
    "(\<exists>b \<in> set lives. extent (?p + (slop + bytes), ?n - (slop + bytes)) \<subseteq> extent b)" using b new rest by blast+
  moreover have "extent (?p + slop, bytes) \<inter> extent (?p + (slop + bytes), ?n - (slop + bytes)) = {}" by auto
  ultimately show ?thesis using assms(1,3) unfolding arena_inv_def bump by (simp add: sorted_wrt_append)
qed

lemma inv_new_block:
  assumes "arena_inv a lives given" "malloc_fresh lives m n" "0 < bytes" "bytes \<le> n"
    and "a' = a\<lparr>alloc_ptr := p, alloc_bytes_remaining := k, blocks := blocks a @ [m], memory_usage := u64 (memory_usage a + n + 8)\<rparr>"
    and "(p, k) = (alloc_ptr a, alloc_bytes_remaining a) \<or> (p, k) = (m + bytes, n - bytes)"
  shows "arena_inv a' (lives @ [(m, n)]) (given @ [(m, bytes)])"
proof -
  have f: "m mod 8 = 0" "m + n < 2 ^ 64" "\<forall>b \<in> set lives. extent (m, n) \<inter> extent b = {}"
    using assms(2) by (auto simp: malloc_fresh_def list_all_iff)
  have old: "list_all (\<lambda>g. \<exists>b \<in> set lives. extent g \<subseteq> extent b) given"
    "list_all (\<lambda>g. extent g \<inter> extent (alloc_ptr a, alloc_bytes_remaining a) = {}) given"
    using assms(1) by (auto simp: arena_inv_def list_all_iff)
  have new: "extent (m, bytes) \<subseteq> extent (m, n)" "extent (m + bytes, n - bytes) \<subseteq> extent (m, n)" using assms(4) by auto
  have given: "\<forall>g \<in> set given. extent g \<inter> extent (m, n) = {}"
    using old(1) f(3) unfolding list_all_iff by blast
  have ptr: "extent (alloc_ptr a, alloc_bytes_remaining a) \<inter> extent (m, n) = {}"
    using assms(1) f(3) unfolding arena_inv_def by (cases "alloc_bytes_remaining a = 0") auto
  have pk: "extent (p, k) \<inter> extent (m, bytes) = {}" "\<forall>g \<in> set given. extent g \<inter> extent (p, k) = {}"
  proof -
    have "extent (m + bytes, n - bytes) \<inter> extent (m, bytes) = {}" by auto
    then show "extent (p, k) \<inter> extent (m, bytes) = {}" using assms(6) ptr new by (elim disjE; fastforce)
    have "\<forall>g \<in> set given. extent g \<inter> extent (m + bytes, n - bytes) = {}" using given new by blast
    then show "\<forall>g \<in> set given. extent g \<inter> extent (p, k) = {}" using assms(6) old(2) unfolding list_all_iff by (elim disjE) simp_all
  qed
  have "k = 0 \<or> (\<exists>b \<in> set (lives @ [(m, n)]). extent (p, k) \<subseteq> extent b)" "p + k < 2 ^ 64"
    using assms(1,4,6) new f(2) unfolding arena_inv_def by auto
  moreover have "u64 (memory_usage a + n + 8) = u64 (sum_list (map (\<lambda>b. snd b + 8) (lives @ [(m, n)])))"
    using assms(1) by (simp add: arena_inv_def u64_def mod_simps add.assoc)
  moreover have "sorted_wrt (\<lambda>b c. extent b \<inter> extent c = {}) (lives @ [(m, n)])"
    using assms(1) f(3) by (auto simp: arena_inv_def sorted_wrt_append)
  moreover have "sorted_wrt (\<lambda>g h. extent g \<inter> extent h = {}) (given @ [(m, bytes)])"
    using assms(1) given new by (fastforce simp: arena_inv_def sorted_wrt_append)
  ultimately show ?thesis using assms(1) f new old pk unfolding arena_inv_def assms(5) by (auto simp: list_all_iff)
qed

lemma fallback_run:
  assumes "arena_inv a lives given" "0 < bytes" "malloc_fresh lives m (block_bytes bytes)" "AllocateFallback m bytes a = (r, a')"
  shows "arena_inv a' (lives @ [(m, block_bytes bytes)]) (given @ [(r, bytes)])"
proof -
  have r: "r = m" using assms(4) by (auto simp: AllocateFallback_def AllocateNewBlock_def split: if_splits)
  show ?thesis
  proof (cases "bytes > kBlockSize div 4")
    case True
    then show ?thesis using assms(4) unfolding r
      by (intro inv_new_block [OF assms(1,3,2)]) (auto simp: AllocateFallback_def AllocateNewBlock_def block_bytes_def)
  next
    case False
    then have "bytes \<le> 4096" "m + 4096 < 18446744073709551616" "block_bytes bytes = kBlockSize"
      using assms(3) by (auto simp: kBlockSize_def block_bytes_def malloc_fresh_def)
    then show ?thesis using assms(4) False unfolding r
      by (intro inv_new_block [OF assms(1,3,2), where p = "m + bytes" and k = "4096 - bytes"])
        (auto simp: AllocateFallback_def AllocateNewBlock_def bump_def kBlockSize_def Let_def u64_id sub64_id)
  qed
qed

lemma fallback_blocks: "AllocateFallback m bytes a = (r, a') \<Longrightarrow> r = m \<and> blocks a' = blocks a @ [m]"
  by (auto simp: AllocateFallback_def AllocateNewBlock_def bump_def Let_def split: if_splits)

lemma bump_blocks [simp]: "blocks (bump n a) = blocks a"
  by (simp add: bump_def)

lemma and7: "(x :: nat) AND 7 = x mod 8"
  using and_mask_mod [of x 3] by simp

lemma slop_aligned: "(p + slop_of p) mod 8 = 0" "slop_of p < 8"
proof -
  show "slop_of p < 8" by (auto simp: slop_of_def Let_def and7)
  show "(p + slop_of p) mod 8 = 0" unfolding slop_of_def Let_def and7 by (simp; presburger)
qed

lemma arena_call_cases:
  assumes "arena_inv a lives given" "0 < bytes" "bytes < 2 ^ 64 - 8"
  obtains (bump) slop where "slop + bytes \<le> alloc_bytes_remaining a" "aligned \<Longrightarrow> (alloc_ptr a + slop) mod 8 = 0"
      "\<And>m. arena_call aligned m bytes a = Some (alloc_ptr a + slop, bump (slop + bytes) a)"
    | (fallback) "\<And>m. m mod 8 = 0 \<Longrightarrow> arena_call aligned m bytes a = Some (AllocateFallback m bytes a)"
      "\<And>m r a'. arena_call aligned m bytes a = Some (r, a') \<Longrightarrow> AllocateFallback m bytes a = (r, a')"
proof (cases aligned)
  case False
  then have al: "aligned = False" by simp
  have call: "arena_call False m bytes a =
      (if bytes \<le> alloc_bytes_remaining a then Some (alloc_ptr a, bump bytes a) else Some (AllocateFallback m bytes a))" for m
    using assms(2) by (simp add: arena_call_def Allocate_def)
  show thesis
  proof (cases "bytes \<le> alloc_bytes_remaining a")
    case True
    then show thesis using al by (intro bump [of 0]) (simp_all add: call)
  next
    case False
    then show thesis using al by (intro fallback) (simp_all add: call)
  qed
next
  case True
  let ?slop = "slop_of (alloc_ptr a)"
  have needed: "u64 (bytes + ?slop) = ?slop + bytes"
    using assms(3) slop_aligned(2) [of "alloc_ptr a"] by (intro trans [OF u64_id]) auto
  have call: "arena_call aligned m bytes a = (let (result, a) =
       (if ?slop + bytes \<le> alloc_bytes_remaining a then (u64 (alloc_ptr a + ?slop), bump (?slop + bytes) a)
        else AllocateFallback m bytes a) in check (result AND 7 = 0) \<bind> (\<lambda>_. Some (result, a)))" for m
    using True unfolding arena_call_def AllocateAligned_def by (simp add: Let_def needed)
  show thesis
  proof (cases "?slop + bytes \<le> alloc_bytes_remaining a")
    case True
    have "alloc_ptr a + alloc_bytes_remaining a < 2 ^ 64" using assms(1) by (simp add: arena_inv_def)
    then have "u64 (alloc_ptr a + ?slop) = alloc_ptr a + ?slop" using True by (intro u64_id) simp
    then have "arena_call aligned m bytes a = Some (alloc_ptr a + ?slop, bump (?slop + bytes) a)" for m
      using True slop_aligned(1) [of "alloc_ptr a"] unfolding call and7 by simp
    then show thesis using True slop_aligned(1) by (intro bump [of ?slop])
  next
    case False
    show thesis
    proof (rule fallback)
      fix m :: nat assume "m mod 8 = 0"
      then show "arena_call aligned m bytes a = Some (AllocateFallback m bytes a)"
        using False fallback_blocks [of m bytes a] unfolding call if_not_P [OF False] and7 by (auto split: prod.splits)
    next
      fix m r a' assume "arena_call aligned m bytes a = Some (r, a')"
      then show "AllocateFallback m bytes a = (r, a')" unfolding call if_not_P [OF False] by (auto split: prod.splits)
    qed
  qed
qed

lemma arena_reach_inv: "arena_reach a lives given \<Longrightarrow> arena_inv a lives given"
proof (induction rule: arena_reach.induct)
  case init
  show ?case by (rule inv_init)
next
  case (reuse a lives given bytes aligned m r a')
  show ?case
    by (rule arena_call_cases [OF reuse(6) reuse(2,3), of aligned]) (use reuse inv_bump fallback_blocks in fastforce)+
next
  case (grow a lives given bytes aligned m r a')
  show ?case
    by (rule arena_call_cases [OF grow(7) grow(2,3), of aligned]) (use grow fallback_run in fastforce)+
qed

lemma inv_facts:
  assumes "arena_inv a lives given"
  shows "blocks a = map fst lives" "memory_usage a = u64 (sum_list (map (\<lambda>b. snd b + 8) lives))"
    "sorted_wrt (\<lambda>g h. extent g \<inter> extent h = {}) given" "\<forall>g \<in> set given. \<exists>b \<in> set lives. extent g \<subseteq> extent b"
proof -
  show "blocks a = map fst lives" "memory_usage a = u64 (sum_list (map (\<lambda>b. snd b + 8) lives))"
    "sorted_wrt (\<lambda>g h. extent g \<inter> extent h = {}) given" using assms by (simp_all add: arena_inv_def)
  show "\<forall>g \<in> set given. \<exists>b \<in> set lives. extent g \<subseteq> extent b"
    using assms unfolding arena_inv_def list_all_iff by fast
qed

text \<open>(C25) Whatever is requested from an arena, aligned or not: every allocation lies in a block that the arena owns, no two overlap, the
  reported memory usage is that of the blocks with their table entries, the destructor frees each block once, and the next request
  succeeds, with an aligned result if it asks for one.\<close>

theorem arena_allocations_disjoint:
  assumes "arena_reach a lives given"
  shows "sorted_wrt (\<lambda>g h. {fst g..<fst g + snd g} \<inter> {fst h..<fst h + snd h} = {}) given
    \<and> (\<forall>g \<in> set given. \<exists>b \<in> set lives. {fst g..<fst g + snd g} \<subseteq> {fst b..<fst b + snd b})
    \<and> MemoryUsage a = u64 (sum_list (map (\<lambda>b. snd b + 8) lives)) \<and> destroy_arena a = map fst lives
    \<and> (\<forall>aligned m bytes. 0 < bytes \<and> bytes < 2 ^ 64 - 8 \<and> m mod 8 = 0
        \<longrightarrow> (\<exists>r a'. arena_call aligned m bytes a = Some (r, a') \<and> (aligned \<longrightarrow> r mod 8 = 0)))"
proof -
  note inv = arena_reach_inv [OF assms]
  have next_call: "\<exists>r a'. arena_call aligned m bytes a = Some (r, a') \<and> (aligned \<longrightarrow> r mod 8 = 0)"
    if "0 < bytes" "bytes < 2 ^ 64 - 8" "m mod 8 = 0" for aligned m bytes
  proof (rule arena_call_cases [OF inv that(1,2), of aligned])
    fix slop assume "aligned \<Longrightarrow> (alloc_ptr a + slop) mod 8 = 0"
      and call: "\<And>m. arena_call aligned m bytes a = Some (alloc_ptr a + slop, bump (slop + bytes) a)"
    then show ?thesis unfolding call by simp
  next
    assume "\<And>m. m mod 8 = 0 \<Longrightarrow> arena_call aligned m bytes a = Some (AllocateFallback m bytes a)"
    from this [OF that(3)] have "arena_call aligned m bytes a = Some (AllocateFallback m bytes a)" .
    moreover obtain r a' where "AllocateFallback m bytes a = (r, a')" by (cases "AllocateFallback m bytes a")
    ultimately show ?thesis using fallback_blocks [of m bytes a] that(3) by simp
  qed
  show ?thesis unfolding MemoryUsage_def destroy_arena_def inv_facts(1) [OF inv]
    by (intro conjI allI impI) (rule inv_facts [OF inv] | rule next_call | elim conjE | assumption | rule refl)+
qed

theorem arena_allocations_disjoint_witness:
  "\<exists>a. arena_reach a [(8000, 4096)] [(8000, 10), (8016, 100)] \<and> MemoryUsage a = 4104 \<and> destroy_arena a = [8000]"
proof -
  let ?a = "\<lparr>alloc_ptr = 8010, alloc_bytes_remaining = 4086, blocks = [8000], memory_usage = 4104\<rparr>"
  let ?b = "\<lparr>alloc_ptr = 8116, alloc_bytes_remaining = 3980, blocks = [8000], memory_usage = 4104\<rparr>"
  have "arena_call False 8000 10 Arena = Some (8000, ?a)"
    by (simp add: arena_call_def Arena_def Allocate_def AllocateFallback_def AllocateNewBlock_def bump_def kBlockSize_def u64_id sub64_id)
  from arena_reach.grow [OF arena_reach.init _ _ this]
  have "arena_reach ?a ([] @ [(8000, block_bytes 10)]) ([] @ [(8000, 10)])" by (simp add: Arena_def malloc_fresh_def block_bytes_def kBlockSize_def)
  then have "arena_reach ?a [(8000, 4096)] [(8000, 10)]" by (simp add: block_bytes_def kBlockSize_def)
  moreover have "arena_call True 0 100 ?a = Some (8016, ?b)"
    by (simp add: arena_call_def AllocateAligned_def slop_of_def and7 bump_def u64_id sub64_id Let_def)
  ultimately have "arena_reach ?b [(8000, 4096)] ([(8000, 10)] @ [(8016, 100)])"
    by (intro arena_reach.reuse [of ?a "[(8000, 4096)]" "[(8000, 10)]" 100 True 0 8016 ?b]) simp_all
  then show ?thesis using arena_allocations_disjoint [of ?b] by (intro exI [of _ ?b]) (simp add: MemoryUsage_def u64_def)
qed

end
