(* ===== verification/Char_Buffer.thy ===== *)
theory Char_Buffer
  imports Prelude
begin

text \<open>
  \<open>FixedBuffer\<close> of \<^verbatim>\<open>fixed_buffer.h\<close>, a text buffer inside an object, and \<open>Buffer\<close> of \<^verbatim>\<open>buffer.h\<close>, one on the
  heap that grows. The bytes are memory indexed from the start of the buffer; what a new allocation holds is an
  argument. A write outside the buffer is \<^term>\<open>None\<close>.
\<close>

subsection \<open>FixedBuffer\<close>

text \<open>\<open>fx_cur\<close> is the distance of \<open>cur_\<close> from \<open>data_\<close>. The member \<open>cur_\<close> lies behind \<open>data_\<close> at the next multiple
  of 8.\<close>

record fixed_buffer =
  fx_mem :: mem
  fx_cur :: nat

definition FixedBuffer :: "mem \<Rightarrow> fixed_buffer" where
  "FixedBuffer junk = \<lparr>fx_mem = junk, fx_cur = 0\<rparr>"

definition fx_reset :: "fixed_buffer \<Rightarrow> fixed_buffer" where
  "fx_reset b = b\<lparr>fx_cur := 0\<rparr>"

definition fx_avial :: "nat \<Rightarrow> fixed_buffer \<Rightarrow> int" where
  "fx_avial N b = int (clear_low 3 (N + 7)) - int (fx_cur b) - 1"

definition fx_write :: "nat \<Rightarrow> string \<Rightarrow> fixed_buffer \<Rightarrow> fixed_buffer option" where
  "fx_write N bs b = do {
     check (fx_cur b + length bs \<le> N);
     Some (b\<lparr>fx_mem := mem_write (fx_mem b) (fx_cur b) bs\<rparr>)}"

definition fx_add :: "nat \<Rightarrow> fixed_buffer \<Rightarrow> fixed_buffer" where
  "fx_add len b = b\<lparr>fx_cur := fx_cur b + len\<rparr>"

definition fx_append :: "nat \<Rightarrow> string \<Rightarrow> fixed_buffer \<Rightarrow> (int \<times> fixed_buffer) option" where
  "fx_append N buf b =
     (let len = (if int (length buf) > fx_avial N b then fx_avial N b else int (length buf))
      in if len \<le> 0 then Some (0, b)
         else do {
           b1 \<leftarrow> fx_write N (take (nat len) buf) b;
           Some (len, fx_add (nat len) b1)})"

definition fx_append_char :: "nat \<Rightarrow> char \<Rightarrow> fixed_buffer \<Rightarrow> (int \<times> fixed_buffer) option" where
  "fx_append_char N ch b =
     (if fx_avial N b > 0 then do {
        b1 \<leftarrow> fx_write N [ch] b;
        Some (1, fx_add 1 b1)}
      else Some (0, b))"

text \<open>\<^verbatim>\<open>vsnprintf\<close> produces a text or fails.\<close>

definition fx_appendf :: "nat \<Rightarrow> string option \<Rightarrow> fixed_buffer \<Rightarrow> (int \<times> fixed_buffer) option" where
  "fx_appendf N out b =
     (let n = fx_avial N b
      in if n \<le> 0 then Some (0, b)
         else case out of
             None \<Rightarrow> Some (0, b)
           | Some txt \<Rightarrow> do {
               b1 \<leftarrow> fx_write N (take (nat n) txt @ [CHR 0x00]) b;
               let ret = (if int (length txt) > n then n else int (length txt));
               Some (ret, fx_add (nat ret) b1)})"

definition fx_length :: "fixed_buffer \<Rightarrow> nat" where
  "fx_length b = fx_cur b"

definition fx_empty :: "fixed_buffer \<Rightarrow> bool" where
  "fx_empty b = (fx_cur b = 0)"

definition fx_c_str :: "nat \<Rightarrow> fixed_buffer \<Rightarrow> fixed_buffer option" where
  "fx_c_str N b = fx_write N [CHR 0x00] b"

text \<open>The text from \<open>begin()\<close> to \<open>end()\<close>, and what a reader of the C string sees.\<close>

definition fx_text :: "fixed_buffer \<Rightarrow> string" where
  "fx_text b = mem_read (fx_mem b) 0 (fx_cur b)"

subsection \<open>Buffer\<close>

text \<open>\<open>bf_end\<close> is the distance of \<open>end_\<close> from \<open>buffer_\<close>, 0 for the null pointer.\<close>

record buffer =
  bf_mem :: mem
  bf_cur :: nat
  bf_end :: nat

definition Buffer :: "mem \<Rightarrow> buffer" where
  "Buffer junk = \<lparr>bf_mem = junk, bf_cur = 0, bf_end = 0\<rparr>"

definition bf_reset :: "buffer \<Rightarrow> buffer" where
  "bf_reset b = b\<lparr>bf_cur := 0, bf_end := 0\<rparr>"

definition bf_avial :: "buffer \<Rightarrow> nat" where
  "bf_avial b = (if bf_end b \<noteq> 0 then sub64 (sub64 (bf_end b) (bf_cur b)) 1 else 0)"

definition bf_clear :: "buffer \<Rightarrow> buffer" where
  "bf_clear b = b\<lparr>bf_cur := 0\<rparr>"

definition bf_write :: "nat \<Rightarrow> string \<Rightarrow> buffer \<Rightarrow> buffer option" where
  "bf_write off bs b = do {
     check (off + length bs \<le> bf_end b);
     Some (b\<lparr>bf_mem := mem_write (bf_mem b) off bs\<rparr>)}"

text \<open>The terminator is written one byte behind the end of the text.\<close>

definition bf_c_str :: "buffer \<Rightarrow> buffer option" where
  "bf_c_str b = (if bf_end b \<noteq> 0 then bf_write (bf_cur b + 1) [CHR 0x00] b else Some b)"

partial_function (option) grow_size :: "nat \<Rightarrow> nat \<Rightarrow> nat option" where
  "grow_size new_size tmp_size = (if tmp_size < new_size then grow_size new_size (u64 (2 * tmp_size)) else Some tmp_size)"

definition bf_resize :: "mem \<Rightarrow> nat \<Rightarrow> buffer \<Rightarrow> buffer option" where
  "bf_resize junk new_size b = do {
     let now_size = bf_cur b;
     check (now_size \<le> new_size);
     Some \<lparr>bf_mem = mem_write junk 0 (mem_read (bf_mem b) 0 now_size), bf_cur = now_size, bf_end = new_size\<rparr>}"

definition bf_append :: "mem \<Rightarrow> string \<Rightarrow> buffer \<Rightarrow> buffer option" where
  "bf_append junk buf b =
     (let len = length buf
      in if len \<le> bf_avial b then do {
           b1 \<leftarrow> bf_write (bf_cur b) buf b;
           Some (b1\<lparr>bf_cur := bf_cur b1 + len\<rparr>)}
         else do {
           tmp_size \<leftarrow> grow_size (u64 (bf_cur b + len + 1)) (if bf_end b \<noteq> 0 then bf_end b else 64);
           b1 \<leftarrow> bf_resize junk tmp_size b;
           b2 \<leftarrow> bf_write (bf_cur b1) buf b1;
           Some (b2\<lparr>bf_cur := bf_cur b2 + len\<rparr>)})"

definition bf_text :: "buffer \<Rightarrow> string" where
  "bf_text b = mem_read (bf_mem b) 0 (bf_cur b)"

text \<open>What a reader of the C string at the start of a memory sees, up to a bound.\<close>

definition cstring :: "mem \<Rightarrow> nat \<Rightarrow> string" where
  "cstring d n = takeWhile (\<lambda>c. c \<noteq> CHR 0x00) (mem_read d 0 n)"

subsection \<open>The contract of a text buffer\<close>

text \<open>Appending adds as much of the text as there is room for; no room stands for a buffer that grows.\<close>

definition clip :: "nat option \<Rightarrow> string \<Rightarrow> string" where
  "clip r s = (case r of None \<Rightarrow> s | Some n \<Rightarrow> take n s)"

fun append_all :: "('s \<Rightarrow> 'b \<Rightarrow> 'b option) \<Rightarrow> 's list \<Rightarrow> 'b \<Rightarrow> 'b option" where
  "append_all app [] b = Some b"
| "append_all app (s # ss) b = app s b \<bind> append_all app ss"

lemma clip_append: "clip r s @ clip (map_option (\<lambda>n. n - length s) r) t = clip r (s @ t)"
  by (cases r) (simp_all add: clip_def)

lemma length_clip: "length (clip r s) \<le> length s"
  by (cases r) (simp_all add: clip_def)

locale text_buffer =
  fixes app :: "'s \<Rightarrow> 'b \<Rightarrow> 'b option" and text_of :: "'s \<Rightarrow> string" and content :: "'b \<Rightarrow> string"
    and room :: "'b \<Rightarrow> nat option" and inv :: "'b \<Rightarrow> bool" and limit :: nat
  assumes append_step: "inv b \<Longrightarrow> length (content b) + length (text_of s) < limit \<Longrightarrow>
      \<exists>b'. app s b = Some b' \<and> inv b' \<and> content b' = content b @ clip (room b) (text_of s)
        \<and> room b' = map_option (\<lambda>r. r - length (text_of s)) (room b)"
begin

lemma append_all_text:
  assumes "inv b" "length (content b) + length (concat (map text_of ss)) < limit"
  shows "\<exists>b'. append_all app ss b = Some b' \<and> inv b' \<and> content b' = content b @ clip (room b) (concat (map text_of ss))"
  using assms
proof (induction ss arbitrary: b)
  case Nil
  then show ?case by (cases "room b") (simp_all add: clip_def)
next
  case (Cons s ss)
  obtain b1 where b1: "app s b = Some b1" "inv b1" "content b1 = content b @ clip (room b) (text_of s)"
      "room b1 = map_option (\<lambda>r. r - length (text_of s)) (room b)"
    using append_step [OF Cons.prems(1), of s] Cons.prems(2) by auto
  have "length (content b1) + length (concat (map text_of ss)) < limit"
    using b1(3) Cons.prems(2) length_clip [of "room b" "text_of s"] by simp
  from Cons.IH [OF b1(2) this] show ?case using b1 clip_append [of "room b" "text_of s"] by auto
qed

end

subsection \<open>FixedBuffer meets it\<close>

datatype fixed_op = FxStr string | FxChar char | FxFormat "string option"

fun fx_apply :: "nat \<Rightarrow> fixed_op \<Rightarrow> fixed_buffer \<Rightarrow> fixed_buffer option" where
  "fx_apply N (FxStr buf) b = map_option snd (fx_append N buf b)"
| "fx_apply N (FxChar ch) b = map_option snd (fx_append_char N ch b)"
| "fx_apply N (FxFormat out) b = map_option snd (fx_appendf N out b)"

fun fx_op_text :: "fixed_op \<Rightarrow> string" where
  "fx_op_text (FxStr buf) = buf"
| "fx_op_text (FxChar ch) = [ch]"
| "fx_op_text (FxFormat out) = (case out of Some txt \<Rightarrow> txt | None \<Rightarrow> [])"

definition fx_inv :: "nat \<Rightarrow> fixed_buffer \<Rightarrow> bool" where
  "fx_inv N b = (8 dvd N \<and> 0 < N \<and> fx_cur b < N)"

lemma fx_avial_eq: "fx_inv N b \<Longrightarrow> fx_avial N b = int (N - 1 - fx_cur b)"
  by (auto simp: fx_inv_def fx_avial_def clear_low_def elim!: dvdE)

lemma fx_write_add:
  assumes "fx_cur b + length bs \<le> N" "n \<le> length bs"
  obtains b1 where "fx_write N bs b = Some b1" "fx_text (fx_add n b1) = fx_text b @ take n bs" "fx_cur (fx_add n b1) = fx_cur b + n"
proof -
  let ?m = "mem_write (fx_mem b) (fx_cur b) bs"
  have "mem_read ?m (fx_cur b) n = take n bs"
    using mem_read_write_same [of "fx_mem b" "fx_cur b" bs] take_mem_read [of n ?m "fx_cur b" "length bs"] assms(2) by (simp add: min_absorb1)
  then have "mem_read ?m 0 (fx_cur b + n) = mem_read (fx_mem b) 0 (fx_cur b) @ take n bs"
    by (simp add: mem_read_add mem_read_write_below)
  then show thesis using assms(1) by (intro that [of "b\<lparr>fx_mem := ?m\<rparr>"]) (simp_all add: fx_write_def fx_text_def fx_add_def)
qed

lemma take_nat_min: "(if int n > int r then int r else int n) = int (min r n)" "take (min r (length xs)) xs = take r xs"
  by (simp_all add: min_def)

text \<open>All three operations write what fits, a formatted text with its terminator.\<close>

lemma fx_apply_eq:
  assumes "fx_avial N b = int r"
  shows "fx_apply N s b =
    (if r = 0 \<or> fx_op_text s = [] \<and> s \<noteq> FxFormat (Some []) then Some b
     else map_option (fx_add (min r (length (fx_op_text s))))
       (fx_write N (take r (fx_op_text s) @ (case s of FxFormat _ \<Rightarrow> [CHR 0x00] | _ \<Rightarrow> [])) b))"
proof (cases s)
  case (FxStr buf)
  then show ?thesis
    by (cases "fx_write N (take r buf) b") (auto simp: fx_append_def Let_def assms take_nat_min)
next
  case (FxChar ch)
  then show ?thesis
    by (cases "fx_write N [ch] b"; cases r) (auto simp: fx_append_char_def assms)
next
  case (FxFormat out)
  then show ?thesis
    by (cases "fx_write N (take r (fx_op_text s) @ [CHR 0x00]) b"; cases out) (auto simp: fx_appendf_def Let_def assms take_nat_min)
qed

interpretation fixed: text_buffer "fx_apply N" fx_op_text fx_text "\<lambda>b. Some (N - 1 - fx_cur b)" "fx_inv N" "2 ^ 31" for N
proof
  fix b :: fixed_buffer and s :: fixed_op
  assume inv: "fx_inv N b"
  define r where "r = N - 1 - fx_cur b"
  note run = fx_apply_eq [of N b r s, OF fx_avial_eq [OF inv, folded r_def]]
  have n: "fx_cur b + r + 1 = N" using inv by (simp add: fx_inv_def r_def)
  let ?t = "fx_op_text s"
  have goal: "\<exists>b'. fx_apply N s b = Some b' \<and> fx_inv N b' \<and> fx_text b' = fx_text b @ clip (Some r) ?t
        \<and> Some (N - 1 - fx_cur b') = map_option (\<lambda>r. r - length ?t) (Some r)"
    if "fx_apply N s b = Some b'" "fx_text b' = fx_text b @ take r ?t" "fx_cur b' = fx_cur b + min r (length ?t)" for b'
    using that inv n by (intro exI [of _ b']) (auto simp: clip_def fx_inv_def min_def)
  show "\<exists>b'. fx_apply N s b = Some b' \<and> fx_inv N b' \<and> fx_text b' = fx_text b @ clip (Some (N - 1 - fx_cur b)) ?t
        \<and> Some (N - 1 - fx_cur b') = map_option (\<lambda>r. r - length ?t) (Some (N - 1 - fx_cur b))"
    unfolding r_def [symmetric]
  proof (cases "r = 0 \<or> ?t = [] \<and> s \<noteq> FxFormat (Some [])")
    case True
    then show "\<exists>b'. fx_apply N s b = Some b' \<and> fx_inv N b' \<and> fx_text b' = fx_text b @ clip (Some r) ?t
        \<and> Some (N - 1 - fx_cur b') = map_option (\<lambda>r. r - length ?t) (Some r)"
      using run by (intro goal [of b]) auto
  next
    case False
    let ?bs = "take r ?t @ (case s of FxFormat _ \<Rightarrow> [CHR 0x00] | _ \<Rightarrow> [])"
    have len: "fx_cur b + length ?bs \<le> N" "min r (length ?t) \<le> length ?bs" using n by (auto split: fixed_op.splits)
    obtain b1 where b1: "fx_write N ?bs b = Some b1" "fx_text (fx_add (min r (length ?t)) b1) = fx_text b @ take (min r (length ?t)) ?bs"
        "fx_cur (fx_add (min r (length ?t)) b1) = fx_cur b + min r (length ?t)"
      using fx_write_add [OF len] by blast
    show "\<exists>b'. fx_apply N s b = Some b' \<and> fx_inv N b' \<and> fx_text b' = fx_text b @ clip (Some r) ?t
        \<and> Some (N - 1 - fx_cur b') = map_option (\<lambda>r. r - length ?t) (Some r)"
      by (rule goal [of "fx_add (min r (length ?t)) b1"]) (use run False b1 in \<open>simp_all add: take_nat_min\<close>)
  qed
qed

subsection \<open>Buffer meets it without a bound\<close>

definition bf_inv :: "buffer \<Rightarrow> bool" where
  "bf_inv b = (if bf_end b = 0 then bf_cur b = 0 else (\<exists>k. 6 \<le> k \<and> k < 63 \<and> bf_end b = 2 ^ k) \<and> bf_cur b < bf_end b)"

lemma grow_size_returns:
  assumes "new_size \<le> 2 ^ 62" "k < 63"
  shows "\<exists>j. grow_size new_size (2 ^ k) = Some (2 ^ j) \<and> k \<le> j \<and> j < 63 \<and> new_size \<le> 2 ^ j"
  using assms(2)
proof (induction "63 - k" arbitrary: k)
  case (Suc d)
  show ?case
  proof (cases "2 ^ k < new_size")
    case True
    then have "(2 :: nat) ^ k < 2 ^ 62" using assms(1) by linarith
    then have "k < 62" by (rule power_less_imp_less_exp [rotated]) simp
    moreover from this have "(2 :: nat) ^ Suc k \<le> 2 ^ 62" by (intro power_increasing) auto
    ultimately have "u64 (2 * 2 ^ k) = 2 ^ Suc k" by (intro trans [OF u64_id]) auto
    then have "grow_size new_size (2 ^ k) = grow_size new_size (2 ^ Suc k)" using True by (subst grow_size.simps) simp
    moreover have "d = 63 - Suc k" using Suc.hyps(2) by simp
    ultimately show ?thesis using Suc.hyps(1) [of "Suc k"] \<open>k < 62\<close> by (auto intro: Suc_leD)
  next
    case False
    then show ?thesis using Suc.prems by (subst grow_size.simps) auto
  qed
qed simp

lemma bf_write_text:
  assumes "bf_cur b + length s \<le> bf_end b"
  obtains b1 where "bf_write (bf_cur b) s b = Some b1" "bf_cur b1 = bf_cur b" "bf_end b1 = bf_end b"
    "bf_text (b1\<lparr>bf_cur := bf_cur b + length s\<rparr>) = bf_text b @ s"
proof -
  let ?m = "mem_write (bf_mem b) (bf_cur b) s"
  have "mem_read ?m 0 (bf_cur b + length s) = mem_read (bf_mem b) 0 (bf_cur b) @ s"
    using mem_read_write_same [of "bf_mem b" "bf_cur b" s] by (simp add: mem_read_add mem_read_write_below)
  then show thesis using assms by (intro that [of "b\<lparr>bf_mem := ?m\<rparr>"]) (simp_all add: bf_write_def bf_text_def)
qed

interpretation heap: text_buffer "bf_append junk" "\<lambda>s. s" bf_text "\<lambda>_. None" bf_inv "2 ^ 62" for junk
proof
  fix b :: buffer and s :: string
  assume inv: "bf_inv b" and short: "length (bf_text b) + length s < 2 ^ 62"
  have len: "bf_cur b + length s < 2 ^ 62" using short by (simp add: bf_text_def)
  have goal: "\<exists>b'. bf_append junk s b = Some b' \<and> bf_inv b' \<and> bf_text b' = bf_text b @ clip None s \<and> None = map_option (\<lambda>r. r - length s) None"
    if "bf_append junk s b = Some b'" "bf_inv b'" "bf_text b' = bf_text b @ s" for b'
    using that by (simp add: clip_def)
  show "\<exists>b'. bf_append junk s b = Some b' \<and> bf_inv b' \<and> bf_text b' = bf_text b @ clip None s \<and> None = map_option (\<lambda>r. r - length s) None"
  proof (cases "length s \<le> bf_avial b")
    case True
    have room: "bf_cur b + length s < bf_end b \<or> s = [] \<and> bf_end b = 0"
    proof (cases "bf_end b = 0")
      case False
      then obtain k where k: "k < 63" "bf_end b = 2 ^ k" "bf_cur b < bf_end b" using inv by (auto simp: bf_inv_def)
      have "(2 :: nat) ^ k \<le> 2 ^ 62" using k(1) by (intro power_increasing) auto
      then have "bf_avial b = bf_end b - bf_cur b - 1" using False k(2,3) by (simp add: bf_avial_def sub64_id)
      then show ?thesis using True k(3) by simp
    qed (use True in \<open>simp add: bf_avial_def\<close>)
    then have "bf_cur b + length s \<le> bf_end b" using inv by (auto simp: bf_inv_def)
    then obtain b1 where b1: "bf_write (bf_cur b) s b = Some b1" "bf_cur b1 = bf_cur b" "bf_end b1 = bf_end b"
        "bf_text (b1\<lparr>bf_cur := bf_cur b + length s\<rparr>) = bf_text b @ s" by (rule bf_write_text)
    have "bf_append junk s b = Some (b1\<lparr>bf_cur := bf_cur b + length s\<rparr>)" using True b1(1,2) by (simp add: bf_append_def Let_def)
    moreover have "bf_inv (b1\<lparr>bf_cur := bf_cur b + length s\<rparr>)" using inv room b1(2,3) by (auto simp: bf_inv_def split: if_splits)
    ultimately show ?thesis using goal b1(4) by blast
  next
    case False
    obtain k where k: "6 \<le> k" "k < 63" "(if bf_end b \<noteq> 0 then bf_end b else 64) = 2 ^ k" "bf_cur b < 2 ^ k"
    proof (cases "bf_end b = 0")
      case True
      then show thesis using inv that [of 6] by (simp add: bf_inv_def)
    qed (use inv that in \<open>auto simp: bf_inv_def\<close>)
    have new: "u64 (bf_cur b + length s + 1) = bf_cur b + length s + 1" "bf_cur b + length s + 1 \<le> 2 ^ 62" using len by (simp_all add: u64_id)
    obtain j where j: "grow_size (bf_cur b + length s + 1) (2 ^ k) = Some (2 ^ j)" "k \<le> j" "j < 63" "bf_cur b + length s + 1 \<le> 2 ^ j"
      using grow_size_returns [OF new(2) k(2)] by blast
    let ?b0 = "\<lparr>bf_mem = mem_write junk 0 (mem_read (bf_mem b) 0 (bf_cur b)), bf_cur = bf_cur b, bf_end = 2 ^ j\<rparr>"
    have "bf_text ?b0 = bf_text b"
      using mem_read_write_same [of junk 0 "mem_read (bf_mem b) 0 (bf_cur b)"] by (simp add: bf_text_def)
    moreover have "bf_cur ?b0 + length s \<le> bf_end ?b0" using j(4) by simp
    then obtain b1 where b1: "bf_write (bf_cur b) s ?b0 = Some b1" "bf_cur b1 = bf_cur b" "bf_end b1 = 2 ^ j"
        "bf_text (b1\<lparr>bf_cur := bf_cur b + length s\<rparr>) = bf_text ?b0 @ s" using bf_write_text [of ?b0 s] by auto
    moreover have "bf_append junk s b = Some (b1\<lparr>bf_cur := bf_cur b + length s\<rparr>)"
      using False b1(1,2) j(1,4) new(1) k(3) by (simp add: bf_append_def bf_resize_def Let_def)
    moreover have "bf_inv (b1\<lparr>bf_cur := bf_cur b + length s\<rparr>)" using k(1) j b1(2,3) by (auto simp: bf_inv_def)
    ultimately show ?thesis using goal by simp
  qed
qed

subsection \<open>Properties\<close>

text \<open>(C37) A \<open>FixedBuffer\<close> of any size that is a multiple of eight holds, after any appends of strings, characters and formatted
  texts, the longest prefix of their concatenation that leaves a byte for the terminator; no append writes outside
  it, and neither does \<open>c_str\<close>, which a reader then reads as this text if it has no zero byte.\<close>

theorem fixed_buffer_prefix:
  assumes "8 dvd N" "0 < N" "length (concat (map fx_op_text ops)) < 2 ^ 31"
  shows "\<exists>b b'. append_all (fx_apply N) ops (FixedBuffer junk) = Some b
    \<and> fx_text b = take (N - 1) (concat (map fx_op_text ops)) \<and> fx_c_str N b = Some b'
    \<and> (CHR 0x00 \<notin> set (fx_text b) \<longrightarrow> cstring (fx_mem b') N = fx_text b)"
proof -
  have "fx_inv N (FixedBuffer junk)" "fx_text (FixedBuffer junk) = []" using assms by (simp_all add: fx_inv_def FixedBuffer_def fx_text_def)
  then obtain b where b: "append_all (fx_apply N) ops (FixedBuffer junk) = Some b" "fx_inv N b"
      "fx_text b = take (N - 1) (concat (map fx_op_text ops))"
    using fixed.append_all_text [of N "FixedBuffer junk" ops] assms(3) by (auto simp: clip_def FixedBuffer_def)
  let ?m = "mem_write (fx_mem b) (fx_cur b) [CHR 0x00]"
  have c: "fx_c_str N b = Some (b\<lparr>fx_mem := ?m\<rparr>)" using b(2) by (simp add: fx_c_str_def fx_write_def fx_inv_def)
  have "N = fx_cur b + (1 + (N - 1 - fx_cur b))" using b(2) by (simp add: fx_inv_def)
  then have "mem_read ?m 0 N = mem_read ?m 0 (fx_cur b) @ mem_read ?m (fx_cur b) 1 @ mem_read ?m (fx_cur b + 1) (N - 1 - fx_cur b)"
    by (metis add_0 mem_read_add)
  also have "\<dots> = fx_text b @ [CHR 0x00] @ mem_read ?m (fx_cur b + 1) (N - 1 - fx_cur b)"
    using mem_read_write_same [of "fx_mem b" "fx_cur b" "[CHR 0x00]"] by (simp add: mem_read_write_below fx_text_def)
  finally have "cstring ?m N = fx_text b" if "CHR 0x00 \<notin> set (fx_text b)"
    using that unfolding cstring_def by (simp add: takeWhile_append2 in_set_conv_decomp takeWhile_append)
  then show ?thesis using b c by auto
qed

theorem fixed_buffer_prefix_witness:
  "\<exists>b. append_all (fx_apply 8) [FxStr ''abcde'', FxChar CHR ''f'', FxFormat (Some ''ghi''), FxStr ''x''] (FixedBuffer (\<lambda>_. CHR ''?'')) = Some b
     \<and> fx_text b = ''abcdefg''"
  using fixed_buffer_prefix [of 8 "[FxStr ''abcde'', FxChar CHR ''f'', FxFormat (Some ''ghi''), FxStr ''x'']" "\<lambda>_. CHR ''?''"] by auto

text \<open>(C38) A \<open>Buffer\<close> keeps every text appended to it, of up to \<open>2 ^ 62\<close> bytes in all: the loop that doubles the size ends, nothing is
  written outside the allocation, and the size is a power of two above the length of the text.\<close>

theorem buffer_keeps_text:
  assumes "length (concat ss) < 2 ^ 62"
  shows "\<exists>b. append_all (bf_append junk) ss (Buffer junk) = Some b \<and> bf_text b = concat ss
    \<and> (ss \<noteq> [] \<and> concat ss \<noteq> [] \<longrightarrow> (\<exists>k. bf_end b = 2 ^ k) \<and> bf_cur b < bf_end b)"
proof -
  have "bf_inv (Buffer junk)" "bf_text (Buffer junk) = []" by (simp_all add: bf_inv_def Buffer_def bf_text_def)
  then obtain b where b: "append_all (bf_append junk) ss (Buffer junk) = Some b" "bf_inv b" "bf_text b = concat ss"
    using heap.append_all_text [of "Buffer junk" ss junk] assms by (auto simp: clip_def)
  moreover have "bf_cur b = 0" if "bf_end b = 0" using b(2) that by (simp add: bf_inv_def)
  ultimately show ?thesis by (auto simp: bf_inv_def bf_text_def split: if_splits)
qed

theorem buffer_keeps_text_witness:
  "\<exists>b. append_all (bf_append (\<lambda>_. CHR ''?'')) [''abc'', ''defgh''] (Buffer (\<lambda>_. CHR ''?'')) = Some b \<and> bf_text b = ''abcdefgh''"
  using buffer_keeps_text [of "[''abc'', ''defgh'']" "\<lambda>_. CHR ''?''"] by auto

text \<open>\<open>c_str\<close> puts the terminator one byte too far: the byte behind the text is whatever the allocation held, so the C string
  does not end where the text does, and in a full buffer the terminator is written behind the allocation.\<close>

lemma c_str_wrong:
  assumes "bf_inv b" "bf_end b \<noteq> 0" "bf_mem b (bf_cur b) \<noteq> CHR 0x00" "CHR 0x00 \<notin> set (bf_text b)"
  shows "(if bf_cur b + 1 = bf_end b then bf_c_str b = None
    else \<exists>b'. bf_c_str b = Some b' \<and> cstring (bf_mem b') (bf_end b) = bf_text b @ [bf_mem b (bf_cur b)])"
proof (cases "bf_cur b + 1 = bf_end b")
  case False
  let ?m = "mem_write (bf_mem b) (bf_cur b + 1) [CHR 0x00]"
  have lt: "bf_cur b + 1 < bf_end b" using assms(1,2) False by (simp add: bf_inv_def)
  then have c: "bf_c_str b = Some (b\<lparr>bf_mem := ?m\<rparr>)" using assms(2) by (simp add: bf_c_str_def bf_write_def)
  have "bf_end b = bf_cur b + (1 + (1 + (bf_end b - 2 - bf_cur b)))" using lt by simp
  then have "mem_read ?m 0 (bf_end b)
      = mem_read ?m 0 (bf_cur b) @ mem_read ?m (bf_cur b) 1 @ mem_read ?m (bf_cur b + 1) 1 @ mem_read ?m (bf_cur b + 1 + 1) (bf_end b - 2 - bf_cur b)"
    by (metis add_0 mem_read_add)
  also have "\<dots> = (bf_text b @ [bf_mem b (bf_cur b)]) @ CHR 0x00 # mem_read ?m (bf_cur b + 1 + 1) (bf_end b - 2 - bf_cur b)"
    using mem_read_write_same [of "bf_mem b" "bf_cur b + 1" "[CHR 0x00]"]
    by (simp add: mem_read_write_below bf_text_def) (simp add: mem_read_def)
  finally have "cstring ?m (bf_end b) = bf_text b @ [bf_mem b (bf_cur b)]"
    using assms(3,4) unfolding cstring_def by (simp add: takeWhile_append)
  then show ?thesis using c False by auto
qed (simp add: bf_c_str_def bf_write_def check_def assms(2))

end
