(* ===== verification/Fixed_Log_Stream.thy ===== *)
theory Fixed_Log_Stream
  imports Char_Buffer Convert "HOL-Library.Sublist"
begin

text \<open>
  \<open>LogStream\<close> of \<^verbatim>\<open>log_stream.h\<close>, the predecessor of the stream of \<^verbatim>\<open>logger.h\<close>: a line in a \<open>FixedBuffer\<close> that
  \<open>Sink\<close> prints. What \<^verbatim>\<open>printf\<close> writes is recorded.
\<close>

subsection \<open>The stream\<close>

definition kSmallBuffer :: nat where
  "kSmallBuffer = 4000"

record fixed_log_stream =
  fl_buf :: fixed_buffer
  fl_auto_flush :: bool
  fl_stdout :: string

definition FixedLogStream :: "mem \<Rightarrow> fixed_log_stream" where
  "FixedLogStream junk = \<lparr>fl_buf = FixedBuffer junk, fl_auto_flush = True, fl_stdout = []\<rparr>"

text \<open>An inherited operation acts on the buffer.\<close>

definition on_buf :: "(fixed_buffer \<Rightarrow> (int \<times> fixed_buffer) option) \<Rightarrow> fixed_log_stream \<Rightarrow> fixed_log_stream option" where
  "on_buf f s = do {
     (n, b) \<leftarrow> f (fl_buf s);
     Some (s\<lparr>fl_buf := b\<rparr>)}"

text \<open>\<open>add\<close> of what a conversion wrote at \<open>cur()\<close> and returned.\<close>

definition fx_convert :: "nat \<times> char list \<Rightarrow> fixed_buffer \<Rightarrow> (int \<times> fixed_buffer) option" where
  "fx_convert conv b = do {
     b1 \<leftarrow> fx_write kSmallBuffer (snd conv) b;
     Some (int (fst conv), fx_add (fst conv) b1)}"

definition fl_append_integer :: "int \<Rightarrow> fixed_log_stream \<Rightarrow> fixed_log_stream option" where
  "fl_append_integer v s =
     (if fx_avial kSmallBuffer (fl_buf s) \<ge> int kMaxNumericSize then on_buf (fx_convert (ConvertInteger v)) s else Some s)"

definition fl_append_pointer :: "nat \<Rightarrow> fixed_log_stream \<Rightarrow> fixed_log_stream option" where
  "fl_append_pointer v s = (let kMaxPointerSize = 2 * 8 + 2
     in if fx_avial kSmallBuffer (fl_buf s) \<ge> kMaxPointerSize then on_buf (fx_convert (ConvertPointer v)) s else Some s)"

text \<open>The function \<open>noflush\<close>, an argument of \<open>operator<<\<close>, prints a line of its own.\<close>

definition fl_noflush :: "fixed_log_stream \<Rightarrow> fixed_log_stream" where
  "fl_noflush s = s\<lparr>fl_auto_flush := False\<rparr>"

definition noflush :: "fixed_log_stream \<Rightarrow> fixed_log_stream option" where
  "noflush s = Some (fl_noflush (s\<lparr>fl_stdout := fl_stdout s @ ''fck'' @ [CHR 0x0A]\<rparr>))"

text \<open>The overloads: integers of all types, floating point numbers with the text of their format, C strings (possibly
  null), pointers, booleans, characters, and functions on streams, of which there is one.\<close>

datatype fl_arg = FInt int | FFloat "string option" | FCstr "string option" | FPtr nat | FBool bool | FChar char | FNoflush

fun fl_shl :: "fl_arg \<Rightarrow> fixed_log_stream \<Rightarrow> fixed_log_stream option" where
  "fl_shl (FInt v) s = fl_append_integer v s"
| "fl_shl (FFloat txt) s = on_buf (fx_appendf kSmallBuffer txt) s"
| "fl_shl (FCstr str) s = on_buf (fx_append kSmallBuffer (case str of Some cs \<Rightarrow> cs | None \<Rightarrow> ''null'')) s"
| "fl_shl (FPtr v) s = fl_append_pointer v s"
| "fl_shl (FBool v) s = on_buf (fx_append_char kSmallBuffer (if v then CHR ''1'' else CHR ''0'')) s"
| "fl_shl (FChar v) s = on_buf (fx_append_char kSmallBuffer v) s"
| "fl_shl FNoflush s = noflush s"

fun fl_shl_all :: "fl_arg list \<Rightarrow> fixed_log_stream \<Rightarrow> fixed_log_stream option" where
  "fl_shl_all [] s = Some s"
| "fl_shl_all (a # as) s = do {
     s1 \<leftarrow> fl_shl a s;
     fl_shl_all as s1}"

definition fl_Reset :: "string \<Rightarrow> fixed_log_stream \<Rightarrow> fixed_log_stream option" where
  "fl_Reset buf s = do {
     b \<leftarrow> fx_write kSmallBuffer buf (fx_reset (fl_buf s));
     Some (s\<lparr>fl_buf := fx_add (length buf) b\<rparr>)}"

text \<open>\<^verbatim>\<open>printf\<close> reads the buffer up to a byte zero, which has to be in it.\<close>

definition fl_Sink :: "fixed_log_stream \<Rightarrow> fixed_log_stream option" where
  "fl_Sink s =
     (if fl_auto_flush s then do {
        check (CHR 0x00 \<in> set (mem_read (fx_mem (fl_buf s)) 0 kSmallBuffer));
        Some (s\<lparr>fl_stdout := fl_stdout s @ cstring (fx_mem (fl_buf s)) kSmallBuffer @ [CHR 0x0A],
          fl_buf := fx_reset (fl_buf s), fl_auto_flush := True\<rparr>)}
      else Some (s\<lparr>fl_auto_flush := True\<rparr>))"

subsection \<open>What the operators append\<close>

definition fl_inv :: "fixed_log_stream \<Rightarrow> bool" where
  "fl_inv s = fx_inv kSmallBuffer (fl_buf s)"

definition fl_room :: "fixed_log_stream \<Rightarrow> nat" where
  "fl_room s = kSmallBuffer - 1 - fx_cur (fl_buf s)"

lemma fl_avial: "fl_inv s \<Longrightarrow> fx_avial kSmallBuffer (fl_buf s) = int (fl_room s)"
  by (simp add: fl_inv_def fl_room_def fx_avial_eq)

text \<open>Texts are cut to the room, converted numbers are shown whole or not at all.\<close>

fun fl_shown :: "nat \<Rightarrow> fl_arg \<Rightarrow> string" where
  "fl_shown r (FInt v) = (if kMaxNumericSize \<le> r then butlast (snd (ConvertInteger v)) else [])"
| "fl_shown r (FFloat txt) = take r (case txt of Some cs \<Rightarrow> cs | None \<Rightarrow> [])"
| "fl_shown r (FCstr str) = take r (case str of Some cs \<Rightarrow> cs | None \<Rightarrow> ''null'')"
| "fl_shown r (FPtr v) = (if 18 \<le> r then butlast (snd (ConvertPointer v)) else [])"
| "fl_shown r (FBool v) = take r [if v then CHR ''1'' else CHR ''0'']"
| "fl_shown r (FChar v) = take r [v]"
| "fl_shown r FNoflush = []"

fun fl_arg_ok :: "fl_arg \<Rightarrow> bool" where
  "fl_arg_ok (FInt v) = (- (2 ^ 63) \<le> v \<and> v < 2 ^ 64)"
| "fl_arg_ok (FPtr v) = (v < 2 ^ 64)"
| "fl_arg_ok (FFloat txt) = (length (case txt of Some cs \<Rightarrow> cs | None \<Rightarrow> []) < 2 ^ 30)"
| "fl_arg_ok (FCstr str) = (length (case str of Some cs \<Rightarrow> cs | None \<Rightarrow> []) < 2 ^ 30)"
| "fl_arg_ok _ = True"

lemma fx_convert_ok:
  assumes "fl_inv s" "conv = (length str, str @ [CHR 0x00])" "length str < fl_room s"
  shows "\<exists>s'. on_buf (fx_convert conv) s = Some s' \<and> fl_inv s' \<and> fx_text (fl_buf s') = fx_text (fl_buf s) @ str
    \<and> fl_stdout s' = fl_stdout s"
proof -
  have "fx_cur (fl_buf s) + length (str @ [CHR 0x00]) \<le> kSmallBuffer" "length str \<le> length (str @ [CHR 0x00])"
    using assms(1,3) by (auto simp: fl_inv_def fx_inv_def fl_room_def)
  from fx_write_add [OF this] obtain b1 where
    b1: "fx_write kSmallBuffer (str @ [CHR 0x00]) (fl_buf s) = Some b1" "fx_text (fx_add (length str) b1) = fx_text (fl_buf s) @ str"
      "fx_cur (fx_add (length str) b1) = fx_cur (fl_buf s) + length str" by (metis append_eq_conv_conj)
  then have "fx_inv kSmallBuffer (fx_add (length str) b1)" using assms(1,3) by (auto simp: fl_inv_def fx_inv_def fl_room_def)
  then show ?thesis using b1 assms(2) by (simp add: on_buf_def fx_convert_def fl_inv_def)
qed

lemma fx_apply_ok:
  assumes "fl_inv s" "length (fx_op_text op) < 2 ^ 30" "map_option snd (f (fl_buf s)) = fx_apply kSmallBuffer op (fl_buf s)"
  shows "\<exists>s'. on_buf f s = Some s' \<and> fl_inv s' \<and> fx_text (fl_buf s') = fx_text (fl_buf s) @ take (fl_room s) (fx_op_text op)
    \<and> fl_stdout s' = fl_stdout s"
proof -
  have "length (fx_text (fl_buf s)) < 4000" using assms(1) by (simp add: fl_inv_def fx_inv_def fx_text_def kSmallBuffer_def)
  then have "length (fx_text (fl_buf s)) + length (fx_op_text op) < 2 ^ 31" using assms(2) by simp
  from fixed.append_step [OF assms(1) [unfolded fl_inv_def] this] obtain b' where
    "fx_apply kSmallBuffer op (fl_buf s) = Some b'" "fx_inv kSmallBuffer b'"
    "fx_text b' = fx_text (fl_buf s) @ take (fl_room s) (fx_op_text op)" by (auto simp: clip_def fl_room_def)
  then show ?thesis using assms(3) by (auto simp: on_buf_def fl_inv_def split: prod.splits)
qed

text \<open>One operator: it writes nothing outside the buffer and appends what is shown of its argument.\<close>

theorem fl_shl_appends:
  assumes "fl_inv s" "fl_arg_ok a"
  shows "\<exists>s'. fl_shl a s = Some s' \<and> fl_inv s' \<and> fx_text (fl_buf s') = fx_text (fl_buf s) @ fl_shown (fl_room s) a
    \<and> fl_stdout s' = fl_stdout s @ (if a = FNoflush then ''fck'' @ [CHR 0x0A] else [])"
proof (cases a)
  case (FInt v)
  with ConvertInteger_fits [of v] assms(2) obtain str where str: "ConvertInteger v = (length str, str @ [CHR 0x00])" "length str \<le> 21" by auto
  show ?thesis using fx_convert_ok [OF assms(1) str(1)] str FInt assms(1)
    by (auto simp: fl_append_integer_def fl_avial kMaxNumericSize_def)
next
  case (FPtr v)
  with ConvertPointer_fits [of v 16] assms(2) obtain str where str: "ConvertPointer v = (length str, str @ [CHR 0x00])" "length str \<le> 16" by auto
  show ?thesis using fx_convert_ok [OF assms(1) str(1)] str FPtr assms(1)
    by (auto simp: fl_append_pointer_def fl_avial)
next
  case (FFloat out)
  then show ?thesis using fx_apply_ok [OF assms(1), of "FxFormat out"] assms(2) by (auto split: option.splits)
next
  case (FCstr str)
  then show ?thesis using fx_apply_ok [OF assms(1), of "FxStr (case str of Some cs \<Rightarrow> cs | None \<Rightarrow> ''null'')"] assms(2)
    by (auto split: option.splits)
next
  case (FBool v)
  then show ?thesis using fx_apply_ok [OF assms(1), of "FxChar (if v then CHR ''1'' else CHR ''0'')"] by auto
next
  case (FChar v)
  then show ?thesis using fx_apply_ok [OF assms(1), of "FxChar v"] by auto
next
  case FNoflush
  then show ?thesis using assms(1) by (simp add: noflush_def fl_noflush_def fl_inv_def)
qed

text \<open>Whole statements, and a line given to \<open>Reset\<close>, which checks no bound.\<close>

theorem fl_shl_all_safe:
  assumes "fl_inv s" "list_all fl_arg_ok args"
  shows "\<exists>s'. fl_shl_all args s = Some s' \<and> fl_inv s' \<and> prefix (fx_text (fl_buf s)) (fx_text (fl_buf s'))"
  using assms
proof (induction args arbitrary: s)
  case (Cons a args)
  obtain s1 where s1: "fl_shl a s = Some s1" "fl_inv s1" "prefix (fx_text (fl_buf s)) (fx_text (fl_buf s1))"
    using fl_shl_appends [OF Cons.prems(1), of a] Cons.prems(2) by auto
  then obtain s' where "fl_shl_all args s1 = Some s'" "fl_inv s'" "prefix (fx_text (fl_buf s1)) (fx_text (fl_buf s'))"
    using Cons.IH [OF s1(2)] Cons.prems(2) by auto
  then show ?case using s1 prefix_order.trans by auto
qed auto

lemma fl_Reset_bounds:
  assumes "length buf < kSmallBuffer"
  shows "\<exists>s'. fl_Reset buf s = Some s' \<and> fl_inv s' \<and> fx_text (fl_buf s') = buf"
proof -
  have "fx_cur (fx_reset (fl_buf s)) + length buf \<le> kSmallBuffer" "length buf \<le> length buf"
    using assms by (simp_all add: fx_reset_def)
  from fx_write_add [OF this] obtain b where
    "fx_write kSmallBuffer buf (fx_reset (fl_buf s)) = Some b" "fx_text (fx_add (length buf) b) = buf"
    "fx_cur (fx_add (length buf) b) = length buf" by (auto simp: fx_reset_def fx_text_def)
  then show ?thesis using assms by (simp add: fl_Reset_def fl_inv_def fx_inv_def kSmallBuffer_def)
qed

lemma fl_Reset_overflow: "kSmallBuffer < length buf \<Longrightarrow> fl_Reset buf s = None"
  by (simp add: fl_Reset_def fx_write_def fx_reset_def check_def)

subsection \<open>What is printed\<close>

text \<open>\<open>Sink\<close> does not write a terminator behind the line: what is printed goes on with the bytes behind the line, up to a zero.
  A line that is shorter than the one before it is printed with the rest of that line.\<close>

lemma cstring_behind:
  assumes "fx_inv N b" "CHR 0x00 \<notin> set (fx_text b)"
  shows "cstring (fx_mem b) N = fx_text b @ takeWhile (\<lambda>c. c \<noteq> CHR 0x00) (mem_read (fx_mem b) (fx_cur b) (N - fx_cur b))"
proof -
  have "mem_read (fx_mem b) 0 N = fx_text b @ mem_read (fx_mem b) (fx_cur b) (N - fx_cur b)"
    using assms(1) mem_read_add [of "fx_mem b" 0 "fx_cur b" "N - fx_cur b"] by (simp add: fx_inv_def fx_text_def)
  then show ?thesis using assms(2) unfolding cstring_def by (simp add: takeWhile_append)
qed

theorem fl_Sink_prints:
  assumes "fl_inv s" "fl_auto_flush s" "CHR 0x00 \<notin> set (fx_text (fl_buf s))"
    and "fx_cur (fl_buf s) \<le> i" "i < kSmallBuffer" "fx_mem (fl_buf s) i = CHR 0x00"
    and "\<forall>j. fx_cur (fl_buf s) \<le> j \<and> j < i \<longrightarrow> fx_mem (fl_buf s) j \<noteq> CHR 0x00"
  shows "fl_Sink s = Some (s\<lparr>fl_buf := fx_reset (fl_buf s), fl_stdout := fl_stdout s @ fx_text (fl_buf s)
    @ mem_read (fx_mem (fl_buf s)) (fx_cur (fl_buf s)) (i - fx_cur (fl_buf s)) @ [CHR 0x0A]\<rparr>)"
proof -
  let ?m = "fx_mem (fl_buf s)" and ?c = "fx_cur (fl_buf s)"
  have "CHR 0x00 \<in> set (mem_read ?m 0 kSmallBuffer)" using assms(5,6) by (force simp: mem_read_def)
  moreover have "kSmallBuffer - ?c = (i - ?c) + (1 + (kSmallBuffer - 1 - i))" using assms(4,5) by simp
  then have "mem_read ?m ?c (kSmallBuffer - ?c) = mem_read ?m ?c (i - ?c) @ CHR 0x00 # mem_read ?m (Suc i) (kSmallBuffer - 1 - i)"
    using assms(4,6) by (simp only: mem_read_add) (simp add: mem_read_def)
  moreover have "CHR 0x00 \<notin> set (mem_read ?m ?c (i - ?c))" using assms(4,7) by (auto simp: mem_read_def)
  ultimately show ?thesis
    using assms(1,2) cstring_behind [OF assms(1) [unfolded fl_inv_def] assms(3)]
    by (cases s) (auto simp: fl_Sink_def takeWhile_append)
qed

text \<open>Two lines in a buffer that was zero at first.\<close>

theorem fl_Sink_stale:
  assumes "CHR 0x00 \<notin> set u" "CHR 0x00 \<notin> set v" "v \<noteq> []" "length v < length u" "length u < kSmallBuffer"
  shows "\<exists>s. (fl_shl (FCstr (Some u)) (FixedLogStream (\<lambda>_. CHR 0x00)) \<bind> fl_Sink \<bind> fl_shl (FCstr (Some v)) \<bind> fl_Sink) = Some s
    \<and> fl_stdout s = u @ [CHR 0x0A] @ v @ drop (length v) u @ [CHR 0x0A]"
proof -
  let ?s0 = "FixedLogStream (\<lambda>_. CHR 0x00)" and ?m = "mem_write (\<lambda>_. CHR 0x00) 0 u"
  let ?s1 = "?s0\<lparr>fl_buf := \<lparr>fx_mem = ?m, fx_cur = length u\<rparr>\<rparr>"
  let ?s2 = "?s0\<lparr>fl_buf := \<lparr>fx_mem = ?m, fx_cur = 0\<rparr>, fl_stdout := u @ [CHR 0x0A]\<rparr>"
  let ?s3 = "?s2\<lparr>fl_buf := \<lparr>fx_mem = mem_write ?m 0 v, fx_cur = length v\<rparr>\<rparr>"
  have short: "length u < 4000" "length v < 4000" using assms(4,5) by (simp_all add: kSmallBuffer_def)
  have shl: "fl_shl (FCstr (Some w)) s = Some (s\<lparr>fl_buf := \<lparr>fx_mem = mem_write (fx_mem (fl_buf s)) 0 w, fx_cur = length w\<rparr>\<rparr>)"
    if "fx_cur (fl_buf s) = 0" "w \<noteq> []" "length w < 4000" for w and s :: fixed_log_stream
    using that by (cases "fl_buf s")
      (auto simp: on_buf_def fx_append_def fx_avial_def fx_write_def fx_add_def kSmallBuffer_def clear_low_def Let_def)
  have ne: "u \<noteq> []" using assms(4) by auto
  have s1: "fl_shl (FCstr (Some u)) ?s0 = Some ?s1"
    using shl [of ?s0 u] ne short by (simp add: FixedLogStream_def FixedBuffer_def)
  have u: "fx_text (fl_buf ?s1) = u" by (simp add: fx_text_def mem_simps)
  have "fl_inv ?s1" "fl_auto_flush ?s1" "CHR 0x00 \<notin> set (fx_text (fl_buf ?s1))" "fx_cur (fl_buf ?s1) \<le> length u"
    "fx_mem (fl_buf ?s1) (length u) = CHR 0x00"
    "\<forall>j. fx_cur (fl_buf ?s1) \<le> j \<and> j < length u \<longrightarrow> fx_mem (fl_buf ?s1) j \<noteq> CHR 0x00"
    using u assms(1,5) by (auto simp: fl_inv_def fx_inv_def kSmallBuffer_def FixedLogStream_def mem_write_def)
  from fl_Sink_prints [OF this(1-4) assms(5) this(5,6)] have "fl_Sink ?s1 = Some ?s2"
    using u by (simp add: FixedLogStream_def fx_reset_def)
  moreover have "fl_shl (FCstr (Some v)) ?s2 = Some ?s3" using shl [of ?s2 v] assms(3) short by simp
  moreover have v: "fx_text (fl_buf ?s3) = v" by (simp add: fx_text_def mem_simps)
  have rest: "mem_read (mem_write ?m 0 v) (length v) (length u - length v) = drop (length v) u"
    by (rule nth_equalityI) (auto simp: mem_write_def)
  have "fl_Sink ?s3 = Some (?s3\<lparr>fl_buf := fx_reset (fl_buf ?s3), fl_stdout := u @ [CHR 0x0A] @ v @ drop (length v) u @ [CHR 0x0A]\<rparr>)"
  proof -
    have nz: "mem_write ?m 0 v j = u ! j" if "length v \<le> j" "j < length u" for j using that by (simp add: mem_write_def)
    have "\<forall>j. length v \<le> j \<and> j < length u \<longrightarrow> mem_write ?m 0 v j \<noteq> CHR 0x00"
      using nz assms(1) by (metis nth_mem)
    moreover have "mem_write ?m 0 v (length u) = CHR 0x00" using assms(4) by (simp add: mem_write_def)
    ultimately show ?thesis using fl_Sink_prints [of ?s3 "length u"] v rest assms(2,4,5)
      by (simp add: fl_inv_def fx_inv_def kSmallBuffer_def FixedLogStream_def)
  qed
  ultimately show ?thesis using s1 by simp
qed

end
