(* ===== verification/Text_Util.thy ===== *)
theory Text_Util
  imports Prelude
begin

text \<open>
  Three small headers: \<open>Slice\<close> of \<^verbatim>\<open>slice.h\<close>, a range of bytes with an order; the formatted appends of
  \<^verbatim>\<open>string_printf.h\<close>; and \<open>Status\<close> of \<^verbatim>\<open>status.h\<close>. A slice is its bytes, as numbers below 256 the way \<^verbatim>\<open>memcmp\<close>
  compares them; a string is its characters, with its capacity as an argument.
\<close>

subsection \<open>Slice\<close>

datatype slice = Slice (slice_data: "nat list")

definition slice_size :: "slice \<Rightarrow> nat" where
  "slice_size s = length (slice_data s)"

definition slice_empty :: "slice \<Rightarrow> bool" where
  "slice_empty s = (slice_size s = 0)"

definition slice_nth :: "slice \<Rightarrow> nat \<Rightarrow> nat option" where
  "slice_nth s n = do {
     check (n < slice_size s);
     Some (slice_data s ! n)}"

text \<open>\<^verbatim>\<open>memcmp(a, b, n)\<close>: the difference of the first two bytes that differ, 0 if there are none.\<close>

fun memcmp :: "nat list \<Rightarrow> nat list \<Rightarrow> nat \<Rightarrow> int" where
  "memcmp (x # xs) (y # ys) (Suc n) = (if x = y then memcmp xs ys n else int x - int y)"
| "memcmp _ _ _ = 0"

definition compare :: "slice \<Rightarrow> slice \<Rightarrow> int" where
  "compare s b =
     (let min_len = (if slice_size s < slice_size b then slice_size s else slice_size b);
          r = memcmp (slice_data s) (slice_data b) min_len
      in if r = 0 then if slice_size s < slice_size b then - 1 else if slice_size s > slice_size b then 1 else r
         else r)"

subsection \<open>Formatted output to a string\<close>

definition std_resize :: "nat \<Rightarrow> string \<Rightarrow> string" where
  "std_resize n s = take n s @ replicate (n - length s) (CHR 0x00)"

text \<open>\<^verbatim>\<open>vsnprintf(&s[off], n, ...)\<close>: the text that the format stands for, cut off at \<open>n - 1\<close> characters, and a terminator, which may
  take the place of the string's own.\<close>

definition vsnprintf_at :: "nat \<Rightarrow> nat \<Rightarrow> string option \<Rightarrow> string \<Rightarrow> string option" where
  "vsnprintf_at off n out s =
     (case out of
        None \<Rightarrow> Some s
      | Some txt \<Rightarrow> do {
          let t = take (n - 1) txt;
          check (off + length t \<le> length s);
          Some (take off s @ t @ (if off + length t < length s then [CHR 0x00] else []) @ drop (off + length t + 1) s)})"

definition StringAppendV :: "nat \<Rightarrow> string option \<Rightarrow> string \<Rightarrow> (int \<times> string) option" where
  "StringAppendV cap out dst =
     (let len = length dst;
          d = std_resize cap dst;
          capacity = cap - len;
          ret = (case out of None \<Rightarrow> - 1 | Some txt \<Rightarrow> int (length txt))
      in do {
        d \<leftarrow> vsnprintf_at len (capacity + 1) out d;
        if ret > 0 then do {
          let d = std_resize (len + nat ret) d;
          if nat ret > capacity then do {
            d \<leftarrow> vsnprintf_at len (nat ret + 1) out d;
            Some (ret, d)}
          else Some (ret, d)}
        else Some (ret, std_resize len d)})"

definition StringPrintV :: "nat \<Rightarrow> string option \<Rightarrow> string \<Rightarrow> (int \<times> string) option" where
  "StringPrintV cap out dst = StringAppendV cap out []"

definition StringAppendf :: "nat \<Rightarrow> string option \<Rightarrow> string \<Rightarrow> (int \<times> string) option" where
  "StringAppendf cap out dst = StringAppendV cap out dst"

definition StringPrintf :: "nat \<Rightarrow> string option \<Rightarrow> string \<Rightarrow> (int \<times> string) option" where
  "StringPrintf cap out dst = StringAppendV cap out []"

subsection \<open>Status\<close>

datatype code = kOk | kNotFound | kCorruption | kNotSupported | kInvalidArgument | kTimedOut | kIOError | kInProgress | kBusy | kTryAgain

text \<open>\<open>msg_\<close>, when it is not null, with the code in its fifth byte. The constructor from a code and the copy
  constructor ignore their arguments.\<close>

datatype status = Status (msg: "(code \<times> string) option")

definition Status_new :: "code \<Rightarrow> string \<Rightarrow> status" where
  "Status_new c m = Status None"

definition Status_copy :: "status \<Rightarrow> status" where
  "Status_copy s = Status None"

text \<open>The move constructor and the move assignment: the new object and what is left of the old one.\<close>

definition Status_move :: "status \<Rightarrow> status \<times> status" where
  "Status_move s = (Status (msg s), Status None)"

definition Status_assign :: "status \<Rightarrow> status \<Rightarrow> status \<times> status" where
  "Status_assign self s = (Status (msg s), Status None)"

definition status_code :: "status \<Rightarrow> code" where
  "status_code s = (case msg s of None \<Rightarrow> kOk | Some (c, _) \<Rightarrow> c)"

subsection \<open>Properties\<close>

lemma memcmp_lexord:
  "(memcmp xs ys (min (length xs) (length ys)) < 0 \<or> memcmp xs ys (min (length xs) (length ys)) = 0 \<and> length xs < length ys
      \<longleftrightarrow> (xs, ys) \<in> lexord {(x, y). x < y})
    \<and> (memcmp xs ys (min (length xs) (length ys)) = 0 \<and> length xs = length ys \<longleftrightarrow> xs = ys)"
proof (induction xs arbitrary: ys)
  case Nil
  then show ?case by (cases ys) simp_all
next
  case (Cons x xs)
  show ?case
  proof (cases ys)
    case (Cons y ys')
    then show ?thesis using Cons.IH [of ys'] by (cases "x = y") auto
  qed simp
qed

text \<open>\<open>compare\<close> is the lexicographic order of the bytes: negative when the slice comes first, a proper prefix
  included, 0 for equal contents, and positive otherwise.\<close>

theorem slice_compare_lexicographic:
  "(compare s b < 0 \<longleftrightarrow> (slice_data s, slice_data b) \<in> lexord {(x, y). x < y})
   \<and> (compare s b = 0 \<longleftrightarrow> s = b) \<and> (compare s b > 0 \<longleftrightarrow> compare b s < 0)"
proof -
  let ?L = "lexord {(x :: nat, y). x < y}"
  have lt: "compare s b < 0 \<longleftrightarrow> (slice_data s, slice_data b) \<in> ?L" and eq: "compare s b = 0 \<longleftrightarrow> s = b" for s b
    using memcmp_lexord [of "slice_data s" "slice_data b"]
    by (auto simp: compare_def Let_def slice_size_def min_def slice.expand split: if_splits)
  have "(slice_data s, slice_data b) \<in> ?L \<or> slice_data s = slice_data b \<or> (slice_data b, slice_data s) \<in> ?L"
    by (rule lexord_linear) auto
  moreover have "\<not> ((slice_data s, slice_data b) \<in> ?L \<and> (slice_data b, slice_data s) \<in> ?L)"
    using asymD [OF lexord_asym, of "{(x :: nat, y). x < y}"] by (auto simp: asym_on_def)
  moreover have "compare s b > 0 \<longleftrightarrow> \<not> compare s b < 0 \<and> compare s b \<noteq> 0" by linarith
  ultimately show ?thesis using lt [of s b] lt [of b s] eq [of s b] slice.expand [of s b] by blast
qed

text \<open>(C39) Whatever the capacity of the string, appending a formatted text that fits or does not fit adds exactly the text and returns
  its length; a format that fails or produces nothing leaves the string as it was. No byte is written outside
  it.\<close>

theorem string_append_exact:
  assumes "length dst \<le> cap"
  shows "StringAppendV cap out dst =
    Some (case out of None \<Rightarrow> (- 1, dst) | Some txt \<Rightarrow> (int (length txt), dst @ txt))"
proof (cases out)
  case None
  then show ?thesis using assms by (simp add: StringAppendV_def vsnprintf_at_def std_resize_def Let_def)
next
  case (Some t)
  show ?thesis
  proof (cases "length t \<le> cap - length dst")
    case True
    then show ?thesis using assms Some
      by (cases "t = []") (auto simp: StringAppendV_def vsnprintf_at_def std_resize_def Let_def)
  next
    case False
    then show ?thesis using assms Some
      by (auto simp: StringAppendV_def vsnprintf_at_def std_resize_def Let_def)
  qed
qed

theorem string_append_exact_witness: "StringAppendV 4 (Some ''hello'') ''ab'' = Some (5, ''abhello'')"
  using string_append_exact [of "''ab''" 4 "Some ''hello''"] by simp

text \<open>The constructor of a status with a code makes one without: it reports success.\<close>

lemma status_code_lost: "status_code (Status_new c m) = kOk" "status_code (Status_copy s) = kOk"
  by (simp_all add: status_code_def Status_new_def Status_copy_def)

end
