(* ===== verification/Lru_Handle.thy ===== *)
theory Lru_Handle
  imports Prelude "HOL-Library.Word"
begin

unbundle bit_operations_syntax

text \<open>
  What \<^verbatim>\<open>lru_cache.h\<close> implements of the LRU cache: the entry \<open>LRUHandle\<close> with its flags, and the visit of all entries of the
  hash table. The other operations of the table and of the cache are declared only. Entries are in a heap of the
  addresses that are allocated.
\<close>

subsection \<open>Entries\<close>

text \<open>The bytes of the key lie behind the entry.\<close>

record lru_handle =
  lh_value :: nat
  lh_deleter :: "nat option"
  lh_next_hash :: "nat option"
  lh_next :: nat
  lh_prev :: nat
  lh_charge :: nat
  lh_key_length :: nat
  lh_refs :: nat
  lh_flags :: "8 word"
  lh_hash :: nat
  lh_key_data :: string

text \<open>A temporary entry for lookups points to itself and has the address of a slice as its value; \<open>slice_at\<close> is what lies there.\<close>

definition lru_key :: "(nat \<Rightarrow> string) \<Rightarrow> nat \<Rightarrow> lru_handle \<Rightarrow> string option" where
  "lru_key slice_at this e =
     (if lh_next e = this then Some (slice_at (lh_value e))
      else do {
        check (lh_key_length e \<le> length (lh_key_data e));
        Some (take (lh_key_length e) (lh_key_data e))})"

definition InCache :: "lru_handle \<Rightarrow> bool" where
  "InCache e = (lh_flags e AND 1 \<noteq> 0)"

definition IsHighPri :: "lru_handle \<Rightarrow> bool" where
  "IsHighPri e = (lh_flags e AND 2 \<noteq> 0)"

definition InHighPriPool :: "lru_handle \<Rightarrow> bool" where
  "InHighPriPool e = (lh_flags e AND 4 \<noteq> 0)"

definition SetInCache :: "bool \<Rightarrow> lru_handle \<Rightarrow> lru_handle" where
  "SetInCache in_cache e =
     (if in_cache then e\<lparr>lh_flags := lh_flags e OR 1\<rparr> else e\<lparr>lh_flags := lh_flags e AND NOT 1\<rparr>)"

text \<open>The argument tells whether the priority is \<open>HIGH\<close>.\<close>

definition SetPriority :: "bool \<Rightarrow> lru_handle \<Rightarrow> lru_handle" where
  "SetPriority high e =
     (if high then e\<lparr>lh_flags := lh_flags e OR 2\<rparr> else e\<lparr>lh_flags := lh_flags e AND NOT 2\<rparr>)"

definition SetInHighPriPool :: "bool \<Rightarrow> lru_handle \<Rightarrow> lru_handle" where
  "SetInHighPriPool in_high_pri_pool e =
     (if in_high_pri_pool then e\<lparr>lh_flags := lh_flags e OR 4\<rparr> else e\<lparr>lh_flags := lh_flags e AND NOT 4\<rparr>)"

text \<open>The entries, and the calls of deleters with the key and the value.\<close>

record lru_heap =
  lru_entries :: "nat \<rightharpoonup> lru_handle"
  lru_deleted :: "(nat \<times> string \<times> nat) list"

definition Free :: "(nat \<Rightarrow> string) \<Rightarrow> nat \<Rightarrow> lru_heap \<Rightarrow> lru_heap option" where
  "Free slice_at this s = do {
     e \<leftarrow> lru_entries s this;
     check (lh_refs e = 1 \<and> InCache e \<or> lh_refs e = 0 \<and> \<not> InCache e);
     s1 \<leftarrow> (case lh_deleter e of
         None \<Rightarrow> Some s
       | Some deleter \<Rightarrow> do {
           key \<leftarrow> lru_key slice_at this e;
           Some (s\<lparr>lru_deleted := lru_deleted s @ [(deleter, key, lh_value e)]\<rparr>)});
     Some (s1\<lparr>lru_entries := (lru_entries s1)(this := None)\<rparr>)}"

text \<open>The flags are independent of each other, and there are no others.\<close>

lemmas flag_defs = InCache_def IsHighPri_def InHighPriPool_def SetInCache_def SetPriority_def SetInHighPriPool_def

lemma flag_bit: "(f AND 1 \<noteq> 0) = bit f 0" "(f AND 2 \<noteq> 0) = bit f 1" "(f AND 4 \<noteq> 0) = bit f 2" for f :: "8 word"
  using bit_iff_and_push_bit_not_eq_0 [of f 0] bit_iff_and_push_bit_not_eq_0 [of f 1] bit_iff_and_push_bit_not_eq_0 [of f 2]
  by simp_all

theorem flags_independent:
  "InCache (SetInCache b e) = b" "IsHighPri (SetInCache b e) = IsHighPri e" "InHighPriPool (SetInCache b e) = InHighPriPool e"
  "InCache (SetPriority b e) = InCache e" "IsHighPri (SetPriority b e) = b" "InHighPriPool (SetPriority b e) = InHighPriPool e"
  "InCache (SetInHighPriPool b e) = InCache e" "IsHighPri (SetInHighPriPool b e) = IsHighPri e" "InHighPriPool (SetInHighPriPool b e) = b"
  by (simp_all add: flag_defs flag_bit bit_simps)

subsection \<open>Visiting the table\<close>

text \<open>The table has the heads of \<open>length_\<close> lists. The next entry is read before the function is called, which may free the entry.\<close>

partial_function (option) visit_chain ::
  "('s \<Rightarrow> nat \<Rightarrow> lru_handle option) \<Rightarrow> (nat \<Rightarrow> 's \<Rightarrow> 's option) \<Rightarrow> nat option \<Rightarrow> 's \<Rightarrow> 's option" where
  "visit_chain get func h s = (case h of
       None \<Rightarrow> Some s
     | Some a \<Rightarrow> do {
         e \<leftarrow> get s a;
         let n = lh_next_hash e;
         check (InCache e);
         s1 \<leftarrow> func a s;
         visit_chain get func n s1})"

fun ApplyToAllCacheEntries ::
  "('s \<Rightarrow> nat \<Rightarrow> lru_handle option) \<Rightarrow> (nat \<Rightarrow> 's \<Rightarrow> 's option) \<Rightarrow> nat option list \<Rightarrow> 's \<Rightarrow> 's option" where
  "ApplyToAllCacheEntries get func [] s = Some s"
| "ApplyToAllCacheEntries get func (h # list) s = do {
     s1 \<leftarrow> visit_chain get func h s;
     ApplyToAllCacheEntries get func list s1}"

text \<open>A chain of entries in the cache from a head.\<close>

fun hash_chain :: "(nat \<Rightarrow> lru_handle option) \<Rightarrow> nat option \<Rightarrow> nat list \<Rightarrow> bool" where
  "hash_chain m h [] = (h = None)"
| "hash_chain m h (a # as) = (h = Some a \<and> (case m a of None \<Rightarrow> False | Some e \<Rightarrow> InCache e \<and> hash_chain m (lh_next_hash e) as))"

fun call_each :: "(nat \<Rightarrow> 's \<Rightarrow> 's option) \<Rightarrow> nat list \<Rightarrow> 's \<Rightarrow> 's option" where
  "call_each func [] s = Some s"
| "call_each func (a # as) s = func a s \<bind> call_each func as"

lemma call_each_append: "call_each func (as @ bs) s = call_each func as s \<bind> call_each func bs"
  by (induction as arbitrary: s) (auto split: bind_splits)

lemma hash_chain_cong: "(\<And>a. a \<in> set as \<Longrightarrow> m a = m' a) \<Longrightarrow> hash_chain m h as = hash_chain m' h as"
  by (induction as arbitrary: h) (auto split: option.splits)

lemma concat_in: "as \<in> set css \<Longrightarrow> a \<in> set as \<Longrightarrow> a \<in> set (concat css)"
  by auto

text \<open>What a function may do when all entries are visited: use and free the entry it is called with, and leave the others
  alone.\<close>

locale entry_function =
  fixes get :: "'s \<Rightarrow> nat \<Rightarrow> lru_handle option" and func :: "nat \<Rightarrow> 's \<Rightarrow> 's option" and ready :: "nat \<Rightarrow> lru_handle \<Rightarrow> bool"
  assumes returns: "get s a = Some e \<Longrightarrow> InCache e \<Longrightarrow> ready a e \<Longrightarrow> \<exists>s'. func a s = Some s'"
    and others: "func a s = Some s' \<Longrightarrow> b \<noteq> a \<Longrightarrow> get s' b = get s b"
begin

definition table :: "'s \<Rightarrow> nat option list \<Rightarrow> nat list list \<Rightarrow> bool" where
  "table s list css = (list_all2 (hash_chain (get s)) list css \<and> distinct (concat css)
     \<and> (\<forall>a \<in> set (concat css). \<forall>e. get s a = Some e \<longrightarrow> ready a e))"

lemma visit_chain_calls:
  assumes "hash_chain (get s) h as" "distinct as" "\<forall>a \<in> set as. \<forall>e. get s a = Some e \<longrightarrow> ready a e"
  shows "\<exists>s'. visit_chain get func h s = Some s' \<and> call_each func as s = Some s' \<and> (\<forall>b. b \<notin> set as \<longrightarrow> get s' b = get s b)"
  using assms
proof (induction as arbitrary: h s)
  case Nil
  then show ?case by (subst visit_chain.simps) simp
next
  case (Cons a as)
  obtain e where e: "h = Some a" "get s a = Some e" "InCache e" "hash_chain (get s) (lh_next_hash e) as"
    using Cons.prems(1) by (auto split: option.splits)
  obtain s1 where s1: "func a s = Some s1" using returns [OF e(2,3)] Cons.prems(3) e(2) by auto
  have same: "get s1 b = get s b" if "b \<in> set as" for b using others [OF s1, of b] that Cons.prems(2) by auto
  have "hash_chain (get s1) (lh_next_hash e) as" using e(4) hash_chain_cong [of as "get s1" "get s"] same by simp
  moreover have "\<forall>a \<in> set as. \<forall>e. get s1 a = Some e \<longrightarrow> ready a e" using Cons.prems(3) same by auto
  ultimately obtain s' where s': "visit_chain get func (lh_next_hash e) s1 = Some s'" "call_each func as s1 = Some s'"
      "\<forall>b. b \<notin> set as \<longrightarrow> get s' b = get s1 b"
    using Cons.IH [of s1 "lh_next_hash e"] Cons.prems(2) by auto
  have "visit_chain get func h s = Some s'" using e s1 s'(1) by (subst visit_chain.simps) (simp add: Let_def)
  moreover have "get s' b = get s b" if "b \<notin> set (a # as)" for b using that s'(3) others [OF s1, of b] by simp
  ultimately show ?case using s1 s'(2) by auto
qed

lemma apply_calls_each:
  "table s list css \<Longrightarrow> \<exists>s'. ApplyToAllCacheEntries get func list s = Some s' \<and> call_each func (concat css) s = Some s'"
proof (induction list arbitrary: css s)
  case (Cons h list)
  obtain as css' where css: "css = as # css'" "hash_chain (get s) h as" "list_all2 (hash_chain (get s)) list css'"
    using Cons.prems by (auto simp: table_def list_all2_Cons1)
  obtain s1 where s1: "visit_chain get func h s = Some s1" "call_each func as s = Some s1" "\<forall>b. b \<notin> set as \<longrightarrow> get s1 b = get s b"
    using visit_chain_calls [OF css(2)] Cons.prems css(1) by (auto simp: table_def)
  have same: "get s1 b = get s b" if "b \<in> set (concat css')" for b
    using that s1(3) Cons.prems css(1) by (auto simp: table_def)
  have "list_all2 (hash_chain (get s1)) list css'"
    by (rule list.rel_mono_strong [OF css(3)]) (metis hash_chain_cong same concat_in)
  moreover have "distinct (concat css')" "\<forall>a \<in> set (concat css'). \<forall>e. get s a = Some e \<longrightarrow> ready a e"
    using Cons.prems css(1) by (auto simp: table_def)
  ultimately have "table s1 list css'" using same by (simp add: table_def)
  then show ?case using Cons.IH [of s1 css'] s1 css(1) by (auto simp: call_each_append)
qed (simp add: table_def)

end

text \<open>\<open>Free\<close> is such a function for entries that only the cache refers to.\<close>

interpretation free: entry_function lru_entries "Free slice_at"
  "\<lambda>a e. lh_refs e = 1 \<and> (lh_next e = a \<or> lh_key_length e \<le> length (lh_key_data e))" for slice_at
  by unfold_locales (auto simp: Free_def lru_key_def split: option.splits if_splits bind_splits)

text \<open>Freeing the entries of a table that nobody else refers to frees all of them and calls the deleter of each once, in the
  order of the table.\<close>

definition deleted_call :: "(nat \<Rightarrow> string) \<Rightarrow> (nat \<rightharpoonup> lru_handle) \<Rightarrow> nat \<Rightarrow> (nat \<times> string \<times> nat) list" where
  "deleted_call slice_at m a = (case m a of
       None \<Rightarrow> []
     | Some e \<Rightarrow> (case lh_deleter e of None \<Rightarrow> [] | Some d \<Rightarrow> [(d, the (lru_key slice_at a e), lh_value e)]))"

lemma call_each_Free:
  assumes "call_each (Free slice_at) as s = Some s'" "distinct as"
  shows "lru_entries s' = lru_entries s |` (- set as)
    \<and> lru_deleted s' = lru_deleted s @ concat (map (deleted_call slice_at (lru_entries s)) as)"
  using assms
proof (induction as arbitrary: s)
  case (Cons a as)
  obtain s1 where s1: "Free slice_at a s = Some s1" "call_each (Free slice_at) as s1 = Some s'" using Cons.prems(1) by (auto split: bind_splits)
  have step: "lru_entries s1 = (lru_entries s)(a := None)" "lru_deleted s1 = lru_deleted s @ deleted_call slice_at (lru_entries s) a"
    using s1(1) by (auto simp: Free_def deleted_call_def split: option.splits bind_splits)
  have m: "map (deleted_call slice_at (lru_entries s1)) as = map (deleted_call slice_at (lru_entries s)) as"
    using Cons.prems(2) by (auto simp: deleted_call_def step)
  have "lru_deleted s' = lru_deleted s1 @ concat (map (deleted_call slice_at (lru_entries s1)) as)"
    using Cons.IH [OF s1(2)] Cons.prems(2) by simp
  then have "lru_deleted s' = lru_deleted s @ concat (map (deleted_call slice_at (lru_entries s)) (a # as))"
    unfolding m by (simp add: step(2))
  moreover have "lru_entries s' = lru_entries s |` (- set (a # as))"
    using Cons.IH [OF s1(2)] Cons.prems(2) step(1) by (auto simp: restrict_map_def fun_eq_iff)
  ultimately show ?case by blast
qed (simp add: restrict_map_def)

theorem free_table:
  assumes "list_all2 (hash_chain (lru_entries s)) list css" "distinct (concat css)"
    and "\<forall>a \<in> set (concat css). \<forall>e. lru_entries s a = Some e
      \<longrightarrow> lh_refs e = 1 \<and> (lh_next e = a \<or> lh_key_length e \<le> length (lh_key_data e))"
  shows "\<exists>s'. ApplyToAllCacheEntries lru_entries (Free slice_at) list s = Some s'
    \<and> lru_entries s' = lru_entries s |` (- set (concat css))
    \<and> lru_deleted s' = lru_deleted s @ concat (map (deleted_call slice_at (lru_entries s)) (concat css))"
proof -
  have "free.table s list css" using assms unfolding free.table_def by blast
  from free.apply_calls_each [OF this, of slice_at] show ?thesis using call_each_Free [OF _ assms(2)] by metis
qed

text \<open>An entry that is not in the cache is an assertion that fails.\<close>

lemma visit_asserts: "get s a = Some e \<Longrightarrow> \<not> InCache e \<Longrightarrow> visit_chain get func (Some a) s = None"
  by (subst visit_chain.simps) (simp add: check_def Let_def)

end
