(* ===== verification/Spec2Isabelle.thy ===== *)
theory Spec2Isabelle
  imports ZBuf_System Shared_Blocks Convert Linked_List Linked_Queue Linked_Stack Object_Pool Timer_Clock
    Autovector Rand_Period Log_System Log_Args Log_Date Socket_Fd Arena Fixed_Log_Stream Text_Util
    Lru_Handle
begin

text \<open>
  A verification development for the C++ utility library \<^verbatim>\<open>p-base\<close> (the headers under
  \<^verbatim>\<open>src/include/p/base\<close> and the sources under \<^verbatim>\<open>src/src\<close>).

  \<^bold>\<open>The program.\<close> The library is a set of building blocks for a network server. \<open>ZBuffer\<close> is a byte queue
  made of references to shared, counted memory blocks that every thread caches. \<open>ObjectArena\<close>
  maps versioned ids to objects that never move; \<open>LockFreeStack\<close> chains such objects; \<open>ObjectPool\<close> and
  \<open>ArenaObjectPool\<close> hand objects out and take them back, using the two. \<open>TimerControl\<close> runs timers whose
  objects come from an \<open>ArenaObjectPool\<close> and whose versions decide races with cancels. The logger
  formats lines into a thread's buffer and hands them to a background thread. \<open>EndPoint\<close> and \<open>SocketFd\<close> wrap addresses
  and sockets. Smaller parts are an arena, character buffers, a linked list, a queue, a stack, a vector with inline storage,
  slices, a status, number and date conversions and a random generator.

  \<^bold>\<open>How it is modelled.\<close> A class is a record and an operation a function on it; memory is explicit where
  the code shares or reuses it (blocks, rings of references, list nodes, log buffers). An operation that can
  fail an assertion, access memory out of bounds, or run forever returns an option, and \<^term>\<open>None\<close>
  means that it does; the theorems show that \<^term>\<open>None\<close> does not occur. Machine integers are naturals
  reduced modulo their width (\<^theory_text>\<open>u16\<close>, \<^theory_text>\<open>u32\<close>, \<^theory_text>\<open>u64\<close>) or words. Concurrency is a step relation whose steps are
  the atomic accesses of the code, with an invariant over all reachable states. Where the code calls what
  is not in the repository (\<^verbatim>\<open>malloc\<close>, the clock, the time zone, \<^verbatim>\<open>vsnprintf\<close>, the resolver, system calls on sockets, \<^verbatim>\<open>readv\<close>,
  growth of \<^verbatim>\<open>std::vector\<close>), the result is an argument of the model.

  \<^bold>\<open>The theories.\<close>
  \<^item> \<open>Prelude\<close>: machine arithmetic, byte memory, chains of pointers, multisets of concatenations.
  \<^item> \<open>Block_Cache\<close> (\<^verbatim>\<open>zbuffer.cpp\<close> 17-219, \<^verbatim>\<open>zbuffer.h\<close> 18-83): blocks, counts, the cache of a thread and its
    invariant \<open>wf\<close>, which says that every count is at least the number of owners (\<open>ZBuf_Counts\<close> has the exact changes). \<open>Shared_Blocks\<close> has the accesses of the
    counts by several threads, in every interleaving.
  \<^item> \<open>ZBuf\<close>, \<open>ZBuf_Pop\<close>, \<open>ZBuf_Read\<close> (\<^verbatim>\<open>zbuffer.cpp\<close> 221-697): the two layouts of a buffer, appending bytes, references and
    buffers, popping, peeking, visiting, dumping, destruction, reading from a descriptor. \<open>ZBuf_Counts\<close>: by how much
    each operation that moves references changes each count, and which references the merging of adjacent ones leaves. \<open>ZBuf_Layout\<close>
    (\<^verbatim>\<open>zbuffer.h\<close> 124-204): the union of the two layouts on its 32-bit words, and the sign test that tells them apart. \<open>Byte_Queue\<close> states the contract of a
    byte queue as a locale, \<open>ZBuf_Props\<close> interprets it and has the properties of single operations; \<open>ZBuf_System\<close>
    runs any number of buffers over the cache they share against a specification on lists.
  \<^item> \<open>Object_Arena\<close> (\<^verbatim>\<open>object_arena.h\<close>), \<open>Lock_Free_Stack\<close> (\<^verbatim>\<open>object_pool.h\<close> 14-46: every interleaving of
    loads and exchanges), \<open>Object_Pool\<close> (\<^verbatim>\<open>object_pool.h\<close> 48-290). The locale \<open>object_source\<close> states what a pool promises
    and is interpreted for both pools.
  \<^item> \<open>Timer\<close> (\<^verbatim>\<open>timer.cpp\<close>: versions, cancelling, all interleavings), \<open>Timer_Heap\<close> (the binary heap of the standard
    library; the locale \<open>std_heap\<close>), \<open>Timer_Thread\<close> (buckets, the round of \<open>Run\<close>, waking), \<open>Timer_Service\<close> (\<open>TimerControl\<close> with the
    object pool its timers come from, from the construction to the destructor), \<open>Timer_Clock\<close> (\<^verbatim>\<open>timer.h\<close> 31-34 and
    \<^verbatim>\<open>time.h\<close>: timers added with a delay, and readings of the clock).
  \<^item> \<open>Linked_List\<close>, \<open>Linked_Queue\<close>, \<open>Linked_Stack\<close> (locale \<open>lifo\<close>), \<open>Autovector\<close>, \<open>Convert\<close> (locale \<open>radix\<close>).
  \<^item> \<open>Rand\<close> (\<^verbatim>\<open>rand.cpp\<close>: the generator, \<open>jump\<close>, \<open>fast_rand\<close>), \<open>Rand_Poly\<close> (polynomials over the field of two elements, applied
    to a linear map; the locales \<open>linear_map\<close> and \<open>recurrence\<close>), \<open>Rand_Jump\<close> (their interpretation on the step of the
    generator, and what \<open>jump\<close> does), \<open>Rand_Period\<close> (its period).
  \<^item> \<open>Log_Stream\<close> (\<^verbatim>\<open>logger.h\<close>, \<^verbatim>\<open>logger.cpp\<close> 221-275), \<open>Log_Sink\<close> (\<^verbatim>\<open>logger.cpp\<close> 81-218), \<open>Log_System\<close> (\<^verbatim>\<open>logging.h\<close>, \<^verbatim>\<open>logger.cpp\<close> 24-71
    and \<^verbatim>\<open>this_thread.cpp\<close>, with the two composed), \<open>Log_Args\<close> (\<^verbatim>\<open>logger.h\<close> 246-282, \<^verbatim>\<open>endpoint.h\<close> 81-87: objects and
    endpoints as arguments) and \<open>Log_Date\<close> (\<^verbatim>\<open>log.cpp\<close>, \<^verbatim>\<open>time.h\<close>).
  \<^item> \<open>Endpoint\<close> (\<^verbatim>\<open>endpoint.cpp\<close>), \<open>Socket_Fd\<close> (\<^verbatim>\<open>socket.cpp\<close>, \<^verbatim>\<open>fd_guard.h\<close>; the locale \<open>fd_owner\<close> is the contract of
    an object that owns a descriptor, interpreted for both).
  \<^item> \<open>Arena\<close> (\<^verbatim>\<open>arena.cpp\<close>), \<open>Char_Buffer\<close> (\<^verbatim>\<open>buffer.h\<close>, \<^verbatim>\<open>fixed_buffer.h\<close>; the locale \<open>text_buffer\<close>, interpreted for
    both), \<open>Fixed_Log_Stream\<close> (\<^verbatim>\<open>log_stream.h\<close>, a stream on a \<open>FixedBuffer\<close>) and \<open>Text_Util\<close> (\<^verbatim>\<open>slice.h\<close>, \<^verbatim>\<open>status.h\<close>, \<^verbatim>\<open>string_printf.h\<close>).
  \<^item> \<open>Lru_Handle\<close> (\<^verbatim>\<open>lru_cache.h\<close> 38-131; the locale \<open>entry_function\<close> says what a function may do to the entries it visits).

  \<^bold>\<open>What is shown.\<close> The byte queue refines a list of bytes, several of them that share blocks refine independent lists, every operation keeps the counts of all blocks
  high enough and other references readable; appending one buffer to another and destroying a buffer change every count by exactly
  the references that were added and given up, so that none is lost or given up twice. The lock-free stack
  is linearizable and the versions rule out the reuse of a stale id; the pools give every object to one owner and
  lose none. A timer is run or cancelled at most once; a round of the timer thread calls exactly the
  due timers in order; the ids of timers never repeat and no timer is leaked; a timer added with a delay is called when the clock
  shows its deadline, not before. Log lines have the documented form and those of the enabled levels reach the output in order, with
  statements of other threads between the steps of the background thread, as long as none is logged in the one gap in which the code
  reuses a buffer that is still being written (\<open>log_sink_overwrites\<close> shows what happens there). The containers refine lists,
  the conversions read back, the bounded random draw is uniform. One \<open>jump\<close> of the generator is \<open>2 ^ 64\<close> steps: the step is a
  linear map whose characteristic equation, of degree 128, reduces the power \<open>2 ^ 64\<close> to the polynomial of the constant; the
  period is \<open>2 ^ 128 - 1\<close>, checked on the prime factors of this number, and so generators jumped apart do not overlap. What \<open>EndPoint\<close> prints it reads back, and it
  accepts exactly the texts of an address and a port, and a log line shows an endpoint so that it can be read back; an open descriptor has one owner, or is one of those
  that \<open>Listen\<close> and \<open>Shutdown\<close> dropped without closing, and no descriptor is closed twice; the arena's allocations do not overlap;
  the character buffers hold what was appended, up to their size; visiting the table of the LRU cache may free its entries; the date of a log line is that of its second.
  Some theorems record behaviour that differs from what the code means to do; they are the findings of
  the manifest.

  \<^bold>\<open>Bounds.\<close> Sizes are restricted only where a theorem says so: a buffer holds fewer bytes than its 32-bit counters
  can hold; a timer object is reused fewer than \<open>2 ^ 32 / 3\<close> times, so that its version does not wrap; the arena has
  room (\<open>2 ^ 31\<close> objects). The fuel of \<open>walk\<close>, \<open>iterate\<close> and \<open>reverse_iterate\<close> is any number above the length of the
  list. Loops that may not end (\<open>add_block_loop\<close>, \<open>fast_rand_loop\<close>, the loops of \<open>ZBuf\<close>) are partial functions, and the
  theorems state that they return. \<open>read_from_fd\<close> offers at most 64 blocks.

  \<^bold>\<open>Not modelled.\<close> Of \<^verbatim>\<open>lru_cache.h\<close>, all but the entries and the visit of the table is declared only, and the implementation
  is not in the repository. The functions that return the count of a
  \<^verbatim>\<open>std::chrono\<close> clock, \<^verbatim>\<open>process.cpp\<close> and \<^verbatim>\<open>port.h\<close> only call the operating system; so do reads and writes of a socket and the lookup of the
  local address at start. The programs in the top directory are experiments. Weak memory orders are taken as
  sequentially consistent; the contents of the blocks of \<open>ZBuffer\<close> are modelled for one thread, their counts for any number.
\<close>

end
